(* ===== verification/CV_Prelude.thy ===== *)
theory CV_Prelude
  imports Main "HOL-Library.Word"
begin

text \<open>
  Shared vocabulary of the development: machine integers, byte strings, results
  (\<open>Result<T, E>\<close> as a sum type, \<open>Err\<close> as \<^term>\<open>Inl\<close> and \<open>Ok\<close> as \<^term>\<open>Inr\<close>), the parts of
  the Rust standard library the components use, and the generic lemmas about
  them. \<open>result_simps\<close> collects the inversion rules of the result monad and
  \<open>bytes_simps\<close> the length rules of the byte encodings.
\<close>

unbundle bit_operations_syntax

named_theorems result_simps
named_theorems bytes_simps

type_synonym byte = "8 word"
type_synonym bytes = "8 word list"
type_synonym u32 = "32 word"
type_synonym u64 = "64 word"

subsection \<open>Results\<close>

text \<open>The question mark operator: an error returns early, a value is passed on.\<close>

definition rbind :: "'e + 'a \<Rightarrow> ('a \<Rightarrow> 'e + 'b) \<Rightarrow> 'e + 'b" where
  "rbind r f = (case r of Inl e \<Rightarrow> Inl e | Inr x \<Rightarrow> f x)"

text \<open>\<open>map_err\<close>.\<close>

definition rmap_err :: "('e \<Rightarrow> 'f) \<Rightarrow> 'e + 'a \<Rightarrow> 'f + 'a" where
  "rmap_err h r = (case r of Inl e \<Rightarrow> Inl (h e) | Inr x \<Rightarrow> Inr x)"

text \<open>A loop that pushes one fallible value per element and returns at the first error.\<close>

fun rtraverse :: "('a \<Rightarrow> 'e + 'b) \<Rightarrow> 'a list \<Rightarrow> 'e + 'b list" where
  "rtraverse f [] = Inr []"
| "rtraverse f (x # xs) = rbind (f x) (\<lambda>y. rbind (rtraverse f xs) (\<lambda>ys. Inr (y # ys)))"

text \<open>A loop that only checks, returning at the first error.\<close>

fun rcheck_all :: "('a \<Rightarrow> 'e + unit) \<Rightarrow> 'a list \<Rightarrow> 'e + unit" where
  "rcheck_all f [] = Inr ()"
| "rcheck_all f (x # xs) = rbind (f x) (\<lambda>_. rcheck_all f xs)"

definition is_ok :: "'e + 'a \<Rightarrow> bool" where
  "is_ok r = (case r of Inl _ \<Rightarrow> False | Inr _ \<Rightarrow> True)"

lemma rbind_Inl [simp]: "rbind (Inl e) f = Inl e"
  and rbind_Inr [simp]: "rbind (Inr x) f = f x"
  by (simp_all add: rbind_def)

lemma rmap_err_Inl [simp]: "rmap_err h (Inl e) = Inl (h e)"
  and rmap_err_Inr [simp]: "rmap_err h (Inr x) = Inr x"
  by (simp_all add: rmap_err_def)

lemma is_ok_simps [simp]: "\<not> is_ok (Inl e)" "is_ok (Inr x)"
  by (simp_all add: is_ok_def)

lemma rbind_eq_Inr [result_simps]: "rbind r f = Inr y \<longleftrightarrow> (\<exists>x. r = Inr x \<and> f x = Inr y)"
  by (cases r) simp_all

lemma rmap_err_eq_Inr [result_simps]: "rmap_err h r = Inr y \<longleftrightarrow> r = Inr y"
  by (cases r) simp_all

lemma is_ok_iff [result_simps]: "is_ok r \<longleftrightarrow> (\<exists>x. r = Inr x)"
  by (cases r) simp_all

lemma if_Inl_eq_Inr [result_simps]:
  "(if c then Inl e else r) = Inr y \<longleftrightarrow> \<not> c \<and> r = Inr y"
  "(if c then r else Inl e) = Inr y \<longleftrightarrow> c \<and> r = Inr y"
  by simp_all

lemma rtraverse_eq_Inr:
  "rtraverse f xs = Inr ys \<longleftrightarrow> list_all2 (\<lambda>x y. f x = Inr y) xs ys"
proof (induction xs arbitrary: ys)
  case (Cons x xs)
  then show ?case by (cases ys) (auto simp: result_simps)
qed auto

lemma rtraverse_set: "rtraverse f xs = Inr ys \<Longrightarrow> y \<in> set ys \<Longrightarrow> \<exists>x\<in>set xs. f x = Inr y"
  by (induction xs arbitrary: ys) (auto simp: result_simps)

lemma rtraverse_total: "(\<And>x. x \<in> set xs \<Longrightarrow> \<exists>y. f x = Inr y) \<Longrightarrow> \<exists>ys. rtraverse f xs = Inr ys"
  by (induction xs) (auto simp: result_simps)

lemma rtraverse_map: "(\<And>x. x \<in> set xs \<Longrightarrow> f x = Inr (g x)) \<Longrightarrow> rtraverse f xs = Inr (map g xs)"
  by (induction xs) auto

lemma rcheck_all_eq_Inr: "rcheck_all f xs = Inr u \<longleftrightarrow> (\<forall>x\<in>set xs. f x = Inr ())"
  by (induction xs) (auto simp: result_simps)

subsection \<open>Fixed-width integers\<close>

text \<open>\<open>saturating_add\<close> and \<open>saturating_sub\<close> on \<open>u64\<close>.\<close>

definition saturating_add :: "u64 \<Rightarrow> u64 \<Rightarrow> u64" where
  "saturating_add a b = (if a + b < a then - 1 else a + b)"

definition saturating_sub :: "u64 \<Rightarrow> u64 \<Rightarrow> u64" where
  "saturating_sub a b = (if a < b then 0 else a - b)"

lemma unat_saturating_add: "unat (saturating_add a b) = min (unat a + unat b) (2 ^ 64 - 1)"
proof (cases "unat a + unat b < 2 ^ 64")
  case True
  then have u: "unat (a + b) = unat a + unat b" by (simp add: unat_word_ariths)
  then have "\<not> a + b < a" by (simp add: word_less_nat_alt)
  then show ?thesis using u True by (simp add: saturating_add_def)
next
  case False
  have "unat a < 2 ^ 64" "unat b < 2 ^ 64" using unsigned_less[of a] unsigned_less[of b] by simp_all
  moreover have "unat (a + b) = (unat a + unat b) mod 2 ^ 64" by (simp add: unat_word_ariths)
  ultimately have "unat (a + b) = unat a + unat b - 2 ^ 64"
    using False by (simp add: le_mod_geq)
  then have "a + b < a" using \<open>unat b < 2 ^ 64\<close> False by (simp add: word_less_nat_alt)
  then have s: "saturating_add a b = - 1" by (simp only: saturating_add_def if_True)
  have "unat (- 1 :: u64) = 2 ^ 64 - 1" by (simp add: unsigned_minus_1_eq_mask mask_eq_exp_minus_1)
  moreover have "min (unat a + unat b) (2 ^ 64 - 1) = 2 ^ 64 - 1" using False by (simp only: min_def) auto
  ultimately show ?thesis unfolding s by (rule trans[OF _ sym])
qed

lemma unat_saturating_sub: "unat (saturating_sub a b) = unat a - unat b"
  by (simp add: saturating_sub_def word_less_nat_alt unat_sub word_le_nat_alt)

text \<open>\<open>to_le_bytes\<close>: the low byte first.\<close>

definition le_bytes :: "nat \<Rightarrow> 'a::len word \<Rightarrow> bytes" where
  "le_bytes n w = map (\<lambda>i. ucast (drop_bit (8 * i) w)) [0..<n]"

abbreviation le32 :: "u32 \<Rightarrow> bytes" where "le32 \<equiv> le_bytes 4"
abbreviation le64 :: "u64 \<Rightarrow> bytes" where "le64 \<equiv> le_bytes 8"

lemma length_le_bytes [simp, bytes_simps]: "length (le_bytes n w) = n"
  by (simp add: le_bytes_def)

lemma le_bytes_inj:
  fixes v w :: "'a::len word"
  assumes "le_bytes n v = le_bytes n w" and "LENGTH('a) \<le> 8 * n"
  shows "v = w"
proof (rule bit_word_eqI)
  fix k assume k: "k < LENGTH('a)"
  let ?i = "k div 8" and ?j = "k mod 8"
  have i: "?i < n" using k assms(2) by simp
  then have "le_bytes n v ! ?i = le_bytes n w ! ?i" using assms(1) by simp
  then have "ucast (drop_bit (8 * ?i) v) = (ucast (drop_bit (8 * ?i) w) :: byte)"
    using i by (simp add: le_bytes_def)
  then have "bit (ucast (drop_bit (8 * ?i) v) :: byte) ?j = bit (ucast (drop_bit (8 * ?i) w) :: byte) ?j"
    by simp
  then show "bit v k = bit w k" using k by (simp add: bit_simps)
qed

subsection \<open>Byte strings\<close>

text \<open>
  A Rust \<open>str\<close> is the list of its UTF-8 bytes, so \<open>len()\<close> is \<^const>\<open>length\<close> and \<open>as_bytes()\<close>
  reinterprets each character code.
\<close>

definition as_bytes :: "string \<Rightarrow> bytes" where
  "as_bytes s = map of_char s"

lemma length_as_bytes [simp, bytes_simps]: "length (as_bytes s) = length s"
  by (simp add: as_bytes_def)

lemma as_bytes_append [simp]: "as_bytes (s @ t) = as_bytes s @ as_bytes t"
  by (simp add: as_bytes_def)

lemma inj_of_char_byte: "inj (of_char :: char \<Rightarrow> byte)"
proof (rule injI)
  fix c d :: char
  assume "(of_char c :: byte) = of_char d"
  then have "(word_of_nat (of_char c) :: byte) = word_of_nat (of_char d)"
    by (simp only: of_nat_of_char)
  then have "unat (word_of_nat (of_char c) :: byte) = unat (word_of_nat (of_char d) :: byte)"
    by (rule arg_cong)
  moreover have "of_char c < (2 ^ LENGTH(8) :: nat)" "of_char d < (2 ^ LENGTH(8) :: nat)"
    using nat_of_char_less_256[of c] nat_of_char_less_256[of d] by simp_all
  ultimately have "of_char c = (of_char d :: nat)" by (simp only: unat_of_nat mod_less)
  then show "c = d" by (simp only: of_char_eq_iff)
qed

lemma as_bytes_inj [simp]: "as_bytes s = as_bytes t \<longleftrightarrow> s = t"
  unfolding as_bytes_def using inj_of_char_byte by (simp add: inj_map_eq_map)

end
