(* ===== verification/Gf256.thy ===== *)
theory Gf256
  imports CV_Prelude
begin

text \<open>
  The field GF(2^8) of \<open>src/crates/crypto/src/shamir.rs\<close>: the branchless
  multiplication, the inverse by the addition chain for \<open>a^254\<close>, and division.
  The lemmas show that exclusive or and \<open>gf_mul\<close> make the bytes a field; the type
  \<open>gf\<close> is an instance of the class \<open>field\<close>, so that the algebra of the
  library applies to it.
\<close>

subsection \<open>The error type of the crypto crate\<close>

datatype CryptoError =
    AuthTagVerificationFailed
  | InvalidKeyLength nat nat
  | InvalidNonceLength nat nat
  | InvalidKdfContext
  | SignatureVerificationFailed
  | SealedBoxPayloadTooShort nat
  | NonContributoryKeyAgreement
  | PasswordHashError string
  | RngError string
  | HsmError string
  | ThresholdError string

subsection \<open>The operations\<close>

fun gf_mul_loop :: "nat \<Rightarrow> byte \<Rightarrow> byte \<Rightarrow> byte \<Rightarrow> byte" where
  "gf_mul_loop 0 p a b = p"
| "gf_mul_loop (Suc n) p a b =
     (let mask_b = 0 - (b AND 1);
          p' = p XOR (a AND mask_b);
          mask_hi = 0 - (drop_bit 7 a AND 1);
          a' = push_bit 1 a XOR (0x1B AND mask_hi);
          b' = drop_bit 1 b
      in gf_mul_loop n p' a' b')"

definition gf_mul :: "byte \<Rightarrow> byte \<Rightarrow> byte" where
  "gf_mul a b = gf_mul_loop 8 0 a b"

definition gf_inv :: "byte \<Rightarrow> CryptoError + byte" where
  "gf_inv a =
     (if a = 0 then Inl (ThresholdError ''Division by zero in GF(2^8)'')
      else
        (let a2 = gf_mul a a;
             a3 = gf_mul a2 a;
             a6 = gf_mul a3 a3;
             a7 = gf_mul a6 a;
             a14 = gf_mul a7 a7;
             a15 = gf_mul a14 a;
             a30 = gf_mul a15 a15;
             a31 = gf_mul a30 a;
             a62 = gf_mul a31 a31;
             a63 = gf_mul a62 a;
             a126 = gf_mul a63 a63;
             a127 = gf_mul a126 a;
             a254 = gf_mul a127 a127
         in Inr a254))"

definition gf_div :: "byte \<Rightarrow> byte \<Rightarrow> CryptoError + byte" where
  "gf_div a b =
     (if b = 0 then Inl (ThresholdError ''Division by zero in GF(2^8)'')
      else if a = 0 then Inr 0
      else rbind (gf_inv b) (\<lambda>i. Inr (gf_mul a i)))"

text \<open>Horner's rule over the reversed coefficients.\<close>

definition gf_poly_eval :: "bytes \<Rightarrow> byte \<Rightarrow> byte" where
  "gf_poly_eval coefficients x =
     foldl (\<lambda>result coeff. gf_mul result x XOR coeff) 0 (rev coefficients)"

subsection \<open>A reference multiplication\<close>

text \<open>
  Carry-less product of two polynomials over GF(2) in 16 bits, then the remainder
  modulo \<open>x^8 + x^4 + x^3 + x + 1\<close> (0x11B) by long division from the top bit.
\<close>

fun clmul :: "nat \<Rightarrow> 16 word \<Rightarrow> 16 word \<Rightarrow> 16 word" where
  "clmul 0 a b = 0"
| "clmul (Suc n) a b = clmul n a b XOR (if bit b n then push_bit n a else 0)"

fun clmod :: "nat \<Rightarrow> 16 word \<Rightarrow> 16 word" where
  "clmod 0 r = r"
| "clmod (Suc n) r = clmod n (if bit r (8 + n) then r XOR push_bit n 0x11B else r)"

definition gf_mul_ref :: "byte \<Rightarrow> byte \<Rightarrow> byte" where
  "gf_mul_ref a b = ucast (clmod 7 (clmul 8 (ucast a) (ucast b)))"

subsection \<open>Multiplication as repeated doubling\<close>

definition xtime :: "byte \<Rightarrow> byte" where
  "xtime a = push_bit 1 a XOR (if bit a 7 then 0x1B else 0)"

fun mulsum :: "nat \<Rightarrow> byte \<Rightarrow> byte \<Rightarrow> byte" where
  "mulsum 0 a b = 0"
| "mulsum (Suc n) a b = (if bit b 0 then a else 0) XOR mulsum n (xtime a) (drop_bit 1 b)"

lemmas xor_ac = xor.assoc xor.left_commute xor.commute

text \<open>The two masks select without branching.\<close>

lemma mask_and: "a AND (0 - (b AND 1)) = (if bit b 0 then a else (0::byte))"
proof (cases "odd b")
  case True
  then have "b AND 1 = 1" by (simp add: and_one_eq odd_iff_mod_2_eq_one)
  with True show ?thesis by (simp add: bit_0)
next
  case False
  then have "b AND 1 = 0" by (simp add: and_one_eq even_iff_mod_2_eq_zero)
  with False show ?thesis by (simp add: bit_0)
qed

lemma gf_mul_loop_step:
  "gf_mul_loop (Suc n) p a b =
     gf_mul_loop n (p XOR (if bit b 0 then a else 0)) (xtime a) (drop_bit 1 b)"
  unfolding gf_mul_loop.simps Let_def mask_and xtime_def by (simp add: bit_simps)

lemma gf_mul_loop_mulsum: "gf_mul_loop n p a b = p XOR mulsum n a b"
proof (induction n arbitrary: p a b)
  case (Suc n)
  show ?case unfolding gf_mul_loop_step Suc.IH by (simp add: xor.assoc)
qed simp

lemma gf_mul_sum: "gf_mul a b = mulsum 8 a b"
  by (simp add: gf_mul_def gf_mul_loop_mulsum)

lemma mulsum_numeral [simp]:
  "mulsum (numeral k) a b =
     (if odd b then a else 0) XOR mulsum (pred_numeral k) (xtime a) (drop_bit 1 b)"
  by (simp add: numeral_eq_Suc bit_0)

lemma xtime_xor: "xtime (a XOR b) = xtime a XOR xtime b"
  unfolding xtime_def by (auto simp: bit_simps xor_ac)

lemma xtime_0 [simp]: "xtime 0 = 0"
  by (simp add: xtime_def)

lemma mulsum_xor_left: "mulsum n (a XOR a') b = mulsum n a b XOR mulsum n a' b"
  by (induction n arbitrary: a a' b) (auto simp: xtime_xor xor_ac)

lemma mulsum_xor_right: "mulsum n a (b XOR b') = mulsum n a b XOR mulsum n a b'"
  by (induction n arbitrary: a b b') (auto simp: bit_simps xor_ac)

lemma mulsum_0_left: "mulsum n 0 b = 0"
  by (induction n arbitrary: b) auto

lemma mulsum_0_right: "mulsum n a 0 = 0"
  by (induction n arbitrary: a) auto

lemma gf_mul_xor_right: "gf_mul a (b XOR c) = gf_mul a b XOR gf_mul a c"
  unfolding gf_mul_sum by (rule mulsum_xor_right)

lemma gf_mul_xor_left: "gf_mul (a XOR b) c = gf_mul a c XOR gf_mul b c"
  unfolding gf_mul_sum by (rule mulsum_xor_left)

lemma gf_mul_0 [simp]: "gf_mul a 0 = 0" "gf_mul 0 a = 0"
  unfolding gf_mul_sum by (rule mulsum_0_right mulsum_0_left)+

subsection \<open>Induction over the bits of a byte\<close>

text \<open>A property closed under exclusive or holds of every byte once it holds of the powers of two.\<close>

lemma take_bit_split:
  "take_bit (Suc n) x = take_bit n x XOR (if bit x n then push_bit n 1 else (0::byte))"
  by (rule bit_word_eqI) (auto simp: bit_simps less_Suc_eq)

lemma byte_linear_induct:
  assumes z: "P 0" and x: "\<And>a b. P a \<Longrightarrow> P b \<Longrightarrow> P (a XOR b)"
    and b: "\<And>i. i < 8 \<Longrightarrow> P (push_bit i (1::byte))"
  shows "P v"
proof -
  have "n \<le> 8 \<Longrightarrow> P (take_bit n v)" for n
  proof (induction n)
    case (Suc n)
    then show ?case using z x b by (simp add: take_bit_split)
  qed (simp add: z)
  from this[of 8] show ?thesis by (simp add: take_bit_word_eq_self)
qed

lemma byte_basis_induct:
  assumes "P 0" and "\<And>a b. P a \<Longrightarrow> P b \<Longrightarrow> P (a XOR b)"
    and "P 1" "P 2" "P 4" "P 8" "P 16" "P 32" "P 64" "P (128::byte)"
  shows "P v"
proof (rule byte_linear_induct)
  fix i :: nat
  assume "i < 8"
  then consider "i = 0" | "i = 1" | "i = 2" | "i = 3" | "i = 4" | "i = 5" | "i = 6" | "i = 7"
    by linarith
  then show "P (push_bit i 1)" using assms by cases simp_all
qed (use assms in auto)

lemma byte_bits:
  fixes e :: byte
  shows "e = (if bit e 0 then 1 else 0) XOR (if bit e 1 then 2 else 0) XOR
       (if bit e 2 then 4 else 0) XOR (if bit e 3 then 8 else 0) XOR
       (if bit e 4 then 16 else 0) XOR (if bit e 5 then 32 else 0) XOR
       (if bit e 6 then 64 else 0) XOR (if bit e 7 then 128 else 0)" (is "_ = ?r")
proof (rule bit_word_eqI)
  fix n
  assume "n < LENGTH(8)"
  then consider "n = 0" | "n = 1" | "n = 2" | "n = 3" | "n = 4" | "n = 5" | "n = 6" | "n = 7"
    unfolding len_bit0 len_num1 by linarith
  then show "bit e n = bit ?r n"
    by cases (simp_all add: bit_xor_iff if_distrib[of "\<lambda>w. bit w _"] bit_0)
qed

subsection \<open>Ring laws\<close>

lemma gf_mul_pow2:
  "gf_mul a 1 = a" "gf_mul a 2 = xtime a" "gf_mul a 4 = xtime (xtime a)"
  "gf_mul a 8 = xtime (xtime (xtime a))" "gf_mul a 16 = xtime (xtime (xtime (xtime a)))"
  "gf_mul a 32 = xtime (xtime (xtime (xtime (xtime a))))"
  "gf_mul a 64 = xtime (xtime (xtime (xtime (xtime (xtime a)))))"
  "gf_mul a 128 = xtime (xtime (xtime (xtime (xtime (xtime (xtime a))))))"
  by (simp_all add: gf_mul_sum)

lemma xtime_basis:
  "xtime 1 = 2" "xtime 2 = 4" "xtime 4 = 8" "xtime 8 = 16" "xtime 16 = 32" "xtime 32 = 64"
  "xtime 64 = 128" "xtime 128 = 27"
  by (simp_all add: xtime_def)

text \<open>The reduction polynomial as an identity on eightfold doubling.\<close>

lemma xtime_8:
  "xtime (xtime (xtime (xtime (xtime (xtime (xtime (xtime a))))))) =
   xtime (xtime (xtime (xtime a))) XOR xtime (xtime (xtime a)) XOR xtime a XOR a"
proof (induction a rule: byte_basis_induct)
  case (2 a b)
  then show ?case by (simp add: xtime_xor xor_ac)
qed (simp_all add: xtime_def)

lemma gf_mul_27: "gf_mul a 27 = gf_mul a 16 XOR gf_mul a 8 XOR gf_mul a 2 XOR gf_mul a 1"
  by (simp flip: gf_mul_xor_right)

lemma gf_mul_xtime_left: "gf_mul (xtime a) b = xtime (gf_mul a b)"
proof -
  have "xtime (mulsum n a b) = mulsum n (xtime a) b" for n
    by (induction n arbitrary: a b) (auto simp: xtime_xor)
  then show ?thesis by (simp only: gf_mul_sum)
qed

lemma gf_mul_xtime_right: "gf_mul a (xtime b) = xtime (gf_mul a b)"
proof (induction b rule: byte_basis_induct)
  case (2 b c)
  then show ?case by (simp add: xtime_xor gf_mul_xor_right)
qed (simp_all add: xtime_basis gf_mul_27 gf_mul_pow2 xtime_8)

lemma gf_mul_assoc: "gf_mul (gf_mul a b) c = gf_mul a (gf_mul b c)"
proof -
  have "gf_mul a (mulsum n b c) = mulsum n (gf_mul a b) c" for n
    by (induction n arbitrary: b c) (auto simp: gf_mul_xor_right gf_mul_xtime_right)
  then show ?thesis by (simp only: gf_mul_sum[of _ c])
qed

lemma gf_mul_1 [simp]: "gf_mul a 1 = a" "gf_mul 1 a = a"
proof -
  show "gf_mul a 1 = a" by (rule gf_mul_pow2(1))
  show "gf_mul 1 a = a"
  proof (induction a rule: byte_basis_induct)
    case (2 b c)
    then show ?case by (simp add: gf_mul_xor_right)
  qed (simp_all add: xtime_basis gf_mul_pow2)
qed

lemma gf_mul_commute: "gf_mul a b = gf_mul b a"
proof -
  have "mulsum n (gf_mul c a) b = gf_mul (mulsum n c b) a" for n c
    by (induction n arbitrary: c b) (auto simp: gf_mul_xor_left gf_mul_xtime_left[symmetric])
  from this[of 8 1] have "gf_mul (gf_mul 1 a) b = gf_mul (gf_mul 1 b) a"
    by (simp only: gf_mul_sum[of _ b])
  then show ?thesis by simp
qed

lemmas gf_mul_ac = gf_mul_assoc gf_mul_commute

subsection \<open>Squaring and inverses\<close>

text \<open>Squaring is linear, and eight squarings are the identity (Fermat's little theorem).\<close>

lemma gf_sq_xor: "gf_mul (a XOR b) (a XOR b) = gf_mul a a XOR gf_mul b b"
  by (simp add: gf_mul_xor_left gf_mul_xor_right gf_mul_commute[of b a] xor.assoc xor.left_commute)

fun sqn :: "nat \<Rightarrow> byte \<Rightarrow> byte" where
  "sqn 0 a = a"
| "sqn (Suc n) a = sqn n (gf_mul a a)"

lemma sqn_numeral [simp]: "sqn (numeral k) a = sqn (pred_numeral k) (gf_mul a a)"
  by (simp add: numeral_eq_Suc)

lemma sqn_xor: "sqn n (a XOR b) = sqn n a XOR sqn n b"
  by (induction n arbitrary: a b) (auto simp: gf_sq_xor)

lemma frobenius_8: "sqn 8 a = a"
proof (induction a rule: byte_basis_induct)
  case (2 b c)
  then show ?case by (simp only: sqn_xor)
qed (simp_all add: gf_mul_sum xtime_def)

lemma gf_sq_bits:
  "gf_mul e e = (if bit e 0 then 1 else 0) XOR (if bit e 1 then 4 else 0) XOR
     (if bit e 2 then 16 else 0) XOR (if bit e 3 then 64 else 0) XOR
     (if bit e 4 then 27 else 0) XOR (if bit e 5 then 108 else 0) XOR
     (if bit e 6 then 171 else 0) XOR (if bit e 7 then 154 else 0)"
proof -
  have sq: "gf_mul (if P then x else 0) (if P then x else 0) = (if P then gf_mul x x else 0)" for P x
    by simp
  have t: "gf_mul 1 1 = 1" "gf_mul 2 2 = 4" "gf_mul 4 4 = 16" "gf_mul 8 8 = 64"
      "gf_mul 16 16 = 27" "gf_mul 32 32 = 108" "gf_mul 64 64 = 171" "gf_mul 128 128 = 154"
    by (simp_all add: gf_mul_sum xtime_def)
  show ?thesis
    by (subst (1 2) byte_bits[of e]) (simp only: gf_sq_xor sq t)
qed

text \<open>The only idempotents are zero and one, so the ring has no zero divisors.\<close>

lemma gf_idem:
  assumes "gf_mul e e = e"
  shows "e = 0 \<or> e = 1"
proof -
  have b: "bit (gf_mul e e) k = bit e k" for k using assms by simp
  have "\<not> bit e 1 \<and> \<not> bit e 2 \<and> \<not> bit e 3 \<and> \<not> bit e 4 \<and> \<not> bit e 5 \<and> \<not> bit e 6 \<and> \<not> bit e 7"
    using b[of 0] b[of 1] b[of 2] b[of 3] b[of 4] b[of 5] b[of 6] b[of 7]
    unfolding gf_sq_bits bit_xor_iff if_distrib[of "\<lambda>w. bit w _"]
    by (simp add: bit_0 cong: if_cong) argo?
  then show ?thesis using byte_bits[of e] by (simp split: if_splits)
qed

primrec gf_pow :: "byte \<Rightarrow> nat \<Rightarrow> byte" where
  "gf_pow a 0 = 1"
| "gf_pow a (Suc n) = gf_mul a (gf_pow a n)"

lemma gf_pow_add: "gf_pow a (m + n) = gf_mul (gf_pow a m) (gf_pow a n)"
  by (induction m) (simp_all add: gf_mul_assoc)

lemma gf_pow_1 [simp]: "gf_pow a (Suc 0) = a"
  by simp

lemma gf_pow_double: "gf_mul (gf_pow a n) (gf_pow a n) = gf_pow a (2 * n)"
  by (simp add: gf_pow_add mult_2)

lemma gf_pow_succ: "gf_mul (gf_pow a n) a = gf_pow a (n + 1)"
  by (simp add: gf_mul_commute)

lemma sqn_pow: "sqn n (gf_pow a k) = gf_pow a (2 ^ n * k)"
  by (induction n arbitrary: k) (simp_all add: gf_pow_double mult_ac)

lemma gf_pow_256: "gf_pow a 256 = a"
  using frobenius_8[of a] sqn_pow[of 8 a 1] by simp

lemma gf_pow_zero: "0 < n \<Longrightarrow> gf_pow 0 n = 0"
  by (cases n) simp_all

lemma gf_pow_255:
  assumes "a \<noteq> 0"
  shows "gf_pow a 255 = 1"
proof -
  have "gf_pow a 510 = gf_pow a (256 + 254)" by simp
  also have "\<dots> = gf_mul a (gf_pow a 254)" by (simp only: gf_pow_add gf_pow_256)
  also have "\<dots> = gf_pow a (Suc 254)" by (simp only: gf_pow.simps)
  finally have "gf_mul (gf_pow a 255) (gf_pow a 255) = gf_pow a 255"
    by (simp only: gf_pow_double) simp
  then consider "gf_pow a 255 = 0" | "gf_pow a 255 = 1" using gf_idem by blast
  then show ?thesis
  proof cases
    case 1
    have "a = gf_pow a (Suc 255)" using gf_pow_256[of a] by simp
    also have "\<dots> = 0" by (simp only: gf_pow.simps 1 gf_mul_0)
    finally show ?thesis using assms by simp
  qed
qed

lemma gf_inv_chain: "gf_inv a = (if a = 0 then Inl (ThresholdError ''Division by zero in GF(2^8)'') else Inr (gf_pow a 254))"
proof -
  have a: "a = gf_pow a 1" by simp
  have c: "gf_mul a a = gf_pow a 2" using gf_pow_double[of a 1] by simp
  show ?thesis
    unfolding gf_inv_def Let_def c gf_pow_succ gf_pow_double by simp
qed

lemma gf_inv_Inr: "a \<noteq> 0 \<Longrightarrow> gf_inv a = Inr (gf_pow a 254)"
  by (simp add: gf_inv_chain)

lemma gf_mul_pow_254: "a \<noteq> 0 \<Longrightarrow> gf_mul a (gf_pow a 254) = 1"
  using gf_pow_255[of a] gf_pow.simps(2)[of a 254] by simp

subsection \<open>The field\<close>

datatype gf = Gf (ungf: byte)

instantiation gf :: field
begin

definition zero_gf :: gf where "0 = Gf 0"
definition one_gf :: gf where "1 = Gf 1"
definition plus_gf :: "gf \<Rightarrow> gf \<Rightarrow> gf" where "x + y = Gf (ungf x XOR ungf y)"
definition minus_gf :: "gf \<Rightarrow> gf \<Rightarrow> gf" where "x - y = Gf (ungf x XOR ungf y)"
definition uminus_gf :: "gf \<Rightarrow> gf" where "- x = (x :: gf)"
definition times_gf :: "gf \<Rightarrow> gf \<Rightarrow> gf" where "x * y = Gf (gf_mul (ungf x) (ungf y))"
definition inverse_gf :: "gf \<Rightarrow> gf" where "inverse x = Gf (gf_pow (ungf x) 254)"
definition divide_gf :: "gf \<Rightarrow> gf \<Rightarrow> gf" where "x div y = (x * inverse y :: gf)"

lemmas gf_defs = zero_gf_def one_gf_def plus_gf_def minus_gf_def uminus_gf_def times_gf_def

instance
proof
  fix a b c :: gf
  show "a * b * c = a * (b * c)" by (simp add: gf_defs gf_mul_assoc)
  show "a * b = b * a" by (simp add: gf_defs gf_mul_commute)
  show "1 * a = a" by (simp add: gf_defs)
  show "a + b + c = a + (b + c)" by (simp add: gf_defs xor.assoc)
  show "a + b = b + a" by (simp add: gf_defs xor.commute)
  show "0 + a = a" by (simp add: gf_defs)
  show "- a + a = 0" by (simp add: gf_defs)
  show "a - b = a + - b" by (simp add: gf_defs)
  show "(a + b) * c = a * c + b * c" by (simp add: gf_defs gf_mul_xor_left)
  show "(0::gf) \<noteq> 1" by (simp add: gf_defs)
  show "a \<noteq> 0 \<Longrightarrow> inverse a * a = 1"
    by (cases a) (simp add: gf_defs inverse_gf_def gf_mul_commute gf_mul_pow_254 del: gf_pow.simps)
  show "a div b = a * inverse b" by (simp add: divide_gf_def)
  show "inverse (0::gf) = 0" by (simp add: zero_gf_def inverse_gf_def gf_pow_zero)
qed

end

lemma Gf_ops:
  "Gf 0 = 0" "Gf 1 = 1" "Gf (a XOR b) = Gf a + Gf b" "Gf (a XOR b) = Gf a - Gf b"
  "Gf (gf_mul a b) = Gf a * Gf b"
  by (simp_all add: gf_defs)

lemma Gf_inj [simp]: "Gf a = Gf b \<longleftrightarrow> a = b"
  by simp

lemma Gf_eq_0 [simp]: "Gf a = 0 \<longleftrightarrow> a = 0"
  by (simp add: zero_gf_def)

lemma gf_neg [simp]: "- (x :: gf) = x"
  by (simp add: uminus_gf_def)

lemma gf_double [simp]: "(x :: gf) + x = 0"
  by (simp add: gf_defs)

lemma gf_div_field:
  assumes "b \<noteq> 0"
  shows "gf_div a b = Inr (ungf (Gf a / Gf b))"
  using assms
  by (cases "a = 0") (simp_all add: gf_div_def gf_inv_Inr divide_gf_def inverse_gf_def gf_defs del: gf_pow.simps)

instantiation gf :: finite
begin

instance
proof
  have "UNIV = range Gf" by (metis gf.exhaust_sel surj_def)
  then show "finite (UNIV :: gf set)" by (metis finite finite_imageI)
qed

end

subsection \<open>Agreement with the reference multiplication\<close>

lemma clmul_xor_left: "clmul n (a XOR a') b = clmul n a b XOR clmul n a' b"
  by (induction n) (auto simp: xor_ac)

lemma clmul_xor_right: "clmul n a (b XOR b') = clmul n a b XOR clmul n a b'"
  by (induction n) (auto simp: bit_simps xor_ac)

lemma clmod_xor: "clmod n (r XOR s) = clmod n r XOR clmod n s"
proof (induction n arbitrary: r s)
  case (Suc n)
  have "clmod (Suc n) (r XOR s) = clmod n ((if bit r (8 + n) then r XOR push_bit n 0x11B else r)
      XOR (if bit s (8 + n) then s XOR push_bit n 0x11B else s))"
    unfolding clmod.simps by (rule arg_cong[of _ _ "clmod n"]) (auto simp: bit_simps xor_ac)
  then show ?case unfolding Suc.IH by simp
qed simp

lemma gf_mul_ref_xor:
  "gf_mul_ref (a XOR a') b = gf_mul_ref a b XOR gf_mul_ref a' b"
  "gf_mul_ref a (b XOR b') = gf_mul_ref a b XOR gf_mul_ref a b'"
  by (simp_all add: gf_mul_ref_def clmul_xor_left clmul_xor_right clmod_xor unsigned_xor_eq)

lemma gf_mul_ref_0: "gf_mul_ref a 0 = 0" "gf_mul_ref 0 b = 0"
  using gf_mul_ref_xor(2)[of a 0 0] gf_mul_ref_xor(1)[of 0 0 b] by simp_all

lemma clmul_basis: "i < 16 \<Longrightarrow> clmul n a (push_bit i 1) = (if i < n then push_bit i a else 0)"
  by (induction n) (auto simp: bit_simps less_Suc_eq)

lemma clmod_numeral:
  "clmod (numeral k) r = clmod (pred_numeral k)
     (if bit r (8 + pred_numeral k) then r XOR push_bit (pred_numeral k) 0x11B else r)"
  by (simp add: numeral_eq_Suc)

lemma clmod_table:
  "clmod 7 1 = 1" "clmod 7 2 = 2" "clmod 7 4 = 4" "clmod 7 8 = 8"
  "clmod 7 16 = 16" "clmod 7 32 = 32" "clmod 7 64 = 64" "clmod 7 128 = 128"
  "clmod 7 256 = 27" "clmod 7 512 = 54" "clmod 7 1024 = 108" "clmod 7 2048 = 216"
  "clmod 7 4096 = 171" "clmod 7 8192 = 77" "clmod 7 16384 = 154"
  by (simp_all add: clmod_numeral bit_0 bit_1_iff)

lemma xtime_table:
  "xtime 27 = 54" "xtime 54 = 108" "xtime 108 = 216" "xtime 216 = 171" "xtime 171 = 77" "xtime 77 = 154"
  by (simp_all add: xtime_def)

lemma clmod_basis:
  assumes "k < 15"
  shows "ucast (clmod 7 (push_bit k 1)) = (xtime ^^ k) 1"
proof -
  have "[0..<15] = [0, 1, 2, 3, 4, 5, 6, 7, 8, 9, 10, 11, 12, 13, 14]" by code_simp
  with assms have "k \<in> set [0, 1, 2, 3, 4, 5, 6, 7, 8, 9, 10, 11, 12, 13, 14]"
    by (metis atLeastLessThan_iff set_upt zero_le)
  then have "k \<in> {0, 1, 2, 3, 4, 5, 6, 7, 8, 9, 10, 11, 12, 13, 14}" by simp
  then show ?thesis
    by (elim insertE emptyE)
      (simp_all add: clmod_table, simp_all add: numeral_eq_Suc xtime_basis xtime_table)
qed

lemma gf_mul_basis:
  assumes "i < 8" "j < 8"
  shows "gf_mul (push_bit i 1) (push_bit j 1) = (xtime ^^ (i + j)) 1"
proof -
  have p: "push_bit k 1 = (xtime ^^ k) 1" if "k < 8" for k
    using that by (simp add: less_Suc_eq numeral_eq_Suc) (elim disjE; simp add: xtime_def)
  have "gf_mul ((xtime ^^ n) a) b = (xtime ^^ n) (gf_mul a b)" for n a b
    by (induction n) (simp_all add: gf_mul_xtime_left)
  then show ?thesis using assms by (simp add: p funpow_add del: push_bit_of_1)
qed

lemma gf_mul_ref_basis:
  assumes "i < 8" "j < 8"
  shows "gf_mul_ref (push_bit i 1) (push_bit j 1) = gf_mul (push_bit i 1) (push_bit j 1)"
proof -
  have u: "ucast (push_bit k 1 :: byte) = (push_bit k 1 :: 16 word)" if "k < 8" for k
    using that by (intro bit_word_eqI) (auto simp: bit_simps)
  show ?thesis using assms
    by (simp add: gf_mul_ref_def u clmul_basis gf_mul_basis clmod_basis[symmetric] add.commute del: push_bit_of_1)
qed

lemma gf_mul_eq_ref: "gf_mul a b = gf_mul_ref a b"
proof (induction a rule: byte_linear_induct)
  case (2 a a')
  then show ?case by (simp add: gf_mul_ref_xor gf_mul_xor_left)
next
  case (3 i)
  show ?case
  proof (induction b rule: byte_linear_induct)
    case (2 b b')
    then show ?case by (simp add: gf_mul_ref_xor gf_mul_xor_right)
  qed (simp_all add: gf_mul_ref_0 gf_mul_ref_basis 3 del: push_bit_of_1)
qed (simp add: gf_mul_ref_0)

subsection \<open>Properties\<close>

text \<open>
  C3. The branchless eight-round \<open>gf_mul\<close> computes the product of the two
  polynomials over GF(2) reduced modulo \<open>x^8 + x^4 + x^3 + x + 1\<close>.
\<close>

theorem gf_mul_reference: "gf_mul a b = gf_mul_ref a b"
  by (rule gf_mul_eq_ref)

text \<open>
  \<open>gf_inv\<close> fails exactly on zero and otherwise returns the multiplicative
  inverse; \<open>gf_div\<close> fails exactly for a zero divisor and otherwise returns the
  one quotient whose product with the divisor is the dividend.
\<close>

theorem gf_inv_div_correct:
  "(gf_inv a = Inr i \<longleftrightarrow> gf_mul a i = 1) \<and> (gf_div a b = Inr q \<longleftrightarrow> b \<noteq> 0 \<and> gf_mul b q = a)"
proof (rule conjI)
  show "gf_inv a = Inr i \<longleftrightarrow> gf_mul a i = 1"
  proof (cases "a = 0")
    case False
    define p where "p = gf_pow a 254"
    have p: "gf_mul a p = 1" using gf_mul_pow_254[OF False] by (simp only: p_def)
    have "i = p" if "gf_mul a i = 1"
    proof -
      have "i = gf_mul (gf_mul a p) i" by (simp add: p)
      also have "\<dots> = gf_mul p (gf_mul a i)" by (simp only: gf_mul_assoc gf_mul_commute[of a p])
      finally show ?thesis by (simp add: that)
    qed
    with p have "gf_mul a i = 1 \<longleftrightarrow> i = gf_pow a 254" unfolding p_def by blast
    with False show ?thesis by (auto simp: gf_inv_Inr simp del: gf_pow.simps)
  qed (simp add: gf_inv_def)
  show "gf_div a b = Inr q \<longleftrightarrow> b \<noteq> 0 \<and> gf_mul b q = a"
  proof (cases "b = 0")
    case False
    have "gf_mul b q = a \<longleftrightarrow> Gf b * Gf q = Gf a" by (simp add: times_gf_def)
    also have "\<dots> \<longleftrightarrow> Gf q = Gf a / Gf b" using False by (auto simp: eq_divide_eq mult.commute)
    also have "\<dots> \<longleftrightarrow> ungf (Gf a / Gf b) = q" by (metis gf.collapse gf.sel)
    finally show ?thesis using False by (simp add: gf_div_field)
  qed (simp add: gf_div_def)
qed

end
