(* ===== verification/Lagrange.thy ===== *)
theory Lagrange
  imports Main
begin

text \<open>
  Polynomials over a field as coefficient lists, constant term first, evaluated by
  Horner's rule; Lagrange's interpolation formula at an arbitrary set of points; and
  the bound on the number of roots. The secret sharing of \<open>shamir.rs\<close> rests on the
  interpolation (any threshold of shares determines the secret) and on the root bound
  (one share fewer determines nothing).
\<close>

subsection \<open>Evaluation and division by a linear factor\<close>

definition hpoly :: "'a::comm_ring_1 list \<Rightarrow> 'a \<Rightarrow> 'a" where
  "hpoly cs x = foldr (\<lambda>c r. r * x + c) cs 0"

lemma hpoly_Nil [simp]: "hpoly [] x = 0"
  and hpoly_Cons [simp]: "hpoly (c # cs) x = hpoly cs x * x + c"
  by (simp_all add: hpoly_def)

lemma hpoly_synthetic_division:
  "\<exists>qs. length qs = length cs - 1 \<and> (\<forall>z. hpoly cs z = hpoly cs a + (z - a) * hpoly qs z) \<and>
     ((\<forall>q\<in>set qs. q = 0) \<longrightarrow> hpoly cs a = 0 \<longrightarrow> (\<forall>c\<in>set cs. c = 0))"
proof (induction cs)
  case Nil
  show ?case by (rule exI[of _ "[]"]) simp
next
  case (Cons c cs)
  then obtain qs where len: "length qs = length cs - 1"
    and qs: "\<And>z. hpoly cs z = hpoly cs a + (z - a) * hpoly qs z"
    and zero: "\<forall>q\<in>set qs. q = 0 \<Longrightarrow> hpoly cs a = 0 \<Longrightarrow> \<forall>c\<in>set cs. c = 0" by blast
  show ?case
  proof (cases "cs = []")
    case True
    then show ?thesis by (intro exI[of _ "[]"]) simp
  next
    case False
    have "hpoly (c # cs) z = hpoly (c # cs) a + (z - a) * hpoly (hpoly cs a # qs) z" for z
    proof -
      have "hpoly (c # cs) z = (hpoly cs a + (z - a) * hpoly qs z) * z + c"
        unfolding hpoly_Cons by (simp only: qs[of z])
      also have "\<dots> = hpoly (c # cs) a + (z - a) * hpoly (hpoly cs a # qs) z"
        unfolding hpoly_Cons by (simp only: algebra_simps)
      finally show ?thesis .
    qed
    moreover have "length (hpoly cs a # qs) = length (c # cs) - 1"
      using len False by (cases cs) simp_all
    moreover have "\<forall>c\<in>set (c # cs). c = 0"
      if "\<forall>q\<in>set (hpoly cs a # qs). q = 0" "hpoly (c # cs) a = 0"
      using that zero by simp
    ultimately show ?thesis by blast
  qed
qed

lemma hpoly_diff:
  "length cs = length ds \<Longrightarrow> hpoly (map2 (-) cs ds) x = hpoly cs x - hpoly ds x"
  by (induction cs ds rule: list_induct2) (simp_all add: left_diff_distrib)

text \<open>A polynomial with as many roots as coefficients is zero.\<close>

lemma hpoly_roots:
  fixes cs :: "'a::field list"
  assumes "finite S" "\<And>x. x \<in> S \<Longrightarrow> hpoly cs x = 0" "length cs \<le> card S"
  shows "\<forall>c\<in>set cs. c = 0"
  using assms
proof (induction S arbitrary: cs rule: finite_induct)
  case (insert a T)
  obtain qs where len: "length qs = length cs - 1"
    and qs: "\<And>z. hpoly cs z = hpoly cs a + (z - a) * hpoly qs z"
    and zero: "\<forall>q\<in>set qs. q = 0 \<Longrightarrow> hpoly cs a = 0 \<Longrightarrow> \<forall>c\<in>set cs. c = 0"
    using hpoly_synthetic_division[of cs a] by blast
  have a: "hpoly cs a = 0" by (rule insert.prems(1)) simp
  have "\<forall>q\<in>set qs. q = 0"
  proof (rule insert.IH)
    fix x assume x: "x \<in> T"
    then have "(x - a) * hpoly qs x = 0"
      using insert.prems(1)[of x] qs[of x] a by (metis add_0 insertI2)
    moreover have "x - a \<noteq> 0" using x insert.hyps by auto
    ultimately show "hpoly qs x = 0" by simp
  next
    show "length qs \<le> card T" using len insert.prems(2) insert.hyps by simp
  qed
  then show ?case using zero a by blast
qed simp

lemma hpoly_determined:
  fixes cs ds :: "'a::field list"
  assumes "length cs = length ds" "finite S" "length cs \<le> card S"
    and "\<And>x. x \<in> S \<Longrightarrow> hpoly cs x = hpoly ds x"
  shows "cs = ds"
proof (rule nth_equalityI[OF assms(1)])
  fix i assume i: "i < length cs"
  have "\<forall>c\<in>set (map2 (-) cs ds). c = 0"
    by (rule hpoly_roots[OF assms(2)]) (use assms in \<open>auto simp: hpoly_diff\<close>)
  moreover have "cs ! i - ds ! i \<in> set (map2 (-) cs ds)"
    using i assms(1) nth_mem[of i "map2 (-) cs ds"] by simp
  ultimately show "cs ! i = ds ! i" by auto
qed

subsection \<open>Interpolation\<close>

definition lagrange :: "'a::field set \<Rightarrow> 'a \<Rightarrow> 'a \<Rightarrow> 'a" where
  "lagrange S x z = (\<Prod>y\<in>S - {x}. (z - y) / (x - y))"

lemma lagrange_insert_other:
  assumes "finite T" "a \<notin> T" "x \<in> T"
  shows "lagrange (insert a T) x z = lagrange T x z * ((z - a) / (x - a))"
proof -
  have "insert a T - {x} = insert a (T - {x})" using assms by auto
  then show ?thesis using assms by (simp add: lagrange_def)
qed

lemma lagrange_node:
  assumes "finite T" "x \<in> T"
  shows "lagrange T x z * (z - x) = (\<Prod>y\<in>T. z - y) / (\<Prod>y\<in>T - {x}. x - y)"
  using assms by (simp add: lagrange_def prod_dividef prod.remove[of T x "\<lambda>y. z - y"])

lemma field_ratio:
  fixes l u P D :: "'a::field"
  assumes "l * u = P / D" "u \<noteq> 0" "P \<noteq> 0" "D \<noteq> 0"
  shows "1 / (u * D) = l / P"
proof -
  have "l = P / (D * u)" using assms(1,2) by (metis divide_divide_eq_left nonzero_mult_div_cancel_right)
  then show ?thesis using assms by simp
qed

lemma sum_lagrange:
  assumes "finite S" "S \<noteq> {}"
  shows "(\<Sum>x\<in>S. lagrange S x z) = 1"
  using assms
proof (induction S arbitrary: z rule: finite_ne_induct)
  case (singleton a)
  show ?case by (simp add: lagrange_def)
next
  case (insert a T)
  let ?P = "\<lambda>z. \<Prod>y\<in>T. z - y" and ?D = "\<lambda>x. \<Prod>y\<in>T - {x}. x - y"
  have Pa: "?P a \<noteq> 0" using insert.hyps by (auto simp: prod_zero_iff)
  have new: "lagrange (insert a T) a z = ?P z / ?P a"
    using insert.hyps by (simp add: lagrange_def prod_dividef)
  have "(\<Sum>x\<in>T. 1 / ((a - x) * ?D x)) = (\<Sum>x\<in>T. lagrange T x a) / ?P a"
    unfolding sum_divide_distrib
  proof (rule sum.cong)
    fix x assume x: "x \<in> T"
    then have "a - x \<noteq> 0" using insert.hyps by auto
    then show "1 / ((a - x) * ?D x) = lagrange T x a / ?P a"
      using lagrange_node[OF insert.hyps(1) x, of a] Pa insert.hyps(1)
      by (intro field_ratio) auto
  qed simp
  then have D: "(\<Sum>x\<in>T. 1 / ((a - x) * ?D x)) = 1 / ?P a" using insert.IH by simp
  have "lagrange (insert a T) x z = lagrange T x z - ?P z * (1 / ((a - x) * ?D x))" if x: "x \<in> T" for x
  proof -
    have ne: "x - a \<noteq> 0" "a - x \<noteq> 0" using x insert.hyps by auto
    have "lagrange (insert a T) x z = lagrange T x z * ((z - a) / (x - a))"
      using x insert.hyps by (intro lagrange_insert_other)
    also have "(z - a) / (x - a) = 1 - (z - x) / (a - x)"
    proof -
      have "(z - x) / (a - x) = (x - z) / (x - a)"
        using minus_divide_divide[of "z - x" "a - x"] by simp
      then have "1 - (z - x) / (a - x) = (x - a) / (x - a) - (x - z) / (x - a)"
        using ne by simp
      also have "\<dots> = (z - a) / (x - a)" by (simp only: diff_divide_distrib[symmetric]) simp
      finally show ?thesis by simp
    qed
    also have "lagrange T x z * (1 - (z - x) / (a - x)) = lagrange T x z - lagrange T x z * (z - x) / (a - x)"
      by (simp add: algebra_simps)
    finally show ?thesis unfolding lagrange_node[OF insert.hyps(1) x, of z]
      by (simp add: mult.commute)
  qed
  then have "(\<Sum>x\<in>T. lagrange (insert a T) x z) =
      (\<Sum>x\<in>T. lagrange T x z - ?P z * (1 / ((a - x) * ?D x)))"
    by (intro sum.cong) auto
  also have "\<dots> = (\<Sum>x\<in>T. lagrange T x z) - ?P z * (\<Sum>x\<in>T. 1 / ((a - x) * ?D x))"
    unfolding sum_subtractf sum_distrib_left ..
  also have "\<dots> = 1 - ?P z * (1 / ?P a)" unfolding D insert.IH ..
  finally have "(\<Sum>x\<in>T. lagrange (insert a T) x z) = 1 - ?P z * (1 / ?P a)" .
  with insert.hyps(1,3) show ?case by (simp add: new)
qed

lemma lagrange_interpolation:
  assumes "finite S" "length cs \<le> card S"
  shows "(\<Sum>x\<in>S. hpoly cs x * lagrange S x z) = hpoly cs z"
  using assms
proof (induction S arbitrary: cs rule: finite_induct)
  case (insert a T)
  obtain qs where len: "length qs = length cs - 1"
    and qs: "\<And>z. hpoly cs z = hpoly cs a + (z - a) * hpoly qs z"
    using hpoly_synthetic_division[of cs a] by blast
  have "length qs \<le> card T" using len insert by simp
  then have IH: "(\<Sum>x\<in>T. hpoly qs x * lagrange T x z) = hpoly qs z" by (rule insert.IH)
  have "(\<Sum>x\<in>insert a T. hpoly cs x * lagrange (insert a T) x z) =
     (\<Sum>x\<in>insert a T. hpoly cs a * lagrange (insert a T) x z + (x - a) * hpoly qs x * lagrange (insert a T) x z)"
  proof (rule sum.cong[OF refl])
    fix x
    show "hpoly cs x * lagrange (insert a T) x z =
       hpoly cs a * lagrange (insert a T) x z + (x - a) * hpoly qs x * lagrange (insert a T) x z"
      unfolding qs[of x] by (rule distrib_right)
  qed
  also have "\<dots> = hpoly cs a * (\<Sum>x\<in>insert a T. lagrange (insert a T) x z) +
      (\<Sum>x\<in>insert a T. (x - a) * hpoly qs x * lagrange (insert a T) x z)"
    unfolding sum.distrib sum_distrib_left ..
  also have "\<dots> = hpoly cs a + (\<Sum>x\<in>T. (x - a) * hpoly qs x * lagrange (insert a T) x z)"
    using insert.hyps by (simp add: sum_lagrange del: sum.insert) (simp add: insert.hyps)
  also have "(\<Sum>x\<in>T. (x - a) * hpoly qs x * lagrange (insert a T) x z) =
      (\<Sum>x\<in>T. (z - a) * (hpoly qs x * lagrange T x z))"
  proof (rule sum.cong)
    fix x assume x: "x \<in> T"
    then have "x - a \<noteq> 0" using insert.hyps by auto
    then show "(x - a) * hpoly qs x * lagrange (insert a T) x z = (z - a) * (hpoly qs x * lagrange T x z)"
      using x insert.hyps by (simp add: lagrange_insert_other)
  qed simp
  also have "\<dots> = (z - a) * hpoly qs z" unfolding sum_distrib_left[symmetric] IH ..
  finally show ?case by (rule trans) (rule qs[symmetric])
qed simp

subsection \<open>One point fewer determines nothing\<close>

text \<open>
  With the constant term fixed, the other coefficients are in bijection with the
  values at that many distinct nonzero points.
\<close>

lemma hpoly_free_values:
  fixes xs ys :: "'a::{field,finite} list"
  assumes "distinct xs" "0 \<notin> set xs" "length ys = length xs"
  shows "\<exists>!cs. length cs = length xs \<and> map (hpoly (s # cs)) xs = ys"
proof -
  let ?n = "length xs" and ?L = "{cs :: 'a list. length cs = length xs}"
  let ?ev = "\<lambda>cs. map (hpoly (s # cs)) xs"
  have fin: "finite ?L" using finite_lists_length_eq[of "UNIV :: 'a set" ?n] by simp
  have inj: "inj_on ?ev ?L"
  proof (rule inj_onI)
    fix cs ds assume L: "cs \<in> ?L" "ds \<in> ?L" and ev: "?ev cs = ?ev ds"
    have "s # cs = s # ds"
    proof (rule hpoly_determined[where S = "insert 0 (set xs)"])
      show "length (s # cs) \<le> card (insert 0 (set xs))"
        using L assms by (simp add: distinct_card)
      show "hpoly (s # cs) x = hpoly (s # ds) x" if "x \<in> insert 0 (set xs)" for x
      proof (cases "x = 0")
        case False
        then have "x \<in> set xs" using that by simp
        with ev show ?thesis unfolding map_eq_conv by (rule bspec)
      qed simp
    qed (use L in simp_all)
    then show "cs = ds" by simp
  qed
  moreover have "?ev ` ?L \<subseteq> ?L" by auto
  ultimately have "?ev ` ?L = ?L" using endo_inj_surj[OF fin] by blast
  moreover have "ys \<in> ?L" using assms(3) by simp
  ultimately have "ys \<in> ?ev ` ?L" by simp
  then obtain cs where cs: "cs \<in> ?L" "?ev cs = ys" by (elim imageE) simp
  show ?thesis
  proof (rule ex1I[of _ cs])
    show "length cs = length xs \<and> ?ev cs = ys" using cs by simp
  next
    fix ds assume "length ds = length xs \<and> ?ev ds = ys"
    then show "ds = cs" using inj_onD[OF inj, of ds cs] cs by simp
  qed
qed

end
