(* ===== verification/Crates.thy ===== *)
theory Crates
  imports Rust_Std
begin

text \<open>
  Third-party crates are parameters of the model: a record of the functions the
  sources call, and a predicate with the documented behaviour the theorems rely on.
  For each there is one concrete function that satisfies the predicate, so that the
  hypotheses can be discharged on concrete inputs.
\<close>

subsection \<open>The crate \<open>hex\<close>\<close>

record hex_crate =
  hex_encode :: "bytes \<Rightarrow> string"
  hex_decode :: "string \<Rightarrow> string + bytes"

definition hex_digits :: string where
  "hex_digits = ''0123456789abcdef''"

text \<open>
  \<open>encode\<close> writes two lowercase digits per byte; \<open>decode\<close> accepts exactly the texts
  that are such an encoding up to the case of the letters.
\<close>

definition hex_ok :: "hex_crate \<Rightarrow> bool" where
  "hex_ok h \<longleftrightarrow>
     (\<forall>bs. length (hex_encode h bs) = 2 * length bs \<and> set (hex_encode h bs) \<subseteq> set hex_digits) \<and>
     (\<forall>s bs. hex_decode h s = Inr bs \<longleftrightarrow> to_ascii_lowercase s = hex_encode h bs)"

subsection \<open>The cryptographic crates\<close>

text \<open>
  \<open>blake2\<close>, \<open>sha2\<close>, \<open>hkdf\<close>, \<open>chacha20poly1305\<close>, \<open>ed25519_dalek\<close>, \<open>x25519_dalek\<close> and
  \<open>argon2\<close>. A signing key is its 32-byte seed. \<open>None\<close> is the error of the cipher.
  \<open>ed25519_point\<close> tells whether \<open>VerifyingKey::from_bytes\<close> accepts the bytes, and
  \<open>x25519_contributory\<close> is \<open>was_contributory\<close> of a shared secret.
\<close>

record crypto_crate =
  blake2b512 :: "bytes \<Rightarrow> bytes"
  sha256 :: "bytes \<Rightarrow> bytes"
  hkdf_sha256 :: "bytes \<Rightarrow> bytes \<Rightarrow> bytes \<Rightarrow> nat \<Rightarrow> bytes"
  xchacha_encrypt :: "bytes \<Rightarrow> bytes \<Rightarrow> bytes \<Rightarrow> bytes \<Rightarrow> bytes option"
  xchacha_decrypt :: "bytes \<Rightarrow> bytes \<Rightarrow> bytes \<Rightarrow> bytes \<Rightarrow> bytes option"
  ed25519_public :: "bytes \<Rightarrow> bytes"
  ed25519_sign :: "bytes \<Rightarrow> bytes \<Rightarrow> bytes"
  ed25519_point :: "bytes \<Rightarrow> bool"
  ed25519_verify :: "bytes \<Rightarrow> bytes \<Rightarrow> bytes \<Rightarrow> bool"
  x25519_public :: "bytes \<Rightarrow> bytes"
  x25519_dh :: "bytes \<Rightarrow> bytes \<Rightarrow> bytes"
  x25519_contributory :: "bytes \<Rightarrow> bool"
  argon2id :: "bytes \<Rightarrow> bytes \<Rightarrow> string + bytes"

text \<open>Output lengths of the hash functions.\<close>

definition digests_ok :: "crypto_crate \<Rightarrow> bool" where
  "digests_ok cr \<longleftrightarrow>
     (\<forall>m. length (blake2b512 cr m) = 64 \<and> length (sha256 cr m) = 32) \<and>
     (\<forall>salt ikm info n. length (hkdf_sha256 cr salt ikm info n) = n)"

text \<open>
  The cipher encrypts messages up to its length limit, the ciphertext being one
  16-byte tag longer, and decryption accepts exactly the ciphertexts of encryption
  under the same key, nonce and associated data.
\<close>

definition aead_ok :: "crypto_crate \<Rightarrow> bool" where
  "aead_ok cr \<longleftrightarrow>
     (\<forall>k n m aad. length k = 32 \<longrightarrow> length n = 24 \<longrightarrow> length m \<le> 2 ^ 37 \<longrightarrow>
        (\<exists>ct. xchacha_encrypt cr k n m aad = Some ct)) \<and>
     (\<forall>k n m aad ct. xchacha_encrypt cr k n m aad = Some ct \<longrightarrow> length ct = length m + 16) \<and>
     (\<forall>k n m aad ct. xchacha_decrypt cr k n ct aad = Some m \<longleftrightarrow> xchacha_encrypt cr k n m aad = Some ct)"

text \<open>A signature made with a seed verifies under the public key of that seed.\<close>

definition ed25519_ok :: "crypto_crate \<Rightarrow> bool" where
  "ed25519_ok cr \<longleftrightarrow>
     (\<forall>sk m. length (ed25519_public cr sk) = 32 \<and> ed25519_point cr (ed25519_public cr sk) \<and>
        length (ed25519_sign cr sk m) = 64 \<and>
        ed25519_verify cr (ed25519_public cr sk) m (ed25519_sign cr sk m))"

text \<open>Both sides of a Diffie-Hellman exchange compute the same secret.\<close>

definition x25519_ok :: "crypto_crate \<Rightarrow> bool" where
  "x25519_ok cr \<longleftrightarrow>
     (\<forall>a. length (x25519_public cr a) = 32) \<and>
     (\<forall>a b. x25519_dh cr a (x25519_public cr b) = x25519_dh cr b (x25519_public cr a))"

definition argon2_ok :: "crypto_crate \<Rightarrow> bool" where
  "argon2_ok cr \<longleftrightarrow>
     (\<forall>pw salt. length salt = 16 \<longrightarrow> length pw < 2 ^ 32 \<longrightarrow> (\<exists>k. argon2id cr pw salt = Inr k \<and> length k = 32))"

definition crypto_ok :: "crypto_crate \<Rightarrow> bool" where
  "crypto_ok cr \<longleftrightarrow> digests_ok cr \<and> aead_ok cr \<and> ed25519_ok cr \<and> x25519_ok cr \<and> argon2_ok cr"

subsection \<open>Concrete instances\<close>

definition hex_byte :: "byte \<Rightarrow> string" where
  "hex_byte b = [hex_digits ! (unat b div 16), hex_digits ! (unat b mod 16)]"

definition hex_val :: "char \<Rightarrow> nat option" where
  "hex_val c = map_of (zip hex_digits [0..<16]) (ascii_lower c)"

fun hex_std_decode :: "string \<Rightarrow> string + bytes" where
  "hex_std_decode [] = Inr []"
| "hex_std_decode [c] = Inl ''Odd number of digits''"
| "hex_std_decode (c # d # s) =
     (case (hex_val c, hex_val d) of
        (Some m, Some n) \<Rightarrow> rbind (hex_std_decode s) (\<lambda>bs. Inr (word_of_nat (16 * m + n) # bs))
      | _ \<Rightarrow> Inl ''Invalid character'')"

definition hex_std :: hex_crate where
  "hex_std = \<lparr>hex_encode = \<lambda>bs. concat (map hex_byte bs), hex_decode = hex_std_decode\<rparr>"

text \<open>Stand-ins with the interface laws of the real primitives and none of their strength.\<close>

definition sum_tag :: "nat \<Rightarrow> bytes \<Rightarrow> bytes" where
  "sum_tag n m = replicate n (sum_list m)"

definition crypto_std :: crypto_crate where
  "crypto_std = \<lparr>
     blake2b512 = sum_tag 64,
     sha256 = sum_tag 32,
     hkdf_sha256 = \<lambda>salt ikm info n. sum_tag n (salt @ ikm @ info),
     xchacha_encrypt = \<lambda>k n m aad. Some (m @ sum_tag 16 (k @ n @ m @ aad)),
     xchacha_decrypt = \<lambda>k n ct aad.
       (let m = take (length ct - 16) ct
        in if ct = m @ sum_tag 16 (k @ n @ m @ aad) then Some m else None),
     ed25519_public = sum_tag 32,
     ed25519_sign = \<lambda>sk m. sum_tag 64 (sum_tag 32 sk @ m),
     ed25519_point = \<lambda>pk. length pk = 32,
     ed25519_verify = \<lambda>pk m s. s = sum_tag 64 (pk @ m),
     x25519_public = sum_tag 32,
     x25519_dh = \<lambda>a pb. map ((+) (sum_list a)) pb,
     x25519_contributory = \<lambda>s. s \<noteq> replicate 32 0,
     argon2id = \<lambda>pw salt. Inr (sum_tag 32 (pw @ salt))\<rparr>"

subsection \<open>Lemmas\<close>

lemma hex_digits_simps: "length hex_digits = 16" "distinct hex_digits"
  by (simp_all add: hex_digits_def)

lemma hex_val_Some: "hex_val c = Some n \<longleftrightarrow> n < 16 \<and> ascii_lower c = hex_digits ! n"
proof -
  have d: "distinct (map fst (zip hex_digits [0..<16]))" by (simp add: hex_digits_simps)
  show ?thesis unfolding hex_val_def map_of_eq_Some_iff[OF d]
    by (auto simp: in_set_zip hex_digits_simps)
qed

lemma unat_byte_split: "unat (b::byte) div 16 < 16" "word_of_nat (16 * (unat b div 16) + unat b mod 16) = b"
proof -
  have "unat b < 256" using unsigned_less[of b, where 'a = nat] by simp
  then show "unat b div 16 < 16" by simp
  have "16 * (unat b div 16) + unat b mod 16 = unat b" by simp
  then show "word_of_nat (16 * (unat b div 16) + unat b mod 16) = b" by (simp only: of_nat_unat ucast_id)
qed

lemma byte_of_nibbles: "m < 16 \<Longrightarrow> n < 16 \<Longrightarrow> unat (word_of_nat (16 * m + n) :: byte) = 16 * m + n"
  by (simp only: unat_of_nat) simp

lemma hex_byte_eq:
  "[c, d] = hex_byte b \<longleftrightarrow>
     (\<exists>m n. m < 16 \<and> n < 16 \<and> c = hex_digits ! m \<and> d = hex_digits ! n \<and> b = word_of_nat (16 * m + n))"
proof
  assume "[c, d] = hex_byte b"
  then show "\<exists>m n. m < 16 \<and> n < 16 \<and> c = hex_digits ! m \<and> d = hex_digits ! n \<and> b = word_of_nat (16 * m + n)"
    unfolding hex_byte_def
    by (intro exI[of _ "unat b div 16"] exI[of _ "unat b mod 16"]) (simp add: unat_byte_split)
qed (elim exE conjE, simp only: hex_byte_def byte_of_nibbles, simp)

lemma hex_std_decode_iff:
  "hex_std_decode s = Inr bs \<longleftrightarrow> map ascii_lower s = concat (map hex_byte bs)"
proof (induction s arbitrary: bs rule: induct_list012)
  case 1
  show ?case by (auto simp: hex_byte_def)
next
  case (2 c)
  show ?case by (cases bs) (auto simp: hex_byte_def)
next
  case (3 c d s)
  have "hex_std_decode (c # d # s) = Inr bs \<longleftrightarrow>
      (\<exists>m n bs'. hex_val c = Some m \<and> hex_val d = Some n \<and> hex_std_decode s = Inr bs' \<and>
        bs = word_of_nat (16 * m + n) # bs')"
    by (auto simp: result_simps split: option.splits)
  also have "\<dots> \<longleftrightarrow> (\<exists>b bs'. bs = b # bs' \<and> [ascii_lower c, ascii_lower d] = hex_byte b \<and>
      map ascii_lower s = concat (map hex_byte bs'))"
    unfolding hex_byte_eq 3 by (auto simp: hex_val_Some)
  also have "\<dots> \<longleftrightarrow> map ascii_lower (c # d # s) = concat (map hex_byte bs)"
    by (cases bs) (auto simp: hex_byte_def)
  finally show ?case .
qed

lemma hex_std_ok: "hex_ok hex_std"
  unfolding hex_ok_def
proof (intro conjI allI)
  fix bs :: bytes
  show "length (hex_encode hex_std bs) = 2 * length bs"
    by (induction bs) (simp_all add: hex_std_def hex_byte_def)
  show "set (hex_encode hex_std bs) \<subseteq> set hex_digits"
  proof (induction bs)
    case (Cons b bs)
    have "hex_digits ! n \<in> set hex_digits" if "n < 16" for n
      using that by (simp add: hex_digits_simps)
    from this[of "unat b div 16"] this[of "unat b mod 16"] Cons show ?case
      by (simp add: hex_std_def hex_byte_def unat_byte_split)
  qed (simp add: hex_std_def)
next
  fix s bs
  show "hex_decode hex_std s = Inr bs \<longleftrightarrow> to_ascii_lowercase s = hex_encode hex_std bs"
    by (simp add: hex_std_def to_ascii_lowercase_def hex_std_decode_iff)
qed

lemma hex_digits_lower: "set s \<subseteq> set hex_digits \<Longrightarrow> to_ascii_lowercase s = s"
  unfolding to_ascii_lowercase_def by (rule map_idI) (auto simp: hex_digits_def ascii_lower_def)

lemma hex_digits_graphic: "c \<in> set hex_digits \<Longrightarrow> graphic c"
  by (auto simp: hex_digits_def graphic_def)

lemma hex_length: "hex_ok h \<Longrightarrow> length (hex_encode h bs) = 2 * length bs"
  by (simp add: hex_ok_def)

lemma hex_set: "hex_ok h \<Longrightarrow> set (hex_encode h bs) \<subseteq> set hex_digits"
  by (simp add: hex_ok_def)

lemma hex_decode_iff:
  "hex_ok h \<Longrightarrow> hex_decode h s = Inr bs \<longleftrightarrow> to_ascii_lowercase s = hex_encode h bs"
  by (simp add: hex_ok_def)

lemma hex_decode_encode: "hex_ok h \<Longrightarrow> hex_decode h (hex_encode h bs) = Inr bs"
  by (simp add: hex_decode_iff hex_digits_lower hex_set)

lemma hex_encode_inj: "hex_ok h \<Longrightarrow> hex_encode h bs = hex_encode h cs \<longleftrightarrow> bs = cs"
  by (metis hex_decode_encode sum.inject(2))

lemma hex_decode_length: "hex_ok h \<Longrightarrow> hex_decode h s = Inr bs \<Longrightarrow> length s = 2 * length bs"
  using hex_length[of h bs] by (simp add: hex_decode_iff to_ascii_lowercase_def) (metis length_map)

text \<open>The encoding survives \<open>trim()\<close> and \<open>trim_start_matches("0x")\<close>.\<close>

lemma hex_trim: "hex_ok h \<Longrightarrow> trim (hex_encode h bs) = hex_encode h bs"
proof (rule trim_graphic, cases "hex_encode h bs = []")
  case False
  assume "hex_ok h"
  from False hex_set[OF this, of bs] have "hd (hex_encode h bs) \<in> set hex_digits" "last (hex_encode h bs) \<in> set hex_digits"
    by (auto simp: subset_iff)
  then show "hex_encode h bs = [] \<or> graphic (hd (hex_encode h bs)) \<and> graphic (last (hex_encode h bs))"
    by (simp add: hex_digits_graphic)
qed simp

lemma hex_no_0x: "hex_ok h \<Longrightarrow> trim_start_matches ''0x'' (hex_encode h bs) = hex_encode h bs"
proof (rule trim_start_matches_id, rule notI)
  assume h: "hex_ok h" and "starts_with ''0x'' (hex_encode h bs)"
  then have "CHR ''x'' \<in> set (hex_encode h bs)" by (auto simp: starts_with_iff)
  with hex_set[OF h, of bs] have "CHR ''x'' \<in> set hex_digits" by blast
  then show False by (simp add: hex_digits_def)
qed

lemma length_sum_tag [simp]: "length (sum_tag n m) = n"
  by (simp add: sum_tag_def)

lemma crypto_std_ok: "crypto_ok crypto_std"
proof -
  have "digests_ok crypto_std" by (simp add: digests_ok_def crypto_std_def)
  moreover have "aead_ok crypto_std"
    unfolding aead_ok_def crypto_std_def by (auto simp: Let_def)
  moreover have "ed25519_ok crypto_std" by (simp add: ed25519_ok_def crypto_std_def)
  moreover have "x25519_ok crypto_std"
    by (simp add: x25519_ok_def crypto_std_def sum_tag_def add.commute)
  moreover have "argon2_ok crypto_std" by (simp add: argon2_ok_def crypto_std_def)
  ultimately show ?thesis by (simp add: crypto_ok_def)
qed

lemma length_digest [simp, bytes_simps]:
  "digests_ok cr \<Longrightarrow> length (blake2b512 cr m) = 64"
  "digests_ok cr \<Longrightarrow> length (sha256 cr m) = 32"
  "digests_ok cr \<Longrightarrow> length (hkdf_sha256 cr salt ikm info n) = n"
  by (simp_all add: digests_ok_def)

lemma aead_encrypts:
  assumes "aead_ok cr" "length k = 32" "length n = 24" "length m \<le> 2 ^ 37"
  obtains ct where "xchacha_encrypt cr k n m aad = Some ct"
  using assms unfolding aead_ok_def by blast

lemma aead_length: "aead_ok cr \<Longrightarrow> xchacha_encrypt cr k n m aad = Some ct \<Longrightarrow> length ct = length m + 16"
  by (auto simp: aead_ok_def)

lemma aead_decrypt_iff:
  "aead_ok cr \<Longrightarrow> xchacha_decrypt cr k n ct aad = Some m \<longleftrightarrow> xchacha_encrypt cr k n m aad = Some ct"
  by (simp add: aead_ok_def)

lemma ed25519_laws:
  assumes "ed25519_ok cr"
  shows "length (ed25519_public cr sk) = 32" "ed25519_point cr (ed25519_public cr sk)"
    "length (ed25519_sign cr sk m) = 64"
    "ed25519_verify cr (ed25519_public cr sk) m (ed25519_sign cr sk m)"
  using assms by (simp_all add: ed25519_ok_def)

lemma crypto_okD:
  assumes "crypto_ok cr"
  shows "digests_ok cr" "aead_ok cr" "ed25519_ok cr" "x25519_ok cr" "argon2_ok cr"
  using assms by (simp_all add: crypto_ok_def)

end
