(* ===== verification/Shamir.thy ===== *)
theory Shamir
  imports Gf256 Lagrange Crates
begin

text \<open>
  The secret sharing of \<open>src/crates/crypto/src/shamir.rs\<close>: \<open>split_secret\<close> and
  \<open>combine_shares\<close> with their loops and checks, and the hex form of a share.
  The calls of \<open>thread_rng().next_u32()\<close> are an argument \<open>rng\<close>: \<open>rng k\<close> is the
  result of the \<open>k\<close>-th call. The lemmas connect the byte loops to polynomials over
  the field \<^typ>\<open>gf\<close>.
\<close>

subsection \<open>Shares\<close>

record ShamirShare =
  sh_index :: byte
  sh_data :: bytes

definition share_new :: "byte \<Rightarrow> bytes \<Rightarrow> ShamirShare" where
  "share_new index data = \<lparr>sh_index = index, sh_data = data\<rparr>"

definition share_to_hex :: "hex_crate \<Rightarrow> ShamirShare \<Rightarrow> string" where
  "share_to_hex h s = hex_encode h (sh_data s)"

definition share_from_hex :: "hex_crate \<Rightarrow> byte \<Rightarrow> string \<Rightarrow> CryptoError + ShamirShare" where
  "share_from_hex h index hex_str =
     (let clean = trim_start_matches ''0x'' (trim hex_str)
      in rbind (rmap_err (\<lambda>e. ThresholdError (''Invalid share hex: '' @ e)) (hex_decode h clean))
           (\<lambda>bytes. if length bytes \<noteq> 32 then Inl (InvalidKeyLength 32 (length bytes))
                    else Inr \<lparr>sh_index = index, sh_data = bytes\<rparr>))"

subsection \<open>Splitting\<close>

text \<open>The coefficients above the constant one, from the draws \<open>pos\<close> onwards.\<close>

definition draw_coeffs :: "(nat \<Rightarrow> u32) \<Rightarrow> nat \<Rightarrow> nat \<Rightarrow> bytes" where
  "draw_coeffs rng pos n = map (\<lambda>i. ucast (rng (pos + i) AND 0xFF)) [0..<n]"

text \<open>One turn of the loop over the byte positions; the state is the buffers and the number of draws.\<close>

definition split_byte ::
  "(nat \<Rightarrow> u32) \<Rightarrow> bytes \<Rightarrow> byte \<Rightarrow> bytes list \<times> nat \<Rightarrow> nat \<Rightarrow> bytes list \<times> nat" where
  "split_byte rng secret threshold st byte_idx =
     (let (shares_data, pos) = st;
          n = unat threshold - 1;
          poly = secret ! byte_idx # draw_coeffs rng pos n
      in (map (\<lambda>(share_idx, share_buf).
             let x = word_of_nat (share_idx + 1)
             in share_buf[byte_idx := gf_poly_eval poly x])
           (enumerate 0 shares_data),
          pos + n))"

definition split_secret ::
  "(nat \<Rightarrow> u32) \<Rightarrow> bytes \<Rightarrow> byte \<Rightarrow> byte \<Rightarrow> CryptoError + ShamirShare list" where
  "split_secret rng secret threshold total_shares =
     (if threshold < 2 then Inl (ThresholdError ''Threshold (M) must be at least 2'')
      else if total_shares < threshold then
        Inl (ThresholdError (''Total shares (N='' @ show_word total_shares @
          '') cannot be less than threshold (M='' @ show_word threshold @ '')''))
      else
        (let shares_data = replicate (unat total_shares) (replicate 32 0);
             (shares_data, _) = foldl (split_byte rng secret threshold) (shares_data, 0) [0..<32]
         in Inr (map (\<lambda>(i, data). \<lparr>sh_index = word_of_nat (i + 1), sh_data = data\<rparr>)
                  (enumerate 0 shares_data))))"

subsection \<open>Combining\<close>

fun check_indices :: "byte set \<Rightarrow> ShamirShare list \<Rightarrow> CryptoError + unit" where
  "check_indices seen [] = Inr ()"
| "check_indices seen (share # shares) =
     (if sh_index share = 0 then
        Inl (ThresholdError ''Invalid share index: 0 is reserved for the secret'')
      else if sh_index share \<in> seen then
        Inl (ThresholdError (''Duplicate share index '' @ show_word (sh_index share) @ '' provided''))
      else check_indices (insert (sh_index share) seen) shares)"

text \<open>The inner loop over \<open>shares.iter().enumerate()\<close> for the share at position \<open>j\<close>.\<close>

fun weight_loop :: "nat \<Rightarrow> byte \<Rightarrow> (nat \<times> ShamirShare) list \<Rightarrow> byte \<Rightarrow> CryptoError + byte" where
  "weight_loop j xj [] w = Inr w"
| "weight_loop j xj ((k, other_share) # rest) w =
     (if k = j then weight_loop j xj rest w
      else
        (let xk = sh_index other_share;
             denom = xj XOR xk
         in rbind (gf_div xk denom) (\<lambda>factor. weight_loop j xj rest (gf_mul w factor))))"

definition lagrange_weights :: "ShamirShare list \<Rightarrow> CryptoError + bytes" where
  "lagrange_weights shares =
     rtraverse (\<lambda>(j, share). weight_loop j (sh_index share) (enumerate 0 shares) 1) (enumerate 0 shares)"

definition combine_byte :: "ShamirShare list \<Rightarrow> bytes \<Rightarrow> nat \<Rightarrow> byte" where
  "combine_byte shares weights byte_idx =
     foldl (\<lambda>acc (j, share). acc XOR gf_mul (sh_data share ! byte_idx) (weights ! j)) 0 (enumerate 0 shares)"

definition combine_shares :: "ShamirShare list \<Rightarrow> CryptoError + bytes" where
  "combine_shares shares =
     (if shares = [] then Inl (ThresholdError ''At least one share is required'')
      else
        rbind (check_indices {} shares) (\<lambda>_.
          if length shares < 2 then
            Inl (ThresholdError ''At least 2 shares are required to reconstruct threshold secret'')
          else
            rbind (lagrange_weights shares) (\<lambda>weights.
              Inr (map (combine_byte shares weights) [0..<32]))))"

subsection \<open>Polynomials over bytes and over the field\<close>

lemma gf_poly_eval_hpoly: "Gf (gf_poly_eval cs x) = hpoly (map Gf cs) (Gf x)"
proof -
  have "gf_poly_eval cs x = foldr (\<lambda>c r. gf_mul r x XOR c) cs 0"
    by (simp add: gf_poly_eval_def foldl_conv_foldr)
  moreover have "Gf (foldr (\<lambda>c r. gf_mul r x XOR c) cs 0) = hpoly (map Gf cs) (Gf x)"
    by (induction cs) (simp_all add: Gf_ops)
  ultimately show ?thesis by simp
qed

text \<open>The closed form of the polynomial and of the share of a byte position.\<close>

definition split_poly :: "(nat \<Rightarrow> u32) \<Rightarrow> bytes \<Rightarrow> nat \<Rightarrow> nat \<Rightarrow> bytes" where
  "split_poly rng secret m byte_idx = secret ! byte_idx # draw_coeffs rng (byte_idx * (m - 1)) (m - 1)"

definition share_of :: "(nat \<Rightarrow> u32) \<Rightarrow> bytes \<Rightarrow> nat \<Rightarrow> nat \<Rightarrow> ShamirShare" where
  "share_of rng secret m i = \<lparr>sh_index = word_of_nat (i + 1),
     sh_data = map (\<lambda>b. gf_poly_eval (split_poly rng secret m b) (word_of_nat (i + 1))) [0..<32]\<rparr>"

lemma length_split_poly: "0 < m \<Longrightarrow> length (split_poly rng secret m b) = m"
  by (simp add: split_poly_def draw_coeffs_def)

lemma split_byte_closed:
  "split_byte rng secret threshold (map h [0..<n], pos) b =
     (map (\<lambda>i. (h i)[b := gf_poly_eval (secret ! b # draw_coeffs rng pos (unat threshold - 1)) (word_of_nat (i + 1))]) [0..<n],
      pos + (unat threshold - 1))"
  unfolding split_byte_def Let_def prod.case
  by (auto intro!: nth_equalityI simp: nth_enumerate_eq)

lemma split_loop:
  assumes "k \<le> 32"
  shows "foldl (split_byte rng secret threshold) (replicate n (replicate 32 0), 0) [0..<k] =
    (map (\<lambda>i. map (\<lambda>b. if b < k then gf_poly_eval (split_poly rng secret (unat threshold) b) (word_of_nat (i + 1))
                      else 0) [0..<32]) [0..<n],
     k * (unat threshold - 1))"
  using assms
proof (induction k)
  case 0
  show ?case by (simp add: map_replicate_const)
next
  case (Suc k)
  have upd: "(map (\<lambda>b. if b < k then f b else 0) [0..<32])[k := f k] =
      map (\<lambda>b. if b < Suc k then f b else (0::byte)) [0..<32]" for f
    using Suc.prems by (intro nth_equalityI) (auto simp: nth_list_update)
  have "[0..<Suc k] = [0..<k] @ [k]" by simp
  then show ?case
    using Suc upd[of "\<lambda>b. gf_poly_eval (split_poly rng secret (unat threshold) b) (word_of_nat (i + 1))" for i]
    by (simp only: foldl_append foldl.simps Suc_leD split_byte_closed split_poly_def) simp
qed

lemma split_secret_closed:
  assumes "2 \<le> threshold" "threshold \<le> total_shares"
  shows "split_secret rng secret threshold total_shares =
    Inr (map (share_of rng secret (unat threshold)) [0..<unat total_shares])"
proof -
  have "\<not> threshold < 2" "\<not> total_shares < threshold" using assms by (simp_all add: not_less)
  then show ?thesis unfolding split_secret_def Let_def split_loop[OF order.refl]
    by (auto intro!: nth_equalityI simp: nth_enumerate_eq share_of_def)
qed

subsection \<open>The checks of \<open>combine_shares\<close>\<close>

lemma check_indices_ok:
  "check_indices seen shares = Inr () \<longleftrightarrow>
     0 \<notin> set (map sh_index shares) \<and> distinct (map sh_index shares) \<and>
     seen \<inter> set (map sh_index shares) = {}"
  by (induction shares arbitrary: seen) auto

subsection \<open>The weights are Lagrange's coefficients at zero\<close>

lemma weight_loop_prod:
  assumes "\<And>k s. (k, s) \<in> set ps \<Longrightarrow> k = j \<longleftrightarrow> sh_index s = xj"
  shows "weight_loop j xj ps w =
    Inr (ungf (Gf w * (\<Prod>y\<leftarrow>filter (\<lambda>y. y \<noteq> xj) (map (\<lambda>p. sh_index (snd p)) ps). Gf y / (Gf xj + Gf y))))"
  using assms
proof (induction ps arbitrary: w)
  case (Cons p ps)
  obtain k s where p: "p = (k, s)" by (cases p)
  have IH: "weight_loop j xj ps w =
      Inr (ungf (Gf w * (\<Prod>y\<leftarrow>filter (\<lambda>y. y \<noteq> xj) (map (\<lambda>p. sh_index (snd p)) ps). Gf y / (Gf xj + Gf y))))" for w
    by (rule Cons.IH) (use Cons.prems in auto)
  show ?case
  proof (cases "k = j")
    case True
    then have "sh_index s = xj" using Cons.prems[of k s] p by simp
    then show ?thesis using True p IH by simp
  next
    case False
    then have ne: "sh_index s \<noteq> xj" using Cons.prems[of k s] p by simp
    then have "xj XOR sh_index s \<noteq> 0" by (metis xor_self_eq xor.right_neutral xor.left_commute)
    then show ?thesis using False p ne
      by (simp add: gf_div_field IH times_gf_def[symmetric] Gf_ops mult.assoc del: gf.collapse)
        (simp add: Gf_ops Let_def)
  qed
qed simp

lemma lagrange_at_zero:
  fixes xs :: "byte list"
  assumes "distinct xs"
  shows "(\<Prod>y\<leftarrow>filter (\<lambda>y. y \<noteq> x) xs. Gf y / (Gf x + Gf y)) = lagrange (Gf ` set xs) (Gf x) 0"
proof -
  have "(\<Prod>y\<leftarrow>filter (\<lambda>y. y \<noteq> x) xs. Gf y / (Gf x + Gf y)) =
      (\<Prod>y\<in>set xs - {x}. Gf y / (Gf x + Gf y))"
    using assms by (simp add: prod.distinct_set_conv_list[symmetric] set_diff_eq)
  also have "\<dots> = (\<Prod>y\<in>Gf ` (set xs - {x}). (0 - y) / (Gf x - y))"
    by (subst prod.reindex) (auto simp: inj_on_def minus_gf_def plus_gf_def zero_gf_def)
  also have "Gf ` (set xs - {x}) = Gf ` set xs - {Gf x}" by auto
  finally show ?thesis by (simp add: lagrange_def)
qed

lemma lagrange_weights_closed:
  assumes "distinct (map sh_index shares)"
  shows "lagrange_weights shares =
    Inr (map (\<lambda>s. ungf (lagrange (Gf ` set (map sh_index shares)) (Gf (sh_index s)) 0)) shares)"
proof -
  let ?S = "Gf ` set (map sh_index shares)"
  have "lagrange_weights shares =
      Inr (map (\<lambda>p. ungf (lagrange ?S (Gf (sh_index (snd p))) 0)) (enumerate 0 shares))"
    unfolding lagrange_weights_def
  proof (rule rtraverse_map)
    fix p assume "p \<in> set (enumerate 0 shares)"
    then have "fst p < length shares" "p = (fst p, shares ! fst p)"
      by (simp_all add: in_set_enumerate_eq prod_eq_iff)
    then obtain j where j: "j < length shares" "p = (j, shares ! j)" by blast
    have "weight_loop j (sh_index (shares ! j)) (enumerate 0 shares) 1 =
        Inr (ungf (\<Prod>y\<leftarrow>filter (\<lambda>y. y \<noteq> sh_index (shares ! j)) (map (\<lambda>p. sh_index (snd p)) (enumerate 0 shares)).
          Gf y / (Gf (sh_index (shares ! j)) + Gf y)))"
      by (subst weight_loop_prod)
        (use assms j in \<open>auto simp: in_set_enumerate_eq distinct_conv_nth one_gf_def[symmetric]\<close>)
    also have "map (\<lambda>p. sh_index (snd p)) (enumerate 0 shares) = map sh_index shares"
      by (intro nth_equalityI) (simp_all add: nth_enumerate_eq)
    finally show "(case p of (j, share) \<Rightarrow> weight_loop j (sh_index share) (enumerate 0 shares) 1) =
        Inr (ungf (lagrange ?S (Gf (sh_index (snd p))) 0))"
      using j by (simp add: lagrange_at_zero[OF assms])
  qed
  also have "map (\<lambda>p. ungf (lagrange ?S (Gf (sh_index (snd p))) 0)) (enumerate 0 shares) =
      map (\<lambda>s. ungf (lagrange ?S (Gf (sh_index s)) 0)) shares"
    by (intro nth_equalityI) (simp_all add: nth_enumerate_eq)
  finally show ?thesis .
qed

lemma combine_byte_sum:
  assumes "length ws = length shares"
  shows "Gf (combine_byte shares ws b) = (\<Sum>j<length shares. Gf (sh_data (shares ! j) ! b) * Gf (ws ! j))"
proof -
  let ?t = "\<lambda>j s. gf_mul (sh_data s ! b) (ws ! j)"
  have "Gf (foldl (\<lambda>acc (j, s). acc XOR ?t j s) a ps) = Gf a + (\<Sum>(j, s)\<leftarrow>ps. Gf (?t j s))" for a ps
    by (induction ps arbitrary: a) (auto simp: Gf_ops add.assoc)
  from this[of 0 "enumerate 0 shares"]
  have "Gf (combine_byte shares ws b) = (\<Sum>(j, s)\<leftarrow>enumerate 0 shares. Gf (?t j s))"
    by (simp only: combine_byte_def Gf_ops(1) add_0)
  also have "\<dots> = (\<Sum>j\<leftarrow>[0..<length shares]. Gf (?t j (shares ! j)))"
    by (rule arg_cong[of _ _ sum_list]) (auto intro!: nth_equalityI simp: nth_enumerate_eq)
  also have "\<dots> = (\<Sum>j<length shares. Gf (?t j (shares ! j)))"
    by (simp add: sum_list_distinct_conv_sum_set atLeast0LessThan)
  finally show ?thesis by (simp add: Gf_ops)
qed

subsection \<open>Reconstruction\<close>

text \<open>Shares on polynomials with at most as many coefficients as there are shares give the constant terms.\<close>

lemma combine_shares_interpolates:
  assumes "2 \<le> length shares" "distinct (map sh_index shares)" "0 \<notin> set (map sh_index shares)"
    and deg: "\<And>b. b < 32 \<Longrightarrow> length (P b) \<le> length shares"
    and vals: "\<And>s b. s \<in> set shares \<Longrightarrow> b < 32 \<Longrightarrow> sh_data s ! b = gf_poly_eval (P b) (sh_index s)"
  shows "combine_shares shares = Inr (map (\<lambda>b. gf_poly_eval (P b) 0) [0..<32])"
proof -
  let ?xs = "map sh_index shares"
  let ?S = "Gf ` set ?xs"
  let ?w = "\<lambda>s. ungf (lagrange ?S (Gf (sh_index s)) 0)"
  have len: "Suc 0 < length shares" "shares \<noteq> []" using assms(1) by auto
  have "combine_byte shares (map ?w shares) b = gf_poly_eval (P b) 0" if b: "b < 32" for b
  proof -
    have "Gf (combine_byte shares (map ?w shares) b) =
        (\<Sum>j<length shares. hpoly (map Gf (P b)) (Gf (?xs ! j)) * lagrange ?S (Gf (?xs ! j)) 0)"
      using b by (subst combine_byte_sum) (auto intro!: sum.cong simp: vals gf_poly_eval_hpoly)
    also have "\<dots> = (\<Sum>x\<in>set ?xs. hpoly (map Gf (P b)) (Gf x) * lagrange ?S (Gf x) 0)"
      using assms(2) by (intro sum.reindex_bij_betw bij_betw_nth) auto
    also have "\<dots> = (\<Sum>x\<in>?S. hpoly (map Gf (P b)) x * lagrange ?S x 0)"
      by (subst sum.reindex) (auto simp: inj_on_def)
    also have "\<dots> = hpoly (map Gf (P b)) 0"
    proof (rule lagrange_interpolation)
      have "card ?S = length shares"
        using assms(2) distinct_card[of ?xs] by (subst card_image) (auto simp: inj_on_def)
      then show "length (map Gf (P b)) \<le> card ?S" using deg[OF b] by simp
    qed simp
    also have "\<dots> = Gf (gf_poly_eval (P b) 0)" by (simp add: gf_poly_eval_hpoly zero_gf_def)
    finally show ?thesis by simp
  qed
  moreover have "check_indices {} shares = Inr ()" using assms by (simp add: check_indices_ok)
  ultimately show ?thesis using assms(2) len
    by (simp add: combine_shares_def lagrange_weights_closed not_less)
qed

lemma gf_poly_eval_0: "gf_poly_eval (c # cs) 0 = c"
  using gf_poly_eval_hpoly[of "c # cs" 0] by (simp add: Gf_ops)

text \<open>The indices of the shares of one split are pairwise different and nonzero.\<close>

lemma share_of_index: "i < 255 \<Longrightarrow> unat (sh_index (share_of rng secret m i)) = i + 1"
proof -
  assume "i < 255"
  moreover have "unat (word_of_nat (i + 1) :: byte) = (i + 1) mod 2 ^ LENGTH(8)" by (rule unat_of_nat)
  ultimately show ?thesis unfolding share_of_def by simp
qed

lemma share_count: "unat (n :: byte) \<le> 255"
  using unsigned_less[of n, where 'a = nat] by simp

lemma split_share_cases:
  assumes "split_secret rng secret threshold total_shares = Inr all"
  obtains "2 \<le> threshold" "threshold \<le> total_shares"
    "all = map (share_of rng secret (unat threshold)) [0..<unat total_shares]"
proof -
  from assms have le: "2 \<le> threshold" "threshold \<le> total_shares"
    by (auto simp: split_secret_def not_less split: if_splits)
  with assms show ?thesis using that by (simp add: split_secret_closed)
qed

lemma split_indices_inj:
  assumes "split_secret rng secret threshold total_shares = Inr all"
  shows "inj_on sh_index (set all)" "0 \<notin> sh_index ` set all"
proof -
  obtain m where all: "all = map (share_of rng secret m) [0..<unat total_shares]"
    using split_share_cases[OF assms] by metis
  have ix: "unat (sh_index (share_of rng secret m i)) = i + 1" if "i < unat total_shares" for i
    using that share_count[of total_shares] by (intro share_of_index) simp
  then show "inj_on sh_index (set all)" unfolding all inj_on_def by auto (metis Suc_inject)
  show "0 \<notin> sh_index ` set all" unfolding all
    using ix by auto (metis Zero_not_Suc unsigned_0)
qed

lemma combine_split:
  assumes all: "split_secret rng secret threshold total_shares = Inr all"
    and sub: "set shares \<subseteq> set all" "distinct shares" "unat threshold \<le> length shares"
    and "length secret = 32"
  shows "combine_shares shares = Inr secret"
  using all
proof (cases rule: split_share_cases)
  case 1
  let ?m = "unat threshold"
  have m: "2 \<le> ?m" using 1(1) by (simp add: word_le_nat_alt)
  have "combine_shares shares = Inr (map (\<lambda>b. gf_poly_eval (split_poly rng secret ?m b) 0) [0..<32])"
  proof (rule combine_shares_interpolates)
    have inj: "inj_on sh_index (set shares)" using inj_on_subset[OF split_indices_inj(1)[OF all] sub(1)] .
    then show "distinct (map sh_index shares)" using sub(2) by (simp add: distinct_map)
    show "0 \<notin> set (map sh_index shares)" using split_indices_inj(2)[OF all] sub(1) by auto
    show "2 \<le> length shares" using m sub(3) by linarith
    show "length (split_poly rng secret ?m b) \<le> length shares" for b
      using m sub(3) by (subst length_split_poly) auto
    fix s b assume "s \<in> set shares" and b: "b < (32::nat)"
    then obtain i where "s = share_of rng secret ?m i" using sub(1) 1(3) by auto
    then show "sh_data s ! b = gf_poly_eval (split_poly rng secret ?m b) (sh_index s)"
      using b by (simp add: share_of_def)
  qed
  also have "\<dots> = Inr secret"
    unfolding split_poly_def gf_poly_eval_0 using assms(5) by (simp add: map_nth flip: assms(5))
  finally show ?thesis .
qed

subsection \<open>Secrecy below the threshold\<close>

lemma gf_poly_free_values:
  assumes "distinct xs" "0 \<notin> set xs" "length ys = length xs"
  shows "\<exists>!cs. length cs = length xs \<and> map (gf_poly_eval (s # cs)) xs = ys"
proof -
  have ev: "map (gf_poly_eval (s # cs)) xs = ys \<longleftrightarrow> map (hpoly (Gf s # map Gf cs)) (map Gf xs) = map Gf ys" for cs
  proof -
    have "map (hpoly (Gf s # map Gf cs)) (map Gf xs) = map Gf (map (gf_poly_eval (s # cs)) xs)"
      by (simp add: gf_poly_eval_hpoly)
    moreover have "map Gf us = map Gf vs \<longleftrightarrow> us = vs" for us vs
      by (rule inj_map_eq_map) (simp add: inj_on_def)
    ultimately show ?thesis by (simp only:)
  qed
  have "\<exists>!cs. length cs = length (map Gf xs) \<and> map (hpoly (Gf s # cs)) (map Gf xs) = map Gf ys"
    using assms by (intro hpoly_free_values) (auto simp: distinct_map inj_on_def)
  then obtain cs where cs: "length cs = length xs" "map (hpoly (Gf s # cs)) (map Gf xs) = map Gf ys"
    and uniq: "\<And>ds. length ds = length xs \<Longrightarrow> map (hpoly (Gf s # ds)) (map Gf xs) = map Gf ys \<Longrightarrow> ds = cs"
    unfolding length_map by blast
  show ?thesis
  proof (rule ex1I[of _ "map ungf cs"])
    show "length (map ungf cs) = length xs \<and> map (gf_poly_eval (s # map ungf cs)) xs = ys"
      unfolding ev using cs by (simp add: comp_def)
    fix ds assume "length ds = length xs \<and> map (gf_poly_eval (s # ds)) xs = ys"
    then have "map Gf ds = cs" unfolding ev by (intro uniq) simp_all
    then show "ds = map ungf cs" by (auto simp: comp_def)
  qed
qed

text \<open>A list cut into blocks of equal length.\<close>

lemma take_drop_concat_blocks:
  assumes "\<And>b. b < n \<Longrightarrow> length (f b) = k" "b < n"
  shows "take k (drop (b * k) (concat (map f [0..<n]))) = f b"
  using assms
proof (induction n)
  case (Suc n)
  have "length (concat (map f [0..<n])) = sum_list (map (\<lambda>b. k) [0..<n])"
    unfolding length_concat map_map by (rule arg_cong[of _ _ sum_list]) (simp add: Suc.prems)
  then have len: "length (concat (map f [0..<n])) = n * k" by (simp add: sum_list_triv)
  show ?case
  proof (cases "b = n")
    case True
    then show ?thesis using len Suc.prems by simp
  next
    case False
    then have b: "b < n" using Suc.prems by simp
    then have "Suc b * k \<le> n * k" by (intro mult_le_mono1) simp
    then show ?thesis using len Suc.IH Suc.prems b by simp
  qed
qed simp

lemma blocks_eqI:
  assumes "length d = n * k" "length e = n * k"
    and "\<And>b. b < n \<Longrightarrow> take k (drop (b * k) d) = take k (drop (b * k) e)"
  shows "d = e"
proof (rule nth_equalityI)
  fix i assume i: "i < length d"
  then have k: "0 < k" using assms(1) by (cases k) auto
  let ?b = "i div k" and ?r = "i mod k"
  have ir: "?b * k + ?r = i" "?r < k" using k by simp_all
  have "?b < n" using i assms(1) k by (simp add: less_mult_imp_div_less)
  then have "take k (drop (?b * k) d) ! ?r = take k (drop (?b * k) e) ! ?r" using assms(3) by simp
  moreover have "?b * k \<le> length d" "?b * k \<le> length e" using ir i assms(1,2) by linarith+
  ultimately show "d ! i = e ! i" using ir by simp
qed (simp add: assms)

text \<open>A generator whose draws have the given low bytes.\<close>

definition rng_of :: "bytes \<Rightarrow> nat \<Rightarrow> u32" where
  "rng_of draws k = (if k < length draws then ucast (draws ! k) else 0)"

lemma ucast_low_byte: "ucast (ucast (b::byte) AND (0xFF::u32)) = b"
proof (rule bit_word_eqI)
  have "(0xFF::u32) = mask 8" by (simp add: mask_eq_exp_minus_1)
  then show "bit (ucast (ucast b AND (0xFF::u32)) :: byte) n = bit b n" if "n < LENGTH(8)" for n
    using that by (simp only: bit_simps) simp
qed

lemma draw_coeffs_rng_of:
  assumes "pos + n \<le> length draws"
  shows "draw_coeffs (rng_of draws) pos n = take n (drop pos draws)"
  using assms by (intro nth_equalityI) (auto simp: draw_coeffs_def rng_of_def ucast_low_byte)

text \<open>The points of the shares at the positions \<open>I\<close>, and the coefficients that explain their values.\<close>

definition share_points :: "nat list \<Rightarrow> bytes" where
  "share_points I = map (\<lambda>i. word_of_nat (i + 1)) I"

definition explains :: "(nat \<Rightarrow> u32) \<Rightarrow> bytes \<Rightarrow> bytes \<Rightarrow> nat \<Rightarrow> nat list \<Rightarrow> nat \<Rightarrow> bytes \<Rightarrow> bool" where
  "explains rng secret secret' m I b cs \<longleftrightarrow>
     length cs = m - 1 \<and>
     map (gf_poly_eval (secret' ! b # cs)) (share_points I) =
     map (gf_poly_eval (split_poly rng secret m b)) (share_points I)"

lemma share_points_distinct:
  assumes "distinct I" "set I \<subseteq> {..<255}"
  shows "distinct (share_points I)" "0 \<notin> set (share_points I)"
proof -
  have ux: "unat (word_of_nat (i + 1) :: byte) = i + 1" if "i \<in> set I" for i
    using that assms(2) share_of_index[of i] by (auto simp: share_of_def)
  have "inj_on (\<lambda>i. word_of_nat (i + 1) :: byte) (set I)"
    by (rule inj_onI) (metis ux add_right_cancel)
  then show "distinct (share_points I)" unfolding share_points_def distinct_map using assms(1) by blast
  show "0 \<notin> set (share_points I)"
  proof
    assume "0 \<in> set (share_points I)"
    then obtain i where "i \<in> set I" "(word_of_nat (i + 1) :: byte) = 0"
      unfolding share_points_def by (metis (no_types, lifting) imageE list.set_map)
    with ux[of i] show False by (simp only: unsigned_0) simp
  qed
qed

lemma explains_ex1:
  assumes "distinct I" "set I \<subseteq> {..<255}" "length I = m - 1"
  shows "\<exists>!cs. explains rng secret secret' m I b cs"
  using gf_poly_free_values[OF share_points_distinct[OF assms(1,2)],
      of "map (gf_poly_eval (split_poly rng secret m b)) (share_points I)" "secret' ! b"] assms(3)
  unfolding explains_def by (simp add: share_points_def)

lemma shares_agree_iff:
  assumes len: "length draws = 32 * (m - 1)"
  shows "(\<forall>i\<in>set I. share_of (rng_of draws) secret' m i = share_of rng secret m i) \<longleftrightarrow>
    (\<forall>b<32. explains rng secret secret' m I b (take (m - 1) (drop (b * (m - 1)) draws)))"
proof -
  have "(\<forall>i\<in>set I. share_of (rng_of draws) secret' m i = share_of rng secret m i) \<longleftrightarrow>
      (\<forall>b<32. map (gf_poly_eval (split_poly (rng_of draws) secret' m b)) (share_points I) =
        map (gf_poly_eval (split_poly rng secret m b)) (share_points I))"
    by (auto simp: share_of_def share_points_def)
  also have "\<dots> \<longleftrightarrow> (\<forall>b<32. explains rng secret secret' m I b (take (m - 1) (drop (b * (m - 1)) draws)))"
  proof (intro all_cong)
    fix b :: nat assume "b < 32"
    then have b: "b * (m - 1) + (m - 1) \<le> length draws"
      using len mult_le_mono1[of "Suc b" 32 "m - 1"] by simp
    then have "length (take (m - 1) (drop (b * (m - 1)) draws)) = m - 1" by simp
    with b show "map (gf_poly_eval (split_poly (rng_of draws) secret' m b)) (share_points I) =
        map (gf_poly_eval (split_poly rng secret m b)) (share_points I) \<longleftrightarrow>
        explains rng secret secret' m I b (take (m - 1) (drop (b * (m - 1)) draws))"
      by (simp only: split_poly_def[of "rng_of draws"] draw_coeffs_rng_of explains_def) simp
  qed
  finally show ?thesis .
qed

lemma blocks_ex1:
  assumes "\<And>b. \<exists>!cs. Q b cs" "\<And>b cs. Q b cs \<Longrightarrow> length cs = k"
  shows "\<exists>!d. length d = n * k \<and> (\<forall>b<n. Q b (take k (drop (b * k) d)))"
proof -
  obtain f where f: "\<And>b. Q b (f b)" "\<And>b cs. Q b cs \<Longrightarrow> cs = f b" using assms(1) by metis
  let ?d = "concat (map f [0..<n])"
  have blocks: "take k (drop (b * k) ?d) = f b" if "b < n" for b
    using f(1) assms(2) that by (intro take_drop_concat_blocks) auto
  have "length (f b) = k" for b using f(1) assms(2) by blast
  then have len: "length ?d = n * k" by (simp add: length_concat comp_def sum_list_triv)
  show ?thesis
  proof (rule ex1I[of _ ?d])
    show "length ?d = n * k \<and> (\<forall>b<n. Q b (take k (drop (b * k) ?d)))" by (intro conjI allI impI) (simp_all only: len blocks f(1))
    fix d assume d: "length d = n * k \<and> (\<forall>b<n. Q b (take k (drop (b * k) d)))"
    have "take k (drop (b * k) d) = take k (drop (b * k) ?d)" if "b < n" for b
      unfolding blocks[OF that] using d that by (intro f(2)) simp
    with d len show "d = ?d" by (auto intro: blocks_eqI[of d n k ?d])
  qed
qed

subsection \<open>The hex form\<close>

lemma share_from_to_hex:
  assumes "hex_ok h" "length (sh_data s) = 32"
  shows "share_from_hex h (sh_index s) (share_to_hex h s) = Inr s"
  using assms by (simp add: share_from_hex_def share_to_hex_def hex_trim hex_no_0x hex_decode_encode)

subsection \<open>The interface of a threshold scheme\<close>

text \<open>
  What the recovery kits rely on: splitting succeeds exactly for sensible parameters,
  numbers the shares from one, and any \<open>m\<close> different shares give back the secret.
\<close>

locale threshold_scheme =
  fixes split :: "'r \<Rightarrow> 's \<Rightarrow> byte \<Rightarrow> byte \<Rightarrow> 'e + 'sh list"
    and combine :: "'sh list \<Rightarrow> 'e + 's"
    and idx :: "'sh \<Rightarrow> byte"
    and valid :: "'s \<Rightarrow> bool"
  assumes split_ok: "is_ok (split r s m n) \<longleftrightarrow> 2 \<le> m \<and> m \<le> n"
    and split_length: "split r s m n = Inr all \<Longrightarrow> length all = unat n"
    and split_idx: "split r s m n = Inr all \<Longrightarrow> i < unat n \<Longrightarrow> idx (all ! i) = word_of_nat (i + 1)"
    and recover: "split r s m n = Inr all \<Longrightarrow> valid s \<Longrightarrow> set shs \<subseteq> set all \<Longrightarrow> distinct shs \<Longrightarrow>
      unat m \<le> length shs \<Longrightarrow> combine shs = Inr s"
begin

lemma idx_unat:
  assumes "split r s m n = Inr all" "i < unat n"
  shows "unat (idx (all ! i)) = i + 1"
proof -
  have "i + 1 < 2 ^ LENGTH(8)" using assms(2) unsigned_less[of n, where 'a = nat] by linarith
  then show ?thesis unfolding split_idx[OF assms] unat_of_nat by simp
qed

lemma shares_distinct:
  assumes "split r s m n = Inr all"
  shows "distinct all"
proof -
  have "all ! i \<noteq> all ! j" if "i < unat n" "j < unat n" "i \<noteq> j" for i j
    using idx_unat[OF assms] that by (metis add_right_cancel)
  then show ?thesis using split_length[OF assms] by (simp add: distinct_conv_nth)
qed

lemma recover_positions:
  assumes "split r s m n = Inr all" "valid s"
    and "distinct I" "set I \<subseteq> {..<unat n}" "unat m \<le> length I"
  shows "combine (map ((!) all) I) = Inr s"
proof (rule recover[OF assms(1,2)])
  have len: "length all = unat n" by (rule split_length[OF assms(1)])
  show "set (map ((!) all) I) \<subseteq> set all" using assms(4) len by auto
  have "inj_on ((!) all) (set I)"
    using shares_distinct[OF assms(1)] assms(4) len
    by (intro inj_onI) (auto simp: nth_eq_iff_index_eq subset_iff)
  then show "distinct (map ((!) all) I)" using assms(3) by (simp add: distinct_map)
qed (use assms(5) in simp)

end

interpretation sss: threshold_scheme split_secret combine_shares sh_index "\<lambda>s. length s = 32"
proof
  fix r s m n
  show "is_ok (split_secret r s m n) \<longleftrightarrow> 2 \<le> m \<and> m \<le> n"
    by (auto simp: split_secret_closed) (auto simp: split_secret_def not_less split: if_splits)
  fix all assume all: "split_secret r s m n = Inr all"
  then show "length all = unat n" by (cases rule: split_share_cases) simp
  show "sh_index (all ! i) = word_of_nat (i + 1)" if "i < unat n" for i
    using all that by (cases rule: split_share_cases) (simp add: share_of_def)
  show "combine_shares shs = Inr s"
    if "length s = 32" "set shs \<subseteq> set all" "distinct shs" "unat m \<le> length shs" for shs
    using combine_split[OF all] that by blast
qed

subsection \<open>Properties\<close>

text \<open>
  C1. Any selection of at least \<open>threshold\<close> different shares out of the
  \<open>total_shares\<close> that \<open>split_secret\<close> returns, in any order, makes \<open>combine_shares\<close>
  return the original 32-byte secret, whatever the random coefficients were.
\<close>

theorem threshold_recovery:
  assumes "split_secret rng secret threshold total_shares = Inr all" "length secret = 32"
    and "distinct I" "set I \<subseteq> {..<unat total_shares}" "unat threshold \<le> length I"
  shows "combine_shares (map ((!) all) I) = Inr secret"
  using assms by (rule sss.recover_positions)

lemma split_example:
  "split_secret (\<lambda>k. word_of_nat k) (replicate 32 5) 2 3 =
     Inr (map (share_of (\<lambda>k. word_of_nat k) (replicate 32 5) 2) [0..<3])"
  by (simp add: split_secret_closed)

theorem threshold_recovery_witness:
  "combine_shares (map ((!) (map (share_of (\<lambda>k. word_of_nat k) (replicate 32 5) 2) [0..<3])) [2, 0]) =
     Inr (replicate 32 5)"
  by (rule threshold_recovery[OF split_example]) auto

text \<open>
  C2. Fewer shares than the threshold say nothing about the secret: fix any
  \<open>threshold - 1\<close> shares of a split. For every other candidate secret there is
  exactly one choice of the random bytes for which \<open>split_secret\<close> would have handed
  out the very same shares, so all candidates are equally likely.
\<close>

theorem threshold_secrecy:
  assumes all: "split_secret rng secret threshold total_shares = Inr all"
    and I: "distinct I" "set I \<subseteq> {..<unat total_shares}" "length I = unat threshold - 1"
  shows "\<exists>!draws. length draws = 32 * (unat threshold - 1) \<and>
    (\<exists>all'. split_secret (rng_of draws) secret' threshold total_shares = Inr all' \<and>
      map ((!) all') I = map ((!) all) I)"
  using all
proof (cases rule: split_share_cases)
  case 1
  let ?m = "unat threshold"
  have view: "(\<exists>all'. split_secret (rng_of draws) secret' threshold total_shares = Inr all' \<and>
      map ((!) all') I = map ((!) all) I) \<longleftrightarrow>
      (\<forall>i\<in>set I. share_of (rng_of draws) secret' ?m i = share_of rng secret ?m i)" for draws
    unfolding split_secret_closed[OF 1(1,2)] 1(3) map_eq_conv using I(2)
    by (simp add: subset_iff)
  have "\<exists>!d. length d = 32 * (?m - 1) \<and>
      (\<forall>b<32. explains rng secret secret' ?m I b (take (?m - 1) (drop (b * (?m - 1)) d)))"
  proof (rule blocks_ex1)
    show "\<exists>!cs. explains rng secret secret' ?m I b cs" for b
      using I share_count[of total_shares] by (intro explains_ex1) auto
  qed (simp add: explains_def)
  then show ?thesis unfolding view by (simp only: shares_agree_iff cong: conj_cong)
qed

theorem threshold_secrecy_witness:
  "\<exists>!draws. length draws = 32 * (unat (2::byte) - 1) \<and>
    (\<exists>all'. split_secret (rng_of draws) (replicate 32 9) 2 3 = Inr all' \<and>
      map ((!) all') [1] = map ((!) (map (share_of (\<lambda>k. word_of_nat k) (replicate 32 5) 2) [0..<3])) [1])"
  by (rule threshold_secrecy[OF split_example]) simp_all

text \<open>
  \<open>combine_shares\<close> succeeds exactly on at least two shares with pairwise
  different nonzero indices; \<open>split_secret\<close> exactly when
  \<open>2 \<le> threshold \<le> total_shares\<close>. No division by zero is ever reported.
\<close>

theorem shamir_ok_iff:
  "(is_ok (combine_shares shares) \<longleftrightarrow>
     2 \<le> length shares \<and> distinct (map sh_index shares) \<and> 0 \<notin> set (map sh_index shares)) \<and>
   (is_ok (split_secret rng secret threshold total_shares) \<longleftrightarrow>
     2 \<le> threshold \<and> threshold \<le> total_shares)"
proof (rule conjI)
  have "is_ok (combine_shares shares) \<longleftrightarrow> shares \<noteq> [] \<and> check_indices {} shares = Inr () \<and>
      \<not> length shares < 2 \<and> is_ok (lagrange_weights shares)"
    by (auto simp: combine_shares_def result_simps)
  then show "is_ok (combine_shares shares) \<longleftrightarrow>
      2 \<le> length shares \<and> distinct (map sh_index shares) \<and> 0 \<notin> set (map sh_index shares)"
    by (auto simp: check_indices_ok lagrange_weights_closed)
qed (rule sss.split_ok)

text \<open>Writing the data of a share in hex and reading it back gives the same share.\<close>

theorem share_hex_roundtrip:
  assumes "hex_ok h" "length (sh_data s) = 32"
  shows "share_from_hex h (sh_index s) (share_to_hex h s) = Inr s"
  using assms by (rule share_from_to_hex)

theorem share_hex_roundtrip_witness:
  "share_from_hex hex_std 1 (share_to_hex hex_std \<lparr>sh_index = 1, sh_data = replicate 32 7\<rparr>) =
     Inr \<lparr>sh_index = 1, sh_data = replicate 32 7\<rparr>"
  using share_hex_roundtrip[OF hex_std_ok, of "\<lparr>sh_index = 1, sh_data = replicate 32 7\<rparr>"] by simp

end
