(* ===== verification/Fastcdc.thy ===== *)
theory Fastcdc
  imports Rust_Std
begin

text \<open>
  Content-defined chunking of \<open>src/crates/snapshot/src/fastcdc.rs\<close>: the gear table, the
  configuration and its profiles, and \<open>fastcdc_chunk\<close> with its two scanning loops.
  \<open>usize\<close> values are natural numbers. The outer loop makes no progress for a
  hand-made configuration with a zero maximum size, so it is a partial function with
  \<^const>\<open>None\<close> for a run that does not end; the lemmas show that every configuration made by
  the constructor gives a result.
\<close>

subsection \<open>The gear table\<close>

definition splitmix_out :: "u64 \<Rightarrow> u64" where
  "splitmix_out state =
     (let z = state;
          z = (z XOR drop_bit 30 z) * 0xbf58476d1ce4e5b9;
          z = (z XOR drop_bit 27 z) * 0x94d049bb133111eb
      in z XOR drop_bit 31 z)"

fun gear_loop :: "nat \<Rightarrow> nat \<Rightarrow> u64 \<Rightarrow> u64 list \<Rightarrow> u64 list" where
  "gear_loop 0 i state table = table"
| "gear_loop (Suc n) i state table =
     (let state = state + 0x9e3779b97f4a7c15
      in gear_loop n (i + 1) state (table[i := splitmix_out state]))"

definition generate_gear_matrix :: "u64 list" where
  "generate_gear_matrix = gear_loop 256 0 0x853c49e6748fea9b (replicate 256 0)"

definition GEAR_MATRIX :: "u64 list" where
  "GEAR_MATRIX = generate_gear_matrix"

subsection \<open>Configuration\<close>

definition DEFAULT_MIN_SIZE :: nat where "DEFAULT_MIN_SIZE = 4 * 1024"
definition DEFAULT_AVG_SIZE :: nat where "DEFAULT_AVG_SIZE = 16 * 1024"
definition DEFAULT_MAX_SIZE :: nat where "DEFAULT_MAX_SIZE = 64 * 1024"

record FastCdcConfig =
  min_size :: nat
  avg_size :: nat
  max_size :: nat
  mask_s :: u64
  mask_l :: u64

text \<open>The exponent of \<open>next_power_of_two()\<close>, which \<open>trailing_zeros()\<close> then reads.\<close>

fun pow2_exp :: "nat \<Rightarrow> nat" where
  "pow2_exp n = (if n \<le> 1 then 0 else Suc (pow2_exp ((n + 1) div 2)))"

declare pow2_exp.simps [simp del]

text \<open>The three assertions, and the overflow check of the shifts, are panics.\<close>

definition FastCdcConfig_new :: "nat \<Rightarrow> nat \<Rightarrow> nat \<Rightarrow> string + FastCdcConfig" where
  "FastCdcConfig_new mn av mx =
     (if \<not> 0 < mn then Inl ''min_size must be positive''
      else if \<not> mn \<le> av then Inl ''min_size must be <= avg_size''
      else if \<not> av \<le> mx then Inl ''avg_size must be <= max_size''
      else
        (let bits = pow2_exp av
         in if 64 \<le> bits + 1 then Inl ''attempt to shift left with overflow''
            else Inr \<lparr>min_size = mn, avg_size = av, max_size = mx,
                      mask_s = saturating_sub (push_bit (bits + 1) 1) 1,
                      mask_l = saturating_sub (push_bit (bits - 1) 1) 1\<rparr>))"

definition default_config :: "string + FastCdcConfig" where
  "default_config = FastCdcConfig_new DEFAULT_MIN_SIZE DEFAULT_AVG_SIZE DEFAULT_MAX_SIZE"

definition config_from_profile :: "string \<Rightarrow> string + FastCdcConfig" where
  "config_from_profile profile =
     (let p = to_ascii_lowercase (trim profile)
      in if p = ''small'' then FastCdcConfig_new (2 * 1024) (8 * 1024) (32 * 1024)
         else if p = ''large'' then FastCdcConfig_new (16 * 1024) (64 * 1024) (256 * 1024)
         else default_config)"

text \<open>The argument is the result of \<open>std::env::var("CIPHERVAULT_CHUNK_PROFILE")\<close>.\<close>

definition config_from_env :: "string option \<Rightarrow> string + FastCdcConfig" where
  "config_from_env env =
     (case env of Some profile \<Rightarrow> config_from_profile profile | None \<Rightarrow> default_config)"

subsection \<open>Chunking\<close>

text \<open>
  The body shared by the two phases: roll the hash from \<open>i\<close> up to \<open>bound\<close> and stop after
  the first byte at which the masked hash is zero.
\<close>

function gear_scan :: "u64 \<Rightarrow> bytes \<Rightarrow> nat \<Rightarrow> nat \<Rightarrow> nat \<Rightarrow> u64 \<Rightarrow> nat option \<times> nat \<times> u64" where
  "gear_scan mask_bits data cursor bound i hash =
     (if i < bound then
        (let b = data ! (cursor + i);
             hash = push_bit 1 hash + GEAR_MATRIX ! unat b
         in if hash AND mask_bits = 0 then (Some (i + 1), i, hash)
            else gear_scan mask_bits data cursor bound (i + 1) hash)
      else (None, i, hash))"
  by pat_completeness auto
termination
  by (relation "measure (\<lambda>(_, _, _, bound, i, _). bound - i)") auto

declare gear_scan.simps [simp del]

definition next_cut :: "FastCdcConfig \<Rightarrow> bytes \<Rightarrow> nat \<Rightarrow> nat" where
  "next_cut config data cursor =
     (let remaining = length data - cursor;
          max_chunk = min remaining (max_size config);
          normal_split = min remaining (avg_size config);
          (hit, i, hash) = gear_scan (mask_s config) data cursor normal_split (min_size config) 0;
          cut_point = (case hit of Some c \<Rightarrow> c | None \<Rightarrow> max_chunk)
      in if cut_point = max_chunk \<and> normal_split < max_chunk then
           (case gear_scan (mask_l config) data cursor max_chunk i hash of
              (Some c, _) \<Rightarrow> c
            | (None, _) \<Rightarrow> cut_point)
         else cut_point)"

partial_function (option) chunk_loop ::
  "FastCdcConfig \<Rightarrow> bytes \<Rightarrow> nat \<Rightarrow> bytes list \<Rightarrow> bytes list option" where
  "chunk_loop config data cursor chunks =
     (if cursor < length data then
        (if length data - cursor \<le> min_size config then Some (chunks @ [drop cursor data])
         else
           (let cut_point = next_cut config data cursor
            in chunk_loop config data (cursor + cut_point)
                 (chunks @ [take cut_point (drop cursor data)])))
      else Some chunks)"

definition fastcdc_chunk :: "bytes \<Rightarrow> FastCdcConfig \<Rightarrow> bytes list option" where
  "fastcdc_chunk data config = (if data = [] then Some [] else chunk_loop config data 0 [])"

subsection \<open>Configurations made by the constructor\<close>

definition config_ok :: "FastCdcConfig \<Rightarrow> bool" where
  "config_ok c \<longleftrightarrow> 0 < min_size c \<and> min_size c \<le> avg_size c \<and> avg_size c \<le> max_size c"

lemma FastCdcConfig_new_ok: "FastCdcConfig_new mn av mx = Inr c \<Longrightarrow> config_ok c"
  by (auto simp: FastCdcConfig_new_def config_ok_def Let_def split: if_splits)

lemma pow2_exp_le: "n \<le> 2 ^ k \<Longrightarrow> pow2_exp n \<le> k"
proof (induction k arbitrary: n)
  case (Suc k)
  then have "(n + 1) div 2 \<le> 2 ^ k" by simp
  with Suc.IH show ?case by (subst pow2_exp.simps) simp
qed (subst pow2_exp.simps, simp)

lemma FastCdcConfig_new_Inr:
  assumes "0 < mn" "mn \<le> av" "av \<le> mx" "av \<le> 2 ^ 62"
  shows "is_ok (FastCdcConfig_new mn av mx)"
  using assms pow2_exp_le[of av 62] by (simp add: FastCdcConfig_new_def Let_def)

lemma default_config_ok: "is_ok default_config"
  unfolding default_config_def
  by (rule FastCdcConfig_new_Inr) (simp_all add: DEFAULT_MIN_SIZE_def DEFAULT_AVG_SIZE_def DEFAULT_MAX_SIZE_def)

lemma config_from_env_ok:
  obtains c where "config_from_env env = Inr c" "config_ok c"
proof -
  have "is_ok (config_from_env env)"
    by (auto simp: config_from_env_def config_from_profile_def Let_def default_config_ok
        intro!: FastCdcConfig_new_Inr split: option.splits)
  then obtain c where c: "config_from_env env = Inr c" by (auto simp: is_ok_iff)
  moreover have "config_ok c"
    using c FastCdcConfig_new_ok
    by (auto simp: config_from_env_def config_from_profile_def Let_def default_config_def
        split: option.splits if_splits)
  ultimately show ?thesis using that by blast
qed

subsection \<open>The scanning loops\<close>

lemma gear_scan_bounds:
  "gear_scan mk data cursor bound i hash = (Some c, i', h) \<Longrightarrow> i < c \<and> c \<le> bound"
  "gear_scan mk data cursor bound i hash = (None, i', h) \<Longrightarrow> i' = max i bound"
proof (induction mk data cursor bound i hash rule: gear_scan.induct)
  case (1 mk data cursor bound i hash)
  {
    case 1
    then show ?case using "1.IH" by (subst (asm) gear_scan.simps) (force simp: Let_def split: if_splits)
  next
    case 2
    then show ?case using "1.IH" by (subst (asm) gear_scan.simps) (auto simp: Let_def split: if_splits)
  }
qed

lemma gear_scan_shift:
  assumes "\<And>k. i \<le> k \<Longrightarrow> k < bound \<Longrightarrow> data ! (cursor + k) = data' ! (cursor' + k)"
  shows "gear_scan mk data cursor bound i hash = gear_scan mk data' cursor' bound i hash"
  using assms
proof (induction mk data cursor bound i hash rule: gear_scan.induct)
  case (1 mk data cursor bound i hash)
  show ?case
    by (subst (1 2) gear_scan.simps) (use "1.IH" "1.prems" in \<open>auto simp: Let_def\<close>)
qed

lemma next_cut_bounds:
  assumes "config_ok c" "min_size c < length data - cursor"
  shows "min_size c \<le> next_cut c data cursor" "0 < next_cut c data cursor"
    "next_cut c data cursor \<le> max_size c" "next_cut c data cursor \<le> length data - cursor"
proof -
  let ?r = "length data - cursor"
  obtain hit i h where s: "gear_scan (mask_s c) data cursor (min ?r (avg_size c)) (min_size c) 0 = (hit, i, h)"
    by (cases "gear_scan (mask_s c) data cursor (min ?r (avg_size c)) (min_size c) 0")
  obtain hit' i' h' where l: "gear_scan (mask_l c) data cursor (min ?r (max_size c)) i h = (hit', i', h')"
    by (cases "gear_scan (mask_l c) data cursor (min ?r (max_size c)) i h")
  have b1: "min_size c < k \<and> k \<le> min ?r (avg_size c)" if "hit = Some k" for k
    using gear_scan_bounds(1)[OF s[unfolded that]] .
  have b2: "i < k \<and> k \<le> min ?r (max_size c)" if "hit' = Some k" for k
    using gear_scan_bounds(1)[OF l[unfolded that]] .
  have i: "min_size c \<le> i" if "hit = None"
    using gear_scan_bounds(2)[OF s[unfolded that]] by simp
  have cut: "next_cut c data cursor =
      (let cut = (case hit of Some k \<Rightarrow> k | None \<Rightarrow> min ?r (max_size c))
       in if cut = min ?r (max_size c) \<and> min ?r (avg_size c) < min ?r (max_size c)
          then (case hit' of Some k \<Rightarrow> k | None \<Rightarrow> cut) else cut)"
    unfolding next_cut_def Let_def s prod.case l by (cases hit') (simp_all only: option.case)
  have "min_size c \<le> next_cut c data cursor \<and> next_cut c data cursor \<le> min ?r (max_size c)"
  proof (cases hit)
    case None
    then show ?thesis using i b2 assms unfolding cut config_ok_def
      by (auto simp: Let_def dest: less_imp_le split: option.splits)
  next
    case (Some k)
    then show ?thesis using b1[OF Some] assms unfolding cut config_ok_def by (auto simp: Let_def)
  qed
  then show "min_size c \<le> next_cut c data cursor" "0 < next_cut c data cursor"
    "next_cut c data cursor \<le> max_size c" "next_cut c data cursor \<le> length data - cursor"
    using assms(1) by (auto simp: config_ok_def)
qed

text \<open>The cut depends only on the bytes from the cursor onwards.\<close>

lemma next_cut_drop:
  assumes "drop cursor data = drop cursor' data'" "cursor \<le> length data" "cursor' \<le> length data'"
  shows "next_cut c data cursor = next_cut c data' cursor'"
proof -
  have len: "length data - cursor = length data' - cursor'"
    using arg_cong[OF assms(1), of length] by simp
  have nth: "data ! (cursor + k) = data' ! (cursor' + k)" for k
    using arg_cong[OF assms(1), of "\<lambda>xs. xs ! k"] assms(2,3) by simp
  show ?thesis
    unfolding next_cut_def Let_def len gear_scan_shift[OF nth] by (rule refl)
qed

subsection \<open>The outer loop\<close>

lemma chunk_loop_suffix:
  assumes "config_ok c" "drop cursor data = drop cursor' data'" "cursor \<le> length data" "cursor' \<le> length data'"
  shows "chunk_loop c data cursor acc = map_option ((@) acc) (chunk_loop c data' cursor' [])"
proof -
  have "\<exists>cs. \<forall>cursor data acc. drop cursor data = s \<longrightarrow> cursor \<le> length data \<longrightarrow>
      chunk_loop c data cursor acc = Some (acc @ cs)" for s
  proof (induction s rule: length_induct)
    case (1 s)
    show ?case
    proof (cases "s = [] \<or> length s \<le> min_size c")
      case True
      then show ?thesis
        by (intro exI[of _ "if s = [] then [] else [s]"]) (auto simp: chunk_loop.simps)
    next
      case False
      let ?k = "next_cut c s 0"
      have k: "0 < ?k" "?k \<le> length s" using next_cut_bounds[OF assms(1), of s 0] False by auto
      then have "length (drop ?k s) < length s" using False by simp
      with 1 obtain cs where cs: "\<And>cursor data acc. drop cursor data = drop ?k s \<Longrightarrow>
          cursor \<le> length data \<Longrightarrow> chunk_loop c data cursor acc = Some (acc @ cs)" by blast
      have "chunk_loop c data cursor acc = Some (acc @ take ?k s # cs)"
        if d: "drop cursor data = s" "cursor \<le> length data" for cursor data acc
      proof -
        have cut: "next_cut c data cursor = ?k" using d by (intro next_cut_drop) auto
        have len: "length data - cursor = length s" using d by auto
        have "chunk_loop c data cursor acc = chunk_loop c data (cursor + ?k) (acc @ [take ?k s])"
          using False len d by (subst chunk_loop.simps) (auto simp: cut Let_def)
        also have "\<dots> = Some ((acc @ [take ?k s]) @ cs)"
        proof (rule cs)
          show "drop (cursor + ?k) data = drop ?k s" using d(1) by (metis add.commute drop_drop)
          show "cursor + ?k \<le> length data" using d(2) k(2) len by linarith
        qed
        finally show ?thesis by simp
      qed
      then show ?thesis by blast
    qed
  qed
  then obtain cs where "\<And>cursor data acc. drop cursor data = drop cursor' data' \<Longrightarrow> cursor \<le> length data \<Longrightarrow>
      chunk_loop c data cursor acc = Some (acc @ cs)" by blast
  from this[of cursor data acc] this[of cursor' data' "[]"] assms show ?thesis by simp
qed

lemma fastcdc_chunk_loop: "fastcdc_chunk data c = chunk_loop c data 0 []"
  by (simp add: fastcdc_chunk_def chunk_loop.simps)

text \<open>The recursion equation over the remaining data.\<close>

lemma fastcdc_chunk_rec:
  assumes "config_ok c"
  shows "fastcdc_chunk data c =
    (if data = [] then Some []
     else if length data \<le> min_size c then Some [data]
     else map_option ((#) (take (next_cut c data 0) data)) (fastcdc_chunk (drop (next_cut c data 0) data) c))"
proof (cases "data = [] \<or> length data \<le> min_size c")
  case True
  then show ?thesis by (auto simp: fastcdc_chunk_loop chunk_loop.simps)
next
  case False
  let ?k = "next_cut c data 0"
  have k: "?k \<le> length data" using next_cut_bounds[OF assms, of data 0] False by auto
  have "fastcdc_chunk data c = chunk_loop c data ?k [take ?k data]"
    using False by (simp add: fastcdc_chunk_loop chunk_loop.simps[of c data 0] Let_def)
  also have "\<dots> = map_option (\<lambda>cs. [take ?k data] @ cs) (fastcdc_chunk (drop ?k data) c)"
    unfolding fastcdc_chunk_loop using k by (intro chunk_loop_suffix[OF assms]) auto
  finally show ?thesis using False by simp
qed

subsection \<open>The interface of a content-defined chunker\<close>

text \<open>
  What the capture of files relies on: chunking always returns, the chunks are the
  data cut into pieces, none is empty or longer than \<open>hi\<close>, and only the last may be
  shorter than \<open>lo\<close>.
\<close>

locale content_chunker =
  fixes chunk :: "bytes \<Rightarrow> bytes list option" and lo hi :: nat
  assumes lo_pos: "0 < lo"
    and total: "\<exists>cs. chunk d = Some cs"
    and parts: "chunk d = Some cs \<Longrightarrow> concat cs = d"
    and upper: "chunk d = Some cs \<Longrightarrow> x \<in> set cs \<Longrightarrow> x \<noteq> [] \<and> length x \<le> hi"
    and lower: "chunk d = Some cs \<Longrightarrow> x \<in> set (butlast cs) \<Longrightarrow> lo \<le> length x"
begin

lemma count:
  assumes "chunk d = Some cs"
  shows "(length cs - 1) * lo \<le> length d"
proof -
  have "sum_list (map (\<lambda>_. lo) (butlast cs)) \<le> sum_list (map length (butlast cs))"
    using lower[OF assms] by (intro sum_list_mono) simp
  also have "\<dots> \<le> sum_list (map length cs)"
    by (cases cs rule: rev_cases) simp_all
  also have "\<dots> = length d" using parts[OF assms] by (simp flip: length_concat)
  finally show ?thesis by (simp add: sum_list_triv)
qed

lemma nonempty: "chunk d = Some cs \<Longrightarrow> d \<noteq> [] \<Longrightarrow> cs \<noteq> []"
  using parts by fastforce

lemma reassemble:
  assumes "chunk d = Some cs" "list_all2 (\<lambda>x y. dec y = Inr x) cs ys"
  shows "rbind (rtraverse dec ys) (\<lambda>ps. Inr (concat ps)) = Inr d"
proof -
  have "rtraverse dec ys = Inr cs"
    using assms(2) unfolding rtraverse_eq_Inr list_all2_conv_all_nth by simp
  then show ?thesis using parts[OF assms(1)] by simp
qed

end

subsection \<open>Properties\<close>

lemma fastcdc_partition_aux:
  assumes "config_ok c"
  shows "\<exists>cs. fastcdc_chunk data c = Some cs \<and> concat cs = data \<and>
    (\<forall>x\<in>set cs. x \<noteq> [] \<and> length x \<le> max_size c) \<and> (\<forall>x\<in>set (butlast cs). min_size c \<le> length x)"
proof (induction data rule: length_induct)
  case (1 data)
  show ?case
  proof (cases "data = [] \<or> length data \<le> min_size c")
    case True
    then show ?thesis using assms by (subst fastcdc_chunk_rec) (auto simp: config_ok_def)
  next
    case False
    let ?k = "next_cut c data 0"
    note k = next_cut_bounds[OF assms, of data 0]
    have "length (drop ?k data) < length data" using k False by simp
    with 1 obtain cs where cs: "fastcdc_chunk (drop ?k data) c = Some cs" "concat cs = drop ?k data"
      "\<forall>x\<in>set cs. x \<noteq> [] \<and> length x \<le> max_size c" "\<forall>x\<in>set (butlast cs). min_size c \<le> length x" by blast
    have "length (take ?k data) = ?k" "take ?k data \<noteq> []" using k False by auto
    then show ?thesis using False cs k
      by (subst fastcdc_chunk_rec[OF assms]) (auto split: if_splits)
  qed
qed

text \<open>
  C21. For every configuration the constructor accepts, chunking terminates, the
  concatenation of the chunks is the input, no chunk is empty or longer than
  \<open>max_size\<close>, and every chunk but the last has at least \<open>min_size\<close> bytes.
\<close>

theorem fastcdc_partition:
  assumes "FastCdcConfig_new mn av mx = Inr c"
  shows "\<exists>cs. fastcdc_chunk data c = Some cs \<and> concat cs = data \<and>
    (\<forall>x\<in>set cs. x \<noteq> [] \<and> length x \<le> mx) \<and> (\<forall>x\<in>set (butlast cs). mn \<le> length x)"
proof -
  have "min_size c = mn" "max_size c = mx"
    using assms by (auto simp: FastCdcConfig_new_def Let_def split: if_splits)
  with fastcdc_partition_aux[OF FastCdcConfig_new_ok[OF assms], of data] show ?thesis by simp
qed

lemma small_config:
  "FastCdcConfig_new 2 4 8 = Inr \<lparr>min_size = 2, avg_size = 4, max_size = 8, mask_s = 7, mask_l = 1\<rparr>"
  by (simp add: FastCdcConfig_new_def Let_def pow2_exp.simps saturating_sub_def)

theorem fastcdc_partition_witness:
  "\<exists>cs. fastcdc_chunk (replicate 20 1) \<lparr>min_size = 2, avg_size = 4, max_size = 8, mask_s = 7, mask_l = 1\<rparr> = Some cs \<and>
    concat cs = replicate 20 1 \<and>
    (\<forall>x\<in>set cs. x \<noteq> [] \<and> length x \<le> 8) \<and> (\<forall>x\<in>set (butlast cs). 2 \<le> length x)"
  by (rule fastcdc_partition[OF small_config])

text \<open>
  Boundaries resynchronise: if chunking \<open>p @ s\<close> puts a boundary after \<open>p\<close>, the chunks
  after it are exactly those of \<open>s\<close> alone.
\<close>

lemma fastcdc_resync:
  assumes "config_ok c" "fastcdc_chunk (p @ s) c = Some (cs @ ds)" "concat cs = p"
  shows "fastcdc_chunk s c = Some ds"
  using assms(2,3)
proof (induction cs arbitrary: p)
  case Nil
  then show ?case by simp
next
  case (Cons x cs)
  let ?k = "next_cut c (p @ s) 0"
  from fastcdc_partition_aux[OF assms(1), of "p @ s"] Cons.prems(1) have "x \<noteq> []" by auto
  then have p: "p \<noteq> []" using Cons.prems(2) by auto
  show ?case
  proof (cases "length (p @ s) \<le> min_size c")
    case True
    then have "x = p @ s" "cs = []" "ds = []"
      using Cons.prems(1) p by (auto simp: fastcdc_chunk_rec[OF assms(1), of "p @ s"])
    then have "s = []" using Cons.prems(2) by simp
    then show ?thesis using \<open>ds = []\<close> by (simp add: fastcdc_chunk_def)
  next
    case False
    then have x: "x = take ?k (p @ s)" and rest: "fastcdc_chunk (drop ?k (p @ s)) c = Some (cs @ ds)"
      using Cons.prems(1) p by (auto simp: fastcdc_chunk_rec[OF assms(1), of "p @ s"])
    have "length x = ?k" using x next_cut_bounds(4)[OF assms(1), of "p @ s" 0] False by simp
    then have "drop ?k (p @ s) = concat cs @ s" using Cons.prems(2) by auto
    with rest show ?thesis using Cons.IH[of "concat cs"] by simp
  qed
qed

text \<open>
  The constructor accepts exactly the ordered triples of sizes (up to the range of
  the shifts), and the mask of the second phase is weaker than that of the first, so a
  hash that cuts before the average size would also cut after it. Every value of the
  environment variable, and its absence, gives an accepted configuration.
\<close>

theorem config_profiles:
  "(is_ok (FastCdcConfig_new mn av mx) \<longleftrightarrow> 0 < mn \<and> mn \<le> av \<and> av \<le> mx \<and> pow2_exp av < 63) \<and>
   (case FastCdcConfig_new mn av mx of
      Inl _ \<Rightarrow> True
    | Inr c \<Rightarrow> mask_s c = mask (pow2_exp av + 1) \<and> mask_l c = mask (pow2_exp av - 1) \<and>
        mask_s c AND mask_l c = mask_l c) \<and>
   (case config_from_env env of Inl _ \<Rightarrow> False | Inr c \<Rightarrow> config_ok c)"
proof (intro conjI)
  have ss: "saturating_sub (push_bit n 1) 1 = mask n" if "n < 64" for n
  proof -
    have "\<not> push_bit n 1 < (1 :: u64)" using that by (simp add: word_less_nat_alt unat_gt_0 exp_eq_zero_iff)
    then show ?thesis by (simp add: saturating_sub_def mask_eq_exp_minus_1)
  qed
  show "is_ok (FastCdcConfig_new mn av mx) \<longleftrightarrow> 0 < mn \<and> mn \<le> av \<and> av \<le> mx \<and> pow2_exp av < 63"
    by (auto simp: FastCdcConfig_new_def Let_def)
  show "case FastCdcConfig_new mn av mx of
      Inl _ \<Rightarrow> True
    | Inr c \<Rightarrow> mask_s c = mask (pow2_exp av + 1) \<and> mask_l c = mask (pow2_exp av - 1) \<and>
        mask_s c AND mask_l c = mask_l c"
    using ss[of "pow2_exp av + 1"] ss[of "pow2_exp av - 1"]
    by (auto simp: FastCdcConfig_new_def Let_def min_def simp flip: take_bit_eq_mask intro!: bit_word_eqI)
  show "case config_from_env env of Inl _ \<Rightarrow> False | Inr c \<Rightarrow> config_ok c"
    by (rule config_from_env_ok[of env]) simp
qed

end
