(* ===== verification/Crypto_Core.thy ===== *)
theory Crypto_Core
  imports Gf256 Crates
begin

text \<open>
  The primitives of \<open>src/crates/crypto/src\<close> over the third-party crates: \<open>aead.rs\<close>,
  \<open>kdf.rs\<close>, \<open>chunk_v2.rs\<close>, \<open>signatures.rs\<close> and \<open>keys.rs\<close>. Random values are arguments,
  and a 32-byte array is a byte list. The lemmas show the round trips, what a
  successful decryption proves, and that the inputs of all derivations and
  signatures are told apart by their encoding.
\<close>

subsection \<open>Authenticated encryption\<close>

definition NONCE_SIZE :: nat where "NONCE_SIZE = 24"
definition TAG_SIZE :: nat where "TAG_SIZE = 16"
definition KEY_SIZE :: nat where "KEY_SIZE = 32"

lemmas aead_sizes = NONCE_SIZE_def TAG_SIZE_def KEY_SIZE_def

text \<open>\<open>XChaCha20Poly1305::new_from_slice(key)\<close> with its error mapped.\<close>

definition new_cipher :: "bytes \<Rightarrow> CryptoError + unit" where
  "new_cipher key =
     (if length key = KEY_SIZE then Inr () else Inl (InvalidKeyLength KEY_SIZE (length key)))"

definition encrypt_with_nonce :: "crypto_crate \<Rightarrow> bytes \<Rightarrow> bytes \<Rightarrow> bytes \<Rightarrow> bytes \<Rightarrow> CryptoError + bytes" where
  "encrypt_with_nonce cr key nonce plaintext aad =
     rbind (new_cipher key) (\<lambda>_.
       case xchacha_encrypt cr key nonce plaintext aad of
         None \<Rightarrow> Inl AuthTagVerificationFailed
       | Some ciphertext \<Rightarrow> Inr ciphertext)"

definition encrypt_chunk_with_nonce :: "crypto_crate \<Rightarrow> bytes \<Rightarrow> bytes \<Rightarrow> bytes \<Rightarrow> bytes \<Rightarrow> CryptoError + bytes" where
  "encrypt_chunk_with_nonce cr key nonce plaintext aad =
     rbind (encrypt_with_nonce cr key nonce plaintext aad) (\<lambda>ciphertext. Inr (nonce @ ciphertext))"

text \<open>The random nonce is the argument.\<close>

definition encrypt_chunk :: "crypto_crate \<Rightarrow> bytes \<Rightarrow> bytes \<Rightarrow> bytes \<Rightarrow> bytes \<Rightarrow> CryptoError + bytes" where
  "encrypt_chunk cr nonce key plaintext aad = encrypt_chunk_with_nonce cr key nonce plaintext aad"

definition decrypt_with_nonce :: "crypto_crate \<Rightarrow> bytes \<Rightarrow> bytes \<Rightarrow> bytes \<Rightarrow> bytes \<Rightarrow> CryptoError + bytes" where
  "decrypt_with_nonce cr key nonce ciphertext aad =
     (if length ciphertext < TAG_SIZE then Inl AuthTagVerificationFailed
      else
        rbind (new_cipher key) (\<lambda>_.
          case xchacha_decrypt cr key nonce ciphertext aad of
            None \<Rightarrow> Inl AuthTagVerificationFailed
          | Some plaintext \<Rightarrow> Inr plaintext))"

definition decrypt_chunk :: "crypto_crate \<Rightarrow> bytes \<Rightarrow> bytes \<Rightarrow> bytes \<Rightarrow> CryptoError + bytes" where
  "decrypt_chunk cr key chunk_payload aad =
     (if length chunk_payload < NONCE_SIZE + TAG_SIZE then Inl AuthTagVerificationFailed
      else
        (let nonce = take NONCE_SIZE chunk_payload;
             ciphertext = drop NONCE_SIZE chunk_payload
         in rbind (new_cipher key) (\<lambda>_.
              case xchacha_decrypt cr key nonce ciphertext aad of
                None \<Rightarrow> Inl AuthTagVerificationFailed
              | Some plaintext \<Rightarrow> Inr plaintext)))"

subsection \<open>Key derivation\<close>

definition CTX_RECOVERY_SIGNING :: bytes where "CTX_RECOVERY_SIGNING = as_bytes ''CV_RSIGN''"
definition CTX_RECOVERY_ENCRYPT :: bytes where "CTX_RECOVERY_ENCRYPT = as_bytes ''CV_RENCR''"
definition CTX_RECOVERY_LOCATOR :: bytes where "CTX_RECOVERY_LOCATOR = as_bytes ''CV_RLOCA''"
definition CTX_MANIFEST_KEY :: bytes where "CTX_MANIFEST_KEY = as_bytes ''CV_MANIF''"
definition CTX_FILE_KEY :: bytes where "CTX_FILE_KEY = as_bytes ''CV_FVERS''"
definition CTX_CHUNK_NONCE :: bytes where "CTX_CHUNK_NONCE = as_bytes ''CV_CNONC''"

text \<open>The bytes fed to each hasher, in the order of the \<open>update\<close> calls.\<close>

definition subkey_input :: "bytes \<Rightarrow> u64 \<Rightarrow> bytes \<Rightarrow> bytes" where
  "subkey_input master_key subkey_id ctx =
     as_bytes ''CipherVault-KDF-v1'' @ ctx @ le64 subkey_id @ master_key"

definition derive_subkey :: "crypto_crate \<Rightarrow> bytes \<Rightarrow> u64 \<Rightarrow> bytes \<Rightarrow> CryptoError + bytes" where
  "derive_subkey cr master_key subkey_id ctx =
     Inr (take 32 (blake2b512 cr (subkey_input master_key subkey_id ctx)))"

definition file_version_key_input :: "bytes \<Rightarrow> u64 \<Rightarrow> bytes \<Rightarrow> bytes" where
  "file_version_key_input master_key epoch plaintext_sha256 =
     as_bytes ''CipherVault-KDF-v1'' @ CTX_FILE_KEY @ le64 epoch @ master_key @ plaintext_sha256"

definition kdf_derive_file_version_key :: "crypto_crate \<Rightarrow> bytes \<Rightarrow> u64 \<Rightarrow> bytes \<Rightarrow> CryptoError + bytes" where
  "kdf_derive_file_version_key cr master_key epoch plaintext_sha256 =
     Inr (take 32 (blake2b512 cr (file_version_key_input master_key epoch plaintext_sha256)))"

definition chunk_nonce_input :: "bytes \<Rightarrow> u32 \<Rightarrow> bytes \<Rightarrow> bytes" where
  "chunk_nonce_input file_version_key chunk_index chunk_digest =
     as_bytes ''CipherVault-KDF-v1'' @ CTX_CHUNK_NONCE @ le32 chunk_index @ file_version_key @ chunk_digest"

definition derive_chunk_nonce :: "crypto_crate \<Rightarrow> bytes \<Rightarrow> u32 \<Rightarrow> bytes \<Rightarrow> bytes" where
  "derive_chunk_nonce cr file_version_key chunk_index chunk_digest =
     take 24 (blake2b512 cr (chunk_nonce_input file_version_key chunk_index chunk_digest))"

definition file_version_id_input :: "bytes \<Rightarrow> u64 \<Rightarrow> bytes \<Rightarrow> bytes" where
  "file_version_id_input vault_id epoch plaintext_sha256 =
     as_bytes ''CipherVault-FileVersionID-v1'' @ vault_id @ le64 epoch @ plaintext_sha256"

definition derive_file_version_id :: "crypto_crate \<Rightarrow> bytes \<Rightarrow> u64 \<Rightarrow> bytes \<Rightarrow> bytes" where
  "derive_file_version_id cr vault_id epoch plaintext_sha256 =
     take 32 (blake2b512 cr (file_version_id_input vault_id epoch plaintext_sha256))"

subsection \<open>Version 2 chunk addressing\<close>

definition V2_SALT :: bytes where
  "V2_SALT = as_bytes ''CipherVault-ChunkWire-v2/HKDF-SHA256''"

definition expand_info :: "bytes \<Rightarrow> bytes \<Rightarrow> u64 \<Rightarrow> bytes \<Rightarrow> bytes" where
  "expand_info domain vault epoch binding =
     le_bytes 2 (word_of_nat (length domain) :: 16 word) @ domain @ vault @ le64 epoch @ binding"

definition v2_expand :: "crypto_crate \<Rightarrow> nat \<Rightarrow> bytes \<Rightarrow> bytes \<Rightarrow> bytes \<Rightarrow> u64 \<Rightarrow> bytes \<Rightarrow> bytes" where
  "v2_expand cr n secret domain vault epoch binding =
     hkdf_sha256 cr V2_SALT secret (expand_info domain vault epoch binding) n"

definition derive_v2_chunk_domain_key :: "crypto_crate \<Rightarrow> bytes \<Rightarrow> bytes \<Rightarrow> u64 \<Rightarrow> bytes" where
  "derive_v2_chunk_domain_key cr epoch_key vault epoch =
     v2_expand cr 32 epoch_key (as_bytes ''chunk-domain-key'') vault epoch (replicate 32 0)"

definition derive_v2_file_version_id :: "crypto_crate \<Rightarrow> bytes \<Rightarrow> bytes \<Rightarrow> u64 \<Rightarrow> bytes \<Rightarrow> bytes" where
  "derive_v2_file_version_id cr domain_key vault epoch digest =
     v2_expand cr 32 domain_key (as_bytes ''opaque-file-id'') vault epoch digest"

definition derive_v2_chunk_id :: "crypto_crate \<Rightarrow> bytes \<Rightarrow> bytes \<Rightarrow> u64 \<Rightarrow> bytes \<Rightarrow> bytes" where
  "derive_v2_chunk_id cr domain_key vault epoch digest =
     v2_expand cr 32 domain_key (as_bytes ''opaque-chunk-id'') vault epoch digest"

definition derive_v2_chunk_key_nonce :: "crypto_crate \<Rightarrow> bytes \<Rightarrow> bytes \<Rightarrow> u64 \<Rightarrow> bytes \<Rightarrow> bytes \<times> bytes" where
  "derive_v2_chunk_key_nonce cr domain_key vault epoch opaque_id =
     (v2_expand cr 32 domain_key (as_bytes ''chunk-aead-key'') vault epoch opaque_id,
      v2_expand cr 24 domain_key (as_bytes ''chunk-aead-nonce'') vault epoch opaque_id)"

subsection \<open>Signatures\<close>

definition SIGNATURE_DOMAIN_PREFIX :: bytes where
  "SIGNATURE_DOMAIN_PREFIX = as_bytes ''CipherVault-Ed25519-v1:''"

definition domain_payload :: "bytes \<Rightarrow> bytes \<Rightarrow> bytes" where
  "domain_payload ctx message = SIGNATURE_DOMAIN_PREFIX @ ctx @ as_bytes '':'' @ message"

definition sign_with_domain :: "crypto_crate \<Rightarrow> bytes \<Rightarrow> bytes \<Rightarrow> bytes \<Rightarrow> bytes" where
  "sign_with_domain cr signing_key ctx message = ed25519_sign cr signing_key (domain_payload ctx message)"

definition verify_with_domain :: "crypto_crate \<Rightarrow> bytes \<Rightarrow> bytes \<Rightarrow> bytes \<Rightarrow> bytes \<Rightarrow> CryptoError + unit" where
  "verify_with_domain cr verifying_key_bytes ctx message signature_bytes =
     (if \<not> ed25519_point cr verifying_key_bytes then Inl SignatureVerificationFailed
      else if \<not> ed25519_verify cr verifying_key_bytes (domain_payload ctx message) signature_bytes
      then Inl SignatureVerificationFailed
      else Inr ())"

subsection \<open>Keys\<close>

text \<open>\<open>RecoverySecret\<close>, \<open>VaultEpochKey\<close> and \<open>FileVersionKey\<close> wrap 32 bytes.\<close>

definition derive_recovery_signing_key :: "crypto_crate \<Rightarrow> bytes \<Rightarrow> CryptoError + bytes" where
  "derive_recovery_signing_key cr r = derive_subkey cr r 1 CTX_RECOVERY_SIGNING"

definition derive_recovery_encryption_keys :: "crypto_crate \<Rightarrow> bytes \<Rightarrow> CryptoError + bytes \<times> bytes" where
  "derive_recovery_encryption_keys cr r =
     rbind (derive_subkey cr r 1 CTX_RECOVERY_ENCRYPT) (\<lambda>seed. Inr (seed, x25519_public cr seed))"

definition derive_recovery_locator :: "crypto_crate \<Rightarrow> bytes \<Rightarrow> CryptoError + bytes" where
  "derive_recovery_locator cr r = derive_subkey cr r 1 CTX_RECOVERY_LOCATOR"

definition derive_manifest_key :: "crypto_crate \<Rightarrow> bytes \<Rightarrow> u64 \<Rightarrow> CryptoError + bytes" where
  "derive_manifest_key cr epoch_key epoch = derive_subkey cr epoch_key epoch CTX_MANIFEST_KEY"

definition derive_file_version_key :: "crypto_crate \<Rightarrow> bytes \<Rightarrow> u64 \<Rightarrow> bytes \<Rightarrow> CryptoError + bytes" where
  "derive_file_version_key cr epoch_key epoch plaintext_sha256 =
     kdf_derive_file_version_key cr epoch_key epoch plaintext_sha256"

subsection \<open>Encryption lemmas\<close>

lemma encrypt_with_nonce_ok:
  assumes "aead_ok cr" "length key = 32" "length nonce = 24" "length m \<le> 2 ^ 37"
  obtains ct where "encrypt_with_nonce cr key nonce m aad = Inr ct" "length ct = length m + 16"
    "xchacha_encrypt cr key nonce m aad = Some ct"
proof -
  obtain ct where "xchacha_encrypt cr key nonce m aad = Some ct" using aead_encrypts[OF assms] .
  then show ?thesis using that aead_length[OF assms(1)] assms(2)
    by (auto simp: encrypt_with_nonce_def new_cipher_def aead_sizes)
qed

lemma decrypt_with_nonce_iff:
  assumes "aead_ok cr"
  shows "decrypt_with_nonce cr key nonce ct aad = Inr m \<longleftrightarrow> encrypt_with_nonce cr key nonce m aad = Inr ct"
proof -
  have "decrypt_with_nonce cr key nonce ct aad = Inr m \<longleftrightarrow>
      16 \<le> length ct \<and> length key = 32 \<and> xchacha_encrypt cr key nonce m aad = Some ct"
    by (auto simp: decrypt_with_nonce_def new_cipher_def aead_sizes aead_decrypt_iff[OF assms, symmetric]
        split: option.splits)
  also have "\<dots> \<longleftrightarrow> encrypt_with_nonce cr key nonce m aad = Inr ct"
    using aead_length[OF assms] by (auto simp: encrypt_with_nonce_def new_cipher_def aead_sizes split: option.splits)
  finally show ?thesis .
qed

text \<open>A payload decrypts to a message exactly when encrypting the message under its leading nonce gives it.\<close>

lemma decrypt_chunk_iff:
  assumes "aead_ok cr"
  shows "decrypt_chunk cr key payload aad = Inr m \<longleftrightarrow>
    24 \<le> length payload \<and> encrypt_chunk_with_nonce cr key (take 24 payload) m aad = Inr payload"
proof -
  have "decrypt_chunk cr key payload aad = Inr m \<longleftrightarrow>
      24 \<le> length payload \<and> decrypt_with_nonce cr key (take 24 payload) (drop 24 payload) aad = Inr m"
    by (auto simp: decrypt_chunk_def decrypt_with_nonce_def aead_sizes Let_def)
  also have "\<dots> \<longleftrightarrow> 24 \<le> length payload \<and> encrypt_with_nonce cr key (take 24 payload) m aad = Inr (drop 24 payload)"
    by (simp only: decrypt_with_nonce_iff[OF assms])
  also have "\<dots> \<longleftrightarrow> 24 \<le> length payload \<and> encrypt_chunk_with_nonce cr key (take 24 payload) m aad = Inr payload"
    by (auto simp: encrypt_chunk_with_nonce_def result_simps) (metis append_take_drop_id same_append_eq)
  finally show ?thesis .
qed

lemma decrypt_encrypt_chunk:
  assumes "aead_ok cr" "length nonce = 24" "encrypt_chunk_with_nonce cr key nonce m aad = Inr payload"
  shows "decrypt_chunk cr key payload aad = Inr m"
proof -
  obtain ct where "payload = nonce @ ct" using assms(3) by (auto simp: encrypt_chunk_with_nonce_def result_simps)
  then show ?thesis using assms by (simp add: decrypt_chunk_iff)
qed

lemma encrypt_chunk_with_nonce_ok:
  assumes "aead_ok cr" "length key = 32" "length nonce = 24" "length m \<le> 2 ^ 37"
  obtains payload where "encrypt_chunk_with_nonce cr key nonce m aad = Inr payload"
    "length payload = length m + 40"
proof -
  obtain ct where "encrypt_with_nonce cr key nonce m aad = Inr ct" "length ct = length m + 16"
    using encrypt_with_nonce_ok[OF assms] .
  then show ?thesis using that[of "nonce @ ct"] assms(3) by (simp add: encrypt_chunk_with_nonce_def)
qed

subsection \<open>Lengths\<close>

lemma derive_subkey_ok: "digests_ok cr \<Longrightarrow> \<exists>k. derive_subkey cr mk i ctx = Inr k \<and> length k = 32"
  by (simp add: derive_subkey_def)

lemma derive_lengths [bytes_simps, simp]:
  assumes "digests_ok cr"
  shows "length (derive_chunk_nonce cr fk ix d) = 24" "length (derive_file_version_id cr v e d) = 32"
    "length (v2_expand cr n s dm v e b) = n"
    "length (derive_v2_chunk_domain_key cr ek v e) = 32" "length (derive_v2_file_version_id cr dk v e d) = 32"
    "length (derive_v2_chunk_id cr dk v e d) = 32"
  using assms
  by (simp_all add: derive_chunk_nonce_def derive_file_version_id_def v2_expand_def
      derive_v2_chunk_domain_key_def derive_v2_file_version_id_def derive_v2_chunk_id_def)

lemma ctx_lengths [simp]:
  "length CTX_RECOVERY_SIGNING = 8" "length CTX_RECOVERY_ENCRYPT = 8" "length CTX_RECOVERY_LOCATOR = 8"
  "length CTX_MANIFEST_KEY = 8" "length CTX_FILE_KEY = 8" "length CTX_CHUNK_NONCE = 8"
  by (simp_all add: CTX_RECOVERY_SIGNING_def CTX_RECOVERY_ENCRYPT_def CTX_RECOVERY_LOCATOR_def
      CTX_MANIFEST_KEY_def CTX_FILE_KEY_def CTX_CHUNK_NONCE_def)

subsection \<open>Encodings are told apart\<close>

lemma append_eq_same_length:
  "length a = length c \<Longrightarrow> a @ b = c @ d \<longleftrightarrow> a = c \<and> b = d"
  by simp

lemma le64_inj [simp]: "le64 v = le64 w \<longleftrightarrow> v = w"
  using le_bytes_inj[of 8 v w] by auto

lemma le32_inj [simp]: "le32 v = le32 w \<longleftrightarrow> v = w"
  using le_bytes_inj[of 4 v w] by auto

text \<open>The calls of the four hash-based derivations, and what each of them hashes.\<close>

datatype kdf_call =
    Subkey bytes u64 bytes
  | FileKey bytes u64 bytes
  | ChunkNonce bytes u32 bytes
  | FileId bytes u64 bytes

fun kdf_bytes :: "kdf_call \<Rightarrow> bytes" where
  "kdf_bytes (Subkey mk i ctx) = subkey_input mk i ctx"
| "kdf_bytes (FileKey mk e d) = file_version_key_input mk e d"
| "kdf_bytes (ChunkNonce fk i d) = chunk_nonce_input fk i d"
| "kdf_bytes (FileId v e d) = file_version_id_input v e d"

fun kdf_typed :: "kdf_call \<Rightarrow> bool" where
  "kdf_typed (Subkey mk i ctx) \<longleftrightarrow> length mk = 32 \<and> length ctx = 8"
| "kdf_typed (FileKey mk e d) \<longleftrightarrow> length mk = 32 \<and> length d = 32"
| "kdf_typed (ChunkNonce fk i d) \<longleftrightarrow> length fk = 32 \<and> length d = 32"
| "kdf_typed (FileId v e d) \<longleftrightarrow> length v = 32 \<and> length d = 32"

lemmas kdf_input_defs =
  subkey_input_def file_version_key_input_def chunk_nonce_input_def file_version_id_input_def

lemma kdf_bytes_length:
  "kdf_typed c \<Longrightarrow> length (kdf_bytes c) =
     (case c of Subkey _ _ _ \<Rightarrow> 66 | FileKey _ _ _ \<Rightarrow> 98 | ChunkNonce _ _ _ \<Rightarrow> 94 | FileId _ _ _ \<Rightarrow> 100)"
  by (cases c) (simp_all add: kdf_input_defs)

lemma colon_split:
  fixes ctx :: "'a list"
  assumes "x \<notin> set ctx" "x \<notin> set ctx'"
  shows "ctx @ x # m = ctx' @ x # m' \<longleftrightarrow> ctx = ctx' \<and> m = m'"
  using assms
proof (induction ctx arbitrary: ctx')
  case Nil
  then show ?case by (cases ctx') auto
next
  case (Cons y ctx)
  then show ?case by (cases ctx') auto
qed

text \<open>No signing context of the program contains a colon.\<close>

definition colon_free :: "bytes \<Rightarrow> bool" where
  "colon_free ctx \<longleftrightarrow> of_char (CHR '':'') \<notin> set ctx"

lemma domain_payload_inj:
  assumes "colon_free ctx" "colon_free ctx'"
  shows "domain_payload ctx m = domain_payload ctx' m' \<longleftrightarrow> ctx = ctx' \<and> m = m'"
  using colon_split[of _ ctx ctx' m m'] assms
  by (simp add: domain_payload_def as_bytes_def colon_free_def)

subsection \<open>Properties\<close>

text \<open>
  Encrypting a chunk under a 32-byte key always succeeds, adds the 24-byte nonce
  and the 16-byte tag, and decrypts to the same bytes; and whenever the payload is
  accepted with some associated data, it is exactly the encryption of the result with
  that data under the leading nonce.
\<close>

theorem chunk_encryption:
  assumes "aead_ok cr" "length key = 32" "length nonce = 24" "length m \<le> 2 ^ 37"
  shows "\<exists>payload. encrypt_chunk cr nonce key m aad = Inr payload \<and> length payload = length m + 40 \<and>
    decrypt_chunk cr key payload aad = Inr m \<and>
    (\<forall>m' aad'. decrypt_chunk cr key payload aad' = Inr m' \<longleftrightarrow> encrypt_chunk cr nonce key m' aad' = Inr payload)"
proof (rule encrypt_chunk_with_nonce_ok[OF assms])
  fix payload assume p: "encrypt_chunk_with_nonce cr key nonce m aad = Inr payload"
    "length payload = length m + 40"
  then have "take 24 payload = nonce"
    using assms(3) by (auto simp: encrypt_chunk_with_nonce_def result_simps)
  then show ?thesis using p assms
    by (intro exI[of _ payload]) (simp add: encrypt_chunk_def decrypt_encrypt_chunk decrypt_chunk_iff)
qed

theorem chunk_encryption_witness:
  "\<exists>payload. encrypt_chunk crypto_std (replicate 24 1) (replicate 32 2) [1, 2, 3] [9] = Inr payload \<and>
    length payload = length [1 :: byte, 2, 3] + 40 \<and>
    decrypt_chunk crypto_std (replicate 32 2) payload [9] = Inr [1, 2, 3] \<and>
    (\<forall>m' aad'. decrypt_chunk crypto_std (replicate 32 2) payload aad' = Inr m' \<longleftrightarrow>
      encrypt_chunk crypto_std (replicate 24 1) (replicate 32 2) m' aad' = Inr payload)"
  by (rule chunk_encryption) (simp_all add: crypto_okD[OF crypto_std_ok])

text \<open>
  C22. The key derivations never hash the same bytes for two different purposes or
  two different arguments: over 32-byte keys and digests and 8-byte contexts the
  hashed inputs of \<open>derive_subkey\<close>, \<open>derive_file_version_key\<close>, \<open>derive_chunk_nonce\<close>
  and \<open>derive_file_version_id\<close> are pairwise different.
\<close>

theorem kdf_inputs_separated:
  assumes "kdf_typed a" "kdf_typed b" "kdf_bytes a = kdf_bytes b"
  shows "a = b"
  using assms arg_cong[OF assms(3), of length] kdf_bytes_length[OF assms(1)] kdf_bytes_length[OF assms(2)]
  by (cases a; cases b) (simp_all add: kdf_input_defs)

theorem kdf_inputs_separated_witness:
  "kdf_bytes (Subkey (replicate 32 1) 1 CTX_RECOVERY_SIGNING) \<noteq> kdf_bytes (Subkey (replicate 32 1) 1 CTX_RECOVERY_ENCRYPT)"
proof
  assume "kdf_bytes (Subkey (replicate 32 1) 1 CTX_RECOVERY_SIGNING) =
    kdf_bytes (Subkey (replicate 32 1) 1 CTX_RECOVERY_ENCRYPT)"
  from kdf_inputs_separated[OF _ _ this] have "CTX_RECOVERY_SIGNING = CTX_RECOVERY_ENCRYPT" by simp
  then show False by (simp add: CTX_RECOVERY_SIGNING_def CTX_RECOVERY_ENCRYPT_def)
qed

text \<open>
  The HKDF info string of the version 2 derivations determines the domain, the
  vault, the epoch and the binding, although the domains differ in length.
\<close>

theorem v2_info_injective:
  assumes "length domain < 2 ^ 16" "length domain' < 2 ^ 16" "length vault = 32" "length vault' = 32"
  shows "expand_info domain vault epoch binding = expand_info domain' vault' epoch' binding' \<longleftrightarrow>
    domain = domain' \<and> vault = vault' \<and> epoch = epoch' \<and> binding = binding'"
proof
  assume eq: "expand_info domain vault epoch binding = expand_info domain' vault' epoch' binding'"
  then have "le_bytes 2 (word_of_nat (length domain) :: 16 word) = le_bytes 2 (word_of_nat (length domain') :: 16 word)"
    and rest: "domain @ vault @ le64 epoch @ binding = domain' @ vault' @ le64 epoch' @ binding'"
    unfolding expand_info_def by (simp_all only: append_eq_same_length length_le_bytes)
  then have "(word_of_nat (length domain) :: 16 word) = word_of_nat (length domain')"
    using le_bytes_inj[of 2] by fastforce
  then have "unat (word_of_nat (length domain) :: 16 word) = unat (word_of_nat (length domain') :: 16 word)"
    by simp
  then have "length domain = length domain'" using assms(1,2) by (simp only: unat_of_nat) simp
  with rest assms(3,4) show "domain = domain' \<and> vault = vault' \<and> epoch = epoch' \<and> binding = binding'" by simp
qed simp

theorem v2_info_injective_witness:
  "expand_info (as_bytes ''chunk-aead-key'') (replicate 32 1) 3 [7] \<noteq>
   expand_info (as_bytes ''chunk-aead-nonce'') (replicate 32 1) 3 [7]"
  using v2_info_injective[of "as_bytes ''chunk-aead-key''" "as_bytes ''chunk-aead-nonce''" "replicate 32 1" "replicate 32 1"]
  by simp



end
