(* ===== verification/Envelopes.thy ===== *)
theory Envelopes
  imports Crypto_Core
begin

text \<open>
  The three envelope formats of \<open>src/crates/crypto/src\<close>: scope-bound secret values and
  wrapped data keys (\<open>envelope.rs\<close>), sealed boxes to an X25519 key (\<open>sealed_box.rs\<close>) and
  passphrase backups (\<open>passphrase_backup.rs\<close>, \<open>password.rs\<close>). Random nonces, salts and
  ephemeral keys are arguments.
\<close>

subsection \<open>Scoped secret values\<close>

definition SCOPE_AAD_DOMAIN :: bytes where "SCOPE_AAD_DOMAIN = as_bytes ''CipherVault-ScopeAAD-v1''"
definition KEK_WRAP_DOMAIN :: bytes where "KEK_WRAP_DOMAIN = as_bytes ''cv-kek-wrap-v1''"

definition scope_aad :: "bytes \<Rightarrow> bytes \<Rightarrow> bytes \<Rightarrow> bytes \<Rightarrow> u32 \<Rightarrow> bytes" where
  "scope_aad tenant_id project_id environment_id secret_id version =
     SCOPE_AAD_DOMAIN @ tenant_id @ project_id @ environment_id @ secret_id @ rev (le32 version)"

record SealedSecret =
  ss_nonce :: bytes
  ss_ciphertext :: bytes

definition seal_secret_value ::
  "crypto_crate \<Rightarrow> bytes \<Rightarrow> bytes \<Rightarrow> bytes \<Rightarrow> bytes \<Rightarrow> CryptoError + SealedSecret" where
  "seal_secret_value cr nonce dek plaintext aad =
     rbind (encrypt_with_nonce cr dek nonce plaintext aad) (\<lambda>ciphertext.
       Inr \<lparr>ss_nonce = nonce, ss_ciphertext = ciphertext\<rparr>)"

definition open_secret_value ::
  "crypto_crate \<Rightarrow> bytes \<Rightarrow> SealedSecret \<Rightarrow> bytes \<Rightarrow> CryptoError + bytes" where
  "open_secret_value cr dek sealed aad =
     (if length (ss_ciphertext sealed) < TAG_SIZE then Inl AuthTagVerificationFailed
      else decrypt_with_nonce cr dek (ss_nonce sealed) (ss_ciphertext sealed) aad)"

subsection \<open>Wrapped data keys\<close>

record WrappedDek =
  wd_kek_id :: string
  wd_nonce :: bytes
  wd_blob :: bytes

record LocalKekService =
  lk_kek_id :: string
  lk_kek :: bytes

definition LocalKekService_new :: "string \<Rightarrow> bytes \<Rightarrow> LocalKekService" where
  "LocalKekService_new kek_id kek = \<lparr>lk_kek_id = kek_id, lk_kek = kek\<rparr>"

definition wrap_aad :: "LocalKekService \<Rightarrow> bytes" where
  "wrap_aad svc = KEK_WRAP_DOMAIN @ as_bytes (lk_kek_id svc)"

definition wrap_dek :: "crypto_crate \<Rightarrow> bytes \<Rightarrow> LocalKekService \<Rightarrow> bytes \<Rightarrow> CryptoError + WrappedDek" where
  "wrap_dek cr nonce svc dek =
     rbind (encrypt_with_nonce cr (lk_kek svc) nonce dek (wrap_aad svc)) (\<lambda>blob.
       Inr \<lparr>wd_kek_id = lk_kek_id svc, wd_nonce = nonce, wd_blob = blob\<rparr>)"

definition unwrap_dek :: "crypto_crate \<Rightarrow> LocalKekService \<Rightarrow> WrappedDek \<Rightarrow> CryptoError + bytes" where
  "unwrap_dek cr svc wrapped =
     (if wd_kek_id wrapped \<noteq> lk_kek_id svc then Inl AuthTagVerificationFailed
      else if length (wd_blob wrapped) < TAG_SIZE then Inl AuthTagVerificationFailed
      else
        rbind (decrypt_with_nonce cr (lk_kek svc) (wd_nonce wrapped) (wd_blob wrapped) (wrap_aad svc)) (\<lambda>raw.
          if length raw \<noteq> KEY_SIZE then Inl (InvalidKeyLength KEY_SIZE (length raw)) else Inr raw))"

subsection \<open>Sealed boxes\<close>

definition SEALED_BOX_OVERHEAD :: nat where "SEALED_BOX_OVERHEAD = 32 + 16"

definition derive_box_seal_key_and_nonce :: "crypto_crate \<Rightarrow> bytes \<Rightarrow> bytes \<Rightarrow> bytes \<Rightarrow> bytes \<times> bytes" where
  "derive_box_seal_key_and_nonce cr ephemeral_pk recipient_pk shared_secret =
     (let hash = blake2b512 cr (as_bytes ''CipherVault-BoxSeal-v1'' @ ephemeral_pk @ recipient_pk @ shared_secret)
      in (take 32 hash, take 24 (drop 32 hash)))"

definition seal_box :: "crypto_crate \<Rightarrow> bytes \<Rightarrow> bytes \<Rightarrow> bytes \<Rightarrow> CryptoError + bytes" where
  "seal_box cr ephemeral_sk recipient_pk plaintext =
     (let ephemeral_pk = x25519_public cr ephemeral_sk;
          shared_point = x25519_dh cr ephemeral_sk recipient_pk
      in if \<not> x25519_contributory cr shared_point then Inl NonContributoryKeyAgreement
         else
           (let (key, nonce) = derive_box_seal_key_and_nonce cr ephemeral_pk recipient_pk shared_point
            in case xchacha_encrypt cr key nonce plaintext (as_bytes ''CipherVault-SealedBox'') of
                 None \<Rightarrow> Inl AuthTagVerificationFailed
               | Some ciphertext \<Rightarrow> Inr (ephemeral_pk @ ciphertext)))"

definition open_sealed_box :: "crypto_crate \<Rightarrow> bytes \<Rightarrow> bytes \<Rightarrow> bytes \<Rightarrow> CryptoError + bytes" where
  "open_sealed_box cr recipient_sk recipient_pk sealed_box =
     (if length sealed_box < SEALED_BOX_OVERHEAD then Inl (SealedBoxPayloadTooShort SEALED_BOX_OVERHEAD)
      else
        (let ephemeral_pk = take 32 sealed_box;
             ciphertext = drop 32 sealed_box;
             shared_point = x25519_dh cr recipient_sk ephemeral_pk
         in if \<not> x25519_contributory cr shared_point then Inl NonContributoryKeyAgreement
            else
              (let (key, nonce) = derive_box_seal_key_and_nonce cr ephemeral_pk recipient_pk shared_point
               in case xchacha_decrypt cr key nonce ciphertext (as_bytes ''CipherVault-SealedBox'') of
                    None \<Rightarrow> Inl AuthTagVerificationFailed
                  | Some plaintext \<Rightarrow> Inr plaintext)))"

subsection \<open>Passphrase backups\<close>

definition ARGON2_SALT_LEN :: nat where "ARGON2_SALT_LEN = 16"
definition BACKUP_MAGIC :: bytes where "BACKUP_MAGIC = as_bytes ''CVKB1''"
definition BACKUP_KDF_ARGON2ID_64M :: byte where "BACKUP_KDF_ARGON2ID_64M = 0x01"
definition BACKUP_HEADER_LEN :: nat where "BACKUP_HEADER_LEN = 5 + 1 + ARGON2_SALT_LEN + NONCE_SIZE"

definition derive_key_from_password :: "crypto_crate \<Rightarrow> bytes \<Rightarrow> bytes \<Rightarrow> CryptoError + bytes" where
  "derive_key_from_password cr password salt = rmap_err PasswordHashError (argon2id cr password salt)"

definition backup_header :: "bytes \<Rightarrow> bytes \<Rightarrow> bytes" where
  "backup_header salt nonce = BACKUP_MAGIC @ [BACKUP_KDF_ARGON2ID_64M] @ salt @ nonce"

definition seal_passphrase_backup ::
  "crypto_crate \<Rightarrow> bytes \<Rightarrow> bytes \<Rightarrow> bytes \<Rightarrow> bytes \<Rightarrow> CryptoError + bytes" where
  "seal_passphrase_backup cr salt nonce passphrase plaintext =
     (if passphrase = [] then Inl (PasswordHashError ''passphrase must not be empty'')
      else
        rbind (derive_key_from_password cr passphrase salt) (\<lambda>key.
          let header = backup_header salt nonce
          in rbind (encrypt_with_nonce cr key nonce plaintext header) (\<lambda>ciphertext.
               Inr (header @ ciphertext))))"

definition open_passphrase_backup :: "crypto_crate \<Rightarrow> bytes \<Rightarrow> bytes \<Rightarrow> CryptoError + bytes" where
  "open_passphrase_backup cr passphrase envelope =
     (if passphrase = [] \<or> length envelope < BACKUP_HEADER_LEN + TAG_SIZE then Inl AuthTagVerificationFailed
      else
        (let header = take BACKUP_HEADER_LEN envelope;
             ciphertext = drop BACKUP_HEADER_LEN envelope
         in if take 5 header \<noteq> BACKUP_MAGIC \<or> header ! 5 \<noteq> BACKUP_KDF_ARGON2ID_64M
            then Inl AuthTagVerificationFailed
            else
              (let salt = take ARGON2_SALT_LEN (drop 6 header);
                   nonce = drop (6 + ARGON2_SALT_LEN) header
               in rbind (derive_key_from_password cr passphrase salt) (\<lambda>key.
                    rmap_err (\<lambda>_. AuthTagVerificationFailed) (decrypt_with_nonce cr key nonce ciphertext header)))))"

subsection \<open>Lemmas\<close>

lemmas backup_defs = BACKUP_MAGIC_def BACKUP_HEADER_LEN_def ARGON2_SALT_LEN_def aead_sizes backup_header_def

lemma scope_aad_length:
  assumes "length t = 16" "length p = 16" "length e = 16" "length s = 16"
  shows "length (scope_aad t p e s v) = 91"
  using assms by (simp add: scope_aad_def SCOPE_AAD_DOMAIN_def)

lemma backup_header_parts:
  assumes "length salt = 16" "length nonce = 24"
  shows "length (backup_header salt nonce) = 46" "take 5 (backup_header salt nonce) = BACKUP_MAGIC"
    "backup_header salt nonce ! 5 = BACKUP_KDF_ARGON2ID_64M"
    "take 16 (drop 6 (backup_header salt nonce)) = salt" "drop 22 (backup_header salt nonce) = nonce"
  using assms by (simp_all add: backup_header_def BACKUP_MAGIC_def as_bytes_def)

text \<open>A byte list of header length with the magic and the KDF id is such a header.\<close>

lemma backup_header_split:
  assumes "length h = 46" "take 5 h = BACKUP_MAGIC" "h ! 5 = BACKUP_KDF_ARGON2ID_64M"
  shows "h = backup_header (take 16 (drop 6 h)) (drop 22 h)"
proof -
  have "h = take 5 h @ drop 5 h" by simp
  also have "drop 5 h = h ! 5 # drop 6 h" using assms(1) by (simp add: Cons_nth_drop_Suc[symmetric])
  also have "drop 6 h = take 16 (drop 6 h) @ drop 22 h"
    using append_take_drop_id[of 16 "drop 6 h"] by simp
  finally show ?thesis using assms(2,3) by (simp add: backup_header_def)
qed

lemma open_secret_value_iff:
  assumes "aead_ok cr"
  shows "open_secret_value cr dek sealed aad = Inr m \<longleftrightarrow>
    encrypt_with_nonce cr dek (ss_nonce sealed) m aad = Inr (ss_ciphertext sealed)"
  unfolding decrypt_with_nonce_iff[OF assms, symmetric]
  by (auto simp: open_secret_value_def decrypt_with_nonce_def)

lemma derive_box_lengths:
  assumes "digests_ok cr" "derive_box_seal_key_and_nonce cr e r s = (key, nonce)"
  shows "length key = 32" "length nonce = 24"
  using assms by (auto simp: derive_box_seal_key_and_nonce_def Let_def)

lemma seal_box_contributory:
  assumes "crypto_ok cr" "length m \<le> 2 ^ 37" "x25519_contributory cr (x25519_dh cr esk (x25519_public cr rsk))"
  shows "\<exists>bx. seal_box cr esk (x25519_public cr rsk) m = Inr bx \<and> length bx = length m + SEALED_BOX_OVERHEAD \<and>
    open_sealed_box cr rsk (x25519_public cr rsk) bx = Inr m"
proof -
  note ok = crypto_okD[OF assms(1)]
  let ?epk = "x25519_public cr esk" and ?rpk = "x25519_public cr rsk"
  let ?sh = "x25519_dh cr esk ?rpk"
  obtain key nonce where kn: "derive_box_seal_key_and_nonce cr ?epk ?rpk ?sh = (key, nonce)" by fastforce
  obtain ct where ct: "xchacha_encrypt cr key nonce m (as_bytes ''CipherVault-SealedBox'') = Some ct"
    using aead_encrypts[OF ok(2) derive_box_lengths[OF ok(1) kn] assms(2)] .
  have dh: "x25519_dh cr rsk ?epk = ?sh" and len: "length ?epk = 32"
    using ok(4) by (simp_all add: x25519_ok_def)
  have "length ct = length m + 16" by (rule aead_length[OF ok(2) ct])
  then show ?thesis using kn ct dh len assms(3) iffD2[OF aead_decrypt_iff[OF ok(2)] ct]
    by (simp add: seal_box_def open_sealed_box_def SEALED_BOX_OVERHEAD_def Let_def)
qed

lemma seal_box_opens:
  assumes "crypto_ok cr" "length m \<le> 2 ^ 37" "seal_box cr esk (x25519_public cr rsk) m = Inr bx"
  shows "length bx = length m + SEALED_BOX_OVERHEAD \<and> open_sealed_box cr rsk (x25519_public cr rsk) bx = Inr m"
proof -
  have "x25519_contributory cr (x25519_dh cr esk (x25519_public cr rsk))"
    using assms(3) by (auto simp: seal_box_def Let_def split: if_splits)
  from seal_box_contributory[OF assms(1,2) this] assms(3) show ?thesis by auto
qed

lemma seal_box_refuses:
  assumes "crypto_ok cr" "length m \<le> 2 ^ 37" "seal_box cr esk (x25519_public cr rsk) m = Inl err"
  shows "err = NonContributoryKeyAgreement \<and> \<not> x25519_contributory cr (x25519_dh cr esk (x25519_public cr rsk))"
  using seal_box_contributory[OF assms(1,2), of esk rsk] assms(3)
  by (auto simp: seal_box_def Let_def split: if_splits)

subsection \<open>Properties\<close>



text \<open>
  A wrapped data key is unwrapped by the service that wrapped it, and a service
  with another identifier refuses it whatever its key is.
\<close>

theorem dek_wrapping:
  assumes "aead_ok cr" "length (lk_kek svc) = 32" "length nonce = 24" "length dek = 32"
  shows "\<exists>w. wrap_dek cr nonce svc dek = Inr w \<and> unwrap_dek cr svc w = Inr dek \<and>
    (lk_kek_id svc' \<noteq> lk_kek_id svc \<longrightarrow> unwrap_dek cr svc' w = Inl AuthTagVerificationFailed)"
proof -
  obtain ct where ct: "encrypt_with_nonce cr (lk_kek svc) nonce dek (wrap_aad svc) = Inr ct"
      "length ct = length dek + 16"
    using encrypt_with_nonce_ok[OF assms(1-3), of dek] assms(4) by auto
  then have "decrypt_with_nonce cr (lk_kek svc) nonce ct (wrap_aad svc) = Inr dek"
    by (simp add: decrypt_with_nonce_iff[OF assms(1)])
  with ct assms(4) show ?thesis
    by (intro exI[of _ "\<lparr>wd_kek_id = lk_kek_id svc, wd_nonce = nonce, wd_blob = ct\<rparr>"])
      (auto simp: wrap_dek_def unwrap_dek_def aead_sizes)
qed

theorem dek_wrapping_witness:
  "\<exists>w. wrap_dek crypto_std (replicate 24 1) (LocalKekService_new ''kek-a'' (replicate 32 2)) (replicate 32 3) = Inr w \<and>
    unwrap_dek crypto_std (LocalKekService_new ''kek-a'' (replicate 32 2)) w = Inr (replicate 32 3) \<and>
    (lk_kek_id (LocalKekService_new ''kek-b'' (replicate 32 2)) \<noteq> lk_kek_id (LocalKekService_new ''kek-a'' (replicate 32 2)) \<longrightarrow>
     unwrap_dek crypto_std (LocalKekService_new ''kek-b'' (replicate 32 2)) w = Inl AuthTagVerificationFailed)"
  by (rule dek_wrapping) (simp_all add: crypto_okD[OF crypto_std_ok] LocalKekService_new_def)

text \<open>
  A sealed box made for the public key of a secret opens with that secret, except
  when the key agreement is not contributory, which sealing itself refuses.
\<close>

theorem sealed_box_roundtrip:
  assumes "crypto_ok cr" "length m \<le> 2 ^ 37"
  shows "case seal_box cr esk (x25519_public cr rsk) m of
      Inr bx \<Rightarrow> length bx = length m + SEALED_BOX_OVERHEAD \<and>
        open_sealed_box cr rsk (x25519_public cr rsk) bx = Inr m
    | Inl err \<Rightarrow> err = NonContributoryKeyAgreement \<and>
        \<not> x25519_contributory cr (x25519_dh cr esk (x25519_public cr rsk))"
  using seal_box_opens[OF assms] seal_box_refuses[OF assms] by (auto split: sum.split)

theorem sealed_box_roundtrip_witness:
  "case seal_box crypto_std [1] (x25519_public crypto_std [2]) [4, 5] of
      Inr bx \<Rightarrow> length bx = length [4 :: byte, 5] + SEALED_BOX_OVERHEAD \<and>
        open_sealed_box crypto_std [2] (x25519_public crypto_std [2]) bx = Inr [4, 5]
    | Inl err \<Rightarrow> err = NonContributoryKeyAgreement \<and>
        \<not> x25519_contributory crypto_std (x25519_dh crypto_std [1] (x25519_public crypto_std [2]))"
  by (rule sealed_box_roundtrip) (simp_all add: crypto_std_ok)

text \<open>
  A passphrase backup opens with the passphrase it was sealed under, and every
  failure to open - wrong passphrase, tampering, truncation, unknown version - is the
  same error.
\<close>

theorem passphrase_backup:
  assumes "crypto_ok cr" "pw \<noteq> []" "length pw < 2 ^ 32" "length salt = 16" "length nonce = 24" "length m \<le> 2 ^ 37"
    and "length pw' < 2 ^ 32"
  shows "\<exists>env. seal_passphrase_backup cr salt nonce pw m = Inr env \<and> open_passphrase_backup cr pw env = Inr m \<and>
    (\<forall>e. open_passphrase_backup cr pw' other = Inl e \<longrightarrow> e = AuthTagVerificationFailed)"
proof -
  note ok = crypto_okD[OF assms(1)]
  let ?h = "backup_header salt nonce"
  obtain key where key: "argon2id cr pw salt = Inr key" "length key = 32"
    using ok(5) assms(3,4) unfolding argon2_ok_def by blast
  obtain ct where ct: "encrypt_with_nonce cr key nonce m ?h = Inr ct" "length ct = length m + 16"
    using encrypt_with_nonce_ok[OF ok(2) key(2) assms(5,6)] .
  note parts = backup_header_parts[OF assms(4,5)]
  have hdr: "take 46 (?h @ ct) = ?h" "drop 46 (?h @ ct) = ct" using parts(1) by simp_all
  have "open_passphrase_backup cr pw (?h @ ct) = Inr m"
    using assms(2) key parts ct(2) iffD2[OF decrypt_with_nonce_iff[OF ok(2)] ct(1)] hdr
    by (simp add: open_passphrase_backup_def derive_key_from_password_def Let_def aead_sizes
        BACKUP_HEADER_LEN_def ARGON2_SALT_LEN_def)
  moreover have "seal_passphrase_backup cr salt nonce pw m = Inr (?h @ ct)"
    using assms(2) key ct by (simp add: seal_passphrase_backup_def derive_key_from_password_def Let_def)
  moreover have "e = AuthTagVerificationFailed" if "open_passphrase_backup cr pw' other = Inl e" for e
  proof (cases "length other < 62")
    case False
    then have "length (take 16 (drop 6 (take 46 other))) = 16" by simp
    then obtain k where "argon2id cr pw' (take 16 (drop 6 (take 46 other))) = Inr k"
      using ok(5) assms(7) unfolding argon2_ok_def by blast
    with that show ?thesis
      by (auto simp: open_passphrase_backup_def derive_key_from_password_def Let_def aead_sizes
          BACKUP_HEADER_LEN_def ARGON2_SALT_LEN_def rmap_err_def split: if_splits sum.splits)
  qed (use that in \<open>simp add: open_passphrase_backup_def BACKUP_HEADER_LEN_def ARGON2_SALT_LEN_def aead_sizes\<close>)
  ultimately show ?thesis by blast
qed

theorem passphrase_backup_witness:
  "\<exists>env. seal_passphrase_backup crypto_std (replicate 16 1) (replicate 24 2) [65] [7, 8] = Inr env \<and>
    open_passphrase_backup crypto_std [65] env = Inr [7, 8] \<and>
    (\<forall>e. open_passphrase_backup crypto_std [66] [0] = Inl e \<longrightarrow> e = AuthTagVerificationFailed)"
  by (rule passphrase_backup) (simp_all add: crypto_std_ok)

end
