(* ===== verification/Schema.thy ===== *)
theory Schema
  imports Crypto_Core
begin

text \<open>
  The wire records of \<open>src/crates/format/src/schema.rs\<close> and the bounded CBOR coding of
  \<open>canonical.rs\<close>. The encoding of a record type by \<open>serde\<close> and \<open>ciborium\<close> is a parameter
  (a \<open>codec\<close>); \<open>codec_ok\<close> states that encoding into memory succeeds and is undone by
  decoding. Record fields carry a short prefix per record. The signed records share
  the contract \<open>signed_record\<close>.
\<close>

subsection \<open>Canonical CBOR\<close>

datatype FormatError =
    SerializationError string
  | DeserializationError string
  | MalformedRecord string
  | SizeLimitExceeded nat nat
  | FormatCryptoError CryptoError

record 'a codec =
  cbor_write :: "'a \<Rightarrow> string + bytes"
  cbor_read :: "bytes \<Rightarrow> string + 'a"

definition codec_ok :: "'a codec \<Rightarrow> bool" where
  "codec_ok c \<longleftrightarrow> (\<forall>x. \<exists>bs. cbor_write c x = Inr bs \<and> cbor_read c bs = Inr x)"

definition MAX_RECORD_SIZE :: nat where "MAX_RECORD_SIZE = 16 * 1024 * 1024"

definition to_canonical_cbor :: "'a codec \<Rightarrow> 'a \<Rightarrow> FormatError + bytes" where
  "to_canonical_cbor c v =
     rbind (rmap_err SerializationError (cbor_write c v)) (\<lambda>buf.
       if length buf > MAX_RECORD_SIZE then Inl (SizeLimitExceeded MAX_RECORD_SIZE (length buf))
       else Inr buf)"

definition from_canonical_cbor :: "'a codec \<Rightarrow> bytes \<Rightarrow> FormatError + 'a" where
  "from_canonical_cbor c bs =
     (if length bs > MAX_RECORD_SIZE then Inl (SizeLimitExceeded MAX_RECORD_SIZE (length bs))
      else rmap_err DeserializationError (cbor_read c bs))"

definition compute_digest :: "crypto_crate \<Rightarrow> bytes \<Rightarrow> bytes" where
  "compute_digest cr bs = sha256 cr bs"

subsection \<open>Records\<close>

definition PROTOCOL_VERSION :: u32 where "PROTOCOL_VERSION = 1"
definition CHUNK_WIRE_VERSION_V2 :: u32 where "CHUNK_WIRE_VERSION_V2 = 2"

record GenesisRecord =
  gr_version :: u32
  gr_vault_id :: bytes
  gr_recovery_signing_pk :: bytes
  gr_recovery_encryption_pk :: bytes
  gr_policy_digest :: bytes
  gr_created_at_utc :: u64
  gr_creation_nonce :: bytes
  gr_signature :: bytes

record DeviceCertificate =
  dc_version :: u32
  dc_vault_id :: bytes
  dc_certificate_id :: bytes
  dc_device_signing_pk :: bytes
  dc_permissions :: u32
  dc_authority_generation :: u64
  dc_issued_at_utc :: u64
  dc_signature :: bytes

record EpochEnvelope =
  ee_version :: u32
  ee_vault_id :: bytes
  ee_epoch :: u64
  ee_recipient_fingerprint :: bytes
  ee_sealed_epoch_key :: bytes
  ee_created_at_utc :: u64
  ee_signer_device_id :: bytes
  ee_signature :: bytes

record ChunkWireObject =
  cw_version :: u32
  cw_vault_id :: bytes
  cw_file_version_id :: bytes
  cw_chunk_index :: u32
  cw_total_chunks :: u32
  cw_declared_padded_length :: u32
  cw_key_epoch :: u64
  cw_payload :: bytes

record ManifestFileEntry =
  mf_file_id :: bytes
  mf_relative_path :: string
  mf_file_version_id :: bytes
  mf_raw_length :: u64
  mf_padded_length :: u64
  mf_plaintext_sha256 :: bytes
  mf_file_version_key :: bytes
  mf_chunk_cids :: "bytes list"
  mf_is_deleted :: bool

record SnapshotManifest =
  sm_version :: u32
  sm_vault_id :: bytes
  sm_epoch :: u64
  sm_snapshot_id :: bytes
  sm_files :: "ManifestFileEntry list"

record SnapshotRecord =
  sr_version :: u32
  sr_vault_id :: bytes
  sr_snapshot_id :: bytes
  sr_parent_snapshot_ids :: "bytes list"
  sr_device_id :: bytes
  sr_device_counter :: u64
  sr_authority_generation :: u64
  sr_epoch :: u64
  sr_encrypted_manifest_cid :: bytes
  sr_encrypted_manifest_len :: u64
  sr_advisory_timestamp_utc :: u64
  sr_signature :: bytes

record RecoveryClosure =
  rc_snapshot_id :: bytes
  rc_snapshot_record_cid :: bytes
  rc_manifest_cid :: bytes
  rc_envelope_ids :: "bytes list"
  rc_chunk_cids :: "bytes list"
  rc_total_bytes :: u64

record RecoverySet =
  rs_closure :: RecoveryClosure
  rs_locator :: bytes
  rs_records :: "bytes list"

record HeadRecord =
  hr_version :: u32
  hr_vault_id :: bytes
  hr_snapshot_id :: bytes
  hr_parent_snapshot_ids :: "bytes list"
  hr_closure_digest :: bytes
  hr_device_id :: bytes
  hr_device_counter :: u64
  hr_signature :: bytes

record CheckpointEvidence =
  ce_version :: u32
  ce_commitment :: bytes
  ce_salt :: bytes
  ce_head_record_cid :: bytes
  ce_chain_id :: u64
  ce_contract_address :: bytes
  ce_tx_hash :: bytes
  ce_block_number :: u64
  ce_timestamp_utc :: u64

record PlacementUpdate =
  pu_version :: u32
  pu_closure_digest :: bytes
  pu_object_cid :: bytes
  pu_source_operator :: string
  pu_target_operator :: string
  pu_updated_at_utc :: u64
  pu_verified_readback :: bool
  pu_signature :: bytes

subsection \<open>Genesis record\<close>

definition genesis_unsigned_bytes :: "GenesisRecord codec \<Rightarrow> GenesisRecord \<Rightarrow> FormatError + bytes" where
  "genesis_unsigned_bytes c r = to_canonical_cbor c (r\<lparr>gr_signature := []\<rparr>)"

definition genesis_sign ::
  "crypto_crate \<Rightarrow> GenesisRecord codec \<Rightarrow> bytes \<Rightarrow> GenesisRecord \<Rightarrow> FormatError + GenesisRecord" where
  "genesis_sign cr c recovery_sk r =
     rbind (genesis_unsigned_bytes c r) (\<lambda>unsigned.
       Inr (r\<lparr>gr_signature := sign_with_domain cr recovery_sk (as_bytes ''genesis_record'') unsigned\<rparr>))"

definition genesis_verify :: "crypto_crate \<Rightarrow> GenesisRecord codec \<Rightarrow> GenesisRecord \<Rightarrow> FormatError + unit" where
  "genesis_verify cr c r =
     (if length (gr_recovery_signing_pk r) \<noteq> 32 \<or> length (gr_signature r) \<noteq> 64
      then Inl (MalformedRecord ''Invalid key or signature length in genesis'')
      else
        rbind (genesis_unsigned_bytes c r) (\<lambda>unsigned.
          rmap_err FormatCryptoError
            (verify_with_domain cr (gr_recovery_signing_pk r) (as_bytes ''genesis_record'') unsigned (gr_signature r))))"

subsection \<open>Device certificate\<close>

definition cert_unsigned_bytes :: "DeviceCertificate codec \<Rightarrow> DeviceCertificate \<Rightarrow> FormatError + bytes" where
  "cert_unsigned_bytes c r = to_canonical_cbor c (r\<lparr>dc_signature := []\<rparr>)"

definition cert_sign ::
  "crypto_crate \<Rightarrow> DeviceCertificate codec \<Rightarrow> bytes \<Rightarrow> DeviceCertificate \<Rightarrow> FormatError + DeviceCertificate" where
  "cert_sign cr c recovery_sk r =
     rbind (cert_unsigned_bytes c r) (\<lambda>unsigned.
       Inr (r\<lparr>dc_signature := sign_with_domain cr recovery_sk (as_bytes ''device_certificate'') unsigned\<rparr>))"

definition cert_verify ::
  "crypto_crate \<Rightarrow> DeviceCertificate codec \<Rightarrow> bytes \<Rightarrow> DeviceCertificate \<Rightarrow> FormatError + unit" where
  "cert_verify cr c recovery_pk_bytes r =
     (if length (dc_signature r) \<noteq> 64 then Inl (MalformedRecord ''Invalid signature length in device cert'')
      else
        rbind (cert_unsigned_bytes c r) (\<lambda>unsigned.
          rmap_err FormatCryptoError
            (verify_with_domain cr recovery_pk_bytes (as_bytes ''device_certificate'') unsigned (dc_signature r))))"

subsection \<open>Epoch envelope\<close>

text \<open>A hardware module is the function \<open>sign_message\<close> at the chosen slot, from context and message.\<close>

type_synonym hsm_signer = "bytes \<Rightarrow> bytes \<Rightarrow> CryptoError + bytes"

definition envelope_unsigned_bytes :: "EpochEnvelope codec \<Rightarrow> EpochEnvelope \<Rightarrow> FormatError + bytes" where
  "envelope_unsigned_bytes c r = to_canonical_cbor c (r\<lparr>ee_signature := []\<rparr>)"

definition envelope_sign ::
  "crypto_crate \<Rightarrow> EpochEnvelope codec \<Rightarrow> bytes \<Rightarrow> EpochEnvelope \<Rightarrow> FormatError + EpochEnvelope" where
  "envelope_sign cr c device_sk r =
     rbind (envelope_unsigned_bytes c r) (\<lambda>unsigned.
       Inr (r\<lparr>ee_signature := sign_with_domain cr device_sk (as_bytes ''epoch_envelope'') unsigned\<rparr>))"

definition envelope_sign_with_hsm ::
  "EpochEnvelope codec \<Rightarrow> hsm_signer \<Rightarrow> EpochEnvelope \<Rightarrow> FormatError + EpochEnvelope" where
  "envelope_sign_with_hsm c hsm r =
     rbind (envelope_unsigned_bytes c r) (\<lambda>unsigned.
       rbind (rmap_err FormatCryptoError (hsm (as_bytes ''epoch_envelope'') unsigned)) (\<lambda>sig.
         Inr (r\<lparr>ee_signature := sig\<rparr>)))"

definition envelope_verify ::
  "crypto_crate \<Rightarrow> EpochEnvelope codec \<Rightarrow> bytes \<Rightarrow> EpochEnvelope \<Rightarrow> FormatError + unit" where
  "envelope_verify cr c device_pk_bytes r =
     (if length (ee_signature r) \<noteq> 64 then Inl (MalformedRecord ''Invalid signature length in epoch envelope'')
      else
        rbind (envelope_unsigned_bytes c r) (\<lambda>unsigned.
          rmap_err FormatCryptoError
            (verify_with_domain cr device_pk_bytes (as_bytes ''epoch_envelope'') unsigned (ee_signature r))))"

subsection \<open>Chunks\<close>

definition compute_aad :: "ChunkWireObject \<Rightarrow> bytes" where
  "compute_aad w =
     le32 (cw_version w) @ cw_vault_id w @ cw_file_version_id w @ le32 (cw_chunk_index w) @
     le32 (cw_total_chunks w) @ le32 (cw_declared_padded_length w) @ le64 (cw_key_epoch w)"

definition compute_cid :: "crypto_crate \<Rightarrow> ChunkWireObject codec \<Rightarrow> ChunkWireObject \<Rightarrow> FormatError + bytes" where
  "compute_cid cr c w = rbind (to_canonical_cbor c w) (\<lambda>bs. Inr (compute_digest cr bs))"

subsection \<open>Snapshot record\<close>

definition snapshot_unsigned_bytes :: "SnapshotRecord codec \<Rightarrow> SnapshotRecord \<Rightarrow> FormatError + bytes" where
  "snapshot_unsigned_bytes c r = to_canonical_cbor c (r\<lparr>sr_signature := []\<rparr>)"

definition snapshot_sign ::
  "crypto_crate \<Rightarrow> SnapshotRecord codec \<Rightarrow> bytes \<Rightarrow> SnapshotRecord \<Rightarrow> FormatError + SnapshotRecord" where
  "snapshot_sign cr c device_sk r =
     rbind (snapshot_unsigned_bytes c r) (\<lambda>unsigned.
       Inr (r\<lparr>sr_signature := sign_with_domain cr device_sk (as_bytes ''snapshot_record'') unsigned\<rparr>))"

definition snapshot_sign_with_hsm ::
  "SnapshotRecord codec \<Rightarrow> hsm_signer \<Rightarrow> SnapshotRecord \<Rightarrow> FormatError + SnapshotRecord" where
  "snapshot_sign_with_hsm c hsm r =
     rbind (snapshot_unsigned_bytes c r) (\<lambda>unsigned.
       rbind (rmap_err FormatCryptoError (hsm (as_bytes ''snapshot_record'') unsigned)) (\<lambda>sig.
         Inr (r\<lparr>sr_signature := sig\<rparr>)))"

definition snapshot_verify ::
  "crypto_crate \<Rightarrow> SnapshotRecord codec \<Rightarrow> bytes \<Rightarrow> SnapshotRecord \<Rightarrow> FormatError + unit" where
  "snapshot_verify cr c device_pk_bytes r =
     (if length (sr_signature r) \<noteq> 64 then Inl (MalformedRecord ''Invalid signature length in snapshot record'')
      else
        rbind (snapshot_unsigned_bytes c r) (\<lambda>unsigned.
          rmap_err FormatCryptoError
            (verify_with_domain cr device_pk_bytes (as_bytes ''snapshot_record'') unsigned (sr_signature r))))"

definition compute_record_cid :: "crypto_crate \<Rightarrow> SnapshotRecord codec \<Rightarrow> SnapshotRecord \<Rightarrow> FormatError + bytes" where
  "compute_record_cid cr c r = rbind (to_canonical_cbor c r) (\<lambda>bs. Inr (compute_digest cr bs))"

definition compute_base_closure_digest ::
  "crypto_crate \<Rightarrow> RecoveryClosure codec \<Rightarrow> RecoveryClosure \<Rightarrow> FormatError + bytes" where
  "compute_base_closure_digest cr c r = rbind (to_canonical_cbor c r) (\<lambda>bs. Inr (compute_digest cr bs))"

subsection \<open>Head record\<close>

definition head_unsigned_bytes :: "HeadRecord codec \<Rightarrow> HeadRecord \<Rightarrow> FormatError + bytes" where
  "head_unsigned_bytes c r = to_canonical_cbor c (r\<lparr>hr_signature := []\<rparr>)"

definition head_sign ::
  "crypto_crate \<Rightarrow> HeadRecord codec \<Rightarrow> bytes \<Rightarrow> HeadRecord \<Rightarrow> FormatError + HeadRecord" where
  "head_sign cr c device_sk r =
     rbind (head_unsigned_bytes c r) (\<lambda>unsigned.
       Inr (r\<lparr>hr_signature := sign_with_domain cr device_sk (as_bytes ''head_record'') unsigned\<rparr>))"

definition head_sign_with_hsm :: "HeadRecord codec \<Rightarrow> hsm_signer \<Rightarrow> HeadRecord \<Rightarrow> FormatError + HeadRecord" where
  "head_sign_with_hsm c hsm r =
     rbind (head_unsigned_bytes c r) (\<lambda>unsigned.
       rbind (rmap_err FormatCryptoError (hsm (as_bytes ''head_record'') unsigned)) (\<lambda>sig.
         Inr (r\<lparr>hr_signature := sig\<rparr>)))"

definition head_verify :: "crypto_crate \<Rightarrow> HeadRecord codec \<Rightarrow> bytes \<Rightarrow> HeadRecord \<Rightarrow> FormatError + unit" where
  "head_verify cr c device_pk_bytes r =
     (if length (hr_signature r) \<noteq> 64 then Inl (MalformedRecord ''Invalid signature length in head record'')
      else
        rbind (head_unsigned_bytes c r) (\<lambda>unsigned.
          rmap_err FormatCryptoError
            (verify_with_domain cr device_pk_bytes (as_bytes ''head_record'') unsigned (hr_signature r))))"

subsection \<open>Checkpoint evidence\<close>

definition compute_commitment :: "crypto_crate \<Rightarrow> bytes \<Rightarrow> bytes \<Rightarrow> bytes" where
  "compute_commitment cr salt head_record_cid =
     sha256 cr (as_bytes ''CIPHERVAULT-ANCHOR-V1'' @ salt @ head_record_cid)"

definition CheckpointEvidence_new ::
  "crypto_crate \<Rightarrow> bytes \<Rightarrow> bytes \<Rightarrow> u64 \<Rightarrow> bytes \<Rightarrow> bytes \<Rightarrow> u64 \<Rightarrow> u64 \<Rightarrow> CheckpointEvidence" where
  "CheckpointEvidence_new cr salt head_record_cid chain_id contract_address tx_hash block_number timestamp_utc =
     \<lparr>ce_version = PROTOCOL_VERSION, ce_commitment = compute_commitment cr salt head_record_cid,
      ce_salt = salt, ce_head_record_cid = head_record_cid, ce_chain_id = chain_id,
      ce_contract_address = contract_address, ce_tx_hash = tx_hash, ce_block_number = block_number,
      ce_timestamp_utc = timestamp_utc\<rparr>"

definition verify_commitment :: "crypto_crate \<Rightarrow> CheckpointEvidence \<Rightarrow> bool" where
  "verify_commitment cr e =
     (if length (ce_salt e) \<noteq> 32 \<or> length (ce_head_record_cid e) \<noteq> 32 \<or> length (ce_commitment e) \<noteq> 32 then False
      else ce_commitment e = compute_commitment cr (ce_salt e) (ce_head_record_cid e))"

subsection \<open>The codecs of the record types\<close>

record schema_codecs =
  k_genesis :: "GenesisRecord codec"
  k_cert :: "DeviceCertificate codec"
  k_envelope :: "EpochEnvelope codec"
  k_snapshot :: "SnapshotRecord codec"
  k_head :: "HeadRecord codec"
  k_chunk :: "ChunkWireObject codec"
  k_manifest :: "SnapshotManifest codec"
  k_closure :: "RecoveryClosure codec"

definition codecs_ok :: "schema_codecs \<Rightarrow> bool" where
  "codecs_ok k \<longleftrightarrow> codec_ok (k_genesis k) \<and> codec_ok (k_cert k) \<and> codec_ok (k_envelope k) \<and>
     codec_ok (k_snapshot k) \<and> codec_ok (k_head k) \<and> codec_ok (k_chunk k) \<and>
     codec_ok (k_manifest k) \<and> codec_ok (k_closure k)"

lemma to_canonical_cbor_Inr:
  "to_canonical_cbor c v = Inr bs \<longleftrightarrow> cbor_write c v = Inr bs \<and> length bs \<le> MAX_RECORD_SIZE"
  by (auto simp: to_canonical_cbor_def result_simps)

lemma cbor_roundtrip:
  assumes "codec_ok c" "to_canonical_cbor c v = Inr bs"
  shows "from_canonical_cbor c bs = Inr v"
proof -
  have "cbor_write c v = Inr bs" "length bs \<le> MAX_RECORD_SIZE" using assms(2) by (simp_all add: to_canonical_cbor_Inr)
  moreover have "cbor_read c bs = Inr v" using assms(1) calculation(1) unfolding codec_ok_def by (metis sum.inject(2))
  ultimately show ?thesis by (simp add: from_canonical_cbor_def)
qed

lemma cbor_inj:
  assumes "codec_ok c" "to_canonical_cbor c v = Inr bs" "to_canonical_cbor c w = Inr bs"
  shows "v = w"
  using cbor_roundtrip[OF assms(1,2)] cbor_roundtrip[OF assms(1,3)] by simp

subsection \<open>The contract of signed records\<close>

locale signed_record =
  fixes unsigned :: "'r \<Rightarrow> FormatError + bytes"
    and get_sig :: "'r \<Rightarrow> bytes" and put_sig :: "bytes \<Rightarrow> 'r \<Rightarrow> 'r"
    and sign :: "crypto_crate \<Rightarrow> bytes \<Rightarrow> 'r \<Rightarrow> FormatError + 'r"
    and verify :: "crypto_crate \<Rightarrow> bytes \<Rightarrow> 'r \<Rightarrow> FormatError + unit"
    and ctx :: bytes
  assumes unsigned_put: "unsigned (put_sig s r) = unsigned r"
    and get_put: "get_sig (put_sig s r) = s"
    and sign_eq: "sign cr sk r = rbind (unsigned r) (\<lambda>u. Inr (put_sig (sign_with_domain cr sk ctx u) r))"
    and verify_iff: "verify cr pk r = Inr () \<longleftrightarrow> length (get_sig r) = 64 \<and>
      (\<exists>u. unsigned r = Inr u \<and> verify_with_domain cr pk ctx u (get_sig r) = Inr ())"
begin

lemma sign_verifies:
  assumes "ed25519_ok cr" "sign cr sk r = Inr r'"
  shows "verify cr (ed25519_public cr sk) r' = Inr ()"
proof -
  obtain u where "unsigned r = Inr u" "r' = put_sig (sign_with_domain cr sk ctx u) r"
    using assms(2) by (auto simp: sign_eq result_simps)
  then show ?thesis using ed25519_laws[OF assms(1)]
    by (simp add: verify_iff unsigned_put get_put verify_with_domain_def sign_with_domain_def)
qed

lemma sign_only_sig: "sign cr sk r = Inr r' \<Longrightarrow> \<exists>s. r' = put_sig s r"
  by (auto simp: sign_eq result_simps)

lemma verify_payload:
  assumes "verify cr pk r = Inr ()"
  shows "\<exists>u. unsigned r = Inr u \<and> ed25519_verify cr pk (domain_payload ctx u) (get_sig r)"
  using assms by (auto simp: verify_iff verify_with_domain_def split: if_splits)

end

interpretation cert: signed_record "cert_unsigned_bytes c" dc_signature "\<lambda>s r. r\<lparr>dc_signature := s\<rparr>"
  "\<lambda>cr. cert_sign cr c" "\<lambda>cr. cert_verify cr c" "as_bytes ''device_certificate''" for c
  by unfold_locales (auto simp: cert_unsigned_bytes_def cert_sign_def cert_verify_def result_simps)

interpretation envl: signed_record "envelope_unsigned_bytes c" ee_signature "\<lambda>s r. r\<lparr>ee_signature := s\<rparr>"
  "\<lambda>cr. envelope_sign cr c" "\<lambda>cr. envelope_verify cr c" "as_bytes ''epoch_envelope''" for c
  by unfold_locales (auto simp: envelope_unsigned_bytes_def envelope_sign_def envelope_verify_def result_simps)

interpretation snap: signed_record "snapshot_unsigned_bytes c" sr_signature "\<lambda>s r. r\<lparr>sr_signature := s\<rparr>"
  "\<lambda>cr. snapshot_sign cr c" "\<lambda>cr. snapshot_verify cr c" "as_bytes ''snapshot_record''" for c
  by unfold_locales (auto simp: snapshot_unsigned_bytes_def snapshot_sign_def snapshot_verify_def result_simps)

interpretation head: signed_record "head_unsigned_bytes c" hr_signature "\<lambda>s r. r\<lparr>hr_signature := s\<rparr>"
  "\<lambda>cr. head_sign cr c" "\<lambda>cr. head_verify cr c" "as_bytes ''head_record''" for c
  by unfold_locales (auto simp: head_unsigned_bytes_def head_sign_def head_verify_def result_simps)

subsection \<open>A concrete codec\<close>

text \<open>A self-delimiting encoding: every byte is announced by one, the end by zero.\<close>

fun sd :: "bytes \<Rightarrow> bytes" where
  "sd [] = [0]"
| "sd (b # bs) = 1 # b # sd bs"

fun sdl :: "('a \<Rightarrow> bytes) \<Rightarrow> 'a list \<Rightarrow> bytes" where
  "sdl f [] = [0]"
| "sdl f (x # xs) = 1 # f x @ sdl f xs"

lemma sd_append_inj [simp]: "sd a @ x = sd b @ y \<longleftrightarrow> a = b \<and> x = y"
  by (induction a arbitrary: b) (case_tac [!] b, auto)

lemma sd_inj [simp]: "sd a = sd b \<longleftrightarrow> a = b"
  using sd_append_inj[of a "[]" b "[]"] by simp

lemma length_sd [simp]: "length (sd a) = 2 * length a + 1"
  by (induction a) simp_all

lemma sdl_append_inj:
  assumes "\<And>a b x y. f a @ x = f b @ y \<longleftrightarrow> a = b \<and> x = y"
  shows "sdl f a @ x = sdl f b @ y \<longleftrightarrow> a = b \<and> x = y"
proof (induction a arbitrary: b)
  case Nil
  then show ?case by (cases b) auto
next
  case (Cons u a)
  then show ?case by (cases b) (auto simp: assms)
qed

lemma sdl_sd_append_inj [simp]: "sdl sd a @ x = sdl sd b @ y \<longleftrightarrow> a = b \<and> x = y"
  by (rule sdl_append_inj) simp

lemma sdl_inj:
  assumes "\<And>a b x y. f a @ x = f b @ y \<longleftrightarrow> a = b \<and> x = y"
  shows "sdl f a = sdl f b \<longleftrightarrow> a = b"
  using sdl_append_inj[of f a "[]" b "[]", OF assms] by simp

text \<open>A codec from an injective encoding, with a tag byte that tells the record types apart.\<close>

definition codec_of :: "byte \<Rightarrow> ('a \<Rightarrow> bytes) \<Rightarrow> 'a codec" where
  "codec_of tag f = \<lparr>cbor_write = \<lambda>x. Inr (tag # f x),
     cbor_read = \<lambda>bs. (case bs of [] \<Rightarrow> Inl ''empty'' | t # rest \<Rightarrow> if t = tag then Inr (inv f rest) else Inl ''type'')\<rparr>"

lemma codec_of_ok: "inj f \<Longrightarrow> codec_ok (codec_of tag f)"
  by (simp add: codec_ok_def codec_of_def)

definition enc_genesis :: "GenesisRecord \<Rightarrow> bytes" where
  "enc_genesis r = le32 (gr_version r) @ sd (gr_vault_id r) @ sd (gr_recovery_signing_pk r) @
     sd (gr_recovery_encryption_pk r) @ sd (gr_policy_digest r) @ le64 (gr_created_at_utc r) @
     sd (gr_creation_nonce r) @ sd (gr_signature r) @ []"

definition enc_cert :: "DeviceCertificate \<Rightarrow> bytes" where
  "enc_cert r = le32 (dc_version r) @ sd (dc_vault_id r) @ sd (dc_certificate_id r) @ sd (dc_device_signing_pk r) @
     le32 (dc_permissions r) @ le64 (dc_authority_generation r) @ le64 (dc_issued_at_utc r) @ sd (dc_signature r) @ []"

definition enc_envelope :: "EpochEnvelope \<Rightarrow> bytes" where
  "enc_envelope r = le32 (ee_version r) @ sd (ee_vault_id r) @ le64 (ee_epoch r) @ sd (ee_recipient_fingerprint r) @
     sd (ee_sealed_epoch_key r) @ le64 (ee_created_at_utc r) @ sd (ee_signer_device_id r) @ sd (ee_signature r) @ []"

definition enc_snapshot :: "SnapshotRecord \<Rightarrow> bytes" where
  "enc_snapshot r = le32 (sr_version r) @ sd (sr_vault_id r) @ sd (sr_snapshot_id r) @
     sdl sd (sr_parent_snapshot_ids r) @ sd (sr_device_id r) @ le64 (sr_device_counter r) @
     le64 (sr_authority_generation r) @ le64 (sr_epoch r) @ sd (sr_encrypted_manifest_cid r) @
     le64 (sr_encrypted_manifest_len r) @ le64 (sr_advisory_timestamp_utc r) @ sd (sr_signature r) @ []"

definition enc_head :: "HeadRecord \<Rightarrow> bytes" where
  "enc_head r = le32 (hr_version r) @ sd (hr_vault_id r) @ sd (hr_snapshot_id r) @ sdl sd (hr_parent_snapshot_ids r) @
     sd (hr_closure_digest r) @ sd (hr_device_id r) @ le64 (hr_device_counter r) @ sd (hr_signature r) @ []"

definition enc_chunk :: "ChunkWireObject \<Rightarrow> bytes" where
  "enc_chunk r = le32 (cw_version r) @ sd (cw_vault_id r) @ sd (cw_file_version_id r) @ le32 (cw_chunk_index r) @
     le32 (cw_total_chunks r) @ le32 (cw_declared_padded_length r) @ le64 (cw_key_epoch r) @ sd (cw_payload r) @ []"

definition enc_file :: "ManifestFileEntry \<Rightarrow> bytes" where
  "enc_file r = sd (mf_file_id r) @ sd (as_bytes (mf_relative_path r)) @ sd (mf_file_version_id r) @
     le64 (mf_raw_length r) @ le64 (mf_padded_length r) @ sd (mf_plaintext_sha256 r) @
     sd (mf_file_version_key r) @ sdl sd (mf_chunk_cids r) @ [if mf_is_deleted r then 1 else 0]"

definition enc_manifest :: "SnapshotManifest \<Rightarrow> bytes" where
  "enc_manifest r = le32 (sm_version r) @ sd (sm_vault_id r) @ le64 (sm_epoch r) @ sd (sm_snapshot_id r) @
     sdl enc_file (sm_files r) @ []"

definition enc_closure :: "RecoveryClosure \<Rightarrow> bytes" where
  "enc_closure r = sd (rc_snapshot_id r) @ sd (rc_snapshot_record_cid r) @ sd (rc_manifest_cid r) @
     sdl sd (rc_envelope_ids r) @ sdl sd (rc_chunk_cids r) @ le64 (rc_total_bytes r) @ []"

definition codecs_std :: schema_codecs where
  "codecs_std = \<lparr>k_genesis = codec_of 1 enc_genesis, k_cert = codec_of 2 enc_cert, k_envelope = codec_of 3 enc_envelope,
     k_snapshot = codec_of 4 enc_snapshot, k_head = codec_of 5 enc_head, k_chunk = codec_of 6 enc_chunk,
     k_manifest = codec_of 7 enc_manifest, k_closure = codec_of 8 enc_closure\<rparr>"

lemma le_append_inj [simp]:
  "le64 v @ x = le64 w @ y \<longleftrightarrow> v = w \<and> x = y" "le32 v' @ x = le32 w' @ y \<longleftrightarrow> v' = w' \<and> x = y"
  by simp_all

lemma enc_file_append_inj: "enc_file a @ x = enc_file b @ y \<longleftrightarrow> a = b \<and> x = y"
  by (cases a; cases b) (auto simp: enc_file_def)

lemma enc_inj: "inj enc_genesis" "inj enc_cert" "inj enc_envelope" "inj enc_snapshot" "inj enc_head" "inj enc_chunk"
  "inj enc_manifest" "inj enc_closure"
proof -
  show "inj enc_genesis" by (rule injI, rule GenesisRecord.equality) (simp_all add: enc_genesis_def)
  show "inj enc_cert" by (rule injI, rule DeviceCertificate.equality) (simp_all add: enc_cert_def)
  show "inj enc_envelope" by (rule injI, rule EpochEnvelope.equality) (simp_all add: enc_envelope_def)
  show "inj enc_snapshot" by (rule injI, rule SnapshotRecord.equality) (simp_all add: enc_snapshot_def)
  show "inj enc_head" by (rule injI, rule HeadRecord.equality) (simp_all add: enc_head_def)
  show "inj enc_chunk" by (rule injI, rule ChunkWireObject.equality) (simp_all add: enc_chunk_def)
  show "inj enc_manifest" by (rule injI, rule SnapshotManifest.equality) (simp_all add: enc_manifest_def sdl_inj[of enc_file, OF enc_file_append_inj])
  show "inj enc_closure" by (rule injI, rule RecoveryClosure.equality) (simp_all add: enc_closure_def)
qed

lemma codecs_std_ok: "codecs_ok codecs_std"
  by (simp add: codecs_ok_def codecs_std_def codec_of_ok enc_inj)

subsection \<open>Properties\<close>

text \<open>The five kinds of signed records, the bytes each signs, and a record without its signature.\<close>

datatype any_record =
    AnyGenesis GenesisRecord
  | AnyCert DeviceCertificate
  | AnyEnvelope EpochEnvelope
  | AnySnapshot SnapshotRecord
  | AnyHead HeadRecord

fun record_context :: "any_record \<Rightarrow> bytes" where
  "record_context (AnyGenesis r) = as_bytes ''genesis_record''"
| "record_context (AnyCert r) = as_bytes ''device_certificate''"
| "record_context (AnyEnvelope r) = as_bytes ''epoch_envelope''"
| "record_context (AnySnapshot r) = as_bytes ''snapshot_record''"
| "record_context (AnyHead r) = as_bytes ''head_record''"

fun record_unsigned :: "schema_codecs \<Rightarrow> any_record \<Rightarrow> FormatError + bytes" where
  "record_unsigned k (AnyGenesis r) = genesis_unsigned_bytes (k_genesis k) r"
| "record_unsigned k (AnyCert r) = cert_unsigned_bytes (k_cert k) r"
| "record_unsigned k (AnyEnvelope r) = envelope_unsigned_bytes (k_envelope k) r"
| "record_unsigned k (AnySnapshot r) = snapshot_unsigned_bytes (k_snapshot k) r"
| "record_unsigned k (AnyHead r) = head_unsigned_bytes (k_head k) r"

fun strip_signature :: "any_record \<Rightarrow> any_record" where
  "strip_signature (AnyGenesis r) = AnyGenesis (r\<lparr>gr_signature := []\<rparr>)"
| "strip_signature (AnyCert r) = AnyCert (r\<lparr>dc_signature := []\<rparr>)"
| "strip_signature (AnyEnvelope r) = AnyEnvelope (r\<lparr>ee_signature := []\<rparr>)"
| "strip_signature (AnySnapshot r) = AnySnapshot (r\<lparr>sr_signature := []\<rparr>)"
| "strip_signature (AnyHead r) = AnyHead (r\<lparr>hr_signature := []\<rparr>)"

text \<open>The verification of a record; the key is the record's own for a genesis record.\<close>

fun verify_record :: "crypto_crate \<Rightarrow> schema_codecs \<Rightarrow> bytes \<Rightarrow> any_record \<Rightarrow> FormatError + unit" where
  "verify_record cr k pk (AnyGenesis r) =
     (if gr_recovery_signing_pk r = pk then genesis_verify cr (k_genesis k) r
      else Inl (MalformedRecord ''another recovery key''))"
| "verify_record cr k pk (AnyCert r) = cert_verify cr (k_cert k) pk r"
| "verify_record cr k pk (AnyEnvelope r) = envelope_verify cr (k_envelope k) pk r"
| "verify_record cr k pk (AnySnapshot r) = snapshot_verify cr (k_snapshot k) pk r"
| "verify_record cr k pk (AnyHead r) = head_verify cr (k_head k) pk r"

fun record_signature :: "any_record \<Rightarrow> bytes" where
  "record_signature (AnyGenesis r) = gr_signature r"
| "record_signature (AnyCert r) = dc_signature r"
| "record_signature (AnyEnvelope r) = ee_signature r"
| "record_signature (AnySnapshot r) = sr_signature r"
| "record_signature (AnyHead r) = hr_signature r"

lemma record_context_colon_free: "colon_free (record_context a)"
  by (cases a) (auto simp: colon_free_def as_bytes_def)

lemmas unsigned_defs = genesis_unsigned_bytes_def cert_unsigned_bytes_def envelope_unsigned_bytes_def
  snapshot_unsigned_bytes_def head_unsigned_bytes_def

lemma genesis_verify_payload:
  assumes "genesis_verify cr c r = Inr ()"
  shows "\<exists>u. genesis_unsigned_bytes c r = Inr u \<and>
    ed25519_verify cr (gr_recovery_signing_pk r) (domain_payload (as_bytes ''genesis_record'') u) (gr_signature r)"
  using assms by (auto simp: genesis_verify_def verify_with_domain_def result_simps split: if_splits)

text \<open>The byte string whose signature the verification of a record checks.\<close>

definition record_payload :: "schema_codecs \<Rightarrow> any_record \<Rightarrow> FormatError + bytes" where
  "record_payload k a = rbind (record_unsigned k a) (\<lambda>u. Inr (domain_payload (record_context a) u))"

lemma verify_record_payload:
  assumes "verify_record cr k pk a = Inr ()"
  shows "\<exists>p. record_payload k a = Inr p \<and> ed25519_verify cr pk p (record_signature a)"
proof -
  have "\<exists>u. record_unsigned k a = Inr u \<and>
    ed25519_verify cr pk (domain_payload (record_context a) u) (record_signature a)"
    using assms genesis_verify_payload cert.verify_payload envl.verify_payload snap.verify_payload head.verify_payload
    by (cases a) (fastforce split: if_splits)+
  then show ?thesis by (auto simp: record_payload_def)
qed

lemma record_payload_strip: "record_payload k (strip_signature a) = record_payload k a"
  by (cases a) (simp_all add: record_payload_def unsigned_defs)

lemma record_payload_inj:
  assumes "codecs_ok k" "record_payload k a = Inr p" "record_payload k b = Inr p"
  shows "strip_signature a = strip_signature b"
proof -
  obtain u v where u: "record_unsigned k a = Inr u" and v: "record_unsigned k b = Inr v"
    and eq: "domain_payload (record_context a) u = domain_payload (record_context b) v"
    using assms(2,3) by (auto simp: record_payload_def result_simps)
  from eq have "record_context a = record_context b" "u = v"
    by (simp_all add: domain_payload_inj record_context_colon_free)
  with u v assms(1) show ?thesis
    by (cases a; cases b) (auto simp: unsigned_defs codecs_ok_def dest: cbor_inj)
qed


definition head_example :: HeadRecord where
  "head_example = \<lparr>hr_version = 1, hr_vault_id = replicate 32 1, hr_snapshot_id = replicate 32 2,
     hr_parent_snapshot_ids = [], hr_closure_digest = replicate 32 3, hr_device_id = replicate 32 4,
     hr_device_counter = 7, hr_signature = []\<rparr>"

lemma head_example_signed:
  "\<exists>h. head_sign crypto_std (k_head codecs_std) [3] head_example = Inr h"
  by (simp add: head_sign_def unsigned_defs to_canonical_cbor_def codecs_std_def codec_of_def
      head_example_def enc_head_def MAX_RECORD_SIZE_def)

lemma head_example_later_signed:
  "\<exists>h. head_sign crypto_std (k_head codecs_std) [3] (head_example\<lparr>hr_device_counter := 8\<rparr>) = Inr h"
  by (simp add: head_sign_def unsigned_defs to_canonical_cbor_def codecs_std_def codec_of_def
      head_example_def enc_head_def MAX_RECORD_SIZE_def)


fun sign_record :: "crypto_crate \<Rightarrow> schema_codecs \<Rightarrow> bytes \<Rightarrow> any_record \<Rightarrow> FormatError + any_record" where
  "sign_record cr k sk (AnyGenesis r) = rbind (genesis_sign cr (k_genesis k) sk r) (\<lambda>r. Inr (AnyGenesis r))"
| "sign_record cr k sk (AnyCert r) = rbind (cert_sign cr (k_cert k) sk r) (\<lambda>r. Inr (AnyCert r))"
| "sign_record cr k sk (AnyEnvelope r) = rbind (envelope_sign cr (k_envelope k) sk r) (\<lambda>r. Inr (AnyEnvelope r))"
| "sign_record cr k sk (AnySnapshot r) = rbind (snapshot_sign cr (k_snapshot k) sk r) (\<lambda>r. Inr (AnySnapshot r))"
| "sign_record cr k sk (AnyHead r) = rbind (head_sign cr (k_head k) sk r) (\<lambda>r. Inr (AnyHead r))"

lemma genesis_sign_verifies:
  assumes "ed25519_ok cr" "genesis_sign cr c sk r = Inr r'" "gr_recovery_signing_pk r = ed25519_public cr sk"
  shows "genesis_verify cr c r' = Inr ()"
  using assms ed25519_laws[OF assms(1)]
  by (auto simp: genesis_sign_def genesis_verify_def genesis_unsigned_bytes_def result_simps
      verify_with_domain_def sign_with_domain_def)

text \<open>
  Signing a record of any kind changes nothing but its signature field, and the
  result verifies under the public key of the signer; a genesis record verifies when
  it names that key as its recovery key.
\<close>

theorem signed_records_verify:
  assumes "ed25519_ok cr" "sign_record cr k sk a = Inr b"
    and "\<And>g. a = AnyGenesis g \<Longrightarrow> gr_recovery_signing_pk g = ed25519_public cr sk"
  shows "verify_record cr k (ed25519_public cr sk) b = Inr () \<and> strip_signature b = strip_signature a"
proof (cases a)
  case (AnyGenesis g)
  then obtain g' where g: "genesis_sign cr (k_genesis k) sk g = Inr g'" "b = AnyGenesis g'"
    using assms(2) by (auto simp: result_simps)
  with AnyGenesis assms(3) show ?thesis using genesis_sign_verifies[OF assms(1) g(1)]
    by (auto simp: genesis_sign_def result_simps)
next
  case (AnyCert r)
  then obtain r' where r': "cert_sign cr (k_cert k) sk r = Inr r'" "b = AnyCert r'"
    using assms(2) by (auto simp: result_simps)
  with AnyCert cert.sign_verifies[OF assms(1) r'(1)] cert.sign_only_sig[OF r'(1)] show ?thesis by auto
next
  case (AnyEnvelope r)
  then obtain r' where r': "envelope_sign cr (k_envelope k) sk r = Inr r'" "b = AnyEnvelope r'"
    using assms(2) by (auto simp: result_simps)
  with AnyEnvelope envl.sign_verifies[OF assms(1) r'(1)] envl.sign_only_sig[OF r'(1)] show ?thesis by auto
next
  case (AnySnapshot r)
  then obtain r' where r': "snapshot_sign cr (k_snapshot k) sk r = Inr r'" "b = AnySnapshot r'"
    using assms(2) by (auto simp: result_simps)
  with AnySnapshot snap.sign_verifies[OF assms(1) r'(1)] snap.sign_only_sig[OF r'(1)] show ?thesis by auto
next
  case (AnyHead r)
  then obtain r' where r': "head_sign cr (k_head k) sk r = Inr r'" "b = AnyHead r'"
    using assms(2) by (auto simp: result_simps)
  with AnyHead head.sign_verifies[OF assms(1) r'(1)] head.sign_only_sig[OF r'(1)] show ?thesis by auto
qed

theorem signed_records_verify_witness:
  "\<exists>b. verify_record crypto_std codecs_std (ed25519_public crypto_std [3]) b = Inr () \<and>
     strip_signature b = strip_signature (AnyHead head_example)"
proof -
  obtain h where "head_sign crypto_std (k_head codecs_std) [3] head_example = Inr h" using head_example_signed ..
  then have "sign_record crypto_std codecs_std [3] (AnyHead head_example) = Inr (AnyHead h)" by simp
  from signed_records_verify[OF crypto_okD(3)[OF crypto_std_ok] this] show ?thesis by blast
qed

text \<open>
  The associated data of a chunk with 32-byte identifiers determine its version,
  vault, file version, position, number of chunks, length and key epoch: two chunks
  with the same associated data differ at most in their payload.
\<close>

theorem chunk_aad_injective:
  assumes "length (cw_vault_id w) = 32" "length (cw_vault_id w') = 32"
    and "length (cw_file_version_id w) = 32" "length (cw_file_version_id w') = 32"
  shows "compute_aad w = compute_aad w' \<longleftrightarrow> w\<lparr>cw_payload := []\<rparr> = w'\<lparr>cw_payload := []\<rparr>"
  using assms by (cases w; cases w') (auto simp: compute_aad_def)

theorem chunk_aad_injective_witness:
  "compute_aad \<lparr>cw_version = 1, cw_vault_id = replicate 32 1, cw_file_version_id = replicate 32 2, cw_chunk_index = 0,
     cw_total_chunks = 2, cw_declared_padded_length = 9, cw_key_epoch = 1, cw_payload = []\<rparr> \<noteq>
   compute_aad \<lparr>cw_version = 1, cw_vault_id = replicate 32 1, cw_file_version_id = replicate 32 2, cw_chunk_index = 1,
     cw_total_chunks = 2, cw_declared_padded_length = 9, cw_key_epoch = 1, cw_payload = []\<rparr>"
  by (subst chunk_aad_injective) simp_all

end
