(* ===== verification/Trust.thy ===== *)
theory Trust
  imports Schema "HOL-Library.AList"
begin

text \<open>
  Selection of the recovery head from untrusted records,
  \<open>src/crates/recovery/src/trust.rs\<close>. The messages of \<open>anyhow\<close> errors are strings.
  Hash maps are maps, the stack \<open>pending\<close> of the traversal is a list with its top first,
  and the traversal is a partial function with \<^const>\<open>None\<close> for a run that does not end; the
  lemmas show that it always ends. Map iteration order is never observed: the one map
  that is iterated has exactly one entry.
\<close>

subsection \<open>Certificates and heads\<close>

definition cert_trusted ::
  "crypto_crate \<Rightarrow> schema_codecs \<Rightarrow> bytes \<Rightarrow> bytes \<Rightarrow> DeviceCertificate \<Rightarrow> bool" where
  "cert_trusted cr k vault root_pk c \<longleftrightarrow>
     dc_version c = PROTOCOL_VERSION \<and> dc_vault_id c = vault \<and> length (dc_device_signing_pk c) = 32 \<and>
     dc_permissions c AND 1 \<noteq> 0 \<and> is_ok (cert_verify cr (k_cert k) root_pk c)"

text \<open>\<open>filter_map(|r| from_canonical_cbor(r).ok())\<close>.\<close>

definition decode_all :: "'a codec \<Rightarrow> bytes list \<Rightarrow> 'a list" where
  "decode_all c records =
     List.map_filter (\<lambda>r. case from_canonical_cbor c r of Inr x \<Rightarrow> Some x | Inl _ \<Rightarrow> None) records"

definition trusted_certs ::
  "crypto_crate \<Rightarrow> schema_codecs \<Rightarrow> bytes list \<Rightarrow> bytes \<Rightarrow> bytes \<Rightarrow> DeviceCertificate list" where
  "trusted_certs cr k records vault root_pk =
     sort_key (\<lambda>c. - uint (dc_authority_generation c))
       (filter (cert_trusted cr k vault root_pk) (decode_all (k_cert k) records))"

definition head_wellformed :: "bytes \<Rightarrow> HeadRecord \<Rightarrow> bool" where
  "head_wellformed vault h \<longleftrightarrow>
     \<not> (hr_version h \<noteq> PROTOCOL_VERSION \<or> hr_vault_id h \<noteq> vault \<or> length (hr_snapshot_id h) \<noteq> 32 \<or>
        list_ex (\<lambda>p. length p \<noteq> 32) (hr_parent_snapshot_ids h))"

text \<open>The inner loop: the first certificate whose key verifies the head.\<close>

fun find_signer ::
  "crypto_crate \<Rightarrow> schema_codecs \<Rightarrow> HeadRecord \<Rightarrow> DeviceCertificate list \<Rightarrow> string + DeviceCertificate option" where
  "find_signer cr k h [] = Inr None"
| "find_signer cr k h (cert # certs) =
     (if length (dc_device_signing_pk cert) \<noteq> 32 then Inl ''could not convert slice to array''
      else if length (hr_device_id h) = 32 \<and> is_ok (head_verify cr (k_head k) (dc_device_signing_pk cert) h)
      then Inr (Some cert)
      else find_signer cr k h certs)"

fun collect_heads ::
  "crypto_crate \<Rightarrow> schema_codecs \<Rightarrow> bytes \<Rightarrow> DeviceCertificate list \<Rightarrow> bytes list \<Rightarrow>
   string + (HeadRecord \<times> DeviceCertificate) list" where
  "collect_heads cr k vault certs [] = Inr []"
| "collect_heads cr k vault certs (bs # records) =
     (case from_canonical_cbor (k_head k) bs of
        Inl _ \<Rightarrow> collect_heads cr k vault certs records
      | Inr h \<Rightarrow>
          if \<not> head_wellformed vault h then collect_heads cr k vault certs records
          else
            rbind (find_signer cr k h certs) (\<lambda>found.
            rbind (collect_heads cr k vault certs records) (\<lambda>heads.
              Inr (case found of Some cert \<Rightarrow> (h, cert) # heads | None \<Rightarrow> heads))))"

subsection \<open>Consistency of the authenticated heads\<close>

record head_maps =
  authenticated_bindings :: "bytes \<Rightarrow> HeadRecord option"
  device_counters :: "u64 \<times> bytes \<times> bytes \<times> u64 \<Rightarrow> bytes option"
  graph :: "bytes \<Rightarrow> bytes list option"

definition record_head :: "HeadRecord \<times> DeviceCertificate \<Rightarrow> head_maps \<Rightarrow> string + head_maps" where
  "record_head hc m =
     (let (h, cert) = hc;
          sid = hr_snapshot_id h;
          key = (dc_authority_generation cert, dc_device_signing_pk cert, hr_device_id h, hr_device_counter h)
      in if authenticated_bindings m sid \<notin> {None, Some h}
         then Inl ''Conflicting authenticated head bindings for the same snapshot''
         else if device_counters m key \<notin> {None, Some sid}
         then Inl ''Conflicting certified device counters; explicit fork resolution required''
         else if graph m sid \<notin> {None, Some (hr_parent_snapshot_ids h)}
         then Inl ''Conflicting authenticated ancestry for the same snapshot''
         else Inr \<lparr>authenticated_bindings = (authenticated_bindings m)(sid \<mapsto> h),
                   device_counters = (device_counters m)(key \<mapsto> sid),
                   graph = (graph m)(sid \<mapsto> hr_parent_snapshot_ids h)\<rparr>)"

fun record_heads :: "(HeadRecord \<times> DeviceCertificate) list \<Rightarrow> head_maps \<Rightarrow> string + head_maps" where
  "record_heads [] m = Inr m"
| "record_heads (hc # heads) m = rbind (record_head hc m) (record_heads heads)"

definition empty_maps :: head_maps where
  "empty_maps = \<lparr>authenticated_bindings = Map.empty, device_counters = Map.empty, graph = Map.empty\<rparr>"

subsection \<open>The traversal of the ancestry\<close>

type_synonym node = bytes

definition parents_of :: "(node \<Rightarrow> node list option) \<Rightarrow> node \<Rightarrow> node list" where
  "parents_of g n = (case g n of Some ps \<Rightarrow> ps | None \<Rightarrow> [])"

text \<open>One run of the \<open>while let\<close> loop; 1 marks an active node, 2 a finished one.\<close>

partial_function (option) traverse ::
  "(node \<Rightarrow> node list option) \<Rightarrow> (node \<times> bool) list \<Rightarrow> (node \<Rightarrow> nat option) \<Rightarrow> node set \<Rightarrow>
   (string + (node \<Rightarrow> nat option) \<times> node set) option" where
  "traverse g pending states nonmaximal =
     (case pending of
        [] \<Rightarrow> Some (Inr (states, nonmaximal))
      | (node, exiting) # rest \<Rightarrow>
          if exiting then traverse g rest (states(node \<mapsto> 2)) nonmaximal
          else if states node = Some 1 then Some (Inl ''Cycle in authenticated recovery ancestry'')
          else if states node = Some 2 then traverse g rest states nonmaximal
          else traverse g (rev (map (\<lambda>p. (p, False)) (parents_of g node)) @ (node, True) # rest)
                 (states(node \<mapsto> 1)) (nonmaximal \<union> set (parents_of g node)))"

fun traverse_all ::
  "(node \<Rightarrow> node list option) \<Rightarrow> node list \<Rightarrow> (node \<Rightarrow> nat option) \<Rightarrow> node set \<Rightarrow>
   (string + (node \<Rightarrow> nat option) \<times> node set) option" where
  "traverse_all g [] states nonmaximal = Some (Inr (states, nonmaximal))"
| "traverse_all g (r # roots) states nonmaximal =
     (case traverse g [(r, False)] states nonmaximal of
        None \<Rightarrow> None
      | Some (Inl e) \<Rightarrow> Some (Inl e)
      | Some (Inr (states, nonmaximal)) \<Rightarrow> traverse_all g roots states nonmaximal)"

subsection \<open>Selection\<close>

definition max_generation :: "(HeadRecord \<times> DeviceCertificate) list \<Rightarrow> u64" where
  "max_generation heads = foldr (\<lambda>(h, c) m. max (dc_authority_generation c) m) heads 0"

definition insert_maximal ::
  "node set \<Rightarrow> (node \<times> HeadRecord \<times> DeviceCertificate) list \<Rightarrow> HeadRecord \<times> DeviceCertificate \<Rightarrow>
   (node \<times> HeadRecord \<times> DeviceCertificate) list" where
  "insert_maximal nonmaximal maximal p =
     (if hr_snapshot_id (fst p) \<notin> nonmaximal then AList.update (hr_snapshot_id (fst p)) p maximal else maximal)"

definition choose_maximal ::
  "node set \<Rightarrow> (HeadRecord \<times> DeviceCertificate) list \<Rightarrow> string + HeadRecord \<times> DeviceCertificate" where
  "choose_maximal nonmaximal candidates =
     (case foldl (insert_maximal nonmaximal) [] candidates of
        [(_, p)] \<Rightarrow> Inr p
      | _ \<Rightarrow> Inl ''Conflicting certified DAG heads; explicit fork resolution required'')"

definition select_head ::
  "crypto_crate \<Rightarrow> schema_codecs \<Rightarrow> bytes list \<Rightarrow> bytes \<Rightarrow> bytes \<Rightarrow>
   (string + HeadRecord \<times> DeviceCertificate) option" where
  "select_head cr k records vault root_pk =
     (let certs = trusted_certs cr k records vault root_pk
      in if certs = []
         then Some (Inl ''No trusted device certificates found; refusing self-authorized recovery'')
         else
           case collect_heads cr k vault certs records of
             Inl e \<Rightarrow> Some (Inl e)
           | Inr heads \<Rightarrow>
               if heads = [] then Some (Inl ''No cryptographically authenticated HeadRecords found'')
               else
                 case record_heads heads empty_maps of
                   Inl e \<Rightarrow> Some (Inl e)
                 | Inr m \<Rightarrow>
                     let generation = max_generation heads;
                         candidates = filter (\<lambda>(h, c). dc_authority_generation c = generation) heads
                     in case traverse_all (graph m) (map (hr_snapshot_id \<circ> fst) candidates) Map.empty {} of
                          None \<Rightarrow> None
                        | Some (Inl e) \<Rightarrow> Some (Inl e)
                        | Some (Inr (states, nonmaximal)) \<Rightarrow> Some (choose_maximal nonmaximal candidates))"

definition verify_snapshot ::
  "crypto_crate \<Rightarrow> schema_codecs \<Rightarrow> SnapshotRecord \<Rightarrow> HeadRecord \<Rightarrow> DeviceCertificate \<Rightarrow> (string + FormatError) + unit" where
  "verify_snapshot cr k r h cert =
     (if length (dc_device_signing_pk cert) \<noteq> 32 then Inl (Inl ''could not convert slice to array'')
      else
        rbind (rmap_err Inr (snapshot_verify cr (k_snapshot k) (dc_device_signing_pk cert) r)) (\<lambda>_.
          if \<not> (sr_version r = PROTOCOL_VERSION \<and> sr_vault_id r = hr_vault_id h \<and> sr_device_id r = hr_device_id h \<and>
                 sr_device_counter r = hr_device_counter h \<and>
                 sr_parent_snapshot_ids r = hr_parent_snapshot_ids h \<and>
                 sr_authority_generation r = dc_authority_generation cert)
          then Inl (Inl ''Snapshot authority or head binding mismatch'')
          else
            rbind (rmap_err Inr (compute_record_cid cr (k_snapshot k) r)) (\<lambda>cid.
              if cid \<noteq> hr_snapshot_id h then Inl (Inl ''Snapshot authority or head binding mismatch'')
              else Inr ())))"

definition select_envelope ::
  "crypto_crate \<Rightarrow> schema_codecs \<Rightarrow> bytes list \<Rightarrow> SnapshotRecord \<Rightarrow> DeviceCertificate \<Rightarrow> bytes \<Rightarrow>
   string + EpochEnvelope" where
  "select_envelope cr k records r cert recipient =
     (if length (dc_device_signing_pk cert) \<noteq> 32 then Inl ''could not convert slice to array''
      else
        case find (\<lambda>e. ee_version e = PROTOCOL_VERSION \<and> ee_vault_id e = sr_vault_id r \<and> ee_epoch e = sr_epoch r \<and>
                      ee_signer_device_id e = sr_device_id r \<and> ee_recipient_fingerprint e = recipient \<and>
                      is_ok (envelope_verify cr (k_envelope k) (dc_device_signing_pk cert) e))
               (decode_all (k_envelope k) records) of
          Some e \<Rightarrow> Inr e
        | None \<Rightarrow> Inl ''No authenticated epoch envelope for this snapshot and recovery key'')"

end
