(* ===== verification/Ancestry.thy ===== *)
theory Ancestry
  imports Trust
begin

text \<open>
  Correctness of the iterative depth-first traversal in \<open>select_head\<close>. The invariant
  describes the stack: active nodes are exactly those with a pending exit marker, each
  stack entry is a parent of the nearest marker below it, every parent of an active
  node is finished or still above the marker, and the finished part of the ancestry is
  closed and free of cycles. It follows that the traversal ends, reports a cycle only
  if there is one, and otherwise has explored everything reachable.
\<close>

subsection \<open>The invariant\<close>

definition edges :: "(node \<Rightarrow> node list option) \<Rightarrow> (node \<times> node) set" where
  "edges g = {(x, y). y \<in> set (parents_of g x)}"

fun top_marker :: "(node \<times> bool) list \<Rightarrow> node option" where
  "top_marker [] = None"
| "top_marker ((n, b) # s) = (if b then Some n else top_marker s)"

definition markers :: "(node \<times> bool) list \<Rightarrow> node list" where
  "markers s = map fst (filter snd s)"

fun stack_ok :: "(node \<Rightarrow> node list option) \<Rightarrow> node set \<Rightarrow> (node \<times> bool) list \<Rightarrow> bool" where
  "stack_ok g roots [] \<longleftrightarrow> True"
| "stack_ok g roots ((n, b) # s) \<longleftrightarrow>
     (case top_marker s of None \<Rightarrow> n \<in> roots | Some m \<Rightarrow> (m, n) \<in> edges g) \<and> stack_ok g roots s"

fun covered :: "(node \<Rightarrow> node list option) \<Rightarrow> (node \<Rightarrow> nat option) \<Rightarrow> node set \<Rightarrow> (node \<times> bool) list \<Rightarrow> bool" where
  "covered g st A [] \<longleftrightarrow> True"
| "covered g st A ((n, b) # s) \<longleftrightarrow>
     (b \<longrightarrow> (\<forall>y\<in>set (parents_of g n). st y = Some 2 \<or> y \<in> A)) \<and> covered g st (insert n A) s"

definition finished :: "(node \<Rightarrow> nat option) \<Rightarrow> node set" where
  "finished st = {n. st n = Some 2}"

definition trav_inv ::
  "(node \<Rightarrow> node list option) \<Rightarrow> node set \<Rightarrow> (node \<times> bool) list \<Rightarrow> (node \<Rightarrow> nat option) \<Rightarrow> node set \<Rightarrow> bool" where
  "trav_inv g roots s st nm \<longleftrightarrow>
     distinct (markers s) \<and> {n. st n = Some 1} = set (markers s) \<and>
     (\<forall>n v. st n = Some v \<longrightarrow> v = 1 \<or> v = 2) \<and>
     stack_ok g roots s \<and> covered g st {} s \<and>
     (\<forall>x\<in>finished st. set (parents_of g x) \<subseteq> finished st) \<and>
     acyclic (edges g \<inter> finished st \<times> UNIV) \<and>
     nm = (\<Union>x\<in>dom st. set (parents_of g x)) \<and>
     dom st \<subseteq> (edges g)\<^sup>* `` roots"

lemma trav_invI:
  assumes "distinct (markers s)" "{n. st n = Some 1} = set (markers s)"
    "\<And>n v. st n = Some v \<Longrightarrow> v = 1 \<or> v = 2" "stack_ok g roots s" "covered g st {} s"
    "\<And>x. x \<in> finished st \<Longrightarrow> set (parents_of g x) \<subseteq> finished st"
    "acyclic (edges g \<inter> finished st \<times> UNIV)" "nm = (\<Union>x\<in>dom st. set (parents_of g x))"
    "dom st \<subseteq> (edges g)\<^sup>* `` roots"
  shows "trav_inv g roots s st nm"
  using assms unfolding trav_inv_def by blast

lemma trav_invD:
  assumes "trav_inv g roots s st nm"
  shows "distinct (markers s)" "{n. st n = Some 1} = set (markers s)"
    "\<And>n v. st n = Some v \<Longrightarrow> v = 1 \<or> v = 2" "stack_ok g roots s" "covered g st {} s"
    "\<And>x. x \<in> finished st \<Longrightarrow> set (parents_of g x) \<subseteq> finished st"
    "acyclic (edges g \<inter> finished st \<times> UNIV)" "nm = (\<Union>x\<in>dom st. set (parents_of g x))"
    "dom st \<subseteq> (edges g)\<^sup>* `` roots"
  using assms unfolding trav_inv_def by blast+

lemma markers_simps [simp]:
  "markers [] = []" "markers ((n, True) # s) = n # markers s" "markers ((n, False) # s) = markers s"
  "markers (map (\<lambda>p. (p, False)) ps @ s) = markers s"
  "markers (rev (map (\<lambda>p. (p, False)) ps) @ s) = markers s"
  by (simp_all add: markers_def rev_map filter_empty_conv)

lemma covered_mono:
  assumes "covered g st A s" "\<And>y. st y = Some 2 \<or> y \<in> A \<Longrightarrow> st' y = Some 2 \<or> y \<in> A'"
  shows "covered g st' A' s"
  using assms
proof (induction s arbitrary: A A')
  case (Cons e s)
  obtain n b where e: "e = (n, b)" by (cases e)
  have "covered g st' (insert n A') s"
    by (rule Cons.IH[of "insert n A"]) (use Cons.prems e in auto)
  then show ?case using Cons.prems e by auto
qed simp

lemma covered_unmarked:
  "covered g st A (map (\<lambda>p. (p, False)) ps @ s) \<longleftrightarrow> covered g st (A \<union> set ps) s"
  by (induction ps arbitrary: A) (simp_all add: Un_commute insert_commute)

lemma stack_ok_unmarked:
  "stack_ok g roots (map (\<lambda>p. (p, False)) ps @ s) \<longleftrightarrow>
     (\<forall>n\<in>set ps. case top_marker s of None \<Rightarrow> n \<in> roots | Some m \<Rightarrow> (m, n) \<in> edges g) \<and> stack_ok g roots s"
proof -
  have "top_marker (map (\<lambda>p. (p, False)) ps @ s) = top_marker s" for ps by (induction ps) auto
  then show ?thesis by (induction ps) auto
qed

text \<open>The markers form a path of edges down the stack, starting from a root.\<close>

lemma marker_path:
  assumes "stack_ok g roots s" "top_marker s = Some m"
  shows "m \<in> (edges g)\<^sup>* `` roots" "x \<in> set (markers s) \<Longrightarrow> (x, m) \<in> (edges g)\<^sup>*"
proof -
  have "m \<in> (edges g)\<^sup>* `` roots \<and> (\<forall>x\<in>set (markers s). (x, m) \<in> (edges g)\<^sup>*)"
    using assms
  proof (induction s arbitrary: m)
    case (Cons e s)
    obtain n b where e: "e = (n, b)" by (cases e)
    show ?case
    proof (cases b)
      case False
      then show ?thesis using Cons e by simp
    next
      case True
      then have m: "m = n" using Cons.prems e by simp
      show ?thesis
      proof (cases "top_marker s")
        case None
        then have "markers s = []" by (induction s rule: top_marker.induct) (auto split: if_splits)
        then show ?thesis using Cons.prems e m True None by auto
      next
        case (Some k)
        then have "(k, n) \<in> edges g" using Cons.prems e by simp
        with Cons.IH[OF _ Some] Cons.prems e m True show ?thesis
          by (auto intro: rtrancl_into_rtrancl)
      qed
    qed
  qed simp
  then show "m \<in> (edges g)\<^sup>* `` roots" "x \<in> set (markers s) \<Longrightarrow> (x, m) \<in> (edges g)\<^sup>*" by auto
qed

lemma top_marker_None: "top_marker s = None \<longleftrightarrow> markers s = []"
  by (induction s rule: top_marker.induct) auto

lemma stack_reachable: "stack_ok g roots ((n, b) # s) \<Longrightarrow> n \<in> (edges g)\<^sup>* `` roots"
  using marker_path(1)[of g roots s]
  by (cases "top_marker s") (auto simp: Image_iff intro: rtrancl_into_rtrancl)

subsection \<open>Preservation by the four branches of the loop\<close>

lemma trav_inv_skip:
  assumes "trav_inv g roots ((n, False) # s) st nm" "st n = Some 2"
  shows "trav_inv g roots s st nm"
proof (rule trav_invI)
  note inv = trav_invD[OF assms(1)]
  show "covered g st {} s" using inv(5) assms(2) by (auto intro: covered_mono[of g st "{n}"])
qed (use trav_invD[OF assms(1)] in auto)

text \<open>Adding a node all of whose edges lead into a closed acyclic part makes no cycle.\<close>

lemma acyclic_extend:
  assumes "acyclic (E \<inter> F \<times> UNIV)" "\<And>x y. x \<in> F \<Longrightarrow> (x, y) \<in> E \<Longrightarrow> y \<in> F"
    and "\<And>y. (n, y) \<in> E \<Longrightarrow> y \<in> F" "n \<notin> F"
  shows "acyclic (E \<inter> insert n F \<times> UNIV)"
proof (rule acyclicI, intro allI notI)
  let ?R = "E \<inter> F \<times> UNIV" and ?R' = "E \<inter> insert n F \<times> UNIV"
  have into: "(x, y) \<in> ?R\<^sup>+ \<and> y \<in> F" if "(x, y) \<in> ?R'\<^sup>+" "x \<in> F" for x y
    using that(1)
  proof (induction rule: trancl_induct)
    case (base y)
    then show ?case using that(2) assms(2) by auto
  next
    case (step y z)
    then have "(y, z) \<in> ?R" "z \<in> F" using assms(2) by auto
    with step.IH show ?case by (auto intro: trancl_into_trancl)
  qed
  fix x assume x: "(x, x) \<in> ?R'\<^sup>+"
  then obtain y where "(x, y) \<in> ?R'" "(y, x) \<in> ?R'\<^sup>*" by (meson tranclD)
  then have "y \<in> F" using assms(2,3) by auto
  with \<open>(y, x) \<in> ?R'\<^sup>*\<close> have "x \<in> F" using into by (metis rtranclD)
  with into[OF x] have "(x, x) \<in> ?R\<^sup>+" by simp
  with assms(1) show False by (simp add: acyclic_def)
qed

lemma trav_inv_exit:
  assumes "trav_inv g roots ((n, True) # s) st nm"
  shows "trav_inv g roots s (st(n \<mapsto> 2)) nm"
proof (rule trav_invI)
  note inv = trav_invD[OF assms]
  have n1: "st n = Some 1" and nm: "n \<notin> set (markers s)" using inv(1,2) by auto
  have fin: "finished (st(n \<mapsto> 2)) = insert n (finished st)" by (auto simp: finished_def)
  have kids: "set (parents_of g n) \<subseteq> finished st" using inv(5) by (auto simp: finished_def)
  have nf: "n \<notin> finished st" using n1 by (simp add: finished_def)
  show "distinct (markers s)" using inv(1) by simp
  show "{x. (st(n \<mapsto> 2)) x = Some 1} = set (markers s)" using inv(2) nm by auto
  show "v = 1 \<or> v = 2" if "(st(n \<mapsto> 2)) x = Some v" for x v using that inv(3) by (auto split: if_splits)
  show "stack_ok g roots s" using inv(4) by simp
  show "covered g (st(n \<mapsto> 2)) {} s" using inv(5) by (auto intro: covered_mono[of g st "{n}"])
  show "set (parents_of g x) \<subseteq> finished (st(n \<mapsto> 2))" if "x \<in> finished (st(n \<mapsto> 2))" for x
    using that kids inv(6) unfolding fin by auto
  show "acyclic (edges g \<inter> finished (st(n \<mapsto> 2)) \<times> UNIV)"
    unfolding fin by (rule acyclic_extend[OF inv(7)]) (use inv(6) kids nf in \<open>auto simp: edges_def\<close>)
  have "dom (st(n \<mapsto> 2)) = dom st" using n1 by auto
  then show "nm = (\<Union>x\<in>dom (st(n \<mapsto> 2)). set (parents_of g x))" "dom (st(n \<mapsto> 2)) \<subseteq> (edges g)\<^sup>* `` roots"
    using inv(8,9) by auto
qed

lemma trav_inv_enter:
  assumes "trav_inv g roots ((n, False) # s) st nm" "st n = None"
  shows "trav_inv g roots (rev (map (\<lambda>p. (p, False)) (parents_of g n)) @ (n, True) # s) (st(n \<mapsto> 1))
    (nm \<union> set (parents_of g n))"
proof (rule trav_invI)
  note inv = trav_invD[OF assms(1)]
  let ?ps = "parents_of g n"
  have rm: "rev (map (\<lambda>p. (p, False)) ?ps) = map (\<lambda>p. (p, False)) (rev ?ps)" by (simp add: rev_map)
  have nm: "n \<notin> set (markers s)" using inv(2) assms(2) by (metis (mono_tags, lifting) markers_simps(3) mem_Collect_eq option.distinct(1))
  have fin: "finished (st(n \<mapsto> 1)) = finished st" using assms(2) by (auto simp: finished_def)
  show "distinct (markers (rev (map (\<lambda>p. (p, False)) ?ps) @ (n, True) # s))" using inv(1) nm by simp
  show "{x. (st(n \<mapsto> 1)) x = Some 1} = set (markers (rev (map (\<lambda>p. (p, False)) ?ps) @ (n, True) # s))"
    using inv(2) by auto
  show "v = 1 \<or> v = 2" if "(st(n \<mapsto> 1)) x = Some v" for x v using that inv(3) by (auto split: if_splits)
  show "stack_ok g roots (rev (map (\<lambda>p. (p, False)) ?ps) @ (n, True) # s)"
    unfolding rm stack_ok_unmarked using inv(4) by (auto simp: edges_def)
  have "covered g (st(n \<mapsto> 1)) (insert n (set ?ps)) s"
    using inv(5) assms(2) by (auto intro!: covered_mono[of g st "{n}"] split: if_splits)
  then show "covered g (st(n \<mapsto> 1)) {} (rev (map (\<lambda>p. (p, False)) ?ps) @ (n, True) # s)"
    unfolding rm covered_unmarked by simp
  show "set (parents_of g x) \<subseteq> finished (st(n \<mapsto> 1))" if "x \<in> finished (st(n \<mapsto> 1))" for x
    using that inv(6) unfolding fin by blast
  show "acyclic (edges g \<inter> finished (st(n \<mapsto> 1)) \<times> UNIV)" using inv(7) unfolding fin .
  show "nm \<union> set ?ps = (\<Union>x\<in>dom (st(n \<mapsto> 1)). set (parents_of g x))" using inv(8) by auto
  show "dom (st(n \<mapsto> 1)) \<subseteq> (edges g)\<^sup>* `` roots" using inv(9) stack_reachable[OF inv(4)] by auto
qed

lemma trav_inv_cycle:
  assumes "trav_inv g roots ((n, False) # s) st nm" "st n = Some 1"
  shows "(n, n) \<in> (edges g)\<^sup>+" "n \<in> (edges g)\<^sup>* `` roots"
proof -
  note inv = trav_invD[OF assms(1)]
  have n: "n \<in> set (markers s)" using inv(2) assms(2) by auto
  then obtain m where m: "top_marker s = Some m" using top_marker_None[of s] by fastforce
  with inv(4) have "(m, n) \<in> edges g" "stack_ok g roots s" by simp_all
  with marker_path(2)[OF _ m n] show "(n, n) \<in> (edges g)\<^sup>+" by (auto intro: rtrancl_into_trancl1)
  show "n \<in> (edges g)\<^sup>* `` roots" by (rule stack_reachable[OF inv(4)])
qed

subsection \<open>The traversal ends with the explored ancestry\<close>

definition explores ::
  "(node \<Rightarrow> node list option) \<Rightarrow> node set \<Rightarrow> node set \<Rightarrow> (string + (node \<Rightarrow> nat option) \<times> node set) option \<Rightarrow> bool" where
  "explores g roots D r \<longleftrightarrow>
     r = Some (Inl ''Cycle in authenticated recovery ancestry'') \<and> \<not> acyclic (edges g \<inter> (edges g)\<^sup>* `` roots \<times> UNIV) \<or>
     (\<exists>st nm. r = Some (Inr (st, nm)) \<and> trav_inv g roots [] st nm \<and> D \<subseteq> dom st)"

lemma explores_mono: "explores g roots D r \<Longrightarrow> D' \<subseteq> D \<Longrightarrow> explores g roots D' r"
  unfolding explores_def by blast

lemma cycle_not_acyclic:
  assumes "(n, n) \<in> E\<^sup>+" "n \<in> E\<^sup>* `` roots"
  shows "\<not> acyclic (E \<inter> E\<^sup>* `` roots \<times> UNIV)"
proof -
  have "(n, m) \<in> (E \<inter> E\<^sup>* `` roots \<times> UNIV)\<^sup>+" if "(n, m) \<in> E\<^sup>+" for m
    using that
  proof (induction rule: trancl_induct)
    case (base y)
    then show ?case using assms(2) by auto
  next
    case (step y z)
    have "y \<in> E\<^sup>* `` roots" using assms(2) step.hyps(1) by (auto simp: Image_iff intro: rtrancl_trans dest!: trancl_into_rtrancl)
    with step show ?case by (auto intro: trancl_into_trancl)
  qed
  with assms(1) show ?thesis by (auto simp: acyclic_def)
qed

lemma traverse_correct:
  assumes fin: "finite ((edges g)\<^sup>* `` roots)" and "trav_inv g roots s st nm"
  shows "explores g roots (dom st \<union> fst ` set s) (traverse g s st nm)"
  using assms(2)
proof (induction "(card ((edges g)\<^sup>* `` roots - dom st), length s)" arbitrary: s st nm
    rule: wf_induct_rule[OF wf_lex_prod[OF wf_less_than wf_less_than], case_names less])
  case less
  let ?U = "(edges g)\<^sup>* `` roots"
  show ?case
  proof (cases s)
    case Nil
    then show ?thesis using less.prems by (simp add: traverse.simps explores_def)
  next
    case (Cons e rest)
    obtain n b where e: "e = (n, b)" by (cases e)
    note inv = less.prems[unfolded Cons e]
    consider (exit) "b" | (cycle) "\<not> b" "st n = Some 1" | (skip) "\<not> b" "st n = Some 2" | (enter) "\<not> b" "st n = None"
      using trav_invD(3)[OF less.prems, of n] by (cases "st n") auto
    then show ?thesis
    proof cases
      case exit
      have n: "st n = Some 1" using trav_invD(2)[OF inv] exit by auto
      then have dom: "insert n (dom st) = dom st" by auto
      have "trav_inv g roots rest (st(n \<mapsto> 2)) nm" using exit inv by (auto intro: trav_inv_exit)
      from less.hyps[OF _ this] dom
      have "explores g roots (dom (st(n \<mapsto> 2)) \<union> fst ` set rest) (traverse g rest (st(n \<mapsto> 2)) nm)"
        by (simp add: Cons)
      moreover have "traverse g s st nm = traverse g rest (st(n \<mapsto> 2)) nm"
        unfolding Cons e using exit by (subst traverse.simps) simp
      ultimately show ?thesis using n by (simp only:) (erule explores_mono, auto simp: Cons e)
    next
      case cycle
      then show ?thesis using trav_inv_cycle[of g roots n rest st nm] inv cycle_not_acyclic[of n "edges g" roots]
        unfolding Cons e explores_def by (subst traverse.simps) auto
    next
      case skip
      then have "trav_inv g roots rest st nm" using inv by (auto intro: trav_inv_skip[of g roots n])
      from less.hyps[OF _ this] have "explores g roots (dom st \<union> fst ` set rest) (traverse g rest st nm)"
        by (simp add: Cons)
      moreover have "traverse g s st nm = traverse g rest st nm"
        unfolding Cons e using skip by (subst traverse.simps) simp
      ultimately show ?thesis using skip by (simp only:) (erule explores_mono, auto simp: Cons e)
    next
      case enter
      let ?s = "rev (map (\<lambda>p. (p, False)) (parents_of g n)) @ (n, True) # rest"
      have "n \<in> ?U" using trav_invD(4)[OF inv] stack_reachable by blast
      then have "?U - dom (st(n \<mapsto> 1)) \<subset> ?U - dom st" using enter by auto
      then have "card (?U - dom (st(n \<mapsto> 1))) < card (?U - dom st)" using fin by (intro psubset_card_mono) auto
      moreover have "trav_inv g roots ?s (st(n \<mapsto> 1)) (nm \<union> set (parents_of g n))"
        using trav_inv_enter[of g roots n rest st nm] enter inv by simp
      ultimately have "explores g roots (dom (st(n \<mapsto> 1)) \<union> fst ` set ?s)
          (traverse g ?s (st(n \<mapsto> 1)) (nm \<union> set (parents_of g n)))"
        by (intro less.hyps) auto
      moreover have "traverse g s st nm = traverse g ?s (st(n \<mapsto> 1)) (nm \<union> set (parents_of g n))"
        unfolding Cons e using enter by (subst traverse.simps) simp
      ultimately show ?thesis by (simp only:) (erule explores_mono, auto simp: Cons e)
    qed
  qed
qed

lemma trav_inv_restart: "trav_inv g roots [] st nm \<Longrightarrow> r \<in> roots \<Longrightarrow> trav_inv g roots [(r, False)] st nm"
  by (auto simp: trav_inv_def)

lemma trav_inv_start: "trav_inv g roots [] Map.empty {}"
  by (auto simp: trav_inv_def finished_def acyclic_def)

lemma traverse_all_correct:
  assumes fin: "finite ((edges g)\<^sup>* `` roots)" and "trav_inv g roots [] st nm" "set rs \<subseteq> roots"
  shows "explores g roots (dom st \<union> set rs) (traverse_all g rs st nm)"
  using assms(2,3)
proof (induction rs arbitrary: st nm)
  case Nil
  then show ?case by (simp add: explores_def)
next
  case (Cons r rs)
  have "explores g roots (dom st \<union> {r}) (traverse g [(r, False)] st nm)"
    using traverse_correct[OF fin trav_inv_restart[OF Cons.prems(1)], of r] Cons.prems(2) by simp
  then consider "traverse g [(r, False)] st nm = Some (Inl ''Cycle in authenticated recovery ancestry'')"
      "\<not> acyclic (edges g \<inter> (edges g)\<^sup>* `` roots \<times> UNIV)"
    | st' nm' where "traverse g [(r, False)] st nm = Some (Inr (st', nm'))" "trav_inv g roots [] st' nm'"
      "dom st \<union> {r} \<subseteq> dom st'" unfolding explores_def by blast
  then show ?case
  proof cases
    case 1
    then show ?thesis by (simp add: explores_def)
  next
    case 2
    have "explores g roots (dom st' \<union> set rs) (traverse_all g rs st' nm')"
      using Cons.prems(2) by (intro Cons.IH 2(2)) simp
    then show ?thesis using 2(1,3) by (auto elim!: explores_mono)
  qed
qed

text \<open>
  A complete run has visited exactly the ancestors of the roots, found no cycle among
  them, and collected exactly the proper ancestors.
\<close>

lemma trav_inv_complete:
  assumes "trav_inv g roots [] st nm" "roots \<subseteq> dom st"
  shows "dom st = (edges g)\<^sup>* `` roots" "acyclic (edges g \<inter> (edges g)\<^sup>* `` roots \<times> UNIV)"
    "nm = (edges g)\<^sup>+ `` roots"
proof -
  note inv = trav_invD[OF assms(1)]
  have f: "dom st = finished st" using inv(2,3) unfolding finished_def by force
  have "y \<in> dom st" if "(x, y) \<in> (edges g)\<^sup>*" "x \<in> roots" for x y
    using that
  proof (induction rule: rtrancl_induct)
    case (step y z)
    then show ?case using inv(6)[of y] f by (auto simp: edges_def)
  qed (use assms(2) in auto)
  then show d: "dom st = (edges g)\<^sup>* `` roots" using inv(9) by auto
  show "acyclic (edges g \<inter> (edges g)\<^sup>* `` roots \<times> UNIV)" using inv(7) f d by simp
  have "nm = edges g `` ((edges g)\<^sup>* `` roots)" using inv(8) d by (auto simp: edges_def)
  also have "\<dots> = (edges g)\<^sup>+ `` roots" by (auto simp: Image_iff trancl_unfold_right relcomp_unfold)
  finally show "nm = (edges g)\<^sup>+ `` roots" .
qed

subsection \<open>The authenticated heads\<close>

text \<open>
  A head counts when some record decodes to it, it is well formed for the vault, and
  its signature verifies under the key of a certificate that itself decodes from the
  records and is signed by the root key.
\<close>

definition authentic_head ::
  "crypto_crate \<Rightarrow> schema_codecs \<Rightarrow> bytes list \<Rightarrow> bytes \<Rightarrow> bytes \<Rightarrow> HeadRecord \<times> DeviceCertificate \<Rightarrow> bool" where
  "authentic_head cr k records vault root_pk hc \<longleftrightarrow>
     (\<exists>bs\<in>set records. from_canonical_cbor (k_head k) bs = Inr (fst hc)) \<and>
     (\<exists>bs\<in>set records. from_canonical_cbor (k_cert k) bs = Inr (snd hc)) \<and>
     cert_trusted cr k vault root_pk (snd hc) \<and> head_wellformed vault (fst hc) \<and> length (hr_device_id (fst hc)) = 32 \<and>
     head_verify cr (k_head k) (dc_device_signing_pk (snd hc)) (fst hc) = Inr ()"

lemma set_decode_all: "set (decode_all c records) = {x. \<exists>r\<in>set records. from_canonical_cbor c r = Inr x}"
  by (force simp: decode_all_def map_filter_def split: sum.splits)

lemma trusted_certs_iff:
  "c \<in> set (trusted_certs cr k records vault root_pk) \<longleftrightarrow>
     (\<exists>r\<in>set records. from_canonical_cbor (k_cert k) r = Inr c) \<and> cert_trusted cr k vault root_pk c"
  by (auto simp: trusted_certs_def set_decode_all)

lemma find_signer_Some:
  "find_signer cr k h certs = Inr (Some c) \<Longrightarrow>
     c \<in> set certs \<and> length (hr_device_id h) = 32 \<and> head_verify cr (k_head k) (dc_device_signing_pk c) h = Inr ()"
  by (induction certs) (auto simp: is_ok_iff split: if_splits)

lemma find_signer_ok:
  "\<forall>c\<in>set certs. length (dc_device_signing_pk c) = 32 \<Longrightarrow> is_ok (find_signer cr k h certs)"
  by (induction certs) auto

lemma collect_heads_sound:
  assumes "collect_heads cr k vault certs records = Inr heads" "hc \<in> set heads"
  shows "(\<exists>bs\<in>set records. from_canonical_cbor (k_head k) bs = Inr (fst hc)) \<and> head_wellformed vault (fst hc) \<and>
    find_signer cr k (fst hc) certs = Inr (Some (snd hc))"
  using assms
proof (induction records arbitrary: heads)
  case (Cons bs records)
  show ?case
  proof (cases "from_canonical_cbor (k_head k) bs")
    case (Inl e)
    then show ?thesis using Cons by auto
  next
    case (Inr h)
    then show ?thesis using Cons by (auto simp: result_simps split: if_splits option.splits)
  qed
qed simp

lemma heads_authentic:
  assumes "collect_heads cr k vault (trusted_certs cr k records vault root_pk) records = Inr heads" "hc \<in> set heads"
  shows "authentic_head cr k records vault root_pk hc"
  using collect_heads_sound[OF assms] find_signer_Some[of cr k "fst hc" _ "snd hc"]
  unfolding authentic_head_def by (fastforce simp: trusted_certs_iff)

lemma collect_heads_ok:
  "\<forall>c\<in>set certs. length (dc_device_signing_pk c) = 32 \<Longrightarrow> is_ok (collect_heads cr k vault certs records)"
proof (induction records)
  case (Cons bs records)
  then obtain hs where "collect_heads cr k vault certs records = Inr hs" by (auto simp: is_ok_iff)
  moreover have "\<exists>f. find_signer cr k h certs = Inr f" for h
    using find_signer_ok[OF Cons.prems, of cr k h] by (simp add: is_ok_iff)
  ultimately show ?case by (force simp: is_ok_iff result_simps split: sum.splits)
qed simp

subsection \<open>The recorded graph\<close>

lemma record_head_graph: "record_head hc m = Inr m' \<Longrightarrow>
    graph m' = (graph m)(hr_snapshot_id (fst hc) \<mapsto> hr_parent_snapshot_ids (fst hc)) \<and>
    (graph m (hr_snapshot_id (fst hc)) = None \<or> graph m (hr_snapshot_id (fst hc)) = Some (hr_parent_snapshot_ids (fst hc)))"
  by (cases hc) (auto simp: record_head_def Let_def split: if_splits)

lemma record_heads_graph:
  assumes "record_heads heads m = Inr m'"
  shows "graph m' n = Some ps \<longleftrightarrow>
    graph m n = Some ps \<or> (\<exists>hc\<in>set heads. hr_snapshot_id (fst hc) = n \<and> hr_parent_snapshot_ids (fst hc) = ps)"
  using assms
proof (induction heads arbitrary: m)
  case (Cons hc heads)
  then obtain m1 where m1: "record_head hc m = Inr m1" "record_heads heads m1 = Inr m'"
    by (auto simp: result_simps)
  from Cons.IH[OF m1(2)] record_head_graph[OF m1(1)] show ?case by auto
qed simp

lemma finite_ancestors:
  assumes "finite (dom g)" "finite roots"
  shows "finite ((edges g)\<^sup>* `` roots)"
proof -
  have "finite (roots \<union> (\<Union>x\<in>dom g. set (parents_of g x)))" using assms by simp
  moreover have "(edges g)\<^sup>* `` roots \<subseteq> roots \<union> (\<Union>x\<in>dom g. set (parents_of g x))"
  proof
    fix y assume "y \<in> (edges g)\<^sup>* `` roots"
    then obtain x where "(x, y) \<in> (edges g)\<^sup>*" "x \<in> roots" by auto
    moreover have "y \<in> (\<Union>x\<in>dom g. set (parents_of g x))" if "(b, y) \<in> edges g" for b
      using that by (cases "g b") (auto simp: edges_def parents_of_def intro!: bexI[of _ b])
    ultimately show "y \<in> roots \<union> (\<Union>x\<in>dom g. set (parents_of g x))" by (metis UnI1 UnI2 rtranclE)
  qed
  ultimately show ?thesis by (rule finite_subset[rotated])
qed

lemma record_heads_finite: "record_heads heads m = Inr m' \<Longrightarrow> finite (dom (graph m)) \<Longrightarrow> finite (dom (graph m'))"
  by (induction heads arbitrary: m) (auto simp: result_simps dest!: record_head_graph)

subsection \<open>The choice among the candidates\<close>

lemma set_insert_maximal:
  "set (insert_maximal nm acc p) \<subseteq> set acc \<union> (if hr_snapshot_id (fst p) \<in> nm then {} else {(hr_snapshot_id (fst p), p)})"
proof -
  have "set (AList.update n q acc) \<subseteq> insert (n, q) (set acc)" for n q by (induction acc) auto
  then show ?thesis by (auto simp: insert_maximal_def)
qed

lemma keys_insert_maximal:
  "fst ` set (insert_maximal nm acc p) = fst ` set acc \<union> (if hr_snapshot_id (fst p) \<in> nm then {} else {hr_snapshot_id (fst p)})"
proof -
  have "fst ` set (AList.update n q acc) = insert n (fst ` set acc)" for n q by (induction acc) auto
  then show ?thesis by (simp add: insert_maximal_def)
qed

lemma set_foldl_insert_maximal:
  "set (foldl (insert_maximal nm) acc cs) \<subseteq>
     set acc \<union> (\<lambda>q. (hr_snapshot_id (fst q), q)) ` {q \<in> set cs. hr_snapshot_id (fst q) \<notin> nm}"
proof (induction cs arbitrary: acc)
  case (Cons c cs)
  from Cons.IH[of "insert_maximal nm acc c"] set_insert_maximal[of nm acc c] show ?case
    by (auto split: if_splits)
qed simp

lemma keys_foldl_insert_maximal:
  "fst ` set (foldl (insert_maximal nm) acc cs) =
     fst ` set acc \<union> (\<lambda>q. hr_snapshot_id (fst q)) ` {q \<in> set cs. hr_snapshot_id (fst q) \<notin> nm}"
  by (induction cs arbitrary: acc) (auto simp: keys_insert_maximal)

lemma choose_maximal_Inr:
  assumes "choose_maximal nm cands = Inr p"
  shows "p \<in> set cands" "hr_snapshot_id (fst p) \<notin> nm"
    "\<And>q. q \<in> set cands \<Longrightarrow> hr_snapshot_id (fst q) \<notin> nm \<Longrightarrow> hr_snapshot_id (fst q) = hr_snapshot_id (fst p)"
proof -
  obtain n where one: "foldl (insert_maximal nm) [] cands = [(n, p)]"
    using assms by (auto simp: choose_maximal_def split: list.splits)
  have s: "{(n, p)} \<subseteq> (\<lambda>q. (hr_snapshot_id (fst q), q)) ` {q \<in> set cands. hr_snapshot_id (fst q) \<notin> nm}"
    using set_foldl_insert_maximal[of nm "[]" cands] unfolding one by simp
  then show "p \<in> set cands" "hr_snapshot_id (fst p) \<notin> nm" by auto
  have "{n} = (\<lambda>q. hr_snapshot_id (fst q)) ` {q \<in> set cands. hr_snapshot_id (fst q) \<notin> nm}"
    using keys_foldl_insert_maximal[of nm "[]" cands] unfolding one by simp
  moreover have "n = hr_snapshot_id (fst p)" using s by auto
  ultimately show "\<And>q. q \<in> set cands \<Longrightarrow> hr_snapshot_id (fst q) \<notin> nm \<Longrightarrow>
      hr_snapshot_id (fst q) = hr_snapshot_id (fst p)" by blast
qed

lemma max_generation_ge: "(h, c) \<in> set heads \<Longrightarrow> dc_authority_generation c \<le> max_generation heads"
  unfolding max_generation_def by (induction heads) (auto simp: le_max_iff_disj)

text \<open>
  In an acyclic ancestry with one maximal candidate, every candidate is an ancestor of it:
  follow descendants among the candidates upwards until none is left.
\<close>

lemma unique_maximal_dominates:
  assumes fin: "finite (E\<^sup>* `` C)" and acyc: "acyclic (E \<inter> E\<^sup>* `` C \<times> UNIV)"
    and max: "\<And>y. y \<in> C \<Longrightarrow> y \<notin> E\<^sup>+ `` C \<Longrightarrow> y = x" and "y \<in> C"
  shows "(x, y) \<in> E\<^sup>*"
proof -
  let ?U = "E\<^sup>* `` C" and ?R = "E \<inter> E\<^sup>* `` C \<times> UNIV"
  have into: "(a, b) \<in> ?R\<^sup>+" if "(a, b) \<in> E\<^sup>+" "a \<in> ?U" for a b
    using that(1)
  proof (induction rule: trancl_induct)
    case (base y)
    then show ?case using that(2) by auto
  next
    case (step b d)
    have "b \<in> ?U" using that(2) step.hyps(1) by (auto simp: Image_iff intro: rtrancl_trans dest!: trancl_into_rtrancl)
    with step show ?case by (auto intro: trancl_into_trancl)
  qed
  have "?R\<^sup>+ \<subseteq> ?U \<times> ?U"
  proof (clarify, intro conjI)
    fix a b assume ab: "(a, b) \<in> ?R\<^sup>+"
    then show a: "a \<in> ?U" by (auto dest: tranclD)
    have "(a, b) \<in> E\<^sup>*" using ab by (metis Int_lower1 trancl_into_rtrancl trancl_mono)
    with a show "b \<in> ?U" by (auto simp: Image_iff intro: rtrancl_trans)
  qed
  then have "finite (?R\<^sup>+)" using fin by (meson finite_SigmaI finite_subset)
  then have "wf ((?R\<^sup>+))" using acyc by (intro finite_acyclic_wf) (auto simp: acyclic_def)
  then show ?thesis using assms(4)
  proof (induction y rule: wf_induct_rule)
    case (less y)
    show ?case
    proof (cases "y \<in> E\<^sup>+ `` C")
      case False
      then show ?thesis using max less.prems by auto
    next
      case True
      then obtain c where c: "c \<in> C" "(c, y) \<in> E\<^sup>+" by auto
      then have "(c, y) \<in> ?R\<^sup>+" by (intro into) auto
      with less.IH c(1) have "(x, c) \<in> E\<^sup>*" by blast
      with c(2) show ?thesis by (meson rtrancl_trans trancl_into_rtrancl)
    qed
  qed
qed

lemma choose_maximal_singleton:
  assumes "p \<in> set cands"
    and "\<And>q. q \<in> set cands \<Longrightarrow> hr_snapshot_id (fst q) \<notin> nm \<longleftrightarrow> hr_snapshot_id (fst q) = hr_snapshot_id (fst p)"
  shows "\<exists>q\<in>set cands. hr_snapshot_id (fst q) = hr_snapshot_id (fst p) \<and> choose_maximal nm cands = Inr q"
proof -
  let ?r = "foldl (insert_maximal nm) [] cands"
  have "distinct (map fst acc) \<Longrightarrow> distinct (map fst (foldl (insert_maximal nm) acc cs))" for acc cs
    by (induction cs arbitrary: acc) (auto simp: insert_maximal_def distinct_update)
  then have "distinct (map fst ?r)" by simp
  moreover have "{q \<in> set cands. hr_snapshot_id (fst q) \<notin> nm} = {q \<in> set cands. hr_snapshot_id (fst q) = hr_snapshot_id (fst p)}"
    using assms(2) by blast
  then have "fst ` set ?r = {hr_snapshot_id (fst p)}"
    using keys_foldl_insert_maximal[of nm "[]" cands] assms(1) by auto
  ultimately obtain e where e: "?r = [e]"
    by (metis (no_types, lifting) card_1_singleton_iff distinct_card length_0_conv length_Suc_conv length_map list.set_map One_nat_def)
  then obtain q where "?r = [(hr_snapshot_id (fst q), q)]" "q \<in> set cands" "hr_snapshot_id (fst q) \<notin> nm"
    using set_foldl_insert_maximal[of nm "[]" cands] by auto
  then show ?thesis using assms(2) by (intro bexI[of _ q]) (auto simp: choose_maximal_def)
qed

subsection \<open>Properties\<close>

definition ancestry :: "(HeadRecord \<times> DeviceCertificate) list \<Rightarrow> (node \<times> node) set" where
  "ancestry heads = {(hr_snapshot_id h, p) | h c p. (h, c) \<in> set heads \<and> p \<in> set (hr_parent_snapshot_ids h)}"

lemma edges_graph:
  assumes "record_heads heads empty_maps = Inr m"
  shows "edges (graph m) = ancestry heads"
proof -
  have "(x, y) \<in> edges (graph m) \<longleftrightarrow> (\<exists>ps. graph m x = Some ps \<and> y \<in> set ps)" for x y
    by (cases "graph m x") (simp_all add: edges_def parents_of_def)
  then have "(x, y) \<in> edges (graph m) \<longleftrightarrow> (x, y) \<in> ancestry heads" for x y
    using record_heads_graph[OF assms, of x] by (fastforce simp: ancestry_def empty_maps_def)
  then show ?thesis by auto
qed

definition top_candidates :: "(HeadRecord \<times> DeviceCertificate) list \<Rightarrow> (HeadRecord \<times> DeviceCertificate) list" where
  "top_candidates heads = filter (\<lambda>(h, c). dc_authority_generation c = max_generation heads) heads"

definition candidate_ids :: "(HeadRecord \<times> DeviceCertificate) list \<Rightarrow> node set" where
  "candidate_ids heads = (\<lambda>hc. hr_snapshot_id (fst hc)) ` set (top_candidates heads)"

text \<open>The part of \<open>select_head\<close> after the heads are authenticated and recorded.\<close>

lemma finite_ancestry: "record_heads heads empty_maps = Inr m \<Longrightarrow> finite ((ancestry heads)\<^sup>* `` candidate_ids heads)"
  using finite_ancestors[of "graph m" "candidate_ids heads"] record_heads_finite[of heads empty_maps m]
  by (simp add: edges_graph candidate_ids_def empty_maps_def)

lemma traversal_result:
  assumes "record_heads heads empty_maps = Inr m"
  shows "traverse_all (graph m) (map (hr_snapshot_id \<circ> fst) (top_candidates heads)) Map.empty {} =
      Some (Inl ''Cycle in authenticated recovery ancestry'') \<and>
      \<not> acyclic (ancestry heads \<inter> (ancestry heads)\<^sup>* `` candidate_ids heads \<times> UNIV) \<or>
    (\<exists>st. traverse_all (graph m) (map (hr_snapshot_id \<circ> fst) (top_candidates heads)) Map.empty {} =
        Some (Inr (st, (ancestry heads)\<^sup>+ `` candidate_ids heads)) \<and>
      acyclic (ancestry heads \<inter> (ancestry heads)\<^sup>* `` candidate_ids heads \<times> UNIV))"
proof -
  let ?C = "candidate_ids heads" and ?rs = "map (hr_snapshot_id \<circ> fst) (top_candidates heads)"
  have rs: "set ?rs = ?C" by (auto simp: candidate_ids_def)
  note e = edges_graph[OF assms]
  have "finite ((edges (graph m))\<^sup>* `` ?C)" using finite_ancestry[OF assms] e by simp
  from traverse_all_correct[OF this trav_inv_start, of ?rs]
  have "explores (graph m) ?C (set ?rs) (traverse_all (graph m) ?rs Map.empty {})" using rs by simp
  then consider "traverse_all (graph m) ?rs Map.empty {} = Some (Inl ''Cycle in authenticated recovery ancestry'')"
      "\<not> acyclic (ancestry heads \<inter> (ancestry heads)\<^sup>* `` ?C \<times> UNIV)"
    | st nm where "traverse_all (graph m) ?rs Map.empty {} = Some (Inr (st, nm))" "trav_inv (graph m) ?C [] st nm" "?C \<subseteq> dom st"
    unfolding explores_def e rs by auto
  then show ?thesis
  proof cases
    case 2
    note c = trav_inv_complete[OF 2(2,3), unfolded e]
    then show ?thesis using 2(1) by blast
  qed blast
qed

lemma select_head_unfold:
  assumes "trusted_certs cr k records vault root_pk \<noteq> []"
    and "collect_heads cr k vault (trusted_certs cr k records vault root_pk) records = Inr heads" "heads \<noteq> []"
    and "record_heads heads empty_maps = Inr m"
  shows "select_head cr k records vault root_pk =
    (case traverse_all (graph m) (map (hr_snapshot_id \<circ> fst) (top_candidates heads)) Map.empty {} of
       None \<Rightarrow> None
     | Some (Inl e) \<Rightarrow> Some (Inl e)
     | Some (Inr (states, nm)) \<Rightarrow> Some (choose_maximal nm (top_candidates heads)))"
  using assms unfolding select_head_def Let_def top_candidates_def
  by (simp del: map_filter_map_filter split: option.splits sum.splits)

lemma select_head_cases:
  obtains (early) e where "select_head cr k records vault root_pk = Some (Inl e)"
      "e \<noteq> ''Cycle in authenticated recovery ancestry''"
  | (late) heads m where "trusted_certs cr k records vault root_pk \<noteq> []"
      "collect_heads cr k vault (trusted_certs cr k records vault root_pk) records = Inr heads" "heads \<noteq> []"
      "record_heads heads empty_maps = Inr m"
proof -
  let ?certs = "trusted_certs cr k records vault root_pk"
  have "\<forall>c\<in>set ?certs. length (dc_device_signing_pk c) = 32"
    by (auto simp: trusted_certs_iff cert_trusted_def)
  then obtain heads where heads: "collect_heads cr k vault ?certs records = Inr heads"
    using collect_heads_ok[of ?certs cr k vault records] unfolding is_ok_iff by blast
  have neq: "e \<noteq> ''Cycle in authenticated recovery ancestry''" if "record_heads hs m0 = Inl e" for hs m0 e
    using that
  proof (induction hs arbitrary: m0)
    case (Cons hc hs)
    then show ?case by (cases "record_head hc m0") (auto simp: record_head_def Let_def split: if_splits prod.splits)
  qed simp
  show ?thesis
  proof (cases "?certs = [] \<or> heads = []")
    case True
    then have "\<exists>e. select_head cr k records vault root_pk = Some (Inl e) \<and> e \<noteq> ''Cycle in authenticated recovery ancestry''"
      using heads by (cases "?certs = []") (simp_all add: select_head_def Let_def)
    then show ?thesis using early by blast
  next
    case False
    show ?thesis
    proof (cases "record_heads heads empty_maps")
      case (Inl e)
      then show ?thesis using early[of e] neq[OF Inl] heads False by (simp add: select_head_def Let_def)
    next
      case (Inr m)
      then show ?thesis using late heads False by blast
    qed
  qed
qed

text \<open>
  C4. What \<open>select_head\<close> returns is authentic and newest: the head and its certificate
  decode from the given records, the certificate is for the vault, may write, and is
  signed by the offline root key, and the head is signed by the certified key. No
  authenticated head has a higher authority generation, and every authenticated head
  of the same generation is the returned snapshot or one of its ancestors.
\<close>

theorem select_head_sound:
  assumes "select_head cr k records vault root_pk = Some (Inr (h, c))"
  shows "authentic_head cr k records vault root_pk (h, c) \<and>
    (\<exists>heads. collect_heads cr k vault (trusted_certs cr k records vault root_pk) records = Inr heads \<and>
      (h, c) \<in> set heads \<and>
      (\<forall>(h', c')\<in>set heads. dc_authority_generation c' \<le> dc_authority_generation c \<and>
        (dc_authority_generation c' = dc_authority_generation c \<longrightarrow>
         (hr_snapshot_id h, hr_snapshot_id h') \<in> (ancestry heads)\<^sup>*)))"
proof (rule select_head_cases[of cr k records vault root_pk])
  fix heads m assume late: "trusted_certs cr k records vault root_pk \<noteq> []"
    "collect_heads cr k vault (trusted_certs cr k records vault root_pk) records = Inr heads" "heads \<noteq> []"
    "record_heads heads empty_maps = Inr m"
  let ?E = "ancestry heads" and ?C = "candidate_ids heads"
  have ch: "choose_maximal (?E\<^sup>+ `` ?C) (top_candidates heads) = Inr (h, c)"
    and acyc: "acyclic (?E \<inter> ?E\<^sup>* `` ?C \<times> UNIV)"
    using traversal_result[OF late(4)] assms by (auto simp: select_head_unfold[OF late])
  note ch = choose_maximal_Inr[OF ch]
  have in_heads: "(h, c) \<in> set heads" and gen: "dc_authority_generation c = max_generation heads"
    using ch(1) by (auto simp: top_candidates_def)
  have "(hr_snapshot_id h, y) \<in> ?E\<^sup>*" if "y \<in> ?C" for y
    by (rule unique_maximal_dominates[OF finite_ancestry[OF late(4)] acyc _ that])
      (use ch(3) in \<open>auto simp: candidate_ids_def\<close>)
  moreover have "hr_snapshot_id h' \<in> ?C" if "(h', c') \<in> set heads" "dc_authority_generation c' = max_generation heads" for h' c'
    using that by (force simp: candidate_ids_def top_candidates_def)
  ultimately show ?thesis using heads_authentic[OF late(2) in_heads] late(2) in_heads gen max_generation_ge by fastforce
qed (use assms in auto)

text \<open>One certificate and one head, both signed with the stand-in primitives.\<close>

definition cert_plain :: DeviceCertificate where
  "cert_plain = \<lparr>dc_version = 1, dc_vault_id = replicate 32 1, dc_certificate_id = [],
     dc_device_signing_pk = ed25519_public crypto_std [3], dc_permissions = 1, dc_authority_generation = 4,
     dc_issued_at_utc = 0, dc_signature = []\<rparr>"

definition cert_example :: DeviceCertificate where
  "cert_example = cert_plain\<lparr>dc_signature := sign_with_domain crypto_std [9] (as_bytes ''device_certificate'') (2 # enc_cert cert_plain)\<rparr>"

definition head_signed :: HeadRecord where
  "head_signed = head_example\<lparr>hr_signature := sign_with_domain crypto_std [3] (as_bytes ''head_record'') (5 # enc_head head_example)\<rparr>"

lemma cert_example_verifies: "cert_verify crypto_std (k_cert codecs_std) (ed25519_public crypto_std [9]) cert_example = Inr ()"
proof (rule cert.sign_verifies[OF crypto_okD(3)[OF crypto_std_ok]])
  show "cert_sign crypto_std (k_cert codecs_std) [9] cert_plain = Inr cert_example"
    by (simp add: cert_sign_def unsigned_defs to_canonical_cbor_def codecs_std_def codec_of_def cert_example_def
        cert_plain_def enc_cert_def MAX_RECORD_SIZE_def ed25519_laws[OF crypto_okD(3)[OF crypto_std_ok]])
qed

lemma head_signed_verifies: "head_verify crypto_std (k_head codecs_std) (ed25519_public crypto_std [3]) head_signed = Inr ()"
proof (rule head.sign_verifies[OF crypto_okD(3)[OF crypto_std_ok]])
  show "head_sign crypto_std (k_head codecs_std) [3] head_example = Inr head_signed"
    by (simp add: head_sign_def unsigned_defs to_canonical_cbor_def codecs_std_def codec_of_def head_signed_def
        head_example_def enc_head_def MAX_RECORD_SIZE_def)
qed

definition records_example :: "bytes list" where
  "records_example = [2 # enc_cert cert_example, 5 # enc_head head_signed]"

lemma records_example_decode:
  "from_canonical_cbor (k_cert codecs_std) (2 # enc_cert cert_example) = Inr cert_example"
  "from_canonical_cbor (k_head codecs_std) (5 # enc_head head_signed) = Inr head_signed"
  "from_canonical_cbor (k_head codecs_std) (2 # enc_cert cert_example) = Inl (DeserializationError ''type'')"
  "from_canonical_cbor (k_cert codecs_std) (5 # enc_head head_signed) = Inl (DeserializationError ''type'')"
proof -
  have len: "length (enc_cert cert_example) < 1000" "length (enc_head head_signed) < 1000"
    by (simp_all add: cert_example_def cert_plain_def enc_cert_def head_signed_def head_example_def enc_head_def
        sign_with_domain_def ed25519_laws[OF crypto_okD(3)[OF crypto_std_ok]])
  show "from_canonical_cbor (k_cert codecs_std) (2 # enc_cert cert_example) = Inr cert_example"
    "from_canonical_cbor (k_head codecs_std) (5 # enc_head head_signed) = Inr head_signed"
    "from_canonical_cbor (k_head codecs_std) (2 # enc_cert cert_example) = Inl (DeserializationError ''type'')"
    "from_canonical_cbor (k_cert codecs_std) (5 # enc_head head_signed) = Inl (DeserializationError ''type'')"
    using len by (simp_all add: from_canonical_cbor_def codecs_std_def codec_of_def MAX_RECORD_SIZE_def enc_inj)
qed

lemma trust_example_certs:
  "trusted_certs crypto_std codecs_std records_example (replicate 32 1) (ed25519_public crypto_std [9]) = [cert_example]"
proof -
  have "cert_trusted crypto_std codecs_std (replicate 32 1) (ed25519_public crypto_std [9]) cert_example"
    by (simp add: cert_trusted_def cert_example_verifies)
      (simp add: cert_example_def cert_plain_def PROTOCOL_VERSION_def ed25519_laws[OF crypto_okD(3)[OF crypto_std_ok]])
  then show ?thesis
    by (simp add: trusted_certs_def decode_all_def records_example_def map_filter_def records_example_decode)
qed

lemma trust_example_heads:
  "collect_heads crypto_std codecs_std (replicate 32 1)
     (trusted_certs crypto_std codecs_std records_example (replicate 32 1) (ed25519_public crypto_std [9])) records_example =
   Inr [(head_signed, cert_example)]"
proof -
  have "head_wellformed (replicate 32 1) head_signed" "length (hr_device_id head_signed) = 32"
    by (simp_all add: head_wellformed_def head_signed_def head_example_def PROTOCOL_VERSION_def)
  moreover have "dc_device_signing_pk cert_example = ed25519_public crypto_std [3]"
    by (simp add: cert_example_def cert_plain_def)
  ultimately show ?thesis
    unfolding trust_example_certs
    by (simp add: records_example_def records_example_decode head_signed_verifies ed25519_laws[OF crypto_okD(3)[OF crypto_std_ok]])
qed

lemma trust_example_maps:
  "\<exists>m. record_heads [(head_signed, cert_example)] empty_maps = Inr m \<and> graph m = [replicate 32 2 \<mapsto> []]"
  by (simp add: record_head_def empty_maps_def head_signed_def head_example_def Let_def)

lemma trust_example_top: "top_candidates [(head_signed, cert_example)] = [(head_signed, cert_example)]"
  by (simp add: top_candidates_def max_generation_def)

lemma select_head_example:
  "select_head crypto_std codecs_std records_example (replicate 32 1) (ed25519_public crypto_std [9]) =
     Some (Inr (head_signed, cert_example))"
proof -
  obtain m where m: "record_heads [(head_signed, cert_example)] empty_maps = Inr m" "graph m = [replicate 32 2 \<mapsto> []]"
    using trust_example_maps by blast
  have sid: "hr_snapshot_id head_signed = replicate 32 2" by (simp add: head_signed_def head_example_def)
  have cs: "trusted_certs crypto_std codecs_std records_example (replicate 32 1) (ed25519_public crypto_std [9]) \<noteq> []"
    by (simp add: trust_example_certs)
  have hs: "[(head_signed, cert_example)] \<noteq> []" by simp
  show ?thesis
    unfolding select_head_unfold[OF cs trust_example_heads hs m(1)] trust_example_top m(2)
    by (simp add: sid traverse.simps parents_of_def choose_maximal_def insert_maximal_def)
qed

theorem select_head_sound_witness:
  "authentic_head crypto_std codecs_std records_example (replicate 32 1) (ed25519_public crypto_std [9]) (head_signed, cert_example) \<and>
    (\<exists>heads. collect_heads crypto_std codecs_std (replicate 32 1)
        (trusted_certs crypto_std codecs_std records_example (replicate 32 1) (ed25519_public crypto_std [9])) records_example = Inr heads \<and>
      (head_signed, cert_example) \<in> set heads \<and>
      (\<forall>(h', c')\<in>set heads. dc_authority_generation c' \<le> dc_authority_generation cert_example \<and>
        (dc_authority_generation c' = dc_authority_generation cert_example \<longrightarrow>
         (hr_snapshot_id head_signed, hr_snapshot_id h') \<in> (ancestry heads)\<^sup>*)))"
  by (rule select_head_sound[OF select_head_example])

text \<open>
  C6. \<open>select_head\<close> always returns. It reports a cycle exactly when the heads are
  authenticated and consistent and the ancestry below the candidates contains one.
\<close>

theorem select_head_total:
  "(\<exists>r. select_head cr k records vault root_pk = Some r) \<and>
   (select_head cr k records vault root_pk = Some (Inl ''Cycle in authenticated recovery ancestry'') \<longleftrightarrow>
    (\<exists>heads m. trusted_certs cr k records vault root_pk \<noteq> [] \<and> heads \<noteq> [] \<and>
      collect_heads cr k vault (trusted_certs cr k records vault root_pk) records = Inr heads \<and>
      record_heads heads empty_maps = Inr m \<and>
      \<not> acyclic (ancestry heads \<inter> (ancestry heads)\<^sup>* `` candidate_ids heads \<times> UNIV)))"
proof (rule select_head_cases[of cr k records vault root_pk])
  fix heads m assume late: "trusted_certs cr k records vault root_pk \<noteq> []"
    "collect_heads cr k vault (trusted_certs cr k records vault root_pk) records = Inr heads" "heads \<noteq> []"
    "record_heads heads empty_maps = Inr m"
  have "choose_maximal nm cs \<noteq> Inl ''Cycle in authenticated recovery ancestry''" for nm cs
    by (auto simp: choose_maximal_def split: list.splits)
  with traversal_result[OF late(4)] late show ?thesis by (auto simp: select_head_unfold[OF late])
next
  fix e assume e: "select_head cr k records vault root_pk = Some (Inl e)" "e \<noteq> ''Cycle in authenticated recovery ancestry''"
  have "acyclic (ancestry heads \<inter> (ancestry heads)\<^sup>* `` candidate_ids heads \<times> UNIV)"
    if "trusted_certs cr k records vault root_pk \<noteq> []" "heads \<noteq> []"
      "collect_heads cr k vault (trusted_certs cr k records vault root_pk) records = Inr heads"
      "record_heads heads empty_maps = Inr m" for heads m
    using traversal_result[OF that(4)] e by (auto simp: select_head_unfold[OF that(1,3,2,4)])
  with e show ?thesis by auto
qed

text \<open>
  C5. Recovery is not refused without reason: when the authenticated heads are
  consistent, their ancestry has no cycle, and one head of the top generation has all
  the others among its ancestors, \<open>select_head\<close> returns that snapshot.
\<close>

theorem select_head_complete:
  assumes "trusted_certs cr k records vault root_pk \<noteq> []"
    and "collect_heads cr k vault (trusted_certs cr k records vault root_pk) records = Inr heads" "heads \<noteq> []"
    and "record_heads heads empty_maps = Inr m" "acyclic (ancestry heads)"
    and "(h, c) \<in> set (top_candidates heads)"
    and "\<And>n. n \<in> candidate_ids heads \<Longrightarrow> (hr_snapshot_id h, n) \<in> (ancestry heads)\<^sup>*"
  shows "\<exists>h' c'. select_head cr k records vault root_pk = Some (Inr (h', c')) \<and> hr_snapshot_id h' = hr_snapshot_id h"
proof -
  let ?E = "ancestry heads" and ?C = "candidate_ids heads"
  have acyc: "acyclic (?E \<inter> ?E\<^sup>* `` ?C \<times> UNIV)" by (rule acyclic_subset[OF assms(5)]) simp
  have "n \<notin> ?E\<^sup>+ `` ?C \<longleftrightarrow> n = hr_snapshot_id h" if "n \<in> ?C" for n
  proof
    assume "n \<notin> ?E\<^sup>+ `` ?C"
    moreover have "hr_snapshot_id h \<in> ?C" using assms(6) by (force simp: candidate_ids_def)
    ultimately show "n = hr_snapshot_id h" using assms(7)[OF that] by (auto dest: rtranclD)
  next
    assume n: "n = hr_snapshot_id h"
    show "n \<notin> ?E\<^sup>+ `` ?C"
    proof
      assume "n \<in> ?E\<^sup>+ `` ?C"
      then obtain d where "d \<in> ?C" "(d, n) \<in> ?E\<^sup>+" by auto
      with assms(7) n have "(n, n) \<in> ?E\<^sup>+" by (meson rtrancl_trancl_trancl)
      with assms(5) show False by (simp add: acyclic_def)
    qed
  qed
  then have maximal: "hr_snapshot_id (fst q) \<notin> ?E\<^sup>+ `` ?C \<longleftrightarrow> hr_snapshot_id (fst q) = hr_snapshot_id (fst (h, c))"
    if "q \<in> set (top_candidates heads)" for q
    using that unfolding candidate_ids_def by (metis (no_types, lifting) fst_conv image_eqI)
  obtain q where "hr_snapshot_id (fst q) = hr_snapshot_id h"
      "choose_maximal (?E\<^sup>+ `` ?C) (top_candidates heads) = Inr q"
    using choose_maximal_singleton[OF assms(6) maximal] by auto
  moreover have "\<exists>st. traverse_all (graph m) (map (hr_snapshot_id \<circ> fst) (top_candidates heads)) Map.empty {} =
      Some (Inr (st, ?E\<^sup>+ `` ?C))" using traversal_result[OF assms(4)] acyc by blast
  ultimately show ?thesis by (cases q) (auto simp: select_head_unfold[OF assms(1-4)])
qed

theorem select_head_complete_witness:
  "\<exists>h' c'. select_head crypto_std codecs_std records_example (replicate 32 1) (ed25519_public crypto_std [9]) =
     Some (Inr (h', c')) \<and> hr_snapshot_id h' = hr_snapshot_id head_signed"
proof -
  obtain m where m: "record_heads [(head_signed, cert_example)] empty_maps = Inr m" using trust_example_maps by blast
  have e: "ancestry [(head_signed, cert_example)] = {}"
    by (auto simp: ancestry_def head_signed_def head_example_def)
  show ?thesis
    by (rule select_head_complete[OF _ trust_example_heads _ m, of head_signed cert_example])
      (auto simp: trust_example_certs trust_example_top candidate_ids_def e acyclic_def)
qed

end
