(* ===== verification/Storage_Base.thy ===== *)
theory Storage_Base
  imports Schema
begin

text \<open>
  What the tickets of the storage crate share (\<open>crates/storage/src/error.rs\<close> and the
  helpers at the head of \<open>vouchers.rs\<close> and \<open>invites.rs\<close>): the error type, the fields in
  canonical hex, and the signed statements. A field in canonical hex is accepted in
  exactly one spelling, which the ledgers keyed by such a field rely on.
\<close>

datatype StorageError =
    HttpError string
  | ServerError "16 word" string
  | DigestMismatch string string string
  | InvalidReceiptSignature
  | Storage_FormatError FormatError
  | Storage_CryptoError CryptoError
  | QuorumDeficit nat nat
  | OperatorUnreachable string string

definition forbidden :: "string \<Rightarrow> StorageError" where
  "forbidden message = ServerError 403 message"

definition eq_ignore_ascii_case :: "string \<Rightarrow> string \<Rightarrow> bool" where
  "eq_ignore_ascii_case s t \<longleftrightarrow> to_ascii_lowercase s = to_ascii_lowercase t"

text \<open>\<open>subject\<close> is the word \<open>voucher\<close> or \<open>invite\<close> of the messages.\<close>

definition canonical_hex :: "string \<Rightarrow> hex_crate \<Rightarrow> string \<Rightarrow> string \<Rightarrow> nat \<Rightarrow> StorageError + bytes" where
  "canonical_hex subject h field what len =
     rbind (rmap_err (\<lambda>_. forbidden (subject @ '' '' @ what @ '' must be hex'')) (hex_decode h field)) (\<lambda>bytes.
     if length bytes \<noteq> len
     then Inl (forbidden (subject @ '' '' @ what @ '' must be '' @ show_nat len @ '' bytes''))
     else if hex_encode h bytes \<noteq> field
     then Inl (forbidden (subject @ '' '' @ what @ '' must be lowercase hex''))
     else Inr bytes)"

lemma canonical_hex_iff:
  "hex_ok h \<Longrightarrow> canonical_hex subject h field what len = Inr bs \<longleftrightarrow> field = hex_encode h bs \<and> length bs = len"
  by (auto simp: canonical_hex_def result_simps hex_decode_iff hex_digits_lower hex_set)

lemma canonical_hex_error:
  "canonical_hex subject h field what len = Inl e \<Longrightarrow> \<exists>msg. e = forbidden msg"
  by (auto simp: canonical_hex_def rbind_def rmap_err_def split: sum.splits if_splits)

lemma hex_eq_ignore_case:
  "hex_ok h \<Longrightarrow> eq_ignore_ascii_case (hex_encode h bs) (hex_encode h cs) \<longleftrightarrow> bs = cs"
  by (simp add: eq_ignore_ascii_case_def hex_digits_lower hex_set hex_encode_inj)

text \<open>Concatenated fields around a separator, when the fields before it have a known length.\<close>

lemma fields_eq:
  "length a = length b \<Longrightarrow> a @ s @ x = b @ s @ y \<longleftrightarrow> a = b \<and> x = y"
  by simp

end
