(* ===== verification/Vouchers.thy ===== *)
theory Vouchers
  imports Storage_Base "HOL-Library.AList" "HOL-Library.Multiset"
begin

text \<open>
  Write vouchers and the spend ledger of an operator (\<open>crates/storage/src/vouchers.rs\<close>).
  A hash map is an association list with different keys, in an arbitrary order. The
  clock and the random nonce are arguments. The lemmas show that a voucher is never
  overspent however its uses are ordered, that the user cap holds, and that a
  restart from the persisted ledger gives no quota back.
\<close>

subsection \<open>Vouchers\<close>

definition VOUCHER_VERSION :: u32 where
  "VOUCHER_VERSION = 1"

abbreviation VOUCHER_CONTEXT :: bytes where
  "VOUCHER_CONTEXT \<equiv> as_bytes ''operator_write_voucher''"

text \<open>\<open>is_ascii_hexdigit\<close> and not upper case.\<close>

definition lower_hexdigit :: "char \<Rightarrow> bool" where
  "lower_hexdigit c \<longleftrightarrow>
     (let n = (of_char c :: nat)
      in (48 \<le> n \<and> n \<le> 57 \<or> 97 \<le> n \<and> n \<le> 102 \<or> 65 \<le> n \<and> n \<le> 70) \<and> \<not> (65 \<le> n \<and> n \<le> 90))"

definition valid_nonce_key :: "string \<Rightarrow> bool" where
  "valid_nonce_key nonce \<longleftrightarrow> length nonce = 64 \<and> list_all lower_hexdigit nonce"

definition decode_canonical_hex :: "hex_crate \<Rightarrow> string \<Rightarrow> string \<Rightarrow> nat \<Rightarrow> StorageError + bytes" where
  "decode_canonical_hex = canonical_hex ''voucher''"

record WriteVoucher =
  wv_version :: u32
  wv_issuer_pk_hex :: string
  wv_holder_pk_hex :: string
  wv_quota_bytes :: u64
  wv_expires_utc :: u64
  wv_nonce_hex :: string
  wv_signature_hex :: string

definition voucher_signing_bytes :: "WriteVoucher \<Rightarrow> bytes" where
  "voucher_signing_bytes v =
     as_bytes ''ciphervault-write-voucher-v1:'' @ le32 (wv_version v) @ as_bytes '':'' @
     as_bytes (wv_issuer_pk_hex v) @ as_bytes '':'' @ as_bytes (wv_holder_pk_hex v) @ as_bytes '':'' @
     le64 (wv_quota_bytes v) @ as_bytes '':'' @ le64 (wv_expires_utc v) @ as_bytes '':'' @
     as_bytes (wv_nonce_hex v)"

definition voucher_issue ::
  "hex_crate \<Rightarrow> crypto_crate \<Rightarrow> bytes \<Rightarrow> u64 \<Rightarrow> bytes \<Rightarrow> string \<Rightarrow> u64 \<Rightarrow> u64 \<Rightarrow> StorageError + WriteVoucher" where
  "voucher_issue h cr nonce now issuer holder_pk_hex quota_bytes ttl_secs =
     rbind (rmap_err (\<lambda>_. forbidden ''voucher holder key must be hex'') (hex_decode h holder_pk_hex)) (\<lambda>holder.
     if length holder \<noteq> 32 then Inl (forbidden ''voucher holder key must be 32 bytes'')
     else if quota_bytes = 0 then Inl (forbidden ''voucher quota must be positive'')
     else if ttl_secs = 0 then Inl (forbidden ''voucher TTL must be positive'')
     else
       (let v = \<lparr>wv_version = VOUCHER_VERSION, wv_issuer_pk_hex = hex_encode h (ed25519_public cr issuer),
                 wv_holder_pk_hex = holder_pk_hex, wv_quota_bytes = quota_bytes,
                 wv_expires_utc = saturating_add now ttl_secs, wv_nonce_hex = hex_encode h nonce,
                 wv_signature_hex = ''''\<rparr>;
            sig = sign_with_domain cr issuer VOUCHER_CONTEXT (voucher_signing_bytes v)
        in Inr (v\<lparr>wv_signature_hex := hex_encode h sig\<rparr>)))"

definition voucher_verify ::
  "hex_crate \<Rightarrow> crypto_crate \<Rightarrow> WriteVoucher \<Rightarrow> string \<Rightarrow> u64 \<Rightarrow> StorageError + unit" where
  "voucher_verify h cr v expected_issuer_pk_hex now_utc =
     (if wv_version v \<noteq> VOUCHER_VERSION
      then Inl (forbidden (''unsupported voucher version '' @ show_word (wv_version v)))
      else if \<not> eq_ignore_ascii_case (wv_issuer_pk_hex v) expected_issuer_pk_hex
      then Inl (forbidden ''voucher issuer mismatch'')
      else
        rbind (decode_canonical_hex h (wv_issuer_pk_hex v) ''issuer key'' 32) (\<lambda>issuer.
        rbind (decode_canonical_hex h (wv_holder_pk_hex v) ''holder key'' 32) (\<lambda>_.
        rbind (decode_canonical_hex h (wv_nonce_hex v) ''nonce'' 32) (\<lambda>_.
        rbind (decode_canonical_hex h (wv_signature_hex v) ''signature'' 64) (\<lambda>sig.
        rbind (rmap_err (\<lambda>_. forbidden ''voucher signature verification failed'')
                 (verify_with_domain cr issuer VOUCHER_CONTEXT (voucher_signing_bytes v) sig)) (\<lambda>_.
        if wv_quota_bytes v = 0 then Inl (forbidden ''voucher quota must be positive'')
        else if now_utc > wv_expires_utc v then Inl (forbidden ''voucher expired'')
        else Inr ()))))))"

subsection \<open>The ledger\<close>

record VoucherCharge =
  vc_quota_bytes :: u64
  vc_expires_utc :: u64
  vc_spent_bytes :: u64
  vc_holder_pk_hex :: string

record PersistedVoucherLedger =
  pl_version :: u32
  pl_spent :: "(string \<times> VoucherCharge) list"
  pl_holder_spent :: "(string \<times> u64) list"

record VoucherLedger =
  max_quota_bytes :: u64
  user_quota_bytes :: u64
  spent :: "(string \<times> VoucherCharge) list"
  holder_spent :: "(string \<times> u64) list"

definition VoucherLedger_new :: "u64 \<Rightarrow> VoucherLedger" where
  "VoucherLedger_new m = \<lparr>max_quota_bytes = m, user_quota_bytes = 0, spent = [], holder_spent = []\<rparr>"

definition set_max_quota :: "u64 \<Rightarrow> VoucherLedger \<Rightarrow> VoucherLedger" where
  "set_max_quota m l = l\<lparr>max_quota_bytes := m\<rparr>"

definition set_user_quota_bytes :: "u64 \<Rightarrow> VoucherLedger \<Rightarrow> VoucherLedger" where
  "set_user_quota_bytes q l = l\<lparr>user_quota_bytes := q\<rparr>"

definition prune_expired :: "u64 \<Rightarrow> VoucherLedger \<Rightarrow> VoucherLedger" where
  "prune_expired now_utc l = l\<lparr>spent := filter (\<lambda>(_, c). vc_expires_utc c \<ge> now_utc) (spent l)\<rparr>"

definition holder_total :: "VoucherLedger \<Rightarrow> string \<Rightarrow> u64" where
  "holder_total l holder = (case map_of (holder_spent l) holder of Some t \<Rightarrow> t | None \<Rightarrow> 0)"

text \<open>The charge pinned for a voucher, or the one its first use would pin.\<close>

definition pinned :: "VoucherLedger \<Rightarrow> WriteVoucher \<Rightarrow> VoucherCharge" where
  "pinned l v =
     (case map_of (spent l) (wv_nonce_hex v) of
        Some c \<Rightarrow> c
      | None \<Rightarrow> \<lparr>vc_quota_bytes = wv_quota_bytes v, vc_expires_utc = wv_expires_utc v, vc_spent_bytes = 0,
                 vc_holder_pk_hex = wv_holder_pk_hex v\<rparr>)"

definition try_consume ::
  "hex_crate \<Rightarrow> crypto_crate \<Rightarrow> WriteVoucher \<Rightarrow> string \<Rightarrow> u64 \<Rightarrow> u64 \<Rightarrow> VoucherLedger \<Rightarrow>
   (StorageError + unit) \<times> VoucherLedger" where
  "try_consume h cr v expected_issuer_pk_hex now_utc bytes l0 =
     (let l = prune_expired now_utc l0 in
      case voucher_verify h cr v expected_issuer_pk_hex now_utc of
        Inl e \<Rightarrow> (Inl e, l)
      | Inr _ \<Rightarrow>
          if wv_quota_bytes v > max_quota_bytes l
          then (Inl (forbidden ''voucher quota exceeds operator maximum''), l)
          else
            (let c = pinned l v in
             if vc_quota_bytes c \<noteq> wv_quota_bytes v \<or> vc_expires_utc c \<noteq> wv_expires_utc v
             then (Inl (forbidden ''voucher terms changed for nonce''), l)
             else if saturating_add (vc_spent_bytes c) bytes > vc_quota_bytes c
             then (Inl (ServerError 429 ''voucher quota exhausted''), l)
             else
               (let total = holder_total l (wv_holder_pk_hex v) in
                if user_quota_bytes l > 0 \<and> saturating_add total bytes > user_quota_bytes l
                then (Inl (ServerError 429 ''user quota exhausted''), l)
                else
                  (Inr (), l\<lparr>
                     holder_spent := AList.update (wv_holder_pk_hex v) (saturating_add total bytes) (holder_spent l),
                     spent := AList.update (wv_nonce_hex v)
                       (c\<lparr>vc_spent_bytes := saturating_add (vc_spent_bytes c) bytes\<rparr>) (spent l)\<rparr>))))"

definition release :: "string \<Rightarrow> u64 \<Rightarrow> VoucherLedger \<Rightarrow> VoucherLedger" where
  "release nonce_hex bytes l =
     (case map_of (spent l) nonce_hex of
        None \<Rightarrow> l
      | Some c \<Rightarrow>
          let released = min bytes (vc_spent_bytes c);
              l = l\<lparr>spent := AList.update nonce_hex (c\<lparr>vc_spent_bytes := vc_spent_bytes c - released\<rparr>) (spent l)\<rparr>;
              holder = vc_holder_pk_hex c
          in if holder = '''' then l
             else (case map_of (holder_spent l) holder of
                     None \<Rightarrow> l
                   | Some t \<Rightarrow>
                       let t = saturating_sub t released
                       in l\<lparr>holder_spent :=
                            (if t = 0 then AList.delete holder (holder_spent l)
                             else AList.update holder t (holder_spent l))\<rparr>))"

subsection \<open>Persistence\<close>

text \<open>
  The calls of \<open>serde_json\<close>: a parsed value, whether it has the key \<open>version\<close>, and the
  two shapes it is read at.
\<close>

record 'v json_crate =
  json_write :: "PersistedVoucherLedger \<Rightarrow> string + bytes"
  json_parse :: "bytes \<Rightarrow> string + 'v"
  json_has_version :: "'v \<Rightarrow> bool"
  json_ledger :: "'v \<Rightarrow> string + PersistedVoucherLedger"
  json_charges :: "'v \<Rightarrow> string + (string \<times> VoucherCharge) list"

text \<open>What is written parses to a value with a version that reads back as the same maps.\<close>

definition json_ok :: "'v json_crate \<Rightarrow> bool" where
  "json_ok j \<longleftrightarrow>
     (\<forall>p. \<exists>bs v p'. json_write j p = Inr bs \<and> json_parse j bs = Inr v \<and> json_has_version j v \<and>
        json_ledger j v = Inr p' \<and> pl_version p' = pl_version p \<and>
        mset (pl_spent p') = mset (pl_spent p) \<and> mset (pl_holder_spent p') = mset (pl_holder_spent p))"

definition encode :: "'v json_crate \<Rightarrow> VoucherLedger \<Rightarrow> string + bytes" where
  "encode j l = json_write j \<lparr>pl_version = 2, pl_spent = spent l, pl_holder_spent = holder_spent l\<rparr>"

definition charge_valid :: "string \<times> VoucherCharge \<Rightarrow> bool" where
  "charge_valid nc \<longleftrightarrow> valid_nonce_key (fst nc) \<and> vc_spent_bytes (snd nc) \<le> vc_quota_bytes (snd nc)"

definition active_totals :: "(string \<times> VoucherCharge) list \<Rightarrow> (string \<times> u64) list" where
  "active_totals cs =
     foldl (\<lambda>m (_, c).
       if vc_holder_pk_hex c = '''' then m
       else AList.update (vc_holder_pk_hex c)
              (saturating_add (case map_of m (vc_holder_pk_hex c) of Some t \<Rightarrow> t | None \<Rightarrow> 0) (vc_spent_bytes c)) m)
       [] cs"

definition merge_totals :: "(string \<times> u64) list \<Rightarrow> (string \<times> u64) list \<Rightarrow> (string \<times> u64) list" where
  "merge_totals totals active =
     foldl (\<lambda>m (holder, a).
       AList.update holder (max (case map_of m holder of Some t \<Rightarrow> t | None \<Rightarrow> 0) a) m) totals active"

definition decode_into :: "'v json_crate \<Rightarrow> bytes \<Rightarrow> VoucherLedger \<Rightarrow> (string + unit) \<times> VoucherLedger" where
  "decode_into j bytes l =
     (case
        rbind (json_parse j bytes) (\<lambda>value.
        rbind
          (if json_has_version j value then
             rbind (json_ledger j value) (\<lambda>stored.
             if pl_version stored \<noteq> 2 then Inl ''Unsupported voucher ledger version''
             else if list_ex (\<lambda>(key, _). \<not> valid_nonce_key key) (pl_holder_spent stored)
             then Inl ''Invalid holder key in ledger''
             else Inr (pl_spent stored, pl_holder_spent stored))
           else rbind (json_charges j value) (\<lambda>charges. Inr (charges, []))) (\<lambda>(charges, totals).
        if list_ex (\<lambda>nc. \<not> charge_valid nc) charges then Inl ''Invalid voucher charge in ledger''
        else Inr (filter charge_valid charges, totals)))
      of Inl e \<Rightarrow> (Inl e, l)
       | Inr (charges, totals) \<Rightarrow>
           (Inr (), l\<lparr>spent := charges, holder_spent := merge_totals totals (active_totals charges)\<rparr>))"

subsection \<open>Runs of the ledger\<close>

datatype ledger_op =
    Consume WriteVoucher u64 u64
  | Release string u64
  | Prune u64
  | Set_max u64
  | Set_user u64

text \<open>The operator calls the ledger under one lock, with its own key as the issuer.\<close>

fun apply_op :: "hex_crate \<Rightarrow> crypto_crate \<Rightarrow> string \<Rightarrow> ledger_op \<Rightarrow> VoucherLedger \<Rightarrow> VoucherLedger" where
  "apply_op h cr issuer (Consume v now b) l = snd (try_consume h cr v issuer now b l)"
| "apply_op h cr issuer (Release n b) l = release n b l"
| "apply_op h cr issuer (Prune now) l = prune_expired now l"
| "apply_op h cr issuer (Set_max m) l = set_max_quota m l"
| "apply_op h cr issuer (Set_user q) l = set_user_quota_bytes q l"

definition run_ops :: "hex_crate \<Rightarrow> crypto_crate \<Rightarrow> string \<Rightarrow> ledger_op list \<Rightarrow> VoucherLedger \<Rightarrow> VoucherLedger" where
  "run_ops h cr issuer ops l = foldl (\<lambda>l op. apply_op h cr issuer op l) l ops"

text \<open>A hash map all of whose keys, or entries, satisfy a predicate.\<close>

definition hash_map_ok :: "('k \<times> 'v \<Rightarrow> bool) \<Rightarrow> ('k \<times> 'v) list \<Rightarrow> bool" where
  "hash_map_ok P m \<longleftrightarrow> distinct (map fst m) \<and> (\<forall>kv\<in>set m. P kv)"

lemma set_update: "set (AList.update k v m) \<subseteq> insert (k, v) (set m)"
  by (induction m) auto

lemma hash_map_update: "hash_map_ok P m \<Longrightarrow> P (k, v) \<Longrightarrow> hash_map_ok P (AList.update k v m)"
  using set_update[of k v m] unfolding hash_map_ok_def by (auto simp: distinct_update)

lemma hash_map_delete: "hash_map_ok P m \<Longrightarrow> hash_map_ok P (AList.delete k m)"
  unfolding hash_map_ok_def by (auto simp: AList.delete_eq distinct_map_filter)

lemma hash_map_filter: "hash_map_ok P m \<Longrightarrow> hash_map_ok P (filter Q m)"
  unfolding hash_map_ok_def by (auto simp: distinct_map_filter)

lemma hash_map_lookup: "hash_map_ok P m \<Longrightarrow> map_of m k = Some v \<Longrightarrow> P (k, v)"
  unfolding hash_map_ok_def by (auto dest: map_of_SomeD)

text \<open>What is well formed about a ledger.\<close>

definition ledger_wf :: "VoucherLedger \<Rightarrow> bool" where
  "ledger_wf l \<longleftrightarrow> hash_map_ok charge_valid (spent l) \<and> hash_map_ok (\<lambda>(k, t). valid_nonce_key k) (holder_spent l)"

definition within_cap :: "VoucherLedger \<Rightarrow> bool" where
  "within_cap l \<longleftrightarrow> user_quota_bytes l > 0 \<longrightarrow> (\<forall>k. holder_total l k \<le> user_quota_bytes l)"

lemma hex_key_valid: "hex_ok h \<Longrightarrow> length bs = 32 \<Longrightarrow> valid_nonce_key (hex_encode h bs)"
proof -
  assume h: "hex_ok h" and "length bs = 32"
  then have "length (hex_encode h bs) = 64" by (simp add: hex_length)
  moreover have "lower_hexdigit c" if "c \<in> set hex_digits" for c
    using that by (auto simp: hex_digits_def lower_hexdigit_def Let_def)
  ultimately show ?thesis using hex_set[OF h, of bs] by (auto simp: valid_nonce_key_def list_all_iff)
qed

lemma voucher_verify_iff:
  assumes "hex_ok h"
  shows "voucher_verify h cr v expected now = Inr () \<longleftrightarrow>
    wv_version v = VOUCHER_VERSION \<and> eq_ignore_ascii_case (wv_issuer_pk_hex v) expected \<and>
    wv_quota_bytes v \<noteq> 0 \<and> now \<le> wv_expires_utc v \<and>
    (\<exists>issuer holder nonce sig. wv_issuer_pk_hex v = hex_encode h issuer \<and> length issuer = 32 \<and>
      wv_holder_pk_hex v = hex_encode h holder \<and> length holder = 32 \<and>
      wv_nonce_hex v = hex_encode h nonce \<and> length nonce = 32 \<and>
      wv_signature_hex v = hex_encode h sig \<and> length sig = 64 \<and>
      verify_with_domain cr issuer VOUCHER_CONTEXT (voucher_signing_bytes v) sig = Inr ())"
  unfolding voucher_verify_def
  by (simp add: result_simps decode_canonical_hex_def canonical_hex_iff[OF assms] not_less) blast

lemma verified_keys:
  assumes "hex_ok h" "voucher_verify h cr v expected now = Inr ()"
  shows "valid_nonce_key (wv_nonce_hex v)" "valid_nonce_key (wv_holder_pk_hex v)" "now \<le> wv_expires_utc v"
  using assms(2) hex_key_valid[OF assms(1)] unfolding voucher_verify_iff[OF assms(1)] by auto

lemma map_of_filter_distinct:
  "distinct (map fst xs) \<Longrightarrow> map_of (filter P xs) k = Some v \<longleftrightarrow> map_of xs k = Some v \<and> P (k, v)"
  by (simp add: distinct_map_filter)

lemma prune_map: "ledger_wf l \<Longrightarrow> map_of (spent (prune_expired now l)) n = Some c \<longleftrightarrow>
    map_of (spent l) n = Some c \<and> now \<le> vc_expires_utc c"
  by (simp add: prune_expired_def ledger_wf_def hash_map_ok_def map_of_filter_distinct)

lemma prune_fields [simp]:
  "holder_spent (prune_expired now l) = holder_spent l" "max_quota_bytes (prune_expired now l) = max_quota_bytes l"
  "user_quota_bytes (prune_expired now l) = user_quota_bytes l" "holder_total (prune_expired now l) k = holder_total l k"
  by (simp_all add: prune_expired_def holder_total_def)

lemma prune_wf: "ledger_wf l \<Longrightarrow> ledger_wf (prune_expired now l)"
  by (simp add: ledger_wf_def prune_expired_def hash_map_filter)

text \<open>The two outcomes of \<open>try_consume\<close>.\<close>

definition consumable :: "hex_crate \<Rightarrow> crypto_crate \<Rightarrow> WriteVoucher \<Rightarrow> string \<Rightarrow> u64 \<Rightarrow> u64 \<Rightarrow> VoucherLedger \<Rightarrow> bool" where
  "consumable h cr v issuer now b l \<longleftrightarrow>
     (let c = pinned (prune_expired now l) v in
      voucher_verify h cr v issuer now = Inr () \<and> wv_quota_bytes v \<le> max_quota_bytes l \<and>
      vc_quota_bytes c = wv_quota_bytes v \<and> vc_expires_utc c = wv_expires_utc v \<and>
      saturating_add (vc_spent_bytes c) b \<le> vc_quota_bytes c \<and>
      (user_quota_bytes l > 0 \<longrightarrow> saturating_add (holder_total l (wv_holder_pk_hex v)) b \<le> user_quota_bytes l))"

definition charge :: "WriteVoucher \<Rightarrow> u64 \<Rightarrow> VoucherLedger \<Rightarrow> VoucherLedger" where
  "charge v b l =
     l\<lparr>holder_spent := AList.update (wv_holder_pk_hex v)
          (saturating_add (holder_total l (wv_holder_pk_hex v)) b) (holder_spent l),
       spent := AList.update (wv_nonce_hex v)
          ((pinned l v)\<lparr>vc_spent_bytes := saturating_add (vc_spent_bytes (pinned l v)) b\<rparr>) (spent l)\<rparr>"

lemma try_consume_ok:
  "consumable h cr v issuer now b l \<Longrightarrow>
   try_consume h cr v issuer now b l = (Inr (), charge v b (prune_expired now l))"
  by (auto simp: try_consume_def consumable_def charge_def Let_def)

lemma try_consume_err:
  "\<not> consumable h cr v issuer now b l \<Longrightarrow>
   \<exists>e. try_consume h cr v issuer now b l = (Inl e, prune_expired now l)"
  by (auto simp: try_consume_def consumable_def Let_def split: sum.splits)

lemma charge_wf:
  assumes "hex_ok h" "ledger_wf l" "consumable h cr v issuer now b l"
  shows "ledger_wf (charge v b (prune_expired now l))"
proof -
  have "valid_nonce_key (wv_nonce_hex v)" "valid_nonce_key (wv_holder_pk_hex v)"
    using verified_keys[OF assms(1)] assms(3) by (auto simp: consumable_def Let_def)
  then show ?thesis using prune_wf[OF assms(2), of now] assms(3)
    by (auto simp: ledger_wf_def charge_def consumable_def Let_def charge_valid_def intro!: hash_map_update)
qed

lemma release_spent:
  "spent (release n b l) = (case map_of (spent l) n of None \<Rightarrow> spent l
     | Some c \<Rightarrow> AList.update n (c\<lparr>vc_spent_bytes := vc_spent_bytes c - min b (vc_spent_bytes c)\<rparr>) (spent l))"
  by (auto simp: release_def Let_def split: option.splits)

lemma release_quota [simp]:
  "max_quota_bytes (release n b l) = max_quota_bytes l" "user_quota_bytes (release n b l) = user_quota_bytes l"
  by (auto simp: release_def Let_def split: option.splits)

text \<open>A release touches at most one holder total, and only lowers it.\<close>

lemma release_holders:
  "holder_spent (release n b l) = holder_spent l \<or>
   (\<exists>k t r. map_of (holder_spent l) k = Some t \<and>
      (holder_spent (release n b l) = AList.delete k (holder_spent l) \<or>
       holder_spent (release n b l) = AList.update k (saturating_sub t r) (holder_spent l)))"
  by (auto simp: release_def Let_def split: option.splits)

lemma saturating_sub_le: "saturating_sub t r \<le> t"
  by (simp add: word_le_nat_alt unat_saturating_sub)

lemma release_wf: "ledger_wf l \<Longrightarrow> ledger_wf (release n b l)"
proof -
  assume wf: "ledger_wf l"
  have sub: "a - min b a \<le> a" for a :: u64
    by (rule word_sub_le) simp
  have "hash_map_ok charge_valid (spent (release n b l))"
  proof (cases "map_of (spent l) n")
    case (Some d)
    then have "charge_valid (n, d)" using wf hash_map_lookup by (auto simp: ledger_wf_def)
    then show ?thesis using Some wf order_trans[OF sub]
      by (auto simp: release_spent ledger_wf_def charge_valid_def intro!: hash_map_update)
  qed (use wf in \<open>simp add: release_spent ledger_wf_def\<close>)
  moreover have "hash_map_ok (\<lambda>(k, t). valid_nonce_key k) (holder_spent (release n b l))"
    using release_holders[of n b l] wf hash_map_lookup[of "\<lambda>(k, t). valid_nonce_key k" "holder_spent l"]
    by (auto simp: ledger_wf_def hash_map_delete intro!: hash_map_update)
  ultimately show ?thesis by (simp add: ledger_wf_def)
qed

lemma release_total_le: "holder_total (release n b l) k \<le> holder_total l k"
  using release_holders[of n b l] saturating_sub_le
  by (auto simp: holder_total_def update_conv' delete_conv' restrict_map_def split: option.splits if_splits)

lemma apply_op_wf: "hex_ok h \<Longrightarrow> ledger_wf l \<Longrightarrow> ledger_wf (apply_op h cr issuer op l)"
proof (cases op)
  case (Consume v now b)
  assume "hex_ok h" "ledger_wf l"
  then show ?thesis using Consume charge_wf[of h l cr v issuer now b] prune_wf[of l now]
      try_consume_ok[of h cr v issuer now b l] try_consume_err[of h cr v issuer now b l]
    by (cases "consumable h cr v issuer now b l") auto
qed (auto simp: release_wf prune_wf set_max_quota_def set_user_quota_bytes_def, simp_all add: ledger_wf_def)

text \<open>The user cap: a charge never takes a holder above it.\<close>

lemma charge_total:
  "holder_total (charge v b l) k =
     (if k = wv_holder_pk_hex v then saturating_add (holder_total l k) b else holder_total l k)"
  by (simp add: holder_total_def charge_def update_conv')

lemma apply_op_cap:
  assumes "within_cap l" "\<And>q. op \<noteq> Set_user q"
  shows "within_cap (apply_op h cr issuer op l) \<and> user_quota_bytes (apply_op h cr issuer op l) = user_quota_bytes l"
proof (cases op)
  case (Consume v now b)
  show ?thesis
  proof (cases "consumable h cr v issuer now b l")
    case True
    have "user_quota_bytes (charge v b (prune_expired now l)) = user_quota_bytes l" by (simp add: charge_def)
    then show ?thesis using True assms(1) Consume
      by (auto simp: try_consume_ok within_cap_def charge_total consumable_def Let_def)
  next
    case False
    then obtain e where "try_consume h cr v issuer now b l = (Inl e, prune_expired now l)"
      using try_consume_err by blast
    then show ?thesis using assms(1) Consume by (simp add: within_cap_def)
  qed
next
  case (Release n b)
  then show ?thesis using assms(1) order_trans[OF release_total_le] by (simp add: within_cap_def)
next
  case (Set_max m)
  then show ?thesis using assms(1) by (simp add: within_cap_def set_max_quota_def holder_total_def)
qed (use assms in \<open>auto simp: within_cap_def\<close>)

lemma run_ops_Nil [simp]: "run_ops h cr issuer [] l = l"
  and run_ops_Cons [simp]: "run_ops h cr issuer (op # ops) l = run_ops h cr issuer ops (apply_op h cr issuer op l)"
  by (simp_all add: run_ops_def)


subsection \<open>No overspending\<close>

text \<open>
  The bytes that one operation charges to the voucher terms \<open>(nonce, quota, expiry)\<close>,
  negative for what a release gives back.
\<close>

definition terms_match :: "string \<times> u64 \<times> u64 \<Rightarrow> VoucherLedger \<Rightarrow> bool" where
  "terms_match = (\<lambda>(n, q, e) l.
     case map_of (spent l) n of Some c \<Rightarrow> vc_quota_bytes c = q \<and> vc_expires_utc c = e | None \<Rightarrow> False)"

fun charged :: "hex_crate \<Rightarrow> crypto_crate \<Rightarrow> string \<Rightarrow> string \<times> u64 \<times> u64 \<Rightarrow> ledger_op \<Rightarrow> VoucherLedger \<Rightarrow> int" where
  "charged h cr issuer (n, q, e) (Consume v now b) l =
     (if fst (try_consume h cr v issuer now b l) = Inr () \<and>
         (wv_nonce_hex v, wv_quota_bytes v, wv_expires_utc v) = (n, q, e) then uint b else 0)"
| "charged h cr issuer (n, q, e) (Release m b) l =
     (if m = n \<and> terms_match (n, q, e) l then - uint (min b (vc_spent_bytes (the (map_of (spent l) n)))) else 0)"
| "charged h cr issuer trm _ l = 0"

fun net_charged :: "hex_crate \<Rightarrow> crypto_crate \<Rightarrow> string \<Rightarrow> string \<times> u64 \<times> u64 \<Rightarrow> ledger_op list \<Rightarrow> VoucherLedger \<Rightarrow> int" where
  "net_charged h cr issuer trm [] l = 0"
| "net_charged h cr issuer trm (op # ops) l =
     charged h cr issuer trm op l + net_charged h cr issuer trm ops (apply_op h cr issuer op l)"

text \<open>A clock that does not run backwards.\<close>

fun op_time :: "ledger_op \<Rightarrow> u64 option" where
  "op_time (Consume v now b) = Some now"
| "op_time (Prune now) = Some now"
| "op_time _ = None"

fun clock_from :: "u64 \<Rightarrow> ledger_op list \<Rightarrow> bool" where
  "clock_from t [] \<longleftrightarrow> True"
| "clock_from t (op # ops) \<longleftrightarrow>
     (case op_time op of None \<Rightarrow> clock_from t ops | Some now \<Rightarrow> t \<le> now \<and> clock_from now ops)"

text \<open>What the ledger has recorded for the terms.\<close>

definition recorded :: "string \<times> u64 \<times> u64 \<Rightarrow> VoucherLedger \<Rightarrow> int" where
  "recorded trm l = (if terms_match trm l then uint (vc_spent_bytes (the (map_of (spent l) (fst trm)))) else 0)"

lemma recorded_bounds:
  "ledger_wf l \<Longrightarrow> 0 \<le> recorded (n, q, e) l \<and> recorded (n, q, e) l \<le> uint q"
  using hash_map_lookup[of charge_valid "spent l" n]
  by (auto simp: recorded_def terms_match_def ledger_wf_def charge_valid_def word_le_def split: option.splits)

lemma saturating_add_exact:
  assumes "saturating_add a b \<le> q" "q \<noteq> - 1"
  shows "uint (saturating_add a b) = uint a + uint b"
proof -
  have "unat q < 2 ^ 64 - 1"
  proof (rule ccontr)
    assume "\<not> unat q < 2 ^ 64 - 1"
    moreover have "unat q < 2 ^ 64" using unsigned_less[of q, where 'a = nat] by simp
    ultimately have "unat q = unat (- 1 :: u64)" by (simp add: unsigned_minus_1_eq_mask mask_eq_exp_minus_1)
    then have "q = - 1" by (simp only: word_unat_eq_iff)
    then show False using assms(2) by simp
  qed
  moreover have "unat (saturating_add a b) \<le> unat q" using assms(1) by (simp add: word_le_nat_alt)
  ultimately have "unat (saturating_add a b) = unat a + unat b" by (simp add: unat_saturating_add)
  then show ?thesis by (simp only: uint_nat of_nat_add)
qed

lemma terms_match_prune:
  "ledger_wf l \<Longrightarrow> terms_match (n, q, e) (prune_expired now l) \<longleftrightarrow> terms_match (n, q, e) l \<and> now \<le> e"
  using prune_map[of l now n] by (auto simp: terms_match_def split: option.splits)

lemma recorded_prune:
  assumes "ledger_wf l" "now \<le> e"
  shows "recorded (n, q, e) (prune_expired now l) = recorded (n, q, e) l"
proof (cases "terms_match (n, q, e) l")
  case True
  then obtain c where c: "map_of (spent l) n = Some c" "vc_expires_utc c = e"
    by (auto simp: terms_match_def split: option.splits)
  then have "map_of (spent (prune_expired now l)) n = Some c" using prune_map[OF assms(1)] assms(2) by simp
  then show ?thesis using c(1) terms_match_prune[OF assms(1)] assms(2) True by (simp add: recorded_def)
qed (simp add: recorded_def terms_match_prune assms)

lemma charge_map:
  "map_of (spent (charge v b l)) n =
     (if n = wv_nonce_hex v
      then Some ((pinned l v)\<lparr>vc_spent_bytes := saturating_add (vc_spent_bytes (pinned l v)) b\<rparr>)
      else map_of (spent l) n)"
  by (simp add: charge_def update_conv')

lemma charge_recorded:
  assumes "vc_quota_bytes (pinned l v) = wv_quota_bytes v" "vc_expires_utc (pinned l v) = wv_expires_utc v"
    and "saturating_add (vc_spent_bytes (pinned l v)) b \<le> vc_quota_bytes (pinned l v)" "q \<noteq> - 1"
  shows "recorded (n, q, e) (charge v b l) = recorded (n, q, e) l +
    (if (wv_nonce_hex v, wv_quota_bytes v, wv_expires_utc v) = (n, q, e) then uint b else 0)"
proof (cases "wv_nonce_hex v = n")
  case True
  show ?thesis
  proof (cases "wv_quota_bytes v = q \<and> wv_expires_utc v = e")
    case match: True
    then have "uint (saturating_add (vc_spent_bytes (pinned l v)) b) = uint (vc_spent_bytes (pinned l v)) + uint b"
      using saturating_add_exact assms by simp
    moreover have "recorded (n, q, e) l = uint (vc_spent_bytes (pinned l v))"
      using True match assms(1,2) by (auto simp: recorded_def terms_match_def pinned_def split: option.splits)
    moreover have "recorded (n, q, e) (charge v b l) = uint (saturating_add (vc_spent_bytes (pinned l v)) b)"
      using True match assms(1,2) by (simp add: recorded_def terms_match_def charge_map)
    ultimately show ?thesis using True match by simp
  next
    case False
    have "\<not> terms_match (n, q, e) l"
      using True False assms(1,2) by (auto simp: terms_match_def pinned_def split: option.splits)
    moreover have "\<not> terms_match (n, q, e) (charge v b l)"
      using True False assms(1,2) by (auto simp: terms_match_def charge_map)
    ultimately show ?thesis using False by (auto simp: recorded_def)
  qed
next
  case False
  then show ?thesis by (simp add: recorded_def terms_match_def charge_map)
qed

lemma release_recorded:
  "recorded (n, q, e) (release m b l) = recorded (n, q, e) l + charged h cr issuer (n, q, e) (Release m b) l"
proof (cases "map_of (spent l) m")
  case None
  then have "spent (release m b l) = spent l" by (simp add: release_spent)
  moreover have "\<not> (m = n \<and> terms_match (n, q, e) l)" using None by (auto simp: terms_match_def)
  ultimately show ?thesis by (simp add: recorded_def terms_match_def)
next
  case (Some c)
  have "uint (vc_spent_bytes c - min b (vc_spent_bytes c)) = uint (vc_spent_bytes c) - uint (min b (vc_spent_bytes c))"
    by (rule uint_sub_lem[THEN iffD1]) (simp add: word_le_def[symmetric])
  with Some show ?thesis
    by (auto simp: recorded_def terms_match_def release_spent update_conv' split: option.splits)
qed

text \<open>Until the terms expire, the ledger records exactly what is charged to them.\<close>

lemma apply_op_recorded:
  assumes "ledger_wf l" "q \<noteq> - 1" "\<And>now. op_time op = Some now \<Longrightarrow> now \<le> e"
  shows "recorded (n, q, e) (apply_op h cr issuer op l) = recorded (n, q, e) l + charged h cr issuer (n, q, e) op l"
proof (cases op)
  case (Consume v now b)
  then have now: "now \<le> e" using assms(3) by simp
  show ?thesis
  proof (cases "consumable h cr v issuer now b l")
    case True
    let ?l = "prune_expired now l"
    have "vc_quota_bytes (pinned ?l v) = wv_quota_bytes v" "vc_expires_utc (pinned ?l v) = wv_expires_utc v"
      "saturating_add (vc_spent_bytes (pinned ?l v)) b \<le> vc_quota_bytes (pinned ?l v)"
      using True unfolding consumable_def Let_def by blast+
    from charge_recorded[OF this assms(2)] show ?thesis
      using Consume recorded_prune[OF assms(1) now] by (simp add: try_consume_ok[OF True])
  next
    case False
    then obtain err where "try_consume h cr v issuer now b l = (Inl err, prune_expired now l)"
      using try_consume_err by blast
    then show ?thesis using Consume recorded_prune[OF assms(1) now] by simp
  qed
next
  case (Release m b)
  then show ?thesis using release_recorded by simp
next
  case (Prune now)
  then show ?thesis using recorded_prune[OF assms(1)] assms(3) by simp
qed (simp_all add: set_max_quota_def set_user_quota_bytes_def recorded_def terms_match_def)

text \<open>After that nothing is charged to them any more.\<close>

lemma consume_expired:
  assumes "hex_ok h" "ledger_wf l" "e < now"
  shows "charged h cr issuer (n, q, e) (Consume v now b) l = 0 \<and>
    \<not> terms_match (n, q, e) (apply_op h cr issuer (Consume v now b) l)"
proof -
  have gone: "\<not> terms_match (n, q, e) (prune_expired now l)" using terms_match_prune[OF assms(2)] assms(3) by (simp add: not_le)
  show ?thesis
  proof (cases "consumable h cr v issuer now b l")
    case True
    then have "now \<le> wv_expires_utc v" using verified_keys(3)[OF assms(1)] by (auto simp: consumable_def Let_def)
    then have "wv_expires_utc v \<noteq> e" using assms(3) by auto
    then show ?thesis using True gone
      by (simp add: try_consume_ok terms_match_def charge_map) (auto simp: consumable_def Let_def)
  next
    case False
    then obtain err where "try_consume h cr v issuer now b l = (Inl err, prune_expired now l)"
      using try_consume_err by blast
    then show ?thesis using gone by simp
  qed
qed

lemma apply_op_expired:
  assumes "hex_ok h" "ledger_wf l" "\<not> terms_match (n, q, e) l \<or> (\<exists>now. op_time op = Some now \<and> e < now)"
    and "\<And>now. op_time op = Some now \<Longrightarrow> e < now"
  shows "charged h cr issuer (n, q, e) op l = 0 \<and> \<not> terms_match (n, q, e) (apply_op h cr issuer op l)"
proof (cases op)
  case (Consume v now b)
  then show ?thesis using consume_expired[OF assms(1,2)] assms(4) by simp
next
  case (Release m b)
  then have no: "\<not> terms_match (n, q, e) l" using assms(3) by simp
  then have "\<not> terms_match (n, q, e) (release m b l)"
    by (auto simp: terms_match_def release_spent update_conv' split: option.splits)
  then show ?thesis using Release no by simp
next
  case (Prune now)
  then show ?thesis using assms(4)[of now] terms_match_prune[OF assms(2)] by (simp add: not_le)
qed (use assms in \<open>simp_all add: set_max_quota_def set_user_quota_bytes_def terms_match_def\<close>)

lemma net_charged_expired:
  "hex_ok h \<Longrightarrow> ledger_wf l \<Longrightarrow> \<not> terms_match (n, q, e) l \<Longrightarrow> e < t \<Longrightarrow> clock_from t ops \<Longrightarrow>
   net_charged h cr issuer (n, q, e) ops l = 0"
proof (induction ops arbitrary: l t)
  case (Cons op ops)
  let ?t = "case op_time op of None \<Rightarrow> t | Some now \<Rightarrow> now"
  have "clock_from ?t ops" "e < ?t" using Cons.prems(4,5) by (auto split: option.splits)
  moreover have "charged h cr issuer (n, q, e) op l = 0 \<and> \<not> terms_match (n, q, e) (apply_op h cr issuer op l)"
  proof (rule apply_op_expired[OF Cons.prems(1,2)])
    show "e < now" if "op_time op = Some now" for now using that Cons.prems(4,5) by auto
  qed (use Cons.prems(3) in blast)
  ultimately show ?case using Cons.IH[of "apply_op h cr issuer op l" ?t] Cons.prems(1,2) apply_op_wf by auto
qed simp

lemma net_charged_bounds:
  assumes "hex_ok h" "q \<noteq> - 1"
  shows "ledger_wf l \<Longrightarrow> clock_from t ops \<Longrightarrow>
    0 \<le> recorded (n, q, e) l + net_charged h cr issuer (n, q, e) ops l \<and>
    recorded (n, q, e) l + net_charged h cr issuer (n, q, e) ops l \<le> uint q"
proof (induction ops arbitrary: l t)
  case (Cons op ops)
  let ?l = "apply_op h cr issuer op l"
  have wf: "ledger_wf ?l" by (rule apply_op_wf[OF assms(1) Cons.prems(1)])
  show ?case
  proof (cases "\<exists>now. op_time op = Some now \<and> e < now")
    case True
    then obtain now where now: "op_time op = Some now" "e < now" by blast
    then have "charged h cr issuer (n, q, e) op l = 0 \<and> \<not> terms_match (n, q, e) ?l"
      by (intro apply_op_expired[OF assms(1) Cons.prems(1)]) auto
    moreover have "clock_from now ops" using Cons.prems(2) now(1) by simp
    ultimately show ?thesis using net_charged_expired[OF assms(1) wf _ now(2)] recorded_bounds[OF Cons.prems(1)] by simp
  next
    case False
    have "clock_from (case op_time op of None \<Rightarrow> t | Some now \<Rightarrow> now) ops"
      using Cons.prems(2) by (auto split: option.splits)
    moreover have "recorded (n, q, e) ?l = recorded (n, q, e) l + charged h cr issuer (n, q, e) op l"
      using apply_op_recorded[OF Cons.prems(1) assms(2)] False by (meson not_less)
    ultimately show ?thesis using Cons.IH[OF wf] by (simp add: add.assoc)
  qed
qed (simp add: recorded_bounds)


subsection \<open>Persistence\<close>

lemma map_of_mset:
  assumes "mset xs = mset ys" "distinct (map fst ys)"
  shows "map_of xs = map_of ys" "set xs = set ys" "distinct (map fst xs)"
proof -
  show s: "set xs = set ys" using assms(1) by (rule mset_eq_setD)
  have "mset (map fst xs) = mset (map fst ys)" using assms(1) by simp
  then show d: "distinct (map fst xs)" using assms(2) mset_eq_imp_distinct_iff by blast
  show "map_of xs = map_of ys" using map_of_inject_set[OF d assms(2)] s by simp
qed

abbreviation get_total :: "(string \<times> u64) list \<Rightarrow> string \<Rightarrow> u64" where
  "get_total m k \<equiv> (case map_of m k of Some t \<Rightarrow> t | None \<Rightarrow> 0)"

lemma merge_totals_ge: "get_total m k \<le> get_total (merge_totals m active) k"
proof (induction active arbitrary: m)
  case (Cons ha active)
  obtain holder a where ha: "ha = (holder, a)" by (cases ha)
  let ?m = "AList.update holder (max (get_total m holder) a) m"
  have "merge_totals m (ha # active) = merge_totals ?m active" by (simp add: merge_totals_def ha)
  moreover have "get_total m k \<le> get_total ?m k" by (simp add: update_conv')
  ultimately show ?case using order_trans[OF _ Cons.IH[of ?m]] by simp
qed (simp add: merge_totals_def)

lemma decode_into_atomic:
  "(\<exists>e. decode_into j bs l = (Inl e, l)) \<or>
   (\<exists>l'. decode_into j bs l = (Inr (), l') \<and> list_all charge_valid (spent l'))"
  by (auto simp: decode_into_def list_all_iff result_simps split: sum.splits prod.splits)

lemma ledger_reload:
  assumes "json_ok j" "ledger_wf l"
  shows "\<exists>bs l'. encode j l = Inr bs \<and> decode_into j bs l0 = (Inr (), l') \<and>
      map_of (spent l') = map_of (spent l) \<and> (\<forall>k. holder_total l k \<le> holder_total l' k) \<and>
      max_quota_bytes l' = max_quota_bytes l0 \<and> user_quota_bytes l' = user_quota_bytes l0 \<and>
      (\<forall>bs l1. (\<exists>e. decode_into j bs l1 = (Inl e, l1)) \<or>
        (\<exists>l2. decode_into j bs l1 = (Inr (), l2) \<and> list_all charge_valid (spent l2)))"
proof -
  let ?p = "\<lparr>pl_version = 2, pl_spent = spent l, pl_holder_spent = holder_spent l\<rparr>"
  obtain bs v p where p: "json_write j ?p = Inr bs" "json_parse j bs = Inr v" "json_has_version j v"
      "json_ledger j v = Inr p" "pl_version p = 2" "mset (pl_spent p) = mset (spent l)"
      "mset (pl_holder_spent p) = mset (holder_spent l)"
    using assms(1) unfolding json_ok_def by (metis PersistedVoucherLedger.select_convs)
  have sp: "map_of (pl_spent p) = map_of (spent l)" "set (pl_spent p) = set (spent l)"
    and ho: "map_of (pl_holder_spent p) = map_of (holder_spent l)" "set (pl_holder_spent p) = set (holder_spent l)"
    using map_of_mset[OF p(6)] map_of_mset[OF p(7)] assms(2) by (simp_all add: ledger_wf_def hash_map_ok_def)
  have valid: "\<forall>nc\<in>set (spent l). charge_valid nc" "\<forall>(k, t)\<in>set (holder_spent l). valid_nonce_key k"
    using assms(2) by (simp_all add: ledger_wf_def hash_map_ok_def)
  let ?l = "l0\<lparr>spent := pl_spent p, holder_spent := merge_totals (pl_holder_spent p) (active_totals (pl_spent p))\<rparr>"
  have "filter charge_valid (pl_spent p) = pl_spent p" using valid(1) sp(2) by (simp add: filter_id_conv)
  moreover have "\<not> list_ex (\<lambda>nc. \<not> charge_valid nc) (pl_spent p)" using valid(1) sp(2) by (simp add: list_ex_iff)
  moreover have "\<not> list_ex (\<lambda>(key, _). \<not> valid_nonce_key key) (pl_holder_spent p)"
    using valid(2) ho(2) by (auto simp: list_ex_iff)
  ultimately have "decode_into j bs l0 = (Inr (), ?l)"
    unfolding decode_into_def by (simp add: p(2-5) case_prod_beta)
  moreover have "holder_total l k \<le> holder_total ?l k" for k
    using merge_totals_ge[of "pl_holder_spent p" k] by (simp add: holder_total_def ho(1))
  moreover have "encode j l = Inr bs" using p(1) by (simp add: encode_def)
  ultimately show ?thesis using sp(1) decode_into_atomic[of j] by (intro exI[of _ bs] exI[of _ ?l]) simp
qed

text \<open>
  C29. A restart forgets no spending: a well-formed ledger can always be persisted, the
  file restores every charge, and no holder's total is lower than before, while the
  policy stays that of the running operator. Any file that is refused leaves the
  ledger as it was, and one that is accepted holds only charges within their quota.
\<close>

theorem ledger_persistence:
  assumes "json_ok j" "ledger_wf l"
  shows "\<exists>bs l'. encode j l = Inr bs \<and> decode_into j bs l0 = (Inr (), l') \<and>
      map_of (spent l') = map_of (spent l) \<and> (\<forall>k. holder_total l k \<le> holder_total l' k) \<and>
      max_quota_bytes l' = max_quota_bytes l0 \<and> user_quota_bytes l' = user_quota_bytes l0 \<and>
      (\<forall>bs l1. (\<exists>e. decode_into j bs l1 = (Inl e, l1)) \<or>
        (\<exists>l2. decode_into j bs l1 = (Inr (), l2) \<and> list_all charge_valid (spent l2)))"
  by (rule ledger_reload[OF assms])

subsection \<open>Issued vouchers\<close>

lemma issue_fields:
  assumes "voucher_issue h cr nonce now sk holder q ttl = Inr v"
  shows "wv_version v = VOUCHER_VERSION" "wv_issuer_pk_hex v = hex_encode h (ed25519_public cr sk)"
    "wv_holder_pk_hex v = holder" "wv_quota_bytes v = q" "q \<noteq> 0" "wv_expires_utc v = saturating_add now ttl"
    "wv_nonce_hex v = hex_encode h nonce" "\<exists>bs. hex_decode h holder = Inr bs \<and> length bs = 32"
    "wv_signature_hex v = hex_encode h (sign_with_domain cr sk VOUCHER_CONTEXT (voucher_signing_bytes v))"
  using assms by (auto simp: voucher_issue_def result_simps Let_def voucher_signing_bytes_def)

text \<open>
  An issued voucher verifies, for the key that issued it and until it expires,
  exactly when the holder key was given in lower case: \<open>issue\<close> accepts upper case
  hex, which \<open>verify\<close> always refuses. The signed bytes of two verified vouchers
  determine all of their terms.
\<close>

theorem voucher_issue_verify:
  assumes "hex_ok h" "ed25519_ok cr" "length nonce = 32"
    and "voucher_issue h cr nonce now sk holder quota ttl = Inr v"
  shows "(voucher_verify h cr v (hex_encode h (ed25519_public cr sk)) t = Inr () \<longleftrightarrow>
      to_ascii_lowercase holder = holder \<and> t \<le> saturating_add now ttl) \<and>
    (\<forall>v' e t t'. voucher_verify h cr v (hex_encode h (ed25519_public cr sk)) t = Inr () \<and>
       voucher_verify h cr v' e t' = Inr () \<and> voucher_signing_bytes v = voucher_signing_bytes v' \<longrightarrow>
       v\<lparr>wv_signature_hex := wv_signature_hex v'\<rparr> = v')"
proof (intro conjI allI impI, goal_cases)
  case 1
  note f = issue_fields[OF assms(4)]
  obtain bs where bs: "to_ascii_lowercase holder = hex_encode h bs" "length bs = 32"
    using f(8) by (auto simp: hex_decode_iff[OF assms(1)])
  have "(\<exists>bs. holder = hex_encode h bs \<and> length bs = 32) \<longleftrightarrow> to_ascii_lowercase holder = holder"
    using bs hex_digits_lower[OF hex_set[OF assms(1)]] by metis
  then show ?case
    unfolding voucher_verify_iff[OF assms(1)]
    by (simp add: f(1-7,9) hex_eq_ignore_case[OF assms(1)] hex_encode_inj[OF assms(1)] assms(3)
        ed25519_laws[OF assms(2)] sign_with_domain_def verify_with_domain_def conj_commute)
next
  case (2 v' e t t')
  then show ?case
    by (auto simp: voucher_verify_iff[OF assms(1)] voucher_signing_bytes_def hex_length[OF assms(1)] simp flip: append_assoc)
qed

subsection \<open>An example\<close>

definition voucher_example :: WriteVoucher where
  "voucher_example = projr (voucher_issue hex_std crypto_std (replicate 32 7) 1000 [5]
     (hex_encode hex_std (replicate 32 3)) 100 60)"

definition ops_example :: "ledger_op list" where
  "ops_example = [Consume voucher_example 1000 60, Consume voucher_example 1001 60,
     Release (wv_nonce_hex voucher_example) 10, Consume voucher_example 1002 30, Prune 2000]"

lemma voucher_example_issued:
  "voucher_issue hex_std crypto_std (replicate 32 7) 1000 [5] (hex_encode hex_std (replicate 32 3)) 100 60 =
     Inr voucher_example"
  by (simp add: voucher_example_def voucher_issue_def hex_decode_encode[OF hex_std_ok] Let_def)

lemma new_ledger_wf: "ledger_wf (VoucherLedger_new m)" "within_cap (VoucherLedger_new m)"
  by (simp_all add: VoucherLedger_new_def ledger_wf_def hash_map_ok_def within_cap_def)

text \<open>A stand-in for the JSON encoding of the ledger.\<close>

definition enc_spent :: "string \<times> VoucherCharge \<Rightarrow> bytes" where
  "enc_spent nc = sd (as_bytes (fst nc)) @ le64 (vc_quota_bytes (snd nc)) @ le64 (vc_expires_utc (snd nc)) @
     le64 (vc_spent_bytes (snd nc)) @ sd (as_bytes (vc_holder_pk_hex (snd nc)))"

definition enc_total :: "string \<times> u64 \<Rightarrow> bytes" where
  "enc_total kt = sd (as_bytes (fst kt)) @ le64 (snd kt)"

definition enc_ledger :: "PersistedVoucherLedger \<Rightarrow> bytes" where
  "enc_ledger p = le32 (pl_version p) @ sdl enc_spent (pl_spent p) @ sdl enc_total (pl_holder_spent p)"

definition json_std :: "PersistedVoucherLedger json_crate" where
  "json_std = \<lparr>json_write = \<lambda>p. Inr (enc_ledger p), json_parse = \<lambda>bs. Inr (inv enc_ledger bs),
     json_has_version = \<lambda>_. True, json_ledger = Inr, json_charges = \<lambda>p. Inr (pl_spent p)\<rparr>"

lemma json_std_ok: "json_ok json_std"
proof -
  have 1: "enc_spent a @ x = enc_spent b @ y \<longleftrightarrow> a = b \<and> x = y" for a b x y
    by (cases a; cases b) (auto simp: enc_spent_def intro: VoucherCharge.equality)
  have 2: "enc_total a @ x = enc_total b @ y \<longleftrightarrow> a = b \<and> x = y" for a b x y
    by (cases a; cases b) (auto simp: enc_total_def)
  have "inj enc_ledger"
    by (rule injI, rule PersistedVoucherLedger.equality)
      (simp_all add: enc_ledger_def sdl_append_inj[OF 1] sdl_inj[OF 2])
  then show ?thesis by (simp add: json_ok_def json_std_def)
qed



theorem ledger_persistence_witness:
  "\<exists>bs l'. encode json_std (run_ops hex_std crypto_std (wv_issuer_pk_hex voucher_example) ops_example (VoucherLedger_new 100)) = Inr bs \<and>
      decode_into json_std bs (VoucherLedger_new 50) = (Inr (), l') \<and>
      map_of (spent l') = map_of (spent (run_ops hex_std crypto_std (wv_issuer_pk_hex voucher_example) ops_example (VoucherLedger_new 100))) \<and>
      (\<forall>k. holder_total (run_ops hex_std crypto_std (wv_issuer_pk_hex voucher_example) ops_example (VoucherLedger_new 100)) k \<le> holder_total l' k) \<and>
      max_quota_bytes l' = max_quota_bytes (VoucherLedger_new 50) \<and> user_quota_bytes l' = user_quota_bytes (VoucherLedger_new 50) \<and>
      (\<forall>bs l1. (\<exists>e. decode_into json_std bs l1 = (Inl e, l1)) \<or>
        (\<exists>l2. decode_into json_std bs l1 = (Inr (), l2) \<and> list_all charge_valid (spent l2)))"
proof (rule ledger_persistence[OF json_std_ok])
  have "ledger_wf l \<Longrightarrow> ledger_wf (run_ops hex_std crypto_std issuer ops l)" for issuer ops l
    by (induction ops arbitrary: l) (simp_all add: apply_op_wf[OF hex_std_ok])
  then show "ledger_wf (run_ops hex_std crypto_std (wv_issuer_pk_hex voucher_example) ops_example (VoucherLedger_new 100))"
    using new_ledger_wf by blast
qed

theorem voucher_issue_verify_witness:
  "voucher_verify hex_std crypto_std voucher_example (hex_encode hex_std (ed25519_public crypto_std [5])) 1030 = Inr ()"
  using voucher_issue_verify[OF hex_std_ok crypto_okD(3)[OF crypto_std_ok] _ voucher_example_issued, of 1030]
  by (simp add: hex_digits_lower hex_set[OF hex_std_ok] saturating_add_def)

end
