(* ===== verification/Invites.thy ===== *)
theory Invites
  imports Storage_Base
begin

text \<open>
  Join invites of the operator fleet (\<open>crates/storage/src/invites.rs\<close>): tickets signed
  by one fleet key (version 1) and quorum tickets signed by several keyholders
  (version 2), with the ceremony that assembles them. The clock and the random nonce
  are arguments.
\<close>

subsection \<open>Tickets\<close>

definition INVITE_VERSION :: u32 where
  "INVITE_VERSION = 1"

definition INVITE_VERSION_V2 :: u32 where
  "INVITE_VERSION_V2 = 2"

abbreviation INVITE_CONTEXT :: bytes where
  "INVITE_CONTEXT \<equiv> as_bytes ''operator_join_invite''"

definition invite_canonical_hex :: "hex_crate \<Rightarrow> string \<Rightarrow> string \<Rightarrow> nat \<Rightarrow> StorageError + bytes" where
  "invite_canonical_hex = canonical_hex ''invite''"

record InviteSignature =
  is_signer_pk_hex :: string
  is_signature_hex :: string

record JoinInvite =
  ji_version :: u32
  ji_issuer_pk_hex :: string
  ji_node_pk_hex :: string
  ji_expires_utc :: u64
  ji_nonce_hex :: string
  ji_signature_hex :: string
  ji_signatures :: "InviteSignature list"

record InviteRequest =
  ir_node_pk_hex :: string
  ir_expires_utc :: u64
  ir_nonce_hex :: string

record InviteApproval =
  ia_request :: InviteRequest
  ia_signer_pk_hex :: string
  ia_signature_hex :: string

definition invite_signing_bytes :: "JoinInvite \<Rightarrow> bytes" where
  "invite_signing_bytes i =
     as_bytes ''ciphervault-join-invite-v1:'' @ le32 (ji_version i) @ as_bytes '':'' @
     as_bytes (ji_issuer_pk_hex i) @ as_bytes '':'' @ as_bytes (ji_node_pk_hex i) @ as_bytes '':'' @
     le64 (ji_expires_utc i) @ as_bytes '':'' @ as_bytes (ji_nonce_hex i)"

definition quorum_signing_bytes :: "string \<Rightarrow> u64 \<Rightarrow> string \<Rightarrow> bytes" where
  "quorum_signing_bytes node_pk_hex expires_utc nonce_hex =
     as_bytes ''ciphervault-join-invite-v2:'' @ le32 INVITE_VERSION_V2 @ as_bytes '':'' @
     as_bytes node_pk_hex @ as_bytes '':'' @ le64 expires_utc @ as_bytes '':'' @ as_bytes nonce_hex"

subsection \<open>Requests and approvals\<close>

definition InviteRequest_new :: "hex_crate \<Rightarrow> bytes \<Rightarrow> u64 \<Rightarrow> string \<Rightarrow> u64 \<Rightarrow> StorageError + InviteRequest" where
  "InviteRequest_new h nonce now node_pk_hex ttl_secs =
     rbind (rmap_err (\<lambda>_. forbidden ''invite node key must be hex'') (hex_decode h node_pk_hex)) (\<lambda>node.
     if length node \<noteq> 32 then Inl (forbidden ''invite node key must be 32 bytes'')
     else if ttl_secs = 0 then Inl (forbidden ''invite TTL must be positive'')
     else Inr \<lparr>ir_node_pk_hex = hex_encode h node, ir_expires_utc = saturating_add now ttl_secs,
               ir_nonce_hex = hex_encode h nonce\<rparr>)"

definition request_validate :: "hex_crate \<Rightarrow> InviteRequest \<Rightarrow> u64 \<Rightarrow> StorageError + unit" where
  "request_validate h r now_utc =
     rbind (invite_canonical_hex h (ir_node_pk_hex r) ''node key'' 32) (\<lambda>_.
     rbind (invite_canonical_hex h (ir_nonce_hex r) ''nonce'' 32) (\<lambda>_.
     if now_utc > ir_expires_utc r then Inl (forbidden ''invite expired'') else Inr ()))"

definition request_body :: "InviteRequest \<Rightarrow> bytes" where
  "request_body r = quorum_signing_bytes (ir_node_pk_hex r) (ir_expires_utc r) (ir_nonce_hex r)"

definition approve :: "hex_crate \<Rightarrow> crypto_crate \<Rightarrow> u64 \<Rightarrow> bytes \<Rightarrow> InviteRequest \<Rightarrow> StorageError + InviteApproval" where
  "approve h cr now signer request =
     rbind (request_validate h request now) (\<lambda>_.
     Inr \<lparr>ia_request = request, ia_signer_pk_hex = hex_encode h (ed25519_public cr signer),
          ia_signature_hex = hex_encode h (sign_with_domain cr signer INVITE_CONTEXT (request_body request))\<rparr>)"

subsection \<open>Version 1\<close>

definition invite_issue ::
  "hex_crate \<Rightarrow> crypto_crate \<Rightarrow> bytes \<Rightarrow> u64 \<Rightarrow> bytes \<Rightarrow> string \<Rightarrow> u64 \<Rightarrow> StorageError + JoinInvite" where
  "invite_issue h cr nonce now issuer node_pk_hex ttl_secs =
     rbind (rmap_err (\<lambda>_. forbidden ''invite node key must be hex'') (hex_decode h node_pk_hex)) (\<lambda>node.
     if length node \<noteq> 32 then Inl (forbidden ''invite node key must be 32 bytes'')
     else if ttl_secs = 0 then Inl (forbidden ''invite TTL must be positive'')
     else
       (let i = \<lparr>ji_version = INVITE_VERSION, ji_issuer_pk_hex = hex_encode h (ed25519_public cr issuer),
                 ji_node_pk_hex = node_pk_hex, ji_expires_utc = saturating_add now ttl_secs,
                 ji_nonce_hex = hex_encode h nonce, ji_signature_hex = '''', ji_signatures = []\<rparr>;
            sig = sign_with_domain cr issuer INVITE_CONTEXT (invite_signing_bytes i)
        in Inr (i\<lparr>ji_signature_hex := hex_encode h sig\<rparr>)))"

definition invite_verify ::
  "hex_crate \<Rightarrow> crypto_crate \<Rightarrow> JoinInvite \<Rightarrow> string \<Rightarrow> u64 \<Rightarrow> StorageError + unit" where
  "invite_verify h cr i expected_issuer_pk_hex now_utc =
     (if ji_version i \<noteq> INVITE_VERSION
      then Inl (forbidden (''unsupported invite version '' @ show_word (ji_version i)))
      else if ji_signatures i \<noteq> [] then Inl (forbidden ''v1 invite must not carry quorum signatures'')
      else if \<not> eq_ignore_ascii_case (ji_issuer_pk_hex i) expected_issuer_pk_hex
      then Inl (forbidden ''invite issuer mismatch'')
      else
        rbind (invite_canonical_hex h (ji_issuer_pk_hex i) ''issuer key'' 32) (\<lambda>issuer.
        rbind (invite_canonical_hex h (ji_node_pk_hex i) ''node key'' 32) (\<lambda>_.
        rbind (invite_canonical_hex h (ji_nonce_hex i) ''nonce'' 32) (\<lambda>_.
        rbind (invite_canonical_hex h (ji_signature_hex i) ''signature'' 64) (\<lambda>sig.
        rbind (rmap_err (\<lambda>_. forbidden ''invite signature verification failed'')
                 (verify_with_domain cr issuer INVITE_CONTEXT (invite_signing_bytes i) sig)) (\<lambda>_.
        if now_utc > ji_expires_utc i then Inl (forbidden ''invite expired'') else Inr ()))))))"

subsection \<open>Quorum tickets\<close>

definition quorum_default :: "nat \<Rightarrow> nat" where
  "quorum_default set_size = set_size div 2 + 1"

text \<open>One signature over a body: the loop bodies of \<open>issue_quorum\<close> and \<open>verify_quorum\<close> share it.\<close>

definition check_signature ::
  "hex_crate \<Rightarrow> crypto_crate \<Rightarrow> bytes \<Rightarrow> string \<Rightarrow> bytes \<Rightarrow> StorageError + unit" where
  "check_signature h cr signer signature_hex body =
     rbind (invite_canonical_hex h signature_hex ''signature'' 64) (\<lambda>sig.
     rmap_err (\<lambda>_. forbidden ''invite signature verification failed'')
       (verify_with_domain cr signer INVITE_CONTEXT body sig))"

fun collect_approvals ::
  "hex_crate \<Rightarrow> crypto_crate \<Rightarrow> InviteRequest \<Rightarrow> InviteApproval list \<Rightarrow> string list \<Rightarrow>
   StorageError + InviteSignature list" where
  "collect_approvals h cr request [] seen = Inr []"
| "collect_approvals h cr request (a # approvals) seen =
     (if ia_request a \<noteq> request then Inl (forbidden ''approval signs a different request'')
      else
        rbind (invite_canonical_hex h (ia_signer_pk_hex a) ''signer key'' 32) (\<lambda>signer.
        if hex_encode h signer \<in> set seen then Inl (forbidden ''duplicate approval signer'')
        else
          rbind (check_signature h cr signer (ia_signature_hex a) (request_body request)) (\<lambda>_.
          rbind (collect_approvals h cr request approvals (seen @ [hex_encode h signer])) (\<lambda>signatures.
          Inr (\<lparr>is_signer_pk_hex = hex_encode h signer, is_signature_hex = ia_signature_hex a\<rparr> # signatures)))))"

definition issue_quorum ::
  "hex_crate \<Rightarrow> crypto_crate \<Rightarrow> u64 \<Rightarrow> InviteRequest \<Rightarrow> InviteApproval list \<Rightarrow> StorageError + JoinInvite" where
  "issue_quorum h cr now request approvals =
     rbind (request_validate h request now) (\<lambda>_.
     if approvals = [] then Inl (forbidden ''quorum ticket needs at least one approval'')
     else
       rbind (collect_approvals h cr request approvals []) (\<lambda>signatures.
       Inr \<lparr>ji_version = INVITE_VERSION_V2, ji_issuer_pk_hex = '''', ji_node_pk_hex = ir_node_pk_hex request,
            ji_expires_utc = ir_expires_utc request, ji_nonce_hex = ir_nonce_hex request,
            ji_signature_hex = '''', ji_signatures = signatures\<rparr>))"

definition normalize_key :: "hex_crate \<Rightarrow> string \<Rightarrow> StorageError + string" where
  "normalize_key h key =
     rbind (rmap_err (\<lambda>_. forbidden ''pinned fleet key must be hex'') (hex_decode h (to_ascii_lowercase (trim key)))) (\<lambda>bytes.
     if length bytes \<noteq> 32 then Inl (forbidden ''pinned fleet key must be 32 bytes'')
     else Inr (hex_encode h bytes))"

definition ticket_approvals :: "JoinInvite \<Rightarrow> StorageError + (string \<times> string \<times> bytes) list" where
  "ticket_approvals i =
     (if ji_version i = INVITE_VERSION then
        (if ji_signatures i \<noteq> [] then Inl (forbidden ''v1 invite must not carry quorum signatures'')
         else Inr [(ji_issuer_pk_hex i, ji_signature_hex i, invite_signing_bytes i)])
      else if ji_issuer_pk_hex i \<noteq> '''' \<or> ji_signature_hex i \<noteq> ''''
      then Inl (forbidden ''v2 invite must not carry v1 issuer fields'')
      else if ji_signatures i = [] then Inl (forbidden ''v2 invite carries no signatures'')
      else Inr (map (\<lambda>s. (is_signer_pk_hex s, is_signature_hex s,
                  quorum_signing_bytes (ji_node_pk_hex i) (ji_expires_utc i) (ji_nonce_hex i))) (ji_signatures i)))"

fun count_signers ::
  "hex_crate \<Rightarrow> crypto_crate \<Rightarrow> string list \<Rightarrow> (string \<times> string \<times> bytes) list \<Rightarrow> string list \<Rightarrow>
   StorageError + string list" where
  "count_signers h cr pinned [] signers = Inr signers"
| "count_signers h cr pinned ((signer_hex, sig_hex, body) # approvals) signers =
     rbind (invite_canonical_hex h signer_hex ''signer key'' 32) (\<lambda>signer.
     if hex_encode h signer \<notin> set pinned then Inl (forbidden ''invite signer not in fleet key set'')
     else
       rbind (check_signature h cr signer sig_hex body) (\<lambda>_.
       count_signers h cr pinned approvals
         (if hex_encode h signer \<in> set signers then signers else signers @ [hex_encode h signer])))"

definition verify_quorum ::
  "hex_crate \<Rightarrow> crypto_crate \<Rightarrow> JoinInvite \<Rightarrow> string list \<Rightarrow> nat \<Rightarrow> u64 \<Rightarrow> StorageError + string list" where
  "verify_quorum h cr i pinned_keys quorum_k now_utc =
     (if ji_version i \<noteq> INVITE_VERSION \<and> ji_version i \<noteq> INVITE_VERSION_V2
      then Inl (forbidden (''unsupported invite version '' @ show_word (ji_version i)))
      else if pinned_keys = [] then Inl (forbidden ''no fleet keys pinned'')
      else if quorum_k = 0 \<or> quorum_k > length pinned_keys then Inl (forbidden ''invalid quorum threshold'')
      else
        rbind (invite_canonical_hex h (ji_node_pk_hex i) ''node key'' 32) (\<lambda>_.
        rbind (invite_canonical_hex h (ji_nonce_hex i) ''nonce'' 32) (\<lambda>_.
        rbind (rtraverse (normalize_key h) pinned_keys) (\<lambda>pinned.
        rbind (ticket_approvals i) (\<lambda>approvals.
        rbind (count_signers h cr pinned approvals []) (\<lambda>signers.
        if length signers < quorum_k
        then Inl (forbidden (''invite quorum not reached (have '' @ show_nat (length signers) @ '' of '' @
               show_nat quorum_k @ '')''))
        else if now_utc > ji_expires_utc i then Inl (forbidden ''invite expired'')
        else Inr signers))))))"

subsection \<open>Lemmas\<close>

lemma check_signature_iff:
  "hex_ok h \<Longrightarrow> check_signature h cr signer s body = Inr () \<longleftrightarrow>
     (\<exists>sig. s = hex_encode h sig \<and> length sig = 64 \<and> verify_with_domain cr signer INVITE_CONTEXT body sig = Inr ())"
  by (auto simp: check_signature_def result_simps invite_canonical_hex_def canonical_hex_iff)

lemma signed_check:
  "hex_ok h \<Longrightarrow> ed25519_ok cr \<Longrightarrow>
   check_signature h cr (ed25519_public cr sk) (hex_encode h (sign_with_domain cr sk INVITE_CONTEXT body)) body = Inr ()"
  by (auto simp: check_signature_iff hex_encode_inj ed25519_laws sign_with_domain_def verify_with_domain_def)

lemma request_validate_iff:
  "hex_ok h \<Longrightarrow> request_validate h r now = Inr () \<longleftrightarrow>
     (\<exists>node nonce. ir_node_pk_hex r = hex_encode h node \<and> length node = 32 \<and>
        ir_nonce_hex r = hex_encode h nonce \<and> length nonce = 32) \<and> now \<le> ir_expires_utc r"
  by (auto simp: request_validate_def result_simps invite_canonical_hex_def canonical_hex_iff not_less)

text \<open>One signer that counts: a pinned key that signed the body of the ticket.\<close>

definition genuine_signer ::
  "hex_crate \<Rightarrow> crypto_crate \<Rightarrow> string list \<Rightarrow> bytes \<Rightarrow> string \<Rightarrow> bool" where
  "genuine_signer h cr pinned body s \<longleftrightarrow>
     (\<exists>pk sig. s = hex_encode h pk \<and> length pk = 32 \<and> s \<in> set pinned \<and>
        verify_with_domain cr pk INVITE_CONTEXT body sig = Inr ())"

lemma count_signers_sound:
  assumes "hex_ok h"
  shows "count_signers h cr pinned approvals acc = Inr signers \<Longrightarrow> distinct acc \<Longrightarrow>
    (\<And>s. s \<in> set acc \<Longrightarrow> genuine_signer h cr pinned body s) \<Longrightarrow>
    (\<And>a. a \<in> set approvals \<Longrightarrow> snd (snd a) = body) \<Longrightarrow>
    distinct signers \<and> (\<forall>s\<in>set signers. genuine_signer h cr pinned body s)"
proof (induction approvals arbitrary: acc)
  case (Cons a approvals)
  obtain signer_hex sig_hex where a: "a = (signer_hex, sig_hex, body)"
    using Cons.prems(4)[of a] by (cases a) auto
  from Cons.prems(1) obtain pk where pk: "signer_hex = hex_encode h pk" "length pk = 32" "signer_hex \<in> set pinned"
      "check_signature h cr pk sig_hex body = Inr ()"
      "count_signers h cr pinned approvals (if signer_hex \<in> set acc then acc else acc @ [signer_hex]) = Inr signers"
    unfolding a by (auto simp: result_simps invite_canonical_hex_def canonical_hex_iff[OF assms])
  then have "genuine_signer h cr pinned body signer_hex"
    by (auto simp: genuine_signer_def check_signature_iff[OF assms])
  then show ?case using Cons.prems(2-4) by (intro Cons.IH[OF pk(5)]) (auto split: if_splits)
qed simp

lemma normalize_key_iff:
  "hex_ok h \<Longrightarrow> normalize_key h key = Inr s \<longleftrightarrow>
     (\<exists>pk. hex_decode h (to_ascii_lowercase (trim key)) = Inr pk \<and> length pk = 32 \<and> s = hex_encode h pk)"
  by (auto simp: normalize_key_def result_simps)

lemma verify_quorum_iff:
  assumes "hex_ok h"
  shows "verify_quorum h cr i pinned_keys k now = Inr signers \<longleftrightarrow>
    (ji_version i = INVITE_VERSION \<or> ji_version i = INVITE_VERSION_V2) \<and> pinned_keys \<noteq> [] \<and>
    0 < k \<and> k \<le> length pinned_keys \<and>
    (\<exists>node. ji_node_pk_hex i = hex_encode h node \<and> length node = 32) \<and>
    (\<exists>nonce. ji_nonce_hex i = hex_encode h nonce \<and> length nonce = 32) \<and>
    (\<exists>pinned approvals. rtraverse (normalize_key h) pinned_keys = Inr pinned \<and> ticket_approvals i = Inr approvals \<and>
       count_signers h cr pinned approvals [] = Inr signers) \<and>
    k \<le> length signers \<and> now \<le> ji_expires_utc i"
  unfolding verify_quorum_def
  by (simp add: result_simps invite_canonical_hex_def canonical_hex_iff[OF assms] not_less) blast

text \<open>The bytes a ticket is signed over.\<close>

definition ticket_body :: "JoinInvite \<Rightarrow> bytes" where
  "ticket_body i = (if ji_version i = INVITE_VERSION then invite_signing_bytes i
     else quorum_signing_bytes (ji_node_pk_hex i) (ji_expires_utc i) (ji_nonce_hex i))"

lemma ticket_approvals_body: "ticket_approvals i = Inr as \<Longrightarrow> a \<in> set as \<Longrightarrow> snd (snd a) = ticket_body i"
  by (auto simp: ticket_approvals_def ticket_body_def result_simps split: if_splits)

lemma verify_quorum_signers:
  assumes "hex_ok h" "verify_quorum h cr i pinned_keys k now = Inr signers"
    and "rtraverse (normalize_key h) pinned_keys = Inr pinned"
  shows "distinct signers \<and> k \<le> length signers \<and> (\<forall>s\<in>set signers. genuine_signer h cr pinned (ticket_body i) s)"
proof -
  obtain pinned' approvals where *: "rtraverse (normalize_key h) pinned_keys = Inr pinned'"
    "ticket_approvals i = Inr approvals" "count_signers h cr pinned' approvals [] = Inr signers" "k \<le> length signers"
    using assms(2) unfolding verify_quorum_iff[OF assms(1)] by blast
  then show ?thesis
    using count_signers_sound[OF assms(1) *(3), of "ticket_body i"] ticket_approvals_body[OF *(2)] assms(3) by simp
qed

subsection \<open>Properties\<close>

text \<open>
  C30. Admission needs a real quorum: the signers that \<open>verify_quorum\<close> returns are
  pairwise different, at least \<open>quorum_k\<close> many and at least one, each is one of the
  pinned fleet keys, each has signed the body of this very ticket, and the ticket has
  not expired.
\<close>

theorem verify_quorum_sound:
  assumes "hex_ok h" "verify_quorum h cr i pinned_keys k now = Inr signers"
  shows "distinct signers \<and> 0 < k \<and> k \<le> length signers \<and> now \<le> ji_expires_utc i \<and>
    (\<forall>s\<in>set signers. \<exists>pk sig key. s = hex_encode h pk \<and> length pk = 32 \<and> key \<in> set pinned_keys \<and>
       hex_decode h (to_ascii_lowercase (trim key)) = Inr pk \<and>
       verify_with_domain cr pk INVITE_CONTEXT (ticket_body i) sig = Inr ())"
proof -
  obtain pinned where pinned: "rtraverse (normalize_key h) pinned_keys = Inr pinned"
    using assms(2) unfolding verify_quorum_iff[OF assms(1)] by blast
  have "\<exists>key\<in>set pinned_keys. normalize_key h key = Inr s" if "s \<in> set pinned" for s
    using rtraverse_set[OF pinned that] .
  then have key: "\<exists>key\<in>set pinned_keys. hex_decode h (to_ascii_lowercase (trim key)) = Inr pk"
    if "hex_encode h pk \<in> set pinned" for pk
    using that by (fastforce simp: normalize_key_iff[OF assms(1)] hex_encode_inj[OF assms(1)])
  have "\<exists>pk sig key. s = hex_encode h pk \<and> length pk = 32 \<and> key \<in> set pinned_keys \<and>
       hex_decode h (to_ascii_lowercase (trim key)) = Inr pk \<and>
       verify_with_domain cr pk INVITE_CONTEXT (ticket_body i) sig = Inr ()" if "s \<in> set signers" for s
  proof -
    have "genuine_signer h cr pinned (ticket_body i) s" using that verify_quorum_signers[OF assms pinned] by blast
    then obtain pk sig where pk: "s = hex_encode h pk" "length pk = 32" "s \<in> set pinned"
        "verify_with_domain cr pk INVITE_CONTEXT (ticket_body i) sig = Inr ()"
      unfolding genuine_signer_def by blast
    obtain key where "key \<in> set pinned_keys" "hex_decode h (to_ascii_lowercase (trim key)) = Inr pk"
      using key[of pk] pk(1,3) by blast
    with pk(1,2,4) show ?thesis by blast
  qed
  moreover have "0 < k" "now \<le> ji_expires_utc i" using assms(2) unfolding verify_quorum_iff[OF assms(1)] by blast+
  ultimately show ?thesis using verify_quorum_signers[OF assms pinned] by blast
qed

text \<open>
  C31. With the default threshold a fleet cannot be split: any two tickets that are
  accepted under the same pinned keys share a signer.
\<close>

theorem quorum_intersection:
  assumes "hex_ok h"
    and "verify_quorum h cr i pinned_keys (quorum_default (length pinned_keys)) now = Inr signers"
    and "verify_quorum h cr j pinned_keys (quorum_default (length pinned_keys)) now' = Inr signers'"
  shows "set signers \<inter> set signers' \<noteq> {}"
proof
  assume disjoint: "set signers \<inter> set signers' = {}"
  obtain pinned where pinned: "rtraverse (normalize_key h) pinned_keys = Inr pinned"
    using assms(2) unfolding verify_quorum_iff[OF assms(1)] by blast
  note a = verify_quorum_signers[OF assms(1,2) pinned] and b = verify_quorum_signers[OF assms(1,3) pinned]
  have "card (set signers \<union> set signers') = length signers + length signers'"
    using a b disjoint by (simp add: card_Un_disjoint distinct_card)
  moreover have "set signers \<union> set signers' \<subseteq> set pinned" using a b by (auto simp: genuine_signer_def)
  then have "card (set signers \<union> set signers') \<le> length pinned"
    by (meson card_length card_mono finite_set order_trans)
  moreover have "length pinned = length pinned_keys"
    using pinned by (auto simp: rtraverse_eq_Inr dest: list_all2_lengthD)
  moreover have "length pinned_keys < 2 * quorum_default (length pinned_keys)" by (simp add: quorum_default_def)
  ultimately show False using a b by linarith
qed

lemma signer_key_canonical:
  "hex_ok h \<Longrightarrow> ed25519_ok cr \<Longrightarrow>
   invite_canonical_hex h (hex_encode h (ed25519_public cr sk)) what 32 = Inr (ed25519_public cr sk)"
  by (simp add: invite_canonical_hex_def canonical_hex_iff ed25519_laws)

definition approval_of :: "hex_crate \<Rightarrow> crypto_crate \<Rightarrow> InviteRequest \<Rightarrow> bytes \<Rightarrow> InviteApproval" where
  "approval_of h cr r sk = \<lparr>ia_request = r, ia_signer_pk_hex = hex_encode h (ed25519_public cr sk),
      ia_signature_hex = hex_encode h (sign_with_domain cr sk INVITE_CONTEXT (request_body r))\<rparr>"

definition signature_of :: "hex_crate \<Rightarrow> crypto_crate \<Rightarrow> InviteRequest \<Rightarrow> bytes \<Rightarrow> InviteSignature" where
  "signature_of h cr r sk = \<lparr>is_signer_pk_hex = hex_encode h (ed25519_public cr sk),
      is_signature_hex = hex_encode h (sign_with_domain cr sk INVITE_CONTEXT (request_body r))\<rparr>"

lemma collect_approvals_signed:
  assumes "hex_ok h" "ed25519_ok cr"
  shows "distinct (map (ed25519_public cr) sks) \<Longrightarrow> (\<And>sk. sk \<in> set sks \<Longrightarrow> hex_encode h (ed25519_public cr sk) \<notin> set seen) \<Longrightarrow>
    collect_approvals h cr r (map (approval_of h cr r) sks) seen = Inr (map (signature_of h cr r) sks)"
proof (induction sks arbitrary: seen)
  case (Cons sk sks)
  have "collect_approvals h cr r (map (approval_of h cr r) sks) (seen @ [hex_encode h (ed25519_public cr sk)]) =
      Inr (map (signature_of h cr r) sks)"
    using Cons.prems by (intro Cons.IH) (auto simp: hex_encode_inj[OF assms(1)] image_iff)
  then show ?case using Cons.prems(2)[of sk]
    by (simp add: approval_of_def[of _ _ _ sk] signature_of_def[of _ _ _ sk] signer_key_canonical[OF assms] signed_check[OF assms] hex_encode_inj[OF assms(1)])
qed simp

lemma count_signers_signed:
  assumes "hex_ok h" "ed25519_ok cr"
  shows "distinct (map (ed25519_public cr) sks) \<Longrightarrow>
    (\<And>sk. sk \<in> set sks \<Longrightarrow> hex_encode h (ed25519_public cr sk) \<notin> set acc \<and> hex_encode h (ed25519_public cr sk) \<in> set pinned) \<Longrightarrow>
    count_signers h cr pinned (map (\<lambda>sk. (hex_encode h (ed25519_public cr sk),
        hex_encode h (sign_with_domain cr sk INVITE_CONTEXT body), body)) sks) acc =
      Inr (acc @ map (\<lambda>sk. hex_encode h (ed25519_public cr sk)) sks)"
proof (induction sks arbitrary: acc)
  case (Cons sk sks)
  have "count_signers h cr pinned (map (\<lambda>sk. (hex_encode h (ed25519_public cr sk),
        hex_encode h (sign_with_domain cr sk INVITE_CONTEXT body), body)) sks) (acc @ [hex_encode h (ed25519_public cr sk)]) =
      Inr ((acc @ [hex_encode h (ed25519_public cr sk)]) @ map (\<lambda>sk. hex_encode h (ed25519_public cr sk)) sks)"
    using Cons.prems by (intro Cons.IH) (auto simp: hex_encode_inj[OF assms(1)] image_iff)
  then show ?case using Cons.prems(2)[of sk]
    by (simp add: signer_key_canonical[OF assms] signed_check[OF assms] hex_encode_inj[OF assms(1)])
qed simp

text \<open>
  C32. The ceremony works: a request that is still valid, approved by at least
  \<open>quorum_k\<close> keyholders with different pinned keys, is assembled into a ticket, and
  every node that pins those keys accepts it until it expires and learns exactly who
  signed.
\<close>

theorem quorum_ceremony:
  assumes "hex_ok h" "ed25519_ok cr" "request_validate h r now = Inr ()"
    and "distinct (map (ed25519_public cr) sks)" "quorum_k \<le> length sks" "0 < quorum_k"
    and "rtraverse (normalize_key h) pinned_keys = Inr pinned"
    and "\<And>sk. sk \<in> set sks \<Longrightarrow> hex_encode h (ed25519_public cr sk) \<in> set pinned"
    and "quorum_k \<le> length pinned_keys" "now' \<le> ir_expires_utc r"
  shows "\<exists>approvals i. rtraverse (\<lambda>sk. approve h cr now sk r) sks = Inr approvals \<and>
    issue_quorum h cr now r approvals = Inr i \<and> ji_node_pk_hex i = ir_node_pk_hex r \<and>
    verify_quorum h cr i pinned_keys quorum_k now' = Inr (map (\<lambda>sk. hex_encode h (ed25519_public cr sk)) sks)"
proof -
  have g: "approve h cr now sk r = Inr (approval_of h cr r sk)" for sk
    by (simp add: approve_def assms(3) approval_of_def)
  define i where "i = \<lparr>ji_version = INVITE_VERSION_V2, ji_issuer_pk_hex = '''', ji_node_pk_hex = ir_node_pk_hex r,
     ji_expires_utc = ir_expires_utc r, ji_nonce_hex = ir_nonce_hex r, ji_signature_hex = '''',
     ji_signatures = map (signature_of h cr r) sks\<rparr>"
  have ne: "sks \<noteq> []" using assms(5,6) by auto
  then have issue: "issue_quorum h cr now r (map (approval_of h cr r) sks) = Inr i"
    using collect_approvals_signed[OF assms(1,2,4), of "[]" r] by (simp add: issue_quorum_def assms(3) i_def)
  have "ticket_approvals i = Inr (map (\<lambda>sk. (hex_encode h (ed25519_public cr sk),
      hex_encode h (sign_with_domain cr sk INVITE_CONTEXT (request_body r)), request_body r)) sks)"
    using ne by (simp add: ticket_approvals_def i_def signature_of_def request_body_def INVITE_VERSION_def INVITE_VERSION_V2_def)
  moreover have "count_signers h cr pinned (map (\<lambda>sk. (hex_encode h (ed25519_public cr sk),
        hex_encode h (sign_with_domain cr sk INVITE_CONTEXT (request_body r)), request_body r)) sks) [] =
      Inr (map (\<lambda>sk. hex_encode h (ed25519_public cr sk)) sks)"
    using count_signers_signed[OF assms(1,2,4), of "[]" pinned] assms(8) by simp
  moreover have "pinned_keys \<noteq> []" using assms(6,9) by auto
  moreover have "\<exists>node. ji_node_pk_hex i = hex_encode h node \<and> length node = 32"
    "\<exists>nonce. ji_nonce_hex i = hex_encode h nonce \<and> length nonce = 32"
    using assms(3) by (auto simp: i_def request_validate_iff[OF assms(1)])
  moreover have "ji_version i = INVITE_VERSION_V2" "ji_expires_utc i = ir_expires_utc r" by (simp_all add: i_def)
  ultimately have "verify_quorum h cr i pinned_keys quorum_k now' = Inr (map (\<lambda>sk. hex_encode h (ed25519_public cr sk)) sks)"
    unfolding verify_quorum_iff[OF assms(1)] using assms(5-7,9,10) by simp
  then show ?thesis using issue rtraverse_map[of sks, OF g]
    by (intro exI[of _ "map (approval_of h cr r) sks"] exI[of _ i]) (simp add: i_def)
qed

text \<open>
  Signatures do not move between tickets: no version 1 body equals a version 2
  body, and among tickets with canonical fields the body determines the node, the
  expiry and the nonce (and for version 1 the issuer).
\<close>

theorem ticket_bodies_separated:
  assumes "hex_ok h" "ji_issuer_pk_hex i = hex_encode h a" "ji_node_pk_hex i = hex_encode h b" "length a = 32" "length b = 32"
    and "ji_issuer_pk_hex j = hex_encode h c" "ji_node_pk_hex j = hex_encode h d" "length c = 32" "length d = 32"
  shows "invite_signing_bytes i \<noteq> quorum_signing_bytes n e x \<and>
    (invite_signing_bytes i = invite_signing_bytes j \<longleftrightarrow>
      ji_version i = ji_version j \<and> ji_issuer_pk_hex i = ji_issuer_pk_hex j \<and> ji_node_pk_hex i = ji_node_pk_hex j \<and>
      ji_expires_utc i = ji_expires_utc j \<and> ji_nonce_hex i = ji_nonce_hex j) \<and>
    (quorum_signing_bytes (ji_node_pk_hex i) e x = quorum_signing_bytes (ji_node_pk_hex j) e' x' \<longleftrightarrow>
      ji_node_pk_hex i = ji_node_pk_hex j \<and> e = e' \<and> x = x')"
proof (intro conjI)
  have "take 27 (invite_signing_bytes i) = as_bytes ''ciphervault-join-invite-v1:''"
    "take 27 (quorum_signing_bytes n e x) = as_bytes ''ciphervault-join-invite-v2:''"
    by (simp_all add: invite_signing_bytes_def quorum_signing_bytes_def)
  moreover have "as_bytes ''ciphervault-join-invite-v1:'' \<noteq> as_bytes ''ciphervault-join-invite-v2:''" by simp
  ultimately show "invite_signing_bytes i \<noteq> quorum_signing_bytes n e x" by metis
qed (use assms in \<open>auto simp: invite_signing_bytes_def quorum_signing_bytes_def hex_length\<close>)

subsection \<open>An example\<close>

definition request_example :: InviteRequest where
  "request_example = \<lparr>ir_node_pk_hex = hex_encode hex_std (replicate 32 9), ir_expires_utc = 5000,
     ir_nonce_hex = hex_encode hex_std (replicate 32 4)\<rparr>"

definition pinned_example :: "string list" where
  "pinned_example = map (\<lambda>sk. hex_encode hex_std (ed25519_public crypto_std sk)) [[1], [2], [3]]"

definition ticket_example :: JoinInvite where
  "ticket_example = projr (issue_quorum hex_std crypto_std 1000 request_example
     (map (approval_of hex_std crypto_std request_example) [[1], [2]]))"

lemma pinned_example_ok: "rtraverse (normalize_key hex_std) pinned_example = Inr pinned_example"
proof -
  have "normalize_key hex_std (hex_encode hex_std (ed25519_public crypto_std sk)) = Inr (hex_encode hex_std (ed25519_public crypto_std sk))" for sk
    by (simp add: normalize_key_iff[OF hex_std_ok] hex_trim[OF hex_std_ok] hex_digits_lower[OF hex_set[OF hex_std_ok]]
        hex_decode_encode[OF hex_std_ok] ed25519_laws[OF crypto_okD(3)[OF crypto_std_ok]])
  then show ?thesis by (simp add: pinned_example_def)
qed

lemma request_example_ok: "request_validate hex_std request_example 1000 = Inr ()"
  unfolding request_validate_iff[OF hex_std_ok] by (auto simp: request_example_def intro: length_replicate)

lemma keys_example: "distinct (map (ed25519_public crypto_std) [[1], [2]])"
  by (simp add: crypto_std_def sum_tag_def)

lemma quorum_ceremony_witness:
  "\<exists>approvals i. rtraverse (\<lambda>sk. approve hex_std crypto_std 1000 sk request_example) [[1], [2]] = Inr approvals \<and>
    issue_quorum hex_std crypto_std 1000 request_example approvals = Inr i \<and>
    ji_node_pk_hex i = ir_node_pk_hex request_example \<and>
    verify_quorum hex_std crypto_std i pinned_example 2 2000 =
      Inr (map (\<lambda>sk. hex_encode hex_std (ed25519_public crypto_std sk)) [[1], [2]])"
  by (rule quorum_ceremony[OF hex_std_ok crypto_okD(3)[OF crypto_std_ok] request_example_ok keys_example _ _ pinned_example_ok])
    (auto simp: pinned_example_def request_example_def)

text \<open>The ticket of the example is accepted; this repeats the ceremony on its two approvals.\<close>

lemma ticket_example_accepted:
  "verify_quorum hex_std crypto_std ticket_example pinned_example (quorum_default (length pinned_example)) 2000 =
     Inr (map (\<lambda>sk. hex_encode hex_std (ed25519_public crypto_std sk)) [[1], [2]])"
proof -
  note ok = hex_std_ok crypto_okD(3)[OF crypto_std_ok]
  have i: "ticket_example = \<lparr>ji_version = INVITE_VERSION_V2, ji_issuer_pk_hex = '''', ji_node_pk_hex = ir_node_pk_hex request_example,
      ji_expires_utc = 5000, ji_nonce_hex = ir_nonce_hex request_example, ji_signature_hex = '''',
      ji_signatures = map (signature_of hex_std crypto_std request_example) [[1], [2]]\<rparr>"
    using collect_approvals_signed[OF ok keys_example, of "[]" request_example]
    unfolding ticket_example_def issue_quorum_def request_example_ok by (simp add: request_example_def)
  have "ticket_approvals ticket_example = Inr (map (\<lambda>sk. (hex_encode hex_std (ed25519_public crypto_std sk),
      hex_encode hex_std (sign_with_domain crypto_std sk INVITE_CONTEXT (ticket_body ticket_example)), ticket_body ticket_example)) [[1], [2]])"
    by (simp add: i ticket_approvals_def ticket_body_def signature_of_def request_body_def request_example_def INVITE_VERSION_def INVITE_VERSION_V2_def)
  moreover have "count_signers hex_std crypto_std pinned_example (map (\<lambda>sk. (hex_encode hex_std (ed25519_public crypto_std sk),
      hex_encode hex_std (sign_with_domain crypto_std sk INVITE_CONTEXT (ticket_body ticket_example)), ticket_body ticket_example)) [[1], [2]]) [] =
      Inr ([] @ map (\<lambda>sk. hex_encode hex_std (ed25519_public crypto_std sk)) [[1], [2]])"
    by (rule count_signers_signed[OF ok keys_example]) (auto simp: pinned_example_def)
  ultimately show ?thesis
    unfolding verify_quorum_iff[OF hex_std_ok] using pinned_example_ok
    by (auto simp: i request_example_def pinned_example_def quorum_default_def INVITE_VERSION_def INVITE_VERSION_V2_def intro: length_replicate)
qed

theorem verify_quorum_sound_witness:
  "\<exists>signers. verify_quorum hex_std crypto_std ticket_example pinned_example (quorum_default (length pinned_example)) 2000 = Inr signers \<and>
    distinct signers \<and> quorum_default (length pinned_example) \<le> length signers"
  using verify_quorum_sound[OF hex_std_ok ticket_example_accepted] ticket_example_accepted by blast

theorem quorum_intersection_witness:
  "set (map (\<lambda>sk. hex_encode hex_std (ed25519_public crypto_std sk)) [[1], [2]]) \<inter>
   set (map (\<lambda>sk. hex_encode hex_std (ed25519_public crypto_std sk)) [[1], [2]]) \<noteq> {}"
  by (rule quorum_intersection[OF hex_std_ok ticket_example_accepted ticket_example_accepted])

theorem ticket_bodies_separated_witness:
  "invite_signing_bytes \<lparr>ji_version = 1, ji_issuer_pk_hex = hex_encode hex_std (replicate 32 1),
      ji_node_pk_hex = hex_encode hex_std (replicate 32 2), ji_expires_utc = 5, ji_nonce_hex = ''a'',
      ji_signature_hex = '''', ji_signatures = []\<rparr> \<noteq>
   quorum_signing_bytes (hex_encode hex_std (replicate 32 2)) 5 ''a''"
  using ticket_bodies_separated[OF hex_std_ok, of
      "\<lparr>ji_version = 1, ji_issuer_pk_hex = hex_encode hex_std (replicate 32 1),
      ji_node_pk_hex = hex_encode hex_std (replicate 32 2), ji_expires_utc = 5, ji_nonce_hex = ''a'',
      ji_signature_hex = '''', ji_signatures = []\<rparr>" "replicate 32 1" "replicate 32 2"
      "\<lparr>ji_version = 1, ji_issuer_pk_hex = hex_encode hex_std (replicate 32 1),
      ji_node_pk_hex = hex_encode hex_std (replicate 32 2), ji_expires_utc = 5, ji_nonce_hex = ''a'',
      ji_signature_hex = '''', ji_signatures = []\<rparr>" "replicate 32 1" "replicate 32 2"]
  by simp

end
