(* ===== verification/Recovery_Base.thy ===== *)
theory Recovery_Base
  imports Schema
begin

text \<open>
  The errors of the recovery crate (\<open>crates/recovery/src/error.rs\<close>) and the texts of the
  cryptographic errors that its messages embed (\<open>crates/crypto/src/error.rs\<close>).
\<close>

datatype RecoveryError =
    ChecksumMismatch u32 u32
  | HexDecodeError string
  | Kit_InvalidKeyLength nat
  | Recovery_CryptoError CryptoError
  | Recovery_FormatError FormatError
  | InvalidKitFormat string
  | InvalidSignature string
  | InvalidChallenge string

fun show_crypto_error :: "CryptoError \<Rightarrow> string" where
  "show_crypto_error AuthTagVerificationFailed = ''Authentication tag verification failed: ciphertext or AAD tampered''"
| "show_crypto_error (InvalidKeyLength e a) = ''Invalid key length: expected '' @ show_nat e @ '', got '' @ show_nat a"
| "show_crypto_error (InvalidNonceLength e a) = ''Invalid nonce length: expected '' @ show_nat e @ '', got '' @ show_nat a"
| "show_crypto_error InvalidKdfContext = ''KDF context must be exactly 8 bytes''"
| "show_crypto_error SignatureVerificationFailed = ''Cryptographic signature verification failed''"
| "show_crypto_error (SealedBoxPayloadTooShort m) = ''Sealed box payload too short: minimum length '' @ show_nat m"
| "show_crypto_error NonContributoryKeyAgreement =
     ''Sealed box key agreement rejected a non-contributory X25519 public key''"
| "show_crypto_error (PasswordHashError s) = ''Argon2 password hashing error: '' @ s"
| "show_crypto_error (RngError s) = ''Randomness generation error: '' @ s"
| "show_crypto_error (HsmError s) = ''Hardware Security Module error: '' @ s"
| "show_crypto_error (ThresholdError s) = ''Threshold secret sharing error: '' @ s"

end
