(* ===== verification/Approval.thy ===== *)
theory Approval
  imports Recovery_Base
begin

text \<open>
  Out-of-band approvals (\<open>crates/recovery/src/approval.rs\<close>): challenges, signed receipts
  and their verification. The clock and the random identifiers are arguments. The
  signed text joins its fields with colons; the lemmas say exactly how far that text
  binds the fields.
\<close>

subsection \<open>Definitions\<close>

datatype ApprovalAction = EmergencyRecovery | KeyRotation | SnapshotRollback | GuardianRevocation

text \<open>The derived \<open>Debug\<close> text.\<close>

fun show_action :: "ApprovalAction \<Rightarrow> string" where
  "show_action EmergencyRecovery = ''EmergencyRecovery''"
| "show_action KeyRotation = ''KeyRotation''"
| "show_action SnapshotRollback = ''SnapshotRollback''"
| "show_action GuardianRevocation = ''GuardianRevocation''"

record ApprovalChallenge =
  ac_challenge_id :: string
  ac_vault_id_hex :: string
  ac_action :: ApprovalAction
  ac_requester_device_id_hex :: string
  ac_nonce_hex :: string
  ac_created_at_utc :: u64
  ac_expires_at_utc :: u64
  ac_details :: string

definition ApprovalChallenge_new ::
  "hex_crate \<Rightarrow> bytes \<Rightarrow> bytes \<Rightarrow> u64 \<Rightarrow> bytes \<Rightarrow> ApprovalAction \<Rightarrow> bytes \<Rightarrow> string \<Rightarrow> u64 \<Rightarrow> ApprovalChallenge" where
  "ApprovalChallenge_new h id_bytes nonce_bytes now vault_id action requester_device_id details validity_seconds =
     \<lparr>ac_challenge_id = hex_encode h id_bytes, ac_vault_id_hex = hex_encode h vault_id, ac_action = action,
      ac_requester_device_id_hex = hex_encode h requester_device_id, ac_nonce_hex = hex_encode h nonce_bytes,
      ac_created_at_utc = now, ac_expires_at_utc = now + validity_seconds, ac_details = details\<rparr>"

definition challenge_signing_bytes :: "ApprovalChallenge \<Rightarrow> bytes" where
  "challenge_signing_bytes c =
     as_bytes ''CipherVault-ApprovalChallenge-v1:'' @ as_bytes (ac_challenge_id c) @ as_bytes '':'' @
     as_bytes (ac_vault_id_hex c) @ as_bytes '':'' @ as_bytes (show_action (ac_action c)) @ as_bytes '':'' @
     as_bytes (ac_requester_device_id_hex c) @ as_bytes '':'' @ as_bytes (ac_nonce_hex c) @ as_bytes '':'' @
     le64 (ac_expires_at_utc c) @ as_bytes '':'' @ as_bytes (ac_details c)"

definition challenge_is_expired :: "u64 \<Rightarrow> ApprovalChallenge \<Rightarrow> bool" where
  "challenge_is_expired now c \<longleftrightarrow> now > ac_expires_at_utc c"

record SignedApprovalReceipt =
  ar_challenge_id :: string
  ar_approver_name :: string
  ar_approver_pk_hex :: string
  ar_approved_at_utc :: u64
  ar_signature_hex :: string

definition compute_signing_bytes :: "ApprovalChallenge \<Rightarrow> string \<Rightarrow> string \<Rightarrow> u64 \<Rightarrow> bytes" where
  "compute_signing_bytes challenge approver_name approver_pk_hex approved_at_utc =
     challenge_signing_bytes challenge @ as_bytes '':'' @ as_bytes approver_name @ as_bytes '':'' @
     as_bytes approver_pk_hex @ as_bytes '':'' @ le64 approved_at_utc"

definition receipt_signing_bytes :: "SignedApprovalReceipt \<Rightarrow> ApprovalChallenge \<Rightarrow> bytes" where
  "receipt_signing_bytes r challenge =
     compute_signing_bytes challenge (ar_approver_name r) (ar_approver_pk_hex r) (ar_approved_at_utc r)"

definition receipt_sign ::
  "hex_crate \<Rightarrow> crypto_crate \<Rightarrow> u64 \<Rightarrow> ApprovalChallenge \<Rightarrow> string \<Rightarrow> bytes \<Rightarrow> SignedApprovalReceipt" where
  "receipt_sign h cr now challenge approver_name signing_key =
     (let pk_hex = hex_encode h (ed25519_public cr signing_key);
          msg = compute_signing_bytes challenge approver_name pk_hex now;
          sig = sign_with_domain cr signing_key (as_bytes ''out_of_band_approval'') msg
      in \<lparr>ar_challenge_id = ac_challenge_id challenge, ar_approver_name = approver_name,
          ar_approver_pk_hex = pk_hex, ar_approved_at_utc = now, ar_signature_hex = hex_encode h sig\<rparr>)"

definition receipt_verify ::
  "hex_crate \<Rightarrow> crypto_crate \<Rightarrow> u64 \<Rightarrow> SignedApprovalReceipt \<Rightarrow> ApprovalChallenge \<Rightarrow> RecoveryError + unit" where
  "receipt_verify h cr now r challenge =
     (if ar_challenge_id r \<noteq> ac_challenge_id challenge
      then Inl (InvalidSignature ''Receipt challenge ID does not match challenge'')
      else if challenge_is_expired now challenge
      then Inl (InvalidChallenge ''Approval challenge has expired'')
      else
        rbind (rmap_err (\<lambda>e. InvalidSignature (''Invalid approver public key hex: '' @ e))
                 (hex_decode h (ar_approver_pk_hex r))) (\<lambda>pk_bytes.
        if length pk_bytes \<noteq> 32 then Inl (InvalidSignature ''Approver public key must be 32 bytes'')
        else
          rbind (rmap_err (\<lambda>e. InvalidSignature (''Invalid signature hex: '' @ e))
                   (hex_decode h (ar_signature_hex r))) (\<lambda>sig_bytes.
          if length sig_bytes \<noteq> 64 then Inl (InvalidSignature ''Approval signature must be 64 bytes'')
          else
            rmap_err (\<lambda>e. InvalidSignature (''Approval signature invalid: '' @ show_crypto_error e))
              (verify_with_domain cr pk_bytes (as_bytes ''out_of_band_approval'')
                 (receipt_signing_bytes r challenge) sig_bytes))))"

subsection \<open>What the signed text binds\<close>

text \<open>Challenges as \<open>new\<close> makes them, up to the free text.\<close>

definition challenge_typed :: "ApprovalChallenge \<Rightarrow> bool" where
  "challenge_typed c \<longleftrightarrow> length (ac_challenge_id c) = 32 \<and> length (ac_vault_id_hex c) = 64 \<and>
     length (ac_requester_device_id_hex c) = 64 \<and> length (ac_nonce_hex c) = 64"

lemma new_challenge_typed:
  "hex_ok h \<Longrightarrow> length i = 16 \<Longrightarrow> length n = 32 \<Longrightarrow> length v = 32 \<Longrightarrow> length d = 32 \<Longrightarrow>
   challenge_typed (ApprovalChallenge_new h i n now v a d txt s)"
  by (simp add: challenge_typed_def ApprovalChallenge_new_def hex_length)

lemma show_action_colon: "CHR '':'' \<notin> set (show_action a)"
  by (cases a) simp_all

lemma show_action_inj: "show_action a = show_action b \<longleftrightarrow> a = b"
  by (cases a; cases b) simp_all

lemma as_bytes_notin: "c \<notin> set s \<Longrightarrow> of_char c \<notin> set (as_bytes s)"
  using inj_of_char_byte by (auto simp: as_bytes_def inj_def)

lemma action_split:
  "as_bytes (show_action a) @ as_bytes '':'' @ x = as_bytes (show_action b) @ as_bytes '':'' @ y \<longleftrightarrow> a = b \<and> x = y"
  using colon_split[of "of_char (CHR '':'')" "as_bytes (show_action a)" "as_bytes (show_action b)" x y]
    as_bytes_notin[OF show_action_colon]
  by (simp add: as_bytes_def[of "'':''"] show_action_inj)

lemma challenge_bytes_inj:
  assumes "challenge_typed c" "challenge_typed d" "challenge_signing_bytes c = challenge_signing_bytes d"
  shows "c\<lparr>ac_created_at_utc := ac_created_at_utc d\<rparr> = d"
  using assms unfolding challenge_typed_def challenge_signing_bytes_def
  by (intro ApprovalChallenge.equality) (simp_all add: action_split)

text \<open>Text that is split at its last colon.\<close>

lemma last_colon_split:
  assumes "x \<notin> set m" "x \<notin> set m'"
  shows "a @ x # m = a' @ x # m' \<longleftrightarrow> a = a' \<and> m = m'"
proof -
  have "a @ x # m = a' @ x # m' \<longleftrightarrow> rev (a @ x # m) = rev (a' @ x # m')" by (simp only: rev_is_rev_conv)
  also have "\<dots> \<longleftrightarrow> rev m = rev m' \<and> rev a = rev a'"
    using colon_split[of x "rev m" "rev m'" "rev a" "rev a'"] assms by simp
  finally show ?thesis by auto
qed

lemma compute_signing_bytes_inj:
  assumes "challenge_typed c" "challenge_typed d" "CHR '':'' \<notin> set name" "CHR '':'' \<notin> set name'"
    and "length pk = 64" "length pk' = 64"
    and "compute_signing_bytes c name pk t = compute_signing_bytes d name' pk' t'"
  shows "c\<lparr>ac_created_at_utc := ac_created_at_utc d\<rparr> = d \<and> name = name' \<and> pk = pk' \<and> t = t'"
proof -
  have "(challenge_signing_bytes c @ as_bytes '':'' @ as_bytes name) @ as_bytes '':'' @ as_bytes pk @ as_bytes '':'' @ le64 t =
      (challenge_signing_bytes d @ as_bytes '':'' @ as_bytes name') @ as_bytes '':'' @ as_bytes pk' @ as_bytes '':'' @ le64 t'"
    using assms(7) by (simp add: compute_signing_bytes_def)
  then have tail: "as_bytes '':'' @ as_bytes pk @ as_bytes '':'' @ le64 t = as_bytes '':'' @ as_bytes pk' @ as_bytes '':'' @ le64 t'"
    and front: "challenge_signing_bytes c @ as_bytes '':'' @ as_bytes name = challenge_signing_bytes d @ as_bytes '':'' @ as_bytes name'"
    by (subst (asm) append_eq_append_conv; simp add: assms(5,6))+
  have "challenge_signing_bytes c = challenge_signing_bytes d \<and> name = name'"
    using front last_colon_split[OF as_bytes_notin[OF assms(3)] as_bytes_notin[OF assms(4)]]
    by (simp add: as_bytes_def[of "'':''"])
  moreover have "pk = pk' \<and> t = t'" using tail assms(5,6) by simp
  ultimately show ?thesis using challenge_bytes_inj[OF assms(1,2)] by simp
qed

subsection \<open>Properties\<close>




end
