(* ===== verification/Rust_Text.thy ===== *)
theory Rust_Text
  imports Crates
begin

text \<open>
  More of the Rust standard library on text, for the printed sheets: joining and
  splitting, white-space separated words, numbers in hexadecimal, and lemmas that read
  back a labelled line.
\<close>

subsection \<open>Joining and splitting\<close>

definition unlines :: "string list \<Rightarrow> string" where
  "unlines ls = concat (map (\<lambda>l. l @ [CHR 0x0A]) ls)"

fun join :: "string \<Rightarrow> string list \<Rightarrow> string" where
  "join sep [] = []"
| "join sep [x] = x"
| "join sep (x # xs) = x @ sep @ join sep xs"

function split_str :: "string \<Rightarrow> string \<Rightarrow> string list" where
  "split_str p s =
     (if p \<noteq> [] \<and> starts_with p s then [] # split_str p (drop (length p) s)
      else (case s of [] \<Rightarrow> [[]]
        | c # cs \<Rightarrow> (case split_str p cs of x # xs \<Rightarrow> (c # x) # xs | [] \<Rightarrow> [[c]])))"
  by pat_completeness auto
termination
  by (relation "measure (\<lambda>(p, s). length s)") (auto intro: starts_with_shorter)

declare split_str.simps [simp del]

function split_ws :: "string \<Rightarrow> string list" where
  "split_ws s =
     (case find (\<lambda>w. starts_with w s) ws_codes of
        Some w \<Rightarrow> [] # split_ws (drop (length w) s)
      | None \<Rightarrow> (case s of [] \<Rightarrow> [[]]
          | c # cs \<Rightarrow> (case split_ws cs of x # xs \<Rightarrow> (c # x) # xs | [] \<Rightarrow> [[c]])))"
  by pat_completeness auto
termination
  by (relation "measure length")
    (auto simp: find_Some_iff min_def intro!: starts_with_shorter ws_codes_not_Nil nth_mem)

declare split_ws.simps [simp del]

definition split_whitespace :: "string \<Rightarrow> string list" where
  "split_whitespace s = filter (\<lambda>w. w \<noteq> []) (split_ws s)"

subsection \<open>Hexadecimal numbers\<close>

text \<open>The eight digits of \<open>{:#010x}\<close>, and \<open>u32::from_str_radix\<close> to base 16.\<close>

definition show_hex8 :: "u32 \<Rightarrow> string" where
  "show_hex8 w = ''0x'' @ map (\<lambda>i. hex_digits ! (unat w div 16 ^ i mod 16)) (rev [0..<8])"

definition parse_hex :: "nat \<Rightarrow> string \<Rightarrow> nat option" where
  "parse_hex m s =
     (let ds = (case s of c # cs \<Rightarrow> if c = CHR ''+'' then cs else s | [] \<Rightarrow> s);
          n = foldl (\<lambda>a c. 16 * a + the (hex_val c)) 0 ds
      in if ds \<noteq> [] \<and> list_all (\<lambda>c. hex_val c \<noteq> None) ds \<and> n \<le> m then Some n else None)"

subsection \<open>Lemmas on joining and splitting\<close>

lemma starts_with_simps [simp]:
  "starts_with (c # p) (d # s) \<longleftrightarrow> c = d \<and> starts_with p s" "\<not> starts_with (c # p) []"
  by (auto simp: starts_with_def)

lemma starts_with_set: "starts_with p s \<Longrightarrow> set p \<subseteq> set s"
  by (auto simp: starts_with_iff)

lemma unlines_simps [simp]: "unlines [] = []" "unlines (l # ls) = l @ CHR 0x0A # unlines ls"
  by (simp_all add: unlines_def)

lemma unlines_append: "unlines (xs @ ys) = unlines xs @ unlines ys"
  by (simp add: unlines_def)

lemma unlines_join: "join [CHR 0x0A] ys @ [CHR 0x0A] = unlines (if ys = [] then [[]] else ys)"
  by (induction ys rule: induct_list012) simp_all

text \<open>A line that \<open>lines()\<close> gives back as it is.\<close>

definition is_line :: "string \<Rightarrow> bool" where
  "is_line l \<longleftrightarrow> CHR 0x0A \<notin> set l \<and> (l = [] \<or> last l \<noteq> CHR 0x0D)"

lemma split_char_unlines: "list_all is_line ls \<Longrightarrow> split_char (CHR 0x0A) (unlines ls) = ls @ [[]]"
  by (induction ls) (simp_all add: split_char_append is_line_def)

lemma str_lines_unlines:
  assumes "list_all is_line ls"
  shows "str_lines (unlines ls) = ls"
proof -
  have "map strip_cr ls = ls"
    by (rule map_idI) (use assms in \<open>auto simp: list_all_iff is_line_def strip_cr_def\<close>)
  then show ?thesis by (simp add: str_lines_def split_char_unlines[OF assms] Let_def)
qed

lemma split_str_none: "hd p \<notin> set s \<Longrightarrow> p \<noteq> [] \<Longrightarrow> split_str p s = [s]"
proof (induction s)
  case (Cons c s)
  then have "\<not> starts_with p (c # s)" by (cases p) auto
  with Cons show ?case by (subst split_str.simps) simp
next
  case Nil
  then show ?case by (subst split_str.simps) (cases p, simp_all)
qed

lemma split_str_append: "hd p \<notin> set s \<Longrightarrow> p \<noteq> [] \<Longrightarrow> split_str p (s @ p @ t) = s # split_str p t"
proof (induction s)
  case (Cons c s)
  then have "\<not> starts_with p (c # s @ p @ t)" by (cases p) auto
  with Cons show ?case by (subst split_str.simps) simp
qed (subst split_str.simps, simp)

subsection \<open>Lemmas on white space\<close>

lemma find_ws_space: "find (\<lambda>w. starts_with w (CHR '' '' # s)) ws_codes = Some [CHR '' '']"
  by (simp add: ws_codes_def char_of_def bit_0)

lemma find_ws_graphic: "graphic c \<Longrightarrow> find (\<lambda>w. starts_with w (c # s)) ws_codes = None"
  unfolding find_None_iff
proof (intro notI, elim exE conjE)
  fix w assume "graphic c" "w \<in> set ws_codes" "starts_with w (c # s)"
  then show False using ws_codes_ends[of w] by (cases w) auto
qed

lemma trim_start_space [simp]: "trim_start (CHR '' '' # s) = trim_start s"
  by (subst trim_start.simps) (simp add: find_ws_space)

lemma trim_start_spaces [simp]: "trim_start (replicate k (CHR '' '') @ s) = trim_start s"
  by (induction k) simp_all

lemma split_ws_space: "split_ws (CHR '' '' # s) = [] # split_ws s"
  by (subst split_ws.simps) (simp add: find_ws_space)

lemma split_ws_not_Nil [simp]: "split_ws s \<noteq> []"
  by (subst split_ws.simps) (auto split: option.splits list.splits)

lemma split_ws_graphic:
  "list_all graphic w \<Longrightarrow> split_ws (w @ s) = (w @ hd (split_ws s)) # tl (split_ws s)"
proof (induction w)
  case (Cons c w)
  then show ?case by (subst split_ws.simps) (simp add: find_ws_graphic)
qed simp

lemma split_whitespace_space [simp]: "split_whitespace (CHR '' '' # s) = split_whitespace s"
  by (simp add: split_whitespace_def split_ws_space)

lemma split_whitespace_spaces [simp]: "split_whitespace (replicate k (CHR '' '') @ s) = split_whitespace s"
  by (induction k) simp_all

lemma split_whitespace_word:
  "list_all graphic w \<Longrightarrow> w \<noteq> [] \<Longrightarrow> split_whitespace (w @ CHR '' '' # s) = w # split_whitespace s"
  by (simp add: split_whitespace_def split_ws_graphic split_ws_space)

subsection \<open>Labelled lines\<close>

text \<open>A value that survives printing on a line of its own.\<close>

definition line_value :: "string \<Rightarrow> bool" where
  "line_value v \<longleftrightarrow> v \<noteq> [] \<and> graphic (hd v) \<and> graphic (last v) \<and> CHR 0x0A \<notin> set v"

lemma graphic_not_cr: "graphic c \<Longrightarrow> c \<noteq> CHR 0x0D \<and> c \<noteq> CHR 0x0A"
  by (auto simp: graphic_def)

lemma line_value_line: "line_value v \<Longrightarrow> is_line v"
  using graphic_not_cr[of "last v"] by (auto simp: line_value_def is_line_def)

lemma line_value_trim: "line_value v \<Longrightarrow> trim v = v"
  by (simp add: line_value_def trim_graphic)

lemma graphic_line_value: "list_all graphic v \<Longrightarrow> v \<noteq> [] \<Longrightarrow> line_value v"
  using graphic_not_cr by (auto simp: line_value_def list_all_iff)

text \<open>The printed sheets pad their labels to 23 columns.\<close>

definition field_line :: "string \<Rightarrow> string \<Rightarrow> string" where
  "field_line label v = label @ replicate (23 - length label) (CHR '' '') @ v"

definition is_label :: "string \<Rightarrow> bool" where
  "is_label p \<longleftrightarrow> p \<noteq> [] \<and> graphic (hd p) \<and> length p < 23 \<and> CHR 0x0A \<notin> set p"

lemma field_line_value: "is_label p \<Longrightarrow> line_value v \<Longrightarrow> line_value (field_line p v)"
  by (auto simp: line_value_def field_line_def is_label_def)

lemma field_line_trim:
  assumes "is_label p" "line_value v"
  shows "trim (trim_start_matches p (field_line p v)) = v"
    and "strip_prefix p (field_line p v) = Some (replicate (23 - length p) (CHR '' '') @ v)"
    and "trim (replicate k (CHR '' '') @ v) = v"
proof -
  show t: "trim (replicate k (CHR '' '') @ v) = v" for k
    using line_value_trim[OF assms(2)] by (simp add: trim_def)
  show "strip_prefix p (field_line p v) = Some (replicate (23 - length p) (CHR '' '') @ v)"
    by (simp add: strip_prefix_def field_line_def)
  obtain k where k: "23 - length p = Suc k" using assms(1) by (cases "23 - length p") (auto simp: is_label_def)
  have "hd p \<noteq> CHR '' ''" using assms(1) by (auto simp: is_label_def graphic_def)
  then have "\<not> starts_with p (CHR '' '' # x)" for x using assms(1) by (cases p) (auto simp: is_label_def)
  then have "trim_start_matches p (replicate (23 - length p) (CHR '' '') @ v) = replicate (23 - length p) (CHR '' '') @ v"
    unfolding k by (intro trim_start_matches_id) simp
  moreover have "p \<noteq> []" using assms(1) by (simp add: is_label_def)
  ultimately have "trim_start_matches p (field_line p v) = replicate (23 - length p) (CHR '' '') @ v"
    unfolding field_line_def by (subst trim_start_matches.simps) simp
  then show "trim (trim_start_matches p (field_line p v)) = v" using t by simp
qed

subsection \<open>Lemmas on hexadecimal numbers\<close>

lemma hex_val_digit: "n < 16 \<Longrightarrow> hex_val (hex_digits ! n) = Some n"
proof -
  assume n: "n < 16"
  then have "hex_digits ! n \<in> set hex_digits" by (simp add: hex_digits_simps)
  then have "ascii_lower (hex_digits ! n) = hex_digits ! n"
    by (auto simp: hex_digits_def ascii_lower_def)
  then show ?thesis using n by (simp add: hex_val_Some)
qed

lemma foldl_hex_digits:
  "foldl (\<lambda>a c. 16 * a + the (hex_val c)) 0 (map (\<lambda>i. hex_digits ! (n div 16 ^ (i + j) mod 16)) (rev [0..<k])) =
     n div 16 ^ j mod 16 ^ k"
proof (induction k arbitrary: j)
  case (Suc k)
  have "map (\<lambda>i. hex_digits ! (n div 16 ^ (i + j) mod 16)) (rev [0..<Suc k]) =
      map (\<lambda>i. hex_digits ! (n div 16 ^ (i + Suc j) mod 16)) (rev [0..<k]) @ [hex_digits ! (n div 16 ^ j mod 16)]"
    by (simp add: upt_conv_Cons map_Suc_upt[symmetric] rev_map del: upt_Suc)
  then show ?case
    using Suc[of "Suc j"] mod_mult2_eq[of "n div 16 ^ j" 16 "16 ^ k"] div_mult2_eq[of n 16 "16 ^ j"] div_mult2_eq[of n "16 ^ j" 16]
    by (simp add: hex_val_digit ac_simps)
qed simp

lemma parse_show_hex8:
  "trim_start_matches ''0x'' (show_hex8 w) = drop 2 (show_hex8 w)"
  "parse_hex (2 ^ 32 - 1) (drop 2 (show_hex8 w)) = Some (unat w)"
proof -
  let ?ds = "map (\<lambda>i. hex_digits ! (unat w div 16 ^ i mod 16)) (rev [0..<8])"
  have digits: "set ?ds \<subseteq> set hex_digits" by (auto simp: hex_digits_simps)
  have "\<not> starts_with ''0x'' ?ds"
  proof
    assume "starts_with ''0x'' ?ds"
    then have "CHR ''x'' \<in> set ?ds" using starts_with_set by fastforce
    then have "CHR ''x'' \<in> set hex_digits" using digits by blast
    then show False by (simp add: hex_digits_def)
  qed
  then show "trim_start_matches ''0x'' (show_hex8 w) = drop 2 (show_hex8 w)"
    unfolding show_hex8_def by (subst trim_start_matches.simps) (simp add: trim_start_matches_id)
  have w: "unat w < 2 ^ 32" using unsigned_less[of w, where 'a = nat] by simp
  have "foldl (\<lambda>a c. 16 * a + the (hex_val c)) 0 ?ds = unat w"
    using foldl_hex_digits[of "unat w" 0 8] w by simp
  moreover have "list_all (\<lambda>c. hex_val c \<noteq> None) ?ds" by (auto simp: list_all_iff hex_val_digit)
  moreover have "?ds = hd ?ds # tl ?ds" by (simp add: upt_rec)
  moreover have "hd ?ds \<in> set hex_digits" using digits hd_in_set[of ?ds] by auto
  then have "hd ?ds \<noteq> CHR ''+''" by (auto simp: hex_digits_def)
  ultimately show "parse_hex (2 ^ 32 - 1) (drop 2 (show_hex8 w)) = Some (unat w)"
    using w unfolding parse_hex_def show_hex8_def Let_def by (auto split: list.splits)
qed

end
