(* ===== verification/Recovery_Kit.thy ===== *)
theory Recovery_Kit
  imports Recovery_Base Rust_Text Shamir Envelopes Storage_Base
begin

text \<open>
  The offline recovery kit and the guardian kits (\<open>crates/recovery/src/kit.rs\<close>): creation,
  validation, opening of epoch envelopes, splitting among guardians, recombination and
  the two printed sheets with their parsers. CRC-32 is a parameter; the clock and
  the random coefficients of the split are arguments.
\<close>

type_synonym crc32 = "bytes \<Rightarrow> u32"

subsection \<open>The recovery kit\<close>

record OfflineRecoveryKit =
  rk_version :: u32
  rk_vault_id_hex :: string
  rk_recovery_secret_hex :: string
  rk_checksum :: u32
  rk_recovery_signing_pk_hex :: string
  rk_recovery_encryption_pk_hex :: string
  rk_recovery_locator_hex :: string
  rk_operator_endpoints :: "string list"
  rk_created_at_utc :: u64

definition kit_create ::
  "hex_crate \<Rightarrow> crypto_crate \<Rightarrow> crc32 \<Rightarrow> u64 \<Rightarrow> bytes \<Rightarrow> bytes \<Rightarrow> string list \<Rightarrow> RecoveryError + OfflineRecoveryKit" where
  "kit_create h cr crc now vault_id secret operator_endpoints =
     rbind (rmap_err Recovery_CryptoError (derive_recovery_signing_key cr secret)) (\<lambda>signing_key.
     rbind (rmap_err Recovery_CryptoError (derive_recovery_encryption_keys cr secret)) (\<lambda>(_, enc_pk).
     rbind (rmap_err Recovery_CryptoError (derive_recovery_locator cr secret)) (\<lambda>locator.
     Inr \<lparr>rk_version = 1, rk_vault_id_hex = hex_encode h vault_id,
          rk_recovery_secret_hex = hex_encode h secret, rk_checksum = crc secret,
          rk_recovery_signing_pk_hex = hex_encode h (ed25519_public cr signing_key),
          rk_recovery_encryption_pk_hex = hex_encode h enc_pk,
          rk_recovery_locator_hex = hex_encode h locator,
          rk_operator_endpoints = operator_endpoints, rk_created_at_utc = now\<rparr>)))"

text \<open>The check of the public descriptors, in the order of the disjunction.\<close>

definition descriptors_mismatch ::
  "hex_crate \<Rightarrow> crypto_crate \<Rightarrow> OfflineRecoveryKit \<Rightarrow> bytes \<Rightarrow> bytes \<Rightarrow> bytes \<Rightarrow> RecoveryError + bool" where
  "descriptors_mismatch h cr k secret signing encryption =
     (if rk_version k \<noteq> 1 then Inr True
      else
        rbind (rmap_err HexDecodeError (hex_decode h (rk_vault_id_hex k))) (\<lambda>vault.
        if length vault \<noteq> 32 then Inr True
        else if \<not> eq_ignore_ascii_case (rk_recovery_signing_pk_hex k) (hex_encode h (ed25519_public cr signing)) then Inr True
        else if \<not> eq_ignore_ascii_case (rk_recovery_encryption_pk_hex k) (hex_encode h encryption) then Inr True
        else
          rbind (rmap_err Recovery_CryptoError (derive_recovery_locator cr secret)) (\<lambda>locator.
          Inr (\<not> eq_ignore_ascii_case (rk_recovery_locator_hex k) (hex_encode h locator)))))"

text \<open>\<open>zeroize\<close> empties the buffer before its length is reported, so the error always says 0.\<close>

definition validate_and_extract_secret ::
  "hex_crate \<Rightarrow> crypto_crate \<Rightarrow> crc32 \<Rightarrow> OfflineRecoveryKit \<Rightarrow> RecoveryError + bytes" where
  "validate_and_extract_secret h cr crc k =
     rbind (rmap_err HexDecodeError (hex_decode h (rk_recovery_secret_hex k))) (\<lambda>raw_bytes.
     if length raw_bytes \<noteq> 32 then Inl (Kit_InvalidKeyLength 0)
     else if crc raw_bytes \<noteq> rk_checksum k then Inl (ChecksumMismatch (rk_checksum k) (crc raw_bytes))
     else
       rbind (rmap_err Recovery_CryptoError (derive_recovery_signing_key cr raw_bytes)) (\<lambda>signing.
       rbind (rmap_err Recovery_CryptoError (derive_recovery_encryption_keys cr raw_bytes)) (\<lambda>(_, encryption).
       rbind (descriptors_mismatch h cr k raw_bytes signing encryption) (\<lambda>mismatch.
       if mismatch then Inl (InvalidKitFormat ''Recovery kit public descriptors do not match its secret'')
       else Inr raw_bytes))))"

definition kit_open_envelope ::
  "hex_crate \<Rightarrow> crypto_crate \<Rightarrow> crc32 \<Rightarrow> OfflineRecoveryKit \<Rightarrow> EpochEnvelope \<Rightarrow> RecoveryError + bytes" where
  "kit_open_envelope h cr crc k envelope =
     rbind (validate_and_extract_secret h cr crc k) (\<lambda>secret.
     rbind (rmap_err Recovery_CryptoError (derive_recovery_encryption_keys cr secret)) (\<lambda>(enc_sk, enc_pk).
     rbind (rmap_err HexDecodeError (hex_decode h (rk_vault_id_hex k))) (\<lambda>vault.
     if ee_vault_id envelope \<noteq> vault \<or> ee_recipient_fingerprint envelope \<noteq> enc_pk
     then Inl (InvalidKitFormat ''Epoch envelope vault/recipient mismatch'')
     else
       rbind (rmap_err Recovery_CryptoError (open_sealed_box cr enc_sk enc_pk (ee_sealed_epoch_key envelope))) (\<lambda>raw_key.
       if length raw_key \<noteq> 32 then Inl (Kit_InvalidKeyLength (length raw_key)) else Inr raw_key))))"

subsection \<open>The printed kit\<close>

definition rule_line :: string where "rule_line = replicate 80 (CHR ''='')"
definition thin_line :: string where "thin_line = replicate 80 (CHR ''-'')"

text \<open>The UTF-8 bytes of the dash in the titles.\<close>

definition em_dash :: string where "em_dash = [CHR 0xE2, CHR 0x80, CHR 0x94]"

definition kit_heading :: string where
  "kit_heading = ''CIPHERVAULT '' @ em_dash @ '' EMERGENCY OFFLINE RECOVERY KIT''"

definition kit_title :: string where
  "kit_title = replicate 20 (CHR '' '') @ kit_heading"

definition operator_lines :: "string list \<Rightarrow> string" where
  "operator_lines eps = join [CHR 0x0A] (map (\<lambda>e. ''  - '' @ e) eps)"

definition format_printable :: "OfflineRecoveryKit \<Rightarrow> string" where
  "format_printable k = unlines
     [rule_line,
      kit_title,
      rule_line,
      ''CRITICAL: Store this document in TWO physically separate, secure locations.'',
      ''Do NOT commit this to Git, upload to cloud storage, or store only on one laptop.'',
      ''Loss of this secret means permanent, unrecoverable loss of your encrypted vault.'',
      rule_line,
      '''',
      field_line ''Vault ID:'' (rk_vault_id_hex k),
      field_line ''Creation Date (UTC):'' (show_word (rk_created_at_utc k)),
      '''',
      ''MASTER RECOVERY SECRET R:'',
      rk_recovery_secret_hex k,
      '''',
      field_line ''Checksum (CRC32):'' (show_hex8 (rk_checksum k)),
      '''',
      thin_line,
      ''PUBLIC / BOOTSTRAP DESCRIPTORS (Not Secret)'',
      thin_line,
      field_line ''Recovery Signing PK:'' (rk_recovery_signing_pk_hex k),
      field_line ''Recovery Encrypt PK:'' (rk_recovery_encryption_pk_hex k),
      field_line ''Recovery Locator:'' (rk_recovery_locator_hex k),
      '''',
      ''Configured Operators:'',
      operator_lines (rk_operator_endpoints k),
      rule_line]"

text \<open>
  What one trimmed line contributes. The heading of the secret is told apart first, in
  the loop, because it consumes the line after it; no line starts with two labels.
\<close>

definition kit_line :: "string \<Rightarrow> OfflineRecoveryKit \<Rightarrow> OfflineRecoveryKit" where
  "kit_line line k =
     (if starts_with ''Vault ID:'' line
      then k\<lparr>rk_vault_id_hex := trim (trim_start_matches ''Vault ID:'' line)\<rparr>
      else if starts_with ''Creation Date (UTC):'' line
      then k\<lparr>rk_created_at_utc :=
             (case parse_uint (2 ^ 64 - 1) (trim (trim_start_matches ''Creation Date (UTC):'' line)) of
                Some n \<Rightarrow> word_of_nat n | None \<Rightarrow> 0)\<rparr>
      else if starts_with ''Checksum (CRC32):'' line
      then k\<lparr>rk_checksum :=
             (case parse_hex (2 ^ 32 - 1) (trim_start_matches ''0x'' (trim (trim_start_matches ''Checksum (CRC32):'' line))) of
                Some n \<Rightarrow> word_of_nat n | None \<Rightarrow> 0)\<rparr>
      else if starts_with ''Recovery Signing PK:'' line
      then k\<lparr>rk_recovery_signing_pk_hex := trim (trim_start_matches ''Recovery Signing PK:'' line)\<rparr>
      else if starts_with ''Recovery Encrypt PK:'' line
      then k\<lparr>rk_recovery_encryption_pk_hex := trim (trim_start_matches ''Recovery Encrypt PK:'' line)\<rparr>
      else if starts_with ''Recovery Locator:'' line
      then k\<lparr>rk_recovery_locator_hex := trim (trim_start_matches ''Recovery Locator:'' line)\<rparr>
      else if starts_with ''- http://'' line \<or> starts_with ''- https://'' line
      then k\<lparr>rk_operator_endpoints := rk_operator_endpoints k @ [trim (trim_start_matches ''- '' line)]\<rparr>
      else k)"

fun kit_loop :: "string list \<Rightarrow> OfflineRecoveryKit \<Rightarrow> OfflineRecoveryKit" where
  "kit_loop [] k = k"
| "kit_loop (line # rest) k =
     (if starts_with ''MASTER RECOVERY SECRET R:'' line
      then (case rest of [] \<Rightarrow> k
            | next_line # rest' \<Rightarrow> kit_loop rest' (k\<lparr>rk_recovery_secret_hex := trim next_line\<rparr>))
      else kit_loop rest (kit_line line k))"

definition empty_kit :: OfflineRecoveryKit where
  "empty_kit = \<lparr>rk_version = 1, rk_vault_id_hex = '''', rk_recovery_secret_hex = '''', rk_checksum = 0,
     rk_recovery_signing_pk_hex = '''', rk_recovery_encryption_pk_hex = '''', rk_recovery_locator_hex = '''',
     rk_operator_endpoints = [], rk_created_at_utc = 0\<rparr>"

definition kit_parse_from_printable ::
  "hex_crate \<Rightarrow> crypto_crate \<Rightarrow> crc32 \<Rightarrow> string \<Rightarrow> RecoveryError + OfflineRecoveryKit" where
  "kit_parse_from_printable h cr crc txt =
     (let k = kit_loop (map trim (str_lines txt)) empty_kit
      in if rk_recovery_secret_hex k = '''' \<or> rk_vault_id_hex k = ''''
         then Inl (InvalidKitFormat ''Missing Vault ID or Recovery Secret in text'')
         else rbind (validate_and_extract_secret h cr crc k) (\<lambda>_. Inr k))"

subsection \<open>Guardian kits\<close>

record ThresholdRecoveryKit =
  gk_version :: u32
  gk_vault_id_hex :: string
  gk_guardian_index :: byte
  gk_threshold :: byte
  gk_total_shares :: byte
  gk_share_data_hex :: string
  gk_checksum :: u32
  gk_recovery_signing_pk_hex :: string
  gk_recovery_encryption_pk_hex :: string
  gk_recovery_locator_hex :: string
  gk_operator_endpoints :: "string list"
  gk_created_at_utc :: u64

definition guardian_kit ::
  "hex_crate \<Rightarrow> crc32 \<Rightarrow> OfflineRecoveryKit \<Rightarrow> byte \<Rightarrow> byte \<Rightarrow> ShamirShare \<Rightarrow> ThresholdRecoveryKit" where
  "guardian_kit h crc k threshold total_shares share =
     \<lparr>gk_version = 1, gk_vault_id_hex = rk_vault_id_hex k, gk_guardian_index = sh_index share,
      gk_threshold = threshold, gk_total_shares = total_shares, gk_share_data_hex = share_to_hex h share,
      gk_checksum = crc (sh_data share), gk_recovery_signing_pk_hex = rk_recovery_signing_pk_hex k,
      gk_recovery_encryption_pk_hex = rk_recovery_encryption_pk_hex k,
      gk_recovery_locator_hex = rk_recovery_locator_hex k,
      gk_operator_endpoints = rk_operator_endpoints k, gk_created_at_utc = rk_created_at_utc k\<rparr>"

definition split_kit ::
  "hex_crate \<Rightarrow> crypto_crate \<Rightarrow> crc32 \<Rightarrow> (nat \<Rightarrow> u32) \<Rightarrow> OfflineRecoveryKit \<Rightarrow> byte \<Rightarrow> byte \<Rightarrow>
   RecoveryError + ThresholdRecoveryKit list" where
  "split_kit h cr crc rng k threshold total_shares =
     rbind (validate_and_extract_secret h cr crc k) (\<lambda>secret.
     rbind (rmap_err Recovery_CryptoError (split_secret rng secret threshold total_shares)) (\<lambda>shares.
     Inr (map (guardian_kit h crc k threshold total_shares) shares)))"

definition validate_and_extract_share ::
  "hex_crate \<Rightarrow> crc32 \<Rightarrow> ThresholdRecoveryKit \<Rightarrow> RecoveryError + ShamirShare" where
  "validate_and_extract_share h crc g =
     (if gk_version g \<noteq> 1 \<or> gk_threshold g < 2 \<or> gk_total_shares g < gk_threshold g \<or>
         gk_guardian_index g = 0 \<or> gk_guardian_index g > gk_total_shares g
      then Inl (InvalidKitFormat ''Invalid guardian threshold/index parameters'')
      else
        rbind (rmap_err HexDecodeError (hex_decode h (gk_share_data_hex g))) (\<lambda>raw_bytes.
        if length raw_bytes \<noteq> 32 then Inl (Kit_InvalidKeyLength 0)
        else if crc raw_bytes \<noteq> gk_checksum g then Inl (ChecksumMismatch (gk_checksum g) (crc raw_bytes))
        else Inr (share_new (gk_guardian_index g) raw_bytes)))"

definition check_guardian :: "ThresholdRecoveryKit \<Rightarrow> ThresholdRecoveryKit \<Rightarrow> RecoveryError + unit" where
  "check_guardian first g =
     (if gk_vault_id_hex g \<noteq> gk_vault_id_hex first
      then Inl (InvalidKitFormat ''Mismatched Vault ID across guardian shares'')
      else if gk_threshold g \<noteq> gk_threshold first \<or> gk_total_shares g \<noteq> gk_total_shares first
      then Inl (InvalidKitFormat ''Mismatched threshold parameters across guardian shares'')
      else if gk_version g \<noteq> gk_version first \<or> gk_created_at_utc g \<noteq> gk_created_at_utc first \<or>
         gk_recovery_signing_pk_hex g \<noteq> gk_recovery_signing_pk_hex first \<or>
         gk_recovery_encryption_pk_hex g \<noteq> gk_recovery_encryption_pk_hex first \<or>
         gk_recovery_locator_hex g \<noteq> gk_recovery_locator_hex first
      then Inl (InvalidKitFormat ''Mismatched recovery share set/public descriptors'')
      else Inr ())"

definition combine_kits ::
  "hex_crate \<Rightarrow> crypto_crate \<Rightarrow> crc32 \<Rightarrow> u64 \<Rightarrow> ThresholdRecoveryKit list \<Rightarrow> RecoveryError + OfflineRecoveryKit" where
  "combine_kits h cr crc now kits =
     (case kits of
        [] \<Rightarrow> Inl (InvalidKitFormat ''No guardian kits provided'')
      | first # _ \<Rightarrow>
          if length kits < unat (gk_threshold first)
          then Inl (InvalidKitFormat (''Insufficient guardian shares: received '' @ show_nat (length kits) @
                 '', requires at least '' @ show_word (gk_threshold first)))
          else
            rbind (rcheck_all (check_guardian first) kits) (\<lambda>_.
            rbind (rtraverse (validate_and_extract_share h crc) kits) (\<lambda>shares.
            rbind (rmap_err Recovery_CryptoError (combine_shares shares)) (\<lambda>secret.
            rbind (rmap_err HexDecodeError (hex_decode h (gk_vault_id_hex first))) (\<lambda>vault_id.
            if length vault_id \<noteq> 32 then Inl (Kit_InvalidKeyLength (length vault_id))
            else
              rbind (kit_create h cr crc now vault_id secret (gk_operator_endpoints first)) (\<lambda>k.
              if rk_recovery_signing_pk_hex k \<noteq> gk_recovery_signing_pk_hex first \<or>
                 rk_recovery_encryption_pk_hex k \<noteq> gk_recovery_encryption_pk_hex first \<or>
                 rk_recovery_locator_hex k \<noteq> gk_recovery_locator_hex first
              then Inl (InvalidKitFormat ''Reconstructed secret does not match guardian public descriptors; mixed/corrupt share set'')
              else Inr k))))))"

subsection \<open>The guardian sheet\<close>

definition guardian_heading :: string where
  "guardian_heading = ''CIPHERVAULT '' @ em_dash @ '' GUARDIAN EMERGENCY RECOVERY SHARE''"

definition guardian_title :: string where
  "guardian_title = replicate 10 (CHR '' '') @ guardian_heading"

definition share_text :: "byte \<Rightarrow> byte \<Rightarrow> string" where
  "share_text i n = show_word i @ '' of '' @ show_word n"

definition threshold_text :: "byte \<Rightarrow> byte \<Rightarrow> string" where
  "threshold_text m n = ''Any '' @ show_word m @ '' of '' @ show_word n @ '' guardian shares required to restore vault''"

definition format_guardian_sheet :: "ThresholdRecoveryKit \<Rightarrow> string" where
  "format_guardian_sheet g = unlines
     [rule_line,
      guardian_title,
      rule_line,
      field_line ''GUARDIAN SHARE:'' (share_text (gk_guardian_index g) (gk_total_shares g)),
      field_line ''REQUIRED THRESHOLD:'' (threshold_text (gk_threshold g) (gk_total_shares g)),
      ''CRITICAL: Store this document in a physically separate, secure location.'',
      ''Do NOT share this secret with unauthorized personnel.'',
      rule_line,
      '''',
      field_line ''Vault ID:'' (gk_vault_id_hex g),
      field_line ''Creation Date (UTC):'' (show_word (gk_created_at_utc g)),
      '''',
      ''GUARDIAN RECOVERY SHARE DATA:'',
      gk_share_data_hex g,
      '''',
      field_line ''Checksum (CRC32):'' (show_hex8 (gk_checksum g)),
      '''',
      thin_line,
      ''PUBLIC / BOOTSTRAP DESCRIPTORS (Not Secret)'',
      thin_line,
      field_line ''Recovery Signing PK:'' (gk_recovery_signing_pk_hex g),
      field_line ''Recovery Encrypt PK:'' (gk_recovery_encryption_pk_hex g),
      field_line ''Recovery Locator:'' (gk_recovery_locator_hex g),
      '''',
      ''Configured Operators:'',
      operator_lines (gk_operator_endpoints g),
      rule_line]"

abbreviation parse_u8 :: "string \<Rightarrow> byte" where
  "parse_u8 s \<equiv> (case parse_uint 255 s of Some n \<Rightarrow> word_of_nat n | None \<Rightarrow> 0)"

text \<open>\<open>if let Some(stripped) = line.strip_prefix(p)\<close>, with the rest of the chain as the last argument.\<close>

definition on_prefix :: "string \<Rightarrow> string \<Rightarrow> (string \<Rightarrow> 'a) \<Rightarrow> 'a \<Rightarrow> 'a" where
  "on_prefix p line f r = (case strip_prefix p line of Some stripped \<Rightarrow> f stripped | None \<Rightarrow> r)"

definition guardian_share_field :: "string \<Rightarrow> ThresholdRecoveryKit \<Rightarrow> ThresholdRecoveryKit" where
  "guardian_share_field stripped g =
     (case split_str ''of'' stripped of
        [a, b] \<Rightarrow> g\<lparr>gk_guardian_index := parse_u8 (trim a), gk_total_shares := parse_u8 (trim b)\<rparr>
      | _ \<Rightarrow> g)"

definition guardian_threshold_field :: "string \<Rightarrow> ThresholdRecoveryKit \<Rightarrow> ThresholdRecoveryKit" where
  "guardian_threshold_field stripped g =
     (let words = split_whitespace stripped
      in if length words \<ge> 4 \<and> eq_ignore_ascii_case (words ! 0) ''any''
         then g\<lparr>gk_threshold := parse_u8 (words ! 1)\<rparr> else g)"

definition guardian_line :: "hex_crate \<Rightarrow> string \<Rightarrow> ThresholdRecoveryKit \<Rightarrow> ThresholdRecoveryKit" where
  "guardian_line h line g =
     on_prefix ''GUARDIAN SHARE:'' line (\<lambda>stripped. guardian_share_field stripped g)
    (on_prefix ''REQUIRED THRESHOLD:'' line (\<lambda>stripped. guardian_threshold_field stripped g)
    (on_prefix ''Vault ID:'' line (\<lambda>stripped. g\<lparr>gk_vault_id_hex := trim stripped\<rparr>)
    (on_prefix ''Creation Date (UTC):'' line (\<lambda>stripped. g\<lparr>gk_created_at_utc :=
        (case parse_uint (2 ^ 64 - 1) (trim stripped) of Some n \<Rightarrow> word_of_nat n | None \<Rightarrow> 0)\<rparr>)
    (on_prefix ''Checksum (CRC32):'' line (\<lambda>stripped. g\<lparr>gk_checksum :=
        (case parse_hex (2 ^ 32 - 1) (trim_start_matches ''0x'' (trim stripped)) of
           Some n \<Rightarrow> word_of_nat n | None \<Rightarrow> 0)\<rparr>)
    (on_prefix ''Recovery Signing PK:'' line (\<lambda>stripped. g\<lparr>gk_recovery_signing_pk_hex := trim stripped\<rparr>)
    (on_prefix ''Recovery Encrypt PK:'' line (\<lambda>stripped. g\<lparr>gk_recovery_encryption_pk_hex := trim stripped\<rparr>)
    (on_prefix ''Recovery Locator:'' line (\<lambda>stripped. g\<lparr>gk_recovery_locator_hex := trim stripped\<rparr>)
    (on_prefix ''- '' line (\<lambda>stripped.
        if starts_with ''http'' stripped
        then g\<lparr>gk_operator_endpoints := gk_operator_endpoints g @ [trim stripped]\<rparr> else g)
    (if length line = 64 \<and> is_ok (hex_decode h line) then g\<lparr>gk_share_data_hex := line\<rparr> else g)))))))))"

definition empty_guardian :: ThresholdRecoveryKit where
  "empty_guardian = \<lparr>gk_version = 1, gk_vault_id_hex = '''', gk_guardian_index = 0, gk_threshold = 0,
     gk_total_shares = 0, gk_share_data_hex = '''', gk_checksum = 0, gk_recovery_signing_pk_hex = '''',
     gk_recovery_encryption_pk_hex = '''', gk_recovery_locator_hex = '''', gk_operator_endpoints = [],
     gk_created_at_utc = 0\<rparr>"

definition guardian_parse_from_printable ::
  "hex_crate \<Rightarrow> crc32 \<Rightarrow> string \<Rightarrow> RecoveryError + ThresholdRecoveryKit" where
  "guardian_parse_from_printable h crc txt =
     (let g = foldl (\<lambda>g line. guardian_line h (trim line) g) empty_guardian (str_lines txt)
      in if gk_guardian_index g = 0 \<or> gk_threshold g = 0 \<or> gk_total_shares g = 0 \<or> gk_share_data_hex g = ''''
         then Inl (InvalidKitFormat ''Missing or invalid guardian share parameters in sheet'')
         else rbind (validate_and_extract_share h crc g) (\<lambda>_. Inr g))"

subsection \<open>Lemmas on validation\<close>

lemmas recovery_keys_defs = derive_recovery_signing_key_def derive_recovery_encryption_keys_def
  derive_recovery_locator_def derive_subkey_def

text \<open>The keys that a secret determines.\<close>

definition signing_seed :: "crypto_crate \<Rightarrow> bytes \<Rightarrow> bytes" where
  "signing_seed cr r = projr (derive_recovery_signing_key cr r)"

definition encryption_seed :: "crypto_crate \<Rightarrow> bytes \<Rightarrow> bytes" where
  "encryption_seed cr r = fst (projr (derive_recovery_encryption_keys cr r))"

definition locator_of :: "crypto_crate \<Rightarrow> bytes \<Rightarrow> bytes" where
  "locator_of cr r = projr (derive_recovery_locator cr r)"

lemma recovery_keys:
  "derive_recovery_signing_key cr r = Inr (signing_seed cr r)"
  "derive_recovery_encryption_keys cr r = Inr (encryption_seed cr r, x25519_public cr (encryption_seed cr r))"
  "derive_recovery_locator cr r = Inr (locator_of cr r)"
  by (simp_all add: signing_seed_def encryption_seed_def locator_of_def recovery_keys_defs)

lemma locator_length: "digests_ok cr \<Longrightarrow> length (locator_of cr r) = 32"
  by (simp add: locator_of_def recovery_keys_defs)

lemma validate_iff:
  "validate_and_extract_secret h cr crc k = Inr s \<longleftrightarrow>
     hex_decode h (rk_recovery_secret_hex k) = Inr s \<and> length s = 32 \<and> crc s = rk_checksum k \<and> rk_version k = 1 \<and>
     (\<exists>v. hex_decode h (rk_vault_id_hex k) = Inr v \<and> length v = 32) \<and>
     eq_ignore_ascii_case (rk_recovery_signing_pk_hex k) (hex_encode h (ed25519_public cr (signing_seed cr s))) \<and>
     eq_ignore_ascii_case (rk_recovery_encryption_pk_hex k) (hex_encode h (x25519_public cr (encryption_seed cr s))) \<and>
     eq_ignore_ascii_case (rk_recovery_locator_hex k) (hex_encode h (locator_of cr s))"
proof -
  have "descriptors_mismatch h cr k s (signing_seed cr s) (x25519_public cr (encryption_seed cr s)) = Inr False \<longleftrightarrow>
     rk_version k = 1 \<and> (\<exists>v. hex_decode h (rk_vault_id_hex k) = Inr v \<and> length v = 32) \<and>
     eq_ignore_ascii_case (rk_recovery_signing_pk_hex k) (hex_encode h (ed25519_public cr (signing_seed cr s))) \<and>
     eq_ignore_ascii_case (rk_recovery_encryption_pk_hex k) (hex_encode h (x25519_public cr (encryption_seed cr s))) \<and>
     eq_ignore_ascii_case (rk_recovery_locator_hex k) (hex_encode h (locator_of cr s))" for s
    by (cases "hex_decode h (rk_vault_id_hex k)") (simp_all add: descriptors_mismatch_def recovery_keys)
  then show ?thesis
    by (auto simp: validate_and_extract_secret_def result_simps recovery_keys)
qed

lemma kit_create_eq:
  "kit_create h cr crc now vault secret eps =
     Inr \<lparr>rk_version = 1, rk_vault_id_hex = hex_encode h vault,
          rk_recovery_secret_hex = hex_encode h secret, rk_checksum = crc secret,
          rk_recovery_signing_pk_hex = hex_encode h (ed25519_public cr (signing_seed cr secret)),
          rk_recovery_encryption_pk_hex = hex_encode h (x25519_public cr (encryption_seed cr secret)),
          rk_recovery_locator_hex = hex_encode h (locator_of cr secret),
          rk_operator_endpoints = eps, rk_created_at_utc = now\<rparr>"
  by (simp add: kit_create_def recovery_keys)

lemma create_validates:
  assumes "hex_ok h" "length vault = 32" "length secret = 32" "kit_create h cr crc now vault secret eps = Inr k"
  shows "validate_and_extract_secret h cr crc k = Inr secret" "hex_decode h (rk_vault_id_hex k) = Inr vault"
  using assms unfolding kit_create_eq validate_iff by (auto simp: hex_decode_encode eq_ignore_ascii_case_def)

text \<open>
  C35. A kit made from a recovery secret gives that secret back, and opens every epoch
  envelope of its vault whose key was sealed for it. A kit is accepted only if the
  checksum and every public descriptor agree with the secret it carries, so an altered
  secret that is accepted has the same checksum and, up to the case of the letters, the
  same descriptors.
\<close>

theorem kit_opens_envelopes:
  assumes "hex_ok h" "crypto_ok cr" "length vault = 32" "length secret = 32"
  shows "\<exists>k. kit_create h cr crc now vault secret eps = Inr k \<and>
    validate_and_extract_secret h cr crc k = Inr secret \<and>
    (\<forall>e esk epoch_key. length epoch_key = 32 \<and> ee_vault_id e = vault \<and>
       ee_recipient_fingerprint e = x25519_public cr (encryption_seed cr secret) \<and>
       seal_box cr esk (x25519_public cr (encryption_seed cr secret)) epoch_key = Inr (ee_sealed_epoch_key e) \<longrightarrow>
       kit_open_envelope h cr crc k e = Inr epoch_key) \<and>
    (\<forall>t s. validate_and_extract_secret h cr crc (k\<lparr>rk_recovery_secret_hex := t\<rparr>) = Inr s \<longrightarrow>
       crc s = crc secret \<and> ed25519_public cr (signing_seed cr s) = ed25519_public cr (signing_seed cr secret) \<and>
       x25519_public cr (encryption_seed cr s) = x25519_public cr (encryption_seed cr secret) \<and>
       locator_of cr s = locator_of cr secret)"
proof -
  obtain k where k: "kit_create h cr crc now vault secret eps = Inr k" by (simp add: kit_create_eq)
  note v = create_validates[OF assms(1,3,4) k]
  have "kit_open_envelope h cr crc k e = Inr epoch_key"
    if "length epoch_key = 32" "ee_vault_id e = vault"
      "ee_recipient_fingerprint e = x25519_public cr (encryption_seed cr secret)"
      "seal_box cr esk (x25519_public cr (encryption_seed cr secret)) epoch_key = Inr (ee_sealed_epoch_key e)" for e esk epoch_key
    using seal_box_opens[OF assms(2) _ that(4)] that by (simp add: kit_open_envelope_def v recovery_keys)
  moreover have "crc s = crc secret \<and> ed25519_public cr (signing_seed cr s) = ed25519_public cr (signing_seed cr secret) \<and>
       x25519_public cr (encryption_seed cr s) = x25519_public cr (encryption_seed cr secret) \<and>
       locator_of cr s = locator_of cr secret"
    if "validate_and_extract_secret h cr crc (k\<lparr>rk_recovery_secret_hex := t\<rparr>) = Inr s" for t s
    using that k unfolding validate_iff kit_create_eq by (auto simp: hex_eq_ignore_case[OF assms(1)])
  ultimately show ?thesis using k v(1) by blast
qed

subsection \<open>Guardians\<close>

lemma share_of_data: "length (sh_data (share_of rng secret m i)) = 32"
  by (simp add: share_of_def)

lemma share_extracted:
  assumes "hex_ok h" "split_secret rng secret m n = Inr shares" "s \<in> set shares"
  shows "validate_and_extract_share h crc (guardian_kit h crc k m n s) = Inr s"
  using assms(2)
proof (cases rule: split_share_cases)
  case 1
  then obtain i where i: "i < unat n" "s = share_of rng secret (unat m) i" using assms(3) by auto
  have "i < 255" using i(1) share_count[of n] by simp
  then have "unat (sh_index s) = i + 1" unfolding i(2) by (rule share_of_index)
  then have "sh_index s \<noteq> 0" "sh_index s \<le> n" using i(1) by (auto simp: word_le_nat_alt)
  moreover have "length (sh_data s) = 32" using i(2) share_of_data by simp
  ultimately show ?thesis using 1(1,2)
    by (simp add: validate_and_extract_share_def guardian_kit_def share_to_hex_def hex_decode_encode[OF assms(1)]
        share_new_def not_less not_le)
qed

lemma map_preimage: "set ys \<subseteq> f ` A \<Longrightarrow> \<exists>xs. ys = map f xs \<and> set xs \<subseteq> A"
proof (induction ys)
  case (Cons y ys)
  then obtain x xs where "y = f x" "x \<in> A" "ys = map f xs" "set xs \<subseteq> A" by auto
  then show ?case by (intro exI[of _ "x # xs"]) simp
qed simp

text \<open>The last step of \<open>combine_kits\<close>, for guardian kits of a kit \<open>k\<close>.\<close>

definition rebuild ::
  "hex_crate \<Rightarrow> crypto_crate \<Rightarrow> crc32 \<Rightarrow> u64 \<Rightarrow> OfflineRecoveryKit \<Rightarrow> bytes \<Rightarrow> RecoveryError + OfflineRecoveryKit" where
  "rebuild h cr crc now k secret =
     rbind (rmap_err HexDecodeError (hex_decode h (rk_vault_id_hex k))) (\<lambda>vault_id.
     if length vault_id \<noteq> 32 then Inl (Kit_InvalidKeyLength (length vault_id))
     else
       rbind (kit_create h cr crc now vault_id secret (rk_operator_endpoints k)) (\<lambda>k'.
       if rk_recovery_signing_pk_hex k' \<noteq> rk_recovery_signing_pk_hex k \<or>
          rk_recovery_encryption_pk_hex k' \<noteq> rk_recovery_encryption_pk_hex k \<or>
          rk_recovery_locator_hex k' \<noteq> rk_recovery_locator_hex k
       then Inl (InvalidKitFormat ''Reconstructed secret does not match guardian public descriptors; mixed/corrupt share set'')
       else Inr k'))"

lemma guardian_consistent: "check_guardian (guardian_kit h crc k m n s) (guardian_kit h crc k m n t) = Inr ()"
  by (simp add: check_guardian_def guardian_kit_def)

text \<open>
  C36. Guardians can rebuild the kit: split a freshly made kit among \<open>total_shares\<close>
  guardians; any \<open>threshold\<close> or more of them, in any order, obtain the original kit
  again, with nothing changed but the creation time.
\<close>

theorem guardian_recovery:
  assumes "hex_ok h" "length vault = 32" "length secret = 32"
    and "kit_create h cr crc now vault secret eps = Inr k"
    and "split_kit h cr crc rng k threshold total_shares = Inr guardians"
    and "set chosen \<subseteq> set guardians" "distinct chosen" "unat threshold \<le> length chosen"
  shows "combine_kits h cr crc now' chosen = Inr (k\<lparr>rk_created_at_utc := now'\<rparr>)"
proof -
  let ?g = "guardian_kit h crc k threshold total_shares"
  note v = create_validates[OF assms(1-4)]
  obtain shares where sh: "split_secret rng secret threshold total_shares = Inr shares" "guardians = map ?g shares"
    using assms(5) by (auto simp: split_kit_def result_simps v)
  obtain sel where sel: "chosen = map ?g sel" "set sel \<subseteq> set shares"
    using map_preimage[of chosen ?g "set shares"] assms(6) sh(2) by auto
  have "distinct sel" using assms(7) sel(1) by (simp add: distinct_map)
  moreover have "unat threshold \<le> length sel" using assms(8) sel(1) by simp
  ultimately have comb: "combine_shares sel = Inr secret"
    using sss.recover[OF sh(1) _ sel(2)] assms(3) by blast
  have "2 \<le> threshold" using sh(1) by (cases rule: split_share_cases)
  then have "0 < unat threshold" by (simp add: word_le_nat_alt)
  then obtain s sel' where s: "sel = s # sel'" using \<open>unat threshold \<le> length sel\<close> by (cases sel) auto
  have "rtraverse (validate_and_extract_share h crc) chosen = Inr sel"
    using share_extracted[OF assms(1) sh(1)] sel
    by (auto simp: rtraverse_eq_Inr list.rel_map subset_iff intro!: list.rel_refl_strong)
  moreover have "rcheck_all (check_guardian (?g s)) chosen = Inr ()"
    using sel(1) by (auto simp: rcheck_all_eq_Inr guardian_consistent)
  moreover have "chosen = ?g s # map ?g sel'" using sel(1) s by simp
  then have "combine_kits h cr crc now' chosen =
      (if length chosen < unat threshold then Inl (InvalidKitFormat (''Insufficient guardian shares: received '' @
         show_nat (length chosen) @ '', requires at least '' @ show_word threshold))
       else rbind (rcheck_all (check_guardian (?g s)) chosen) (\<lambda>_.
            rbind (rtraverse (validate_and_extract_share h crc) chosen) (\<lambda>shares.
            rbind (rmap_err Recovery_CryptoError (combine_shares shares)) (\<lambda>secret.
            rebuild h cr crc now' k secret))))"
    unfolding rebuild_def by (simp add: combine_kits_def guardian_kit_def[of _ _ _ _ _ s] cong: if_cong)
  moreover have "rebuild h cr crc now' k secret = Inr (k\<lparr>rk_created_at_utc := now'\<rparr>)"
    using assms(4) v(2) assms(2) by (auto simp: rebuild_def kit_create_eq)
  ultimately show ?thesis using comb assms(8) by simp
qed

subsection \<open>Reading the sheets back\<close>

lemma hex_field_value:
  assumes "hex_ok h" "to_ascii_lowercase s = hex_encode h bs" "bs \<noteq> []"
  shows "line_value s" "length s = 2 * length bs"
proof -
  have len: "length (to_ascii_lowercase s) = 2 * length bs" using assms(1,2) hex_length by metis
  then show "length s = 2 * length bs" by (simp add: to_ascii_lowercase_def)
  have "graphic c" if "c \<in> set s" for c
  proof -
    have "ascii_lower c \<in> set hex_digits"
    proof -
      have "ascii_lower c \<in> set (to_ascii_lowercase s)" using that by (simp add: to_ascii_lowercase_def)
      then show ?thesis using hex_set[OF assms(1), of bs] assms(2) by auto
    qed
    then have "graphic (ascii_lower c)" by (rule hex_digits_graphic)
    then show ?thesis by (auto simp: ascii_lower_def graphic_def split: if_splits)
  qed
  moreover have "s \<noteq> []" using len assms(3) by (auto simp: to_ascii_lowercase_def)
  ultimately show "line_value s" by (intro graphic_line_value) (simp_all add: list_all_iff)
qed

definition endpoint_ok :: "string \<Rightarrow> bool" where
  "endpoint_ok e \<longleftrightarrow> (starts_with ''http://'' e \<or> starts_with ''https://'' e) \<and> line_value e"

lemma rule_lines:
  "line_value rule_line" "line_value thin_line"
  "rule_line = CHR ''='' # replicate 79 (CHR ''='')" "thin_line = CHR ''-'' # CHR ''-'' # replicate 78 (CHR ''-'')"
  by (simp_all add: rule_line_def thin_line_def line_value_def graphic_def) (simp_all add: numeral_eq_Suc)

lemma labels:
  "is_label ''Vault ID:''" "is_label ''Creation Date (UTC):''" "is_label ''Checksum (CRC32):''"
  "is_label ''Recovery Signing PK:''" "is_label ''Recovery Encrypt PK:''" "is_label ''Recovery Locator:''"
  "is_label ''GUARDIAN SHARE:''" "is_label ''REQUIRED THRESHOLD:''"
  by (simp_all add: is_label_def graphic_def)

text \<open>A line with one label does not start with another.\<close>

lemma field_starts: "starts_with p (field_line q v) \<Longrightarrow> take (length q) p = take (length p) q"
  unfolding starts_with_def field_line_def by (metis append_eq_conv_conj min.commute take_take)

lemma field_other: "take (length q) p \<noteq> take (length p) q \<Longrightarrow> \<not> starts_with p (field_line q v)"
  using field_starts by blast

lemma field_own: "starts_with p (field_line p v)"
  by (simp add: field_line_def)

lemma show_word_value: "line_value (show_nat n)"
proof (rule graphic_line_value)
  show "list_all graphic (show_nat n)"
    unfolding list_all_iff
  proof
    fix c assume "c \<in> set (show_nat n)"
    from show_nat_graphic[OF this] show "graphic c" by (simp add: is_ascii_digit_def graphic_def)
  qed
qed simp

lemma show_hex8_value: "line_value (show_hex8 w)"
proof (rule graphic_line_value)
  show "list_all graphic (show_hex8 w)"
    using hex_digits_graphic by (auto simp: show_hex8_def list_all_iff graphic_def hex_digits_simps)
qed (simp add: show_hex8_def)

lemma parse_show_u64: "parse_uint (2 ^ 64 - 1) (show_word (w :: u64)) = Some (unat w)"
  using unsigned_less[of w, where 'a = nat] by simp

lemma parse_show_u8: "parse_uint 255 (show_word (w :: byte)) = Some (unat w)"
  using unsigned_less[of w, where 'a = nat] by simp

lemma kit_loop_fields:
  assumes "line_value v"
  shows "kit_loop (field_line ''Vault ID:'' v # rest) k = kit_loop rest (k\<lparr>rk_vault_id_hex := v\<rparr>)"
    and "kit_loop (field_line ''Recovery Signing PK:'' v # rest) k = kit_loop rest (k\<lparr>rk_recovery_signing_pk_hex := v\<rparr>)"
    and "kit_loop (field_line ''Recovery Encrypt PK:'' v # rest) k = kit_loop rest (k\<lparr>rk_recovery_encryption_pk_hex := v\<rparr>)"
    and "kit_loop (field_line ''Recovery Locator:'' v # rest) k = kit_loop rest (k\<lparr>rk_recovery_locator_hex := v\<rparr>)"
  using assms by (simp_all add: kit_line_def field_other field_own field_line_trim labels)

lemma kit_loop_numbers:
  "kit_loop (field_line ''Creation Date (UTC):'' (show_word w) # rest) k = kit_loop rest (k\<lparr>rk_created_at_utc := w\<rparr>)"
  "kit_loop (field_line ''Checksum (CRC32):'' (show_hex8 c) # rest) k = kit_loop rest (k\<lparr>rk_checksum := c\<rparr>)"
  using parse_show_u64[of w]
  by (simp_all add: kit_line_def field_other field_own field_line_trim labels show_word_value show_hex8_value parse_show_hex8
      parse_show_hex8(2)[simplified] del: parse_show_nat)

lemma endpoint_trim:
  assumes "endpoint_ok e"
  shows "trim (''  - '' @ e) = ''- '' @ e" "trim_start_matches ''- '' (''- '' @ e) = e" "trim e = e"
proof -
  have e: "e \<noteq> []" "graphic (last e)" using assms by (auto simp: endpoint_ok_def line_value_def)
  then show "trim (''  - '' @ e) = ''- '' @ e"
    by (simp add: trim_def trim_start_graphic trim_end_graphic graphic_def[of "CHR ''-''"])
  have "\<not> starts_with ''- '' e" using assms by (cases e) (auto simp: endpoint_ok_def)
  then show "trim_start_matches ''- '' (''- '' @ e) = e"
    by (subst trim_start_matches.simps) (simp add: trim_start_matches_id)
  show "trim e = e" using assms by (simp add: endpoint_ok_def line_value_trim)
qed

lemma kit_loop_endpoints:
  "list_all endpoint_ok eps \<Longrightarrow>
   kit_loop (map trim (map (\<lambda>e. ''  - '' @ e) eps) @ rest) k =
     kit_loop rest (k\<lparr>rk_operator_endpoints := rk_operator_endpoints k @ eps\<rparr>)"
proof (induction eps arbitrary: k)
  case (Cons e eps)
  have e: "endpoint_ok e" using Cons.prems by simp
  have "kit_line (''- '' @ e) k = k\<lparr>rk_operator_endpoints := rk_operator_endpoints k @ [e]\<rparr>"
    unfolding kit_line_def endpoint_trim(2)[OF e] endpoint_trim(3)[OF e] using e by (auto simp: endpoint_ok_def)
  then have "kit_loop ((''- '' @ e) # xs) k = kit_loop xs (k\<lparr>rk_operator_endpoints := rk_operator_endpoints k @ [e]\<rparr>)" for xs
    by simp
  then show ?case using Cons endpoint_trim(1)[OF e] by simp
qed simp

text \<open>The lines of the sheet up to the operators, with the operators on lines of their own.\<close>

lemma sheet_lines:
  assumes "list_all is_line xs" "list_all endpoint_ok eps"
  shows "map trim (str_lines (unlines (xs @ [operator_lines eps, rule_line]))) =
    map trim xs @ (if eps = [] then [[]] else map trim (map (\<lambda>e. ''  - '' @ e) eps)) @ [rule_line]"
proof -
  define ops where "ops = map (\<lambda>e. ''  - '' @ e) eps"
  have "list_all is_line ops" using assms(2) unfolding ops_def
    by (auto simp: list_all_iff endpoint_ok_def is_line_def line_value_def dest: graphic_not_cr)
  moreover have "is_line []" by (simp add: is_line_def)
  moreover have "is_line rule_line" by (rule line_value_line[OF rule_lines(1)])
  ultimately have "list_all is_line (xs @ (if ops = [] then [[]] else ops) @ [rule_line])" using assms(1) by auto
  from str_lines_unlines[OF this] have "str_lines (unlines xs @ (join [CHR 0x0A] ops @ [CHR 0x0A]) @ unlines [rule_line]) =
      xs @ (if ops = [] then [[]] else ops) @ [rule_line]" by (simp only: unlines_append unlines_join)
  then have "str_lines (unlines (xs @ [operator_lines eps, rule_line])) = xs @ (if ops = [] then [[]] else ops) @ [rule_line]"
    by (simp add: unlines_append operator_lines_def ops_def)
  moreover have "trim [] = []" by (simp add: trim_graphic)
  ultimately show ?thesis using line_value_trim[OF rule_lines(1)] by (simp add: ops_def[symmetric]) (simp add: ops_def)
qed

lemma kit_titles: "is_line kit_title" "trim kit_title = kit_heading"
  by (simp_all add: kit_title_def kit_heading_def is_line_def em_dash_def trim_def trim_start_graphic trim_end_graphic graphic_def)

lemma kit_literals:
  "line_value ''CRITICAL: Store this document in TWO physically separate, secure locations.''"
  "line_value ''Do NOT commit this to Git, upload to cloud storage, or store only on one laptop.''"
  "line_value ''Loss of this secret means permanent, unrecoverable loss of your encrypted vault.''"
  "line_value ''MASTER RECOVERY SECRET R:''"
  "line_value ''PUBLIC / BOOTSTRAP DESCRIPTORS (Not Secret)''"
  "line_value ''Configured Operators:''"
  by (simp_all add: line_value_def graphic_def)

lemma empty_line: "is_line []" "trim [] = []"
  by (simp_all add: is_line_def trim_graphic)

lemma kit_loop_skips:
  "kit_loop (rule_line # rest) k = kit_loop rest k"
  "kit_loop (thin_line # rest) k = kit_loop rest k"
  "kit_loop ([] # rest) k = kit_loop rest k"
  "kit_loop (kit_heading # rest) k = kit_loop rest k"
  "kit_loop (''CRITICAL: Store this document in TWO physically separate, secure locations.'' # rest) k = kit_loop rest k"
  "kit_loop (''Do NOT commit this to Git, upload to cloud storage, or store only on one laptop.'' # rest) k = kit_loop rest k"
  "kit_loop (''Loss of this secret means permanent, unrecoverable loss of your encrypted vault.'' # rest) k = kit_loop rest k"
  "kit_loop (''PUBLIC / BOOTSTRAP DESCRIPTORS (Not Secret)'' # rest) k = kit_loop rest k"
  "kit_loop (''Configured Operators:'' # rest) k = kit_loop rest k"
  by (simp_all add: kit_line_def rule_lines(3,4) kit_heading_def em_dash_def)

lemma kit_loop_secret:
  "kit_loop (''MASTER RECOVERY SECRET R:'' # s # rest) k = kit_loop rest (k\<lparr>rk_recovery_secret_hex := trim s\<rparr>)"
  by simp

lemma kit_loop_sheet:
  assumes "line_value (rk_vault_id_hex k)" "line_value (rk_recovery_secret_hex k)"
    "line_value (rk_recovery_signing_pk_hex k)" "line_value (rk_recovery_encryption_pk_hex k)"
    "line_value (rk_recovery_locator_hex k)" "list_all endpoint_ok (rk_operator_endpoints k)" "rk_version k = 1"
  shows "kit_loop (map trim (str_lines (format_printable k))) empty_kit = k"
proof -
  define xs where "xs = [rule_line,
      kit_title, rule_line,
      ''CRITICAL: Store this document in TWO physically separate, secure locations.'',
      ''Do NOT commit this to Git, upload to cloud storage, or store only on one laptop.'',
      ''Loss of this secret means permanent, unrecoverable loss of your encrypted vault.'', rule_line, [],
      field_line ''Vault ID:'' (rk_vault_id_hex k), field_line ''Creation Date (UTC):'' (show_word (rk_created_at_utc k)), [],
      ''MASTER RECOVERY SECRET R:'', rk_recovery_secret_hex k, [],
      field_line ''Checksum (CRC32):'' (show_hex8 (rk_checksum k)), [], thin_line,
      ''PUBLIC / BOOTSTRAP DESCRIPTORS (Not Secret)'', thin_line,
      field_line ''Recovery Signing PK:'' (rk_recovery_signing_pk_hex k),
      field_line ''Recovery Encrypt PK:'' (rk_recovery_encryption_pk_hex k),
      field_line ''Recovery Locator:'' (rk_recovery_locator_hex k), [], ''Configured Operators:'']"
  note vals = assms(1-5) rule_lines(1,2) kit_literals show_word_value show_hex8_value
    field_line_value[OF labels(1) assms(1)] field_line_value[OF labels(2) show_word_value]
    field_line_value[OF labels(3) show_hex8_value] field_line_value[OF labels(4) assms(3)]
    field_line_value[OF labels(5) assms(4)] field_line_value[OF labels(6) assms(5)]
  have "list_all is_line xs"
    unfolding xs_def by (simp only: list.pred_inject vals[THEN line_value_line] kit_titles empty_line simp_thms)
  moreover have "format_printable k = unlines (xs @ [operator_lines (rk_operator_endpoints k), rule_line])"
    by (simp add: format_printable_def xs_def)
  ultimately have lines: "map trim (str_lines (format_printable k)) = map trim xs @
      (if rk_operator_endpoints k = [] then [[]] else map trim (map (\<lambda>e. ''  - '' @ e) (rk_operator_endpoints k))) @ [rule_line]"
    using sheet_lines assms(6) by simp
  have prefix: "kit_loop (map trim xs @ ys) empty_kit = kit_loop ys (k\<lparr>rk_operator_endpoints := []\<rparr>)" for ys
    unfolding xs_def list.map append_Cons append_Nil kit_titles(2) vals[THEN line_value_trim] empty_line(2)
      kit_loop_skips kit_loop_secret kit_loop_fields[OF assms(1)] kit_loop_fields[OF assms(3)]
      kit_loop_fields[OF assms(4)] kit_loop_fields[OF assms(5)] kit_loop_numbers
    by (rule arg_cong[of _ _ "kit_loop ys"], rule OfflineRecoveryKit.equality) (simp_all add: empty_kit_def assms(7))
  show ?thesis
  proof (cases "rk_operator_endpoints k = []")
    case True
    then have "k\<lparr>rk_operator_endpoints := []\<rparr> = k" by simp
    then show ?thesis unfolding lines prefix if_P[OF True] append_Cons append_Nil kit_loop_skips by simp
  next
    case False
    show ?thesis unfolding lines prefix if_not_P[OF False] kit_loop_endpoints[OF assms(6)] kit_loop_skips by simp
  qed
qed


subsection \<open>Reading the guardian sheet back\<close>

lemma on_prefix_if:
  "on_prefix p line f r = (if starts_with p line then f (drop (length p) line) else r)"
  by (simp add: on_prefix_def strip_prefix_def)

lemma field_line_drop: "drop (length p) (field_line p v) = replicate (23 - length p) (CHR '' '') @ v"
  by (simp add: field_line_def)

lemma on_prefix_own:
  "is_label p \<Longrightarrow> on_prefix p (field_line p v) f r = f (replicate (23 - length p) (CHR '' '') @ v)"
  by (simp only: on_prefix_if field_own field_line_drop if_True)

lemma guardian_fields:
  assumes "line_value v"
  shows "guardian_line h (field_line ''Vault ID:'' v) g = g\<lparr>gk_vault_id_hex := v\<rparr>"
    and "guardian_line h (field_line ''Recovery Signing PK:'' v) g = g\<lparr>gk_recovery_signing_pk_hex := v\<rparr>"
    and "guardian_line h (field_line ''Recovery Encrypt PK:'' v) g = g\<lparr>gk_recovery_encryption_pk_hex := v\<rparr>"
    and "guardian_line h (field_line ''Recovery Locator:'' v) g = g\<lparr>gk_recovery_locator_hex := v\<rparr>"
  unfolding guardian_line_def on_prefix_own[OF labels(1)] on_prefix_own[OF labels(4)] on_prefix_own[OF labels(5)] on_prefix_own[OF labels(6)]
    field_line_trim(3)[OF labels(1) assms]
  by (simp_all add: on_prefix_if field_other)

lemma guardian_numbers:
  "guardian_line h (field_line ''Creation Date (UTC):'' (show_word w)) g = g\<lparr>gk_created_at_utc := w\<rparr>"
  "guardian_line h (field_line ''Checksum (CRC32):'' (show_hex8 c)) g = g\<lparr>gk_checksum := c\<rparr>"
  unfolding guardian_line_def on_prefix_own[OF labels(2)] on_prefix_own[OF labels(3)]
    field_line_trim(3)[OF labels(1) show_word_value] field_line_trim(3)[OF labels(1) show_hex8_value]
    parse_show_u64 parse_show_hex8
  by (simp_all add: on_prefix_if field_other)

lemma ends_with_snoc: "ends_with (w @ [x]) (s @ [c]) \<longleftrightarrow> x = c \<and> ends_with w s"
  by (auto simp: ends_with_iff)

lemma find_ws_end_space: "find (\<lambda>w. ends_with w (s @ [CHR '' ''])) ws_codes = Some [CHR '' '']"
proof -
  have "ends_with [x] (s @ [c]) \<longleftrightarrow> x = c" "ends_with [y, x] (s @ [c]) \<longleftrightarrow> x = c \<and> ends_with [y] s"
    "ends_with [z, y, x] (s @ [c]) \<longleftrightarrow> x = c \<and> ends_with [z, y] s" for x y z c :: char
    using ends_with_snoc[of "[]" x s c] ends_with_snoc[of "[y]" x s c] ends_with_snoc[of "[z, y]" x s c]
    by (simp_all add: ends_with_def[of "[]"])
  then show ?thesis by (simp add: ws_codes_def char_of_def bit_0)
qed

lemma trim_end_space: "trim_end (s @ [CHR '' '']) = trim_end s"
  by (subst trim_end.simps) (simp add: find_ws_end_space)

lemma trim_number: "trim (replicate k (CHR '' '') @ show_nat n @ [CHR '' '']) = show_nat n"
proof -
  have "trim (show_nat n) = show_nat n" by (rule line_value_trim[OF show_word_value])
  moreover have "graphic (hd (show_nat n))" using show_word_value by (simp add: line_value_def)
  then have "trim_start (show_nat n @ [CHR '' '']) = show_nat n @ [CHR '' '']" "trim_start (show_nat n) = show_nat n"
    by (simp_all add: trim_start_graphic)
  ultimately show ?thesis by (simp add: trim_def trim_end_space)
qed

lemma show_nat_notin: "\<not> is_ascii_digit c \<Longrightarrow> c \<notin> set (show_nat n)"
  using show_nat_graphic by blast

lemma guardian_share_line:
  "guardian_line h (field_line ''GUARDIAN SHARE:'' (share_text i n)) g =
     g\<lparr>gk_guardian_index := i, gk_total_shares := n\<rparr>"
proof -
  let ?a = "replicate 8 (CHR '' '') @ show_word i @ [CHR '' '']" and ?b = "CHR '' '' # show_word n"
  have o: "CHR ''o'' \<notin> set (show_nat x)" for x by (rule show_nat_notin) (simp add: is_ascii_digit_def)
  have "split_str ''of'' (?a @ ''of'' @ ?b) = [?a, ?b]"
    using o by (subst split_str_append, simp, simp, subst split_str_none, simp_all)
  moreover have "trim ?a = show_word i" by (rule trim_number)
  moreover have "trim ?b = show_word n"
    using field_line_trim(3)[OF labels(1) show_word_value, of "Suc 0"] by simp
  ultimately have "guardian_share_field (?a @ ''of'' @ ?b) g = g\<lparr>gk_guardian_index := i, gk_total_shares := n\<rparr>"
    unfolding guardian_share_field_def by (simp only: list.case parse_show_u8 option.case) simp
  then show ?thesis unfolding guardian_line_def on_prefix_own[OF labels(7)] share_text_def by simp
qed

lemma guardian_threshold_line:
  "guardian_line h (field_line ''REQUIRED THRESHOLD:'' (threshold_text m n)) g = g\<lparr>gk_threshold := m\<rparr>"
proof -
  have g: "list_all graphic (show_nat x)" for x
    unfolding list_all_iff
  proof
    fix c assume "c \<in> set (show_nat x)"
    from show_nat_graphic[OF this] show "graphic c" by (simp add: is_ascii_digit_def graphic_def)
  qed
  have words: "split_whitespace (''Any'' @ CHR '' '' # show_word m @ CHR '' '' # ''of'' @ CHR '' '' # show_word n @
      CHR '' '' # ''guardian shares required to restore vault'') =
      ''Any'' # show_word m # ''of'' # show_word n # split_whitespace ''guardian shares required to restore vault''"
    by (subst split_whitespace_word, simp add: graphic_def, simp, subst split_whitespace_word, rule g, simp,
        subst split_whitespace_word, simp add: graphic_def, simp, subst split_whitespace_word, rule g, simp, rule refl)
  have "guardian_threshold_field (replicate 4 (CHR '' '') @ ''Any '' @ show_word m @ '' of '' @ show_word n @
     '' guardian shares required to restore vault'') g = g\<lparr>gk_threshold := m\<rparr>"
    using words parse_show_u8[of m]
    unfolding guardian_threshold_field_def split_whitespace_spaces
    by (simp add: Let_def eq_ignore_ascii_case_def to_ascii_lowercase_def ascii_lower_def char_of_def bit_0)
  then show ?thesis
    unfolding guardian_line_def on_prefix_own[OF labels(8)] threshold_text_def by (simp add: on_prefix_if field_other)
qed

lemma guardian_endpoints:
  "list_all endpoint_ok eps \<Longrightarrow>
   foldl (\<lambda>g line. guardian_line h line g) g (map trim (map (\<lambda>e. ''  - '' @ e) eps)) =
     g\<lparr>gk_operator_endpoints := gk_operator_endpoints g @ eps\<rparr>"
proof (induction eps arbitrary: g)
  case (Cons e eps)
  then have e: "endpoint_ok e" by simp
  then have "starts_with ''http'' e" by (auto simp: endpoint_ok_def starts_with_Cons)
  then have "guardian_line h (''- '' @ e) g = g\<lparr>gk_operator_endpoints := gk_operator_endpoints g @ [e]\<rparr>"
    using endpoint_trim(3)[OF e] by (simp add: guardian_line_def on_prefix_if)
  then show ?case using Cons endpoint_trim(1)[OF e] by simp
qed simp

lemma guardian_skips:
  "guardian_line h rule_line g = g" "guardian_line h thin_line g = g" "guardian_line h [] g = g"
  "guardian_line h guardian_heading g = g"
  "guardian_line h ''CRITICAL: Store this document in a physically separate, secure location.'' g = g"
  "guardian_line h ''Do NOT share this secret with unauthorized personnel.'' g = g"
  "guardian_line h ''GUARDIAN RECOVERY SHARE DATA:'' g = g"
  "guardian_line h ''PUBLIC / BOOTSTRAP DESCRIPTORS (Not Secret)'' g = g"
  "guardian_line h ''Configured Operators:'' g = g"
  by (simp_all add: guardian_line_def on_prefix_if rule_lines(3,4) guardian_heading_def em_dash_def)

lemma guardian_data_line:
  assumes "hex_ok h" "hex_decode h s = Inr bs" "length bs = 32"
  shows "guardian_line h s g = g\<lparr>gk_share_data_hex := s\<rparr>" "line_value s"
proof -
  have low: "to_ascii_lowercase s = hex_encode h bs" using assms(1,2) by (simp add: hex_decode_iff)
  have "bs \<noteq> []" using assms(3) by auto
  note val = hex_field_value[OF assms(1) low this]
  show "line_value s" by (rule val(1))
  have "c \<notin> set s" if "ascii_lower c = c" "c \<notin> set hex_digits" for c
  proof
    assume "c \<in> set s"
    then have "ascii_lower c \<in> set (to_ascii_lowercase s)" by (simp add: to_ascii_lowercase_def)
    then show False using that low hex_set[OF assms(1), of bs] by auto
  qed
  then have "CHR '':'' \<notin> set s" "CHR ''-'' \<notin> set s" by (simp_all add: ascii_lower_def hex_digits_def)
  then have "\<not> starts_with p s" if "CHR '':'' \<in> set p \<or> CHR ''-'' \<in> set p" for p
    using that starts_with_set[of p s] by blast
  then show "guardian_line h s g = g\<lparr>gk_share_data_hex := s\<rparr>"
    using assms(2,3) val(2) by (simp add: guardian_line_def on_prefix_if)
qed

lemma guardian_titles: "is_line guardian_title" "trim guardian_title = guardian_heading"
  by (simp_all add: guardian_title_def guardian_heading_def is_line_def em_dash_def trim_def trim_start_graphic trim_end_graphic graphic_def)

lemma guardian_literals:
  "line_value ''CRITICAL: Store this document in a physically separate, secure location.''"
  "line_value ''Do NOT share this secret with unauthorized personnel.''"
  "line_value ''GUARDIAN RECOVERY SHARE DATA:''"
  by (simp_all add: line_value_def graphic_def)

lemma guardian_header_values:
  "line_value (share_text i n)" "line_value (threshold_text m n)"
  using show_word_value by (auto simp: share_text_def threshold_text_def line_value_def graphic_def)

lemma guardian_fold_sheet:
  assumes "line_value (gk_vault_id_hex g)" "line_value (gk_recovery_signing_pk_hex g)"
    "line_value (gk_recovery_encryption_pk_hex g)" "line_value (gk_recovery_locator_hex g)"
    and "list_all endpoint_ok (gk_operator_endpoints g)" "gk_version g = 1"
    and "hex_ok h" "hex_decode h (gk_share_data_hex g) = Inr bs" "length bs = 32"
  shows "foldl (\<lambda>g line. guardian_line h line g) empty_guardian (map trim (str_lines (format_guardian_sheet g))) = g"
proof -
  note data = guardian_data_line[OF assms(7-9)]
  define xs where "xs = [rule_line, guardian_title, rule_line,
      field_line ''GUARDIAN SHARE:'' (share_text (gk_guardian_index g) (gk_total_shares g)),
      field_line ''REQUIRED THRESHOLD:'' (threshold_text (gk_threshold g) (gk_total_shares g)),
      ''CRITICAL: Store this document in a physically separate, secure location.'',
      ''Do NOT share this secret with unauthorized personnel.'', rule_line, [],
      field_line ''Vault ID:'' (gk_vault_id_hex g), field_line ''Creation Date (UTC):'' (show_word (gk_created_at_utc g)), [],
      ''GUARDIAN RECOVERY SHARE DATA:'', gk_share_data_hex g, [],
      field_line ''Checksum (CRC32):'' (show_hex8 (gk_checksum g)), [], thin_line,
      ''PUBLIC / BOOTSTRAP DESCRIPTORS (Not Secret)'', thin_line,
      field_line ''Recovery Signing PK:'' (gk_recovery_signing_pk_hex g),
      field_line ''Recovery Encrypt PK:'' (gk_recovery_encryption_pk_hex g),
      field_line ''Recovery Locator:'' (gk_recovery_locator_hex g), [], ''Configured Operators:'']"
  note vals = data(2) rule_lines(1,2) guardian_literals kit_literals(5,6)
    field_line_value[OF labels(7) guardian_header_values(1)] field_line_value[OF labels(8) guardian_header_values(2)]
    field_line_value[OF labels(1) assms(1)] field_line_value[OF labels(2) show_word_value]
    field_line_value[OF labels(3) show_hex8_value] field_line_value[OF labels(4) assms(2)]
    field_line_value[OF labels(5) assms(3)] field_line_value[OF labels(6) assms(4)]
  have "list_all is_line xs"
    unfolding xs_def by (simp only: list.pred_inject vals[THEN line_value_line] guardian_titles empty_line simp_thms)
  moreover have "format_guardian_sheet g = unlines (xs @ [operator_lines (gk_operator_endpoints g), rule_line])"
    by (simp add: format_guardian_sheet_def xs_def)
  ultimately have lines: "map trim (str_lines (format_guardian_sheet g)) = map trim xs @
      (if gk_operator_endpoints g = [] then [[]] else map trim (map (\<lambda>e. ''  - '' @ e) (gk_operator_endpoints g))) @ [rule_line]"
    using sheet_lines assms(5) by simp
  have prefix: "foldl (\<lambda>g line. guardian_line h line g) empty_guardian (map trim xs @ ys) =
      foldl (\<lambda>g line. guardian_line h line g) (g\<lparr>gk_operator_endpoints := []\<rparr>) ys" for ys
    unfolding xs_def list.map append_Cons append_Nil guardian_titles(2) vals[THEN line_value_trim] empty_line(2)
      foldl.simps guardian_skips guardian_share_line guardian_threshold_line guardian_numbers data(1)
      guardian_fields[OF assms(1)] guardian_fields[OF assms(2)] guardian_fields[OF assms(3)] guardian_fields[OF assms(4)]
    by (rule arg_cong[of _ _ "\<lambda>g. foldl (\<lambda>g line. guardian_line h line g) g ys"], rule ThresholdRecoveryKit.equality)
      (simp_all add: empty_guardian_def assms(6))
  show ?thesis
  proof (cases "gk_operator_endpoints g = []")
    case True
    then have "g\<lparr>gk_operator_endpoints := []\<rparr> = g" by simp
    then show ?thesis unfolding lines prefix if_P[OF True] append_Cons append_Nil foldl.simps guardian_skips by simp
  next
    case False
    show ?thesis unfolding lines prefix unfolding if_not_P[OF False] foldl_append guardian_endpoints[OF assms(5)] foldl.simps guardian_skips by simp
  qed
qed

text \<open>
  The same holds for the sheet that a guardian keeps: a guardian kit that
  validates, with descriptors and \<open>http\<close> endpoints that fit on a line, is read back from
  its own sheet unchanged.
\<close>

theorem guardian_print_parse:
  assumes "hex_ok h" "validate_and_extract_share h crc g = Inr share"
    and "line_value (gk_vault_id_hex g)" "line_value (gk_recovery_signing_pk_hex g)"
    and "line_value (gk_recovery_encryption_pk_hex g)" "line_value (gk_recovery_locator_hex g)"
    and "list_all endpoint_ok (gk_operator_endpoints g)"
  shows "guardian_parse_from_printable h crc (format_guardian_sheet g) = Inr g"
proof -
  obtain bs where bs: "hex_decode h (gk_share_data_hex g) = Inr bs" "length bs = 32" "gk_version g = 1"
      "2 \<le> gk_threshold g" "gk_threshold g \<le> gk_total_shares g" "gk_guardian_index g \<noteq> 0"
    using assms(2) by (auto simp: validate_and_extract_share_def result_simps not_less split: if_splits)
  have "foldl (\<lambda>g line. guardian_line h (trim line) g) empty_guardian (str_lines (format_guardian_sheet g)) = g"
    using guardian_fold_sheet[OF assms(3-7) bs(3) assms(1) bs(1,2)] by (simp add: foldl_map)
  moreover have "gk_share_data_hex g \<noteq> []"
    using guardian_data_line(2)[OF assms(1) bs(1,2)] by (simp add: line_value_def)
  moreover have "gk_threshold g \<noteq> 0" "gk_total_shares g \<noteq> 0"
    using bs(4,5) by (auto simp: word_le_nat_alt)
  ultimately show ?thesis using assms(2) bs(6) by (simp add: guardian_parse_from_printable_def)
qed

subsection \<open>An example\<close>

definition kit_example :: OfflineRecoveryKit where
  "kit_example = projr (kit_create hex_std crypto_std (\<lambda>_. 7) 1000 (replicate 32 1) (replicate 32 2)
     [''https://op1.example:8443''])"

lemma kit_example_created:
  "kit_create hex_std crypto_std (\<lambda>_. 7) 1000 (replicate 32 1) (replicate 32 2) [''https://op1.example:8443''] = Inr kit_example"
  by (simp add: kit_example_def kit_create_eq)

lemma kit_example_valid: "validate_and_extract_secret hex_std crypto_std (\<lambda>_. 7) kit_example = Inr (replicate 32 2)"
  using create_validates(1)[OF hex_std_ok _ _ kit_example_created] by simp

lemma kit_example_endpoints: "list_all endpoint_ok (rk_operator_endpoints kit_example)"
  by (simp add: kit_example_def kit_create_eq endpoint_ok_def line_value_def graphic_def)

definition guardians_example :: "ThresholdRecoveryKit list" where
  "guardians_example = map (guardian_kit hex_std (\<lambda>_. 7) kit_example 2 3)
     (map (share_of (\<lambda>k. word_of_nat k) (replicate 32 2) 2) [0..<3])"

lemma kit_example_split: "split_kit hex_std crypto_std (\<lambda>_. 7) (\<lambda>k. word_of_nat k) kit_example 2 3 = Inr guardians_example"
  by (simp add: split_kit_def kit_example_valid split_secret_closed guardians_example_def)

theorem kit_opens_envelopes_witness:
  "\<exists>k. kit_create hex_std crypto_std (\<lambda>_. 7) 1000 (replicate 32 1) (replicate 32 2) [] = Inr k \<and>
    validate_and_extract_secret hex_std crypto_std (\<lambda>_. 7) k = Inr (replicate 32 2)"
  using kit_opens_envelopes[OF hex_std_ok crypto_std_ok, of "replicate 32 1" "replicate 32 2" "\<lambda>_. 7" 1000 "[]"]
  by auto

theorem guardian_recovery_witness:
  "combine_kits hex_std crypto_std (\<lambda>_. 7) 2000 [guardians_example ! 2, guardians_example ! 0] =
     Inr (kit_example\<lparr>rk_created_at_utc := 2000\<rparr>)"
proof (rule guardian_recovery[OF hex_std_ok _ _ kit_example_created kit_example_split])
  have "gk_guardian_index (guardians_example ! 2) = 3" "gk_guardian_index (guardians_example ! 0) = 1"
    by (simp_all add: guardians_example_def guardian_kit_def share_of_def)
  then have "guardians_example ! 2 \<noteq> guardians_example ! 0" by auto
  then show "distinct [guardians_example ! 2, guardians_example ! 0]" by simp
  show "set [guardians_example ! 2, guardians_example ! 0] \<subseteq> set guardians_example"
    by (simp add: guardians_example_def)
qed simp_all


theorem guardian_print_parse_witness:
  "guardian_parse_from_printable hex_std (\<lambda>_. 7) (format_guardian_sheet (guardians_example ! 0)) = Inr (guardians_example ! 0)"
proof (rule guardian_print_parse[OF hex_std_ok])
  let ?s = "share_of (\<lambda>k. word_of_nat k) (replicate 32 2) 2 0"
  have g: "guardians_example ! 0 = guardian_kit hex_std (\<lambda>_. 7) kit_example 2 3 ?s"
    by (simp add: guardians_example_def)
  show "validate_and_extract_share hex_std (\<lambda>_. 7) (guardians_example ! 0) = Inr ?s"
    unfolding g
  proof (rule share_extracted[OF hex_std_ok])
    show "split_secret (\<lambda>k. word_of_nat k) (replicate 32 2) 2 3 =
        Inr (map (share_of (\<lambda>k. word_of_nat k) (replicate 32 2) 2) [0..<3])" by (simp add: split_secret_closed)
    show "?s \<in> set (map (share_of (\<lambda>k. word_of_nat k) (replicate 32 2) 2) [0..<3])"
      unfolding set_map by (rule imageI) simp
  qed
  have val: "line_value (hex_encode hex_std bs)" if "length bs = 32" for bs
    using that hex_field_value(1)[OF hex_std_ok hex_digits_lower[OF hex_set[OF hex_std_ok]], of bs] by (cases bs) auto
  have len: "length (ed25519_public crypto_std x) = 32" "length (x25519_public crypto_std x) = 32" for x
    by (simp_all add: crypto_std_def)
  show "line_value (gk_vault_id_hex (guardians_example ! 0))" "line_value (gk_recovery_signing_pk_hex (guardians_example ! 0))"
    "line_value (gk_recovery_encryption_pk_hex (guardians_example ! 0))" "line_value (gk_recovery_locator_hex (guardians_example ! 0))"
    unfolding g using val len locator_length[OF crypto_okD(1)[OF crypto_std_ok]]
    by (simp_all add: guardian_kit_def kit_example_def kit_create_eq)
  show "list_all endpoint_ok (gk_operator_endpoints (guardians_example ! 0))"
    unfolding g using kit_example_endpoints by (simp add: guardian_kit_def)
qed

end
