(* ===== verification/Rust_Path.thy ===== *)
theory Rust_Path
  imports Rust_Text "HOL-Library.Sublist"
begin

text \<open>
  \<open>std::path\<close> and the errors of \<open>std::io\<close>, for Unix. A path is its text; its meaning is the
  list of its components, which is also what comparison of paths uses. The lemmas
  relate joining and the ancestors of a path to the components.
\<close>

subsection \<open>Definitions\<close>

text \<open>The code distinguishes only the kind \<open>NotFound\<close>.\<close>

datatype io_error = NotFound string | OtherError string

definition ascii_upper :: "char \<Rightarrow> char" where
  "ascii_upper c = (if 97 \<le> (of_char c :: nat) \<and> (of_char c :: nat) \<le> 122
     then char_of ((of_char c :: nat) - 32) else c)"

definition to_ascii_uppercase :: "string \<Rightarrow> string" where
  "to_ascii_uppercase s = map ascii_upper s"

text \<open>\<open>replace\<close> of one ASCII character by another.\<close>

definition replace_char :: "char \<Rightarrow> char \<Rightarrow> string \<Rightarrow> string" where
  "replace_char a b s = map (\<lambda>c. if c = a then b else c) s"

datatype Component = RootDir | CurDir | ParentDir | Normal string

definition seg_component :: "string \<Rightarrow> Component option" where
  "seg_component x =
     (if x = [] \<or> x = ''.'' then None else if x = ''..'' then Some ParentDir else Some (Normal x))"

definition seg_comps :: "string list \<Rightarrow> Component list" where
  "seg_comps xs = List.map_filter seg_component xs"

abbreviation segments :: "string \<Rightarrow> string list" where
  "segments s \<equiv> split_char (CHR ''/'') s"

definition lead :: "string \<Rightarrow> Component list" where
  "lead s = (if starts_with ''/'' s then [RootDir] else if hd (segments s) = ''.'' then [CurDir] else [])"

definition path_components :: "string \<Rightarrow> Component list" where
  "path_components s = lead s @ seg_comps (segments s)"

definition path_join :: "string \<Rightarrow> string \<Rightarrow> string" where
  "path_join base rel =
     (if starts_with ''/'' rel then rel
      else if base = [] \<or> ends_with ''/'' base then base @ rel
      else base @ ''/'' @ rel)"

text \<open>\<open>Path::starts_with\<close> and equality compare components.\<close>

definition path_starts_with :: "string \<Rightarrow> string \<Rightarrow> bool" where
  "path_starts_with p base \<longleftrightarrow> prefix (path_components base) (path_components p)"

definition path_eq :: "string \<Rightarrow> string \<Rightarrow> bool" where
  "path_eq p q \<longleftrightarrow> path_components p = path_components q"

text \<open>
  \<open>parent\<close> and \<open>ancestors\<close> cut the text before its last component. The segments are taken
  from the back; those that are no component (empty, or a dot after the first) are
  skipped.
\<close>

fun strip_back :: "string list \<Rightarrow> string list" where
  "strip_back [] = []"
| "strip_back (x # rest) =
     (if seg_component x \<noteq> None \<or> rest = [] \<and> x = ''.'' then x # rest else strip_back rest)"

definition render :: "bool \<Rightarrow> string list \<Rightarrow> string" where
  "render rooted segs = (if segs = [] then (if rooted then ''/'' else []) else join ''/'' (rev segs))"

lemma length_strip_back: "length (strip_back xs) \<le> length xs"
  by (induction xs) auto

function ancestors_from :: "bool \<Rightarrow> string list \<Rightarrow> string list" where
  "ancestors_from rooted segs =
     (case strip_back segs of
        [] \<Rightarrow> []
      | _ # rest \<Rightarrow> render rooted (strip_back rest) # ancestors_from rooted rest)"
  by pat_completeness auto
termination
proof (relation "measure (\<lambda>(r, xs). length xs)")
  fix rooted segs x rest
  assume "strip_back segs = x # rest"
  then show "((rooted, rest), rooted, segs) \<in> measure (\<lambda>(r, xs). length xs)"
    using length_strip_back[of segs] by simp
qed simp

declare ancestors_from.simps [simp del]

definition path_ancestors :: "string \<Rightarrow> string list" where
  "path_ancestors s = s # ancestors_from (starts_with ''/'' s) (rev (segments s))"

definition path_parent :: "string \<Rightarrow> string option" where
  "path_parent s = (case path_ancestors s of _ # p # _ \<Rightarrow> Some p | _ \<Rightarrow> None)"

subsection \<open>Lemmas\<close>

lemma seg_comps_simps [simp]:
  "seg_comps [] = []" "seg_comps (xs @ ys) = seg_comps xs @ seg_comps ys"
  "seg_comps (x # xs) = (case seg_component x of None \<Rightarrow> [] | Some c \<Rightarrow> [c]) @ seg_comps xs"
  by (simp_all add: seg_comps_def map_filter_def split: option.splits)

lemma seg_component_Nil [simp]: "seg_component [] = None"
  by (simp add: seg_component_def)

lemma split_char_app: "split_char d (s @ d # t) = split_char d s @ split_char d t"
  by (induction s) (auto split: list.splits)

lemma segments_join: "segs \<noteq> [] \<Longrightarrow> \<forall>x\<in>set segs. CHR ''/'' \<notin> set x \<Longrightarrow> segments (join ''/'' segs) = segs"
  by (induction segs rule: induct_list012) (simp_all add: split_char_none split_char_app)

lemma segments_no_slash: "x \<in> set (split_char d s) \<Longrightarrow> d \<notin> set x"
  by (induction s arbitrary: x) (auto split: list.splits if_splits)

lemma starts_slash: "starts_with ''/'' s \<longleftrightarrow> s \<noteq> [] \<and> hd s = CHR ''/''"
  by (cases s) auto

lemma path_components_app:
  assumes "a \<noteq> []"
  shows "path_components (a @ CHR ''/'' # b) = path_components a @ seg_comps (segments b)"
proof -
  have "lead (a @ CHR ''/'' # b) = lead a"
    using assms by (simp add: lead_def starts_slash split_char_app)
  then show ?thesis by (simp add: path_components_def split_char_app)
qed

definition normal_path :: "string \<Rightarrow> bool" where
  "normal_path r \<longleftrightarrow> path_components r \<noteq> [] \<and> (\<forall>c\<in>set (path_components r). \<exists>s. c = Normal s)"

lemma normal_path_segs:
  assumes "normal_path r"
  shows "path_components r = seg_comps (segments r)" "\<not> starts_with ''/'' r" "r \<noteq> []"
proof -
  have "RootDir \<notin> set (path_components r)" "CurDir \<notin> set (path_components r)"
    using assms by (auto simp: normal_path_def)
  then have "lead r = []" "\<not> starts_with ''/'' r" by (auto simp: path_components_def lead_def split: if_splits)
  moreover have "r \<noteq> []" using assms by (auto simp: normal_path_def path_components_def lead_def)
  ultimately show "path_components r = seg_comps (segments r)" "\<not> starts_with ''/'' r" "r \<noteq> []"
    by (simp_all add: path_components_def)
qed

text \<open>Joining an ordinary relative path appends its components.\<close>

lemma path_components_join:
  assumes "normal_path r"
  shows "path_components (path_join base r) = path_components base @ path_components r"
proof (cases "base = [] \<or> ends_with ''/'' base")
  case False
  then show ?thesis using normal_path_segs[OF assms] path_components_app[of base r] by (simp add: path_join_def)
next
  case True
  then consider "base = []" | "base = ''/''" | b where "b \<noteq> []" "base = b @ ''/''"
    by (cases "base = []") (auto simp: ends_with_iff)
  then show ?thesis
  proof cases
    case 1
    then show ?thesis using normal_path_segs[OF assms] by (simp add: path_join_def path_components_def lead_def)
  next
    case 2
    then show ?thesis using normal_path_segs[OF assms] by (simp add: path_join_def path_components_def lead_def)
  next
    case 3
    then show ?thesis
      using normal_path_segs[OF assms] path_components_app[of b r] path_components_app[of b "[]"] True
      by (simp add: path_join_def)
  qed
qed

subsection \<open>Ancestors are the prefixes\<close>

definition comps_of :: "bool \<Rightarrow> string list \<Rightarrow> Component list" where
  "comps_of rooted segs =
     (if rooted then [RootDir] else if segs \<noteq> [] \<and> hd segs = ''.'' then [CurDir] else []) @ seg_comps segs"

text \<open>Segments of a path text, as seen from the back: only a rooted path starts with an empty one.\<close>

definition segs_ok :: "bool \<Rightarrow> string list \<Rightarrow> bool" where
  "segs_ok rooted rsegs \<longleftrightarrow> (\<forall>x\<in>set rsegs. CHR ''/'' \<notin> set x) \<and>
     (rsegs = [] \<or> (if rooted then last rsegs = [] else last rsegs \<noteq> [] \<or> rsegs = [[]]))"

lemma segs_ok_tl: "segs_ok rooted (x # rest) \<Longrightarrow> segs_ok rooted rest"
  by (cases rest) (simp_all add: segs_ok_def split: if_splits)

lemma segs_ok_strip_back: "segs_ok rooted rsegs \<Longrightarrow> segs_ok rooted (strip_back rsegs)"
proof (induction rsegs)
  case (Cons x rest)
  then show ?case using segs_ok_tl[OF Cons.prems] by simp
qed simp

lemma comps_of_strip_back: "comps_of rooted (rev (strip_back rsegs)) = comps_of rooted (rev rsegs)"
proof (induction rsegs)
  case (Cons x rest)
  show ?case
  proof (cases "seg_component x \<noteq> None \<or> rest = [] \<and> x = ''.''")
    case False
    then have "comps_of rooted (rev rest @ [x]) = comps_of rooted (rev rest)"
      by (cases "rev rest") (auto simp: comps_of_def)
    with False Cons show ?thesis by auto
  qed auto
qed simp

lemma strip_back_hd: "strip_back rsegs = x # rest \<Longrightarrow> seg_component x \<noteq> None \<or> rest = [] \<and> x = ''.''"
  by (induction rsegs) (auto split: if_splits)

lemma path_components_render:
  assumes "segs_ok rooted rsegs"
  shows "path_components (render rooted (strip_back rsegs)) = comps_of rooted (rev (strip_back rsegs))"
proof (cases "strip_back rsegs")
  case Nil
  then show ?thesis by (simp add: render_def path_components_def lead_def comps_of_def)
next
  case (Cons x rest)
  let ?s = "render rooted (strip_back rsegs)"
  have ok: "segs_ok rooted (x # rest)" using segs_ok_strip_back[OF assms] Cons by simp
  then have segs: "segments ?s = rev (x # rest)"
    unfolding Cons render_def by (simp only: list.distinct if_False) (rule segments_join, auto simp: segs_ok_def)
  have x: "x \<noteq> []" using strip_back_hd[OF Cons] by auto
  have "starts_with ''/'' ?s \<longleftrightarrow> rooted"
  proof (cases rest rule: rev_cases)
    case Nil
    then have "\<not> rooted" "hd x \<noteq> CHR ''/''" using ok x by (cases x; auto simp: segs_ok_def split: if_splits)+
    then show ?thesis using Nil x by (simp add: Cons render_def starts_slash)
  next
    case (snoc ys y)
    have s: "?s = y @ ''/'' @ join ''/'' (rev ys @ [x])"
      unfolding Cons render_def snoc by (cases "rev ys") simp_all
    have "CHR ''/'' \<notin> set y" using ok snoc by (simp add: segs_ok_def)
    then have "starts_with ''/'' ?s \<longleftrightarrow> y = []" unfolding s starts_slash by (cases y) auto
    then show ?thesis using ok snoc by (auto simp: segs_ok_def split: if_splits)
  qed
  then show ?thesis unfolding path_components_def lead_def comps_of_def segs by (simp add: Cons)
qed

lemma comps_of_snoc:
  assumes "segs_ok rooted (x # rest)" "seg_component x \<noteq> None \<or> rest = [] \<and> x = ''.''"
  shows "\<exists>c. comps_of rooted (rev rest @ [x]) = comps_of rooted (rev rest) @ [c]"
proof (cases "seg_component x")
  case None
  then show ?thesis using assms by (auto simp: comps_of_def segs_ok_def seg_component_def)
next
  case (Some c)
  then have "x \<noteq> ''.''" by (auto simp: seg_component_def)
  with Some show ?thesis by (cases "rev rest") (auto simp: comps_of_def)
qed

lemma ancestors_from_components:
  "segs_ok rooted rsegs \<Longrightarrow>
   map path_components (ancestors_from rooted rsegs) =
     (if comps_of rooted (rev rsegs) = comps_of rooted [] then []
      else rev (filter (\<lambda>p. prefix (comps_of rooted []) p) (prefixes (butlast (comps_of rooted (rev rsegs))))))"
proof (induction rooted rsegs rule: ancestors_from.induct)
  case (1 rooted rsegs)
  have base: "comps_of rooted [] = (if rooted then [RootDir] else [])" by (simp add: comps_of_def)
  have eq: "comps_of rooted (rev rsegs) = comps_of rooted (rev (strip_back rsegs))" by (simp add: comps_of_strip_back)
  show ?case
  proof (cases "strip_back rsegs")
    case Nil
    then show ?thesis unfolding eq by (subst ancestors_from.simps) simp
  next
    case (Cons x rest)
    have ok: "segs_ok rooted (x # rest)" using segs_ok_strip_back[OF "1.prems"] Cons by simp
    note okr = segs_ok_tl[OF ok]
    obtain c where c: "comps_of rooted (rev (strip_back rsegs)) = comps_of rooted (rev rest) @ [c]"
      using comps_of_snoc[OF ok strip_back_hd[OF Cons]] by (auto simp: Cons)
    have pre: "prefix (comps_of rooted []) (comps_of rooted (rev rest))" by (auto simp: comps_of_def)
    have ne: "comps_of rooted (rev rest) @ [c] \<noteq> comps_of rooted []"
    proof
      assume "comps_of rooted (rev rest) @ [c] = comps_of rooted []"
      then have "length (comps_of rooted (rev rest) @ [c]) = length (comps_of rooted [])" by (rule arg_cong)
      with prefix_length_le[OF pre] show False by simp
    qed
    have hd: "path_components (render rooted (strip_back rest)) = comps_of rooted (rev rest)"
      using path_components_render[OF okr] by (simp add: comps_of_strip_back)
    have tl: "map path_components (ancestors_from rooted rest) =
        (if comps_of rooted (rev rest) = comps_of rooted [] then []
         else rev (filter (prefix (comps_of rooted [])) (prefixes (butlast (comps_of rooted (rev rest))))))"
      by (rule "1.IH"[OF Cons okr])
    have step: "rev (filter (prefix (comps_of rooted [])) (prefixes (comps_of rooted (rev rest)))) =
        comps_of rooted (rev rest) # map path_components (ancestors_from rooted rest)"
    proof (cases "comps_of rooted (rev rest) = comps_of rooted []")
      case True
      have "filter (prefix p) (prefixes p) = [p]" for p :: "Component list"
        by (induction p rule: rev_induct) (auto simp: prefixes_snoc filter_empty_conv dest!: prefix_length_le)
      with True tl show ?thesis by simp
    next
      case False
      obtain q d where q: "comps_of rooted (rev rest) = q @ [d]"
        using False pre by (cases "comps_of rooted (rev rest)" rule: rev_cases) auto
      show ?thesis using tl False pre unfolding q by (simp add: prefixes_snoc)
    qed
    show ?thesis
      unfolding eq c using ne step hd by (subst ancestors_from.simps) (simp add: Cons)
  qed
qed

lemma segs_ok_segments: "segs_ok (starts_with ''/'' s) (rev (segments s))"
proof (cases s)
  case (Cons c t)
  have "hd (segments s) = [] \<longleftrightarrow> c = CHR ''/''" by (auto simp: Cons split: list.splits)
  then show ?thesis using segments_no_slash[of _ "CHR ''/''" s]
    by (auto simp: segs_ok_def starts_slash last_rev Cons)
qed (simp add: segs_ok_def)

lemma path_components_comps_of: "path_components s = comps_of (starts_with ''/'' s) (segments s)"
  by (simp add: path_components_def lead_def comps_of_def)

text \<open>The components of the ancestors of a path are the prefixes of its components, longest first.\<close>

lemma filter_prefix_self: "filter (prefix p) (prefixes p) = [p]"
  by (induction p rule: rev_induct) (auto simp: prefixes_snoc filter_empty_conv dest!: prefix_length_le)

lemma prefixes_butlast: "c \<noteq> [] \<Longrightarrow> prefixes c = prefixes (butlast c) @ [c]"
  by (cases c rule: rev_cases) (simp_all add: prefixes_snoc)

lemma path_ancestors_list:
  "map path_components (path_ancestors s) =
     rev (filter (prefix (if starts_with ''/'' s then [RootDir] else [])) (prefixes (path_components s)))"
proof -
  let ?r = "starts_with ''/'' s" and ?c = "path_components s"
  have base: "comps_of ?r [] = (if ?r then [RootDir] else [])" by (simp add: comps_of_def)
  have pre: "prefix (comps_of ?r []) ?c" by (auto simp: path_components_comps_of comps_of_def)
  have l: "map path_components (path_ancestors s) = ?c #
      (if ?c = comps_of ?r [] then [] else rev (filter (prefix (comps_of ?r [])) (prefixes (butlast ?c))))"
    using ancestors_from_components[OF segs_ok_segments, of s]
    by (simp add: path_ancestors_def path_components_comps_of)
  show ?thesis
  proof (cases "?c = comps_of ?r []")
    case True
    then show ?thesis using l filter_prefix_self[of "comps_of ?r []"] by (simp flip: base)
  next
    case False
    then have "?c \<noteq> []" using pre by (cases ?c) auto
    then show ?thesis using l False pre by (simp add: prefixes_butlast flip: base)
  qed
qed

lemma ancestor_components:
  "path_components ` set (path_ancestors s) = {p. prefix p (path_components s) \<and> (starts_with ''/'' s \<longrightarrow> p \<noteq> [])}"
proof -
  have r: "path_components s = RootDir # seg_comps (segments s)" if "starts_with ''/'' s"
    using that by (simp add: path_components_def lead_def)
  have root: "prefix [RootDir] p \<longleftrightarrow> p \<noteq> []" if "starts_with ''/'' s" "prefix p (path_components s)" for p
    using that(2) unfolding r[OF that(1)] by (cases p) auto
  have "set (map path_components (path_ancestors s)) =
      {p. prefix p (path_components s) \<and> prefix (if starts_with ''/'' s then [RootDir] else []) p}"
    unfolding path_ancestors_list by auto
  also have "\<dots> = {p. prefix p (path_components s) \<and> (starts_with ''/'' s \<longrightarrow> p \<noteq> [])}"
    using root by auto
  finally show ?thesis by simp
qed

lemma rev_prefixes_two:
  assumes "c \<noteq> []" "prefix b (butlast c)"
  shows "\<exists>xs. rev (filter (prefix b) (prefixes c)) = c # butlast c # xs"
proof -
  obtain d x where c: "c = d @ [x]" using assms(1) by (cases c rule: rev_cases) auto
  obtain ys where "prefixes d = ys @ [d]" by (cases d rule: rev_cases) (auto simp: prefixes_snoc)
  then show ?thesis using assms(2) by (simp add: c prefixes_snoc)
qed

lemma path_parent_components:
  assumes "path_components s \<noteq> []" "path_components s \<noteq> [RootDir]"
  shows "\<exists>p. path_parent s = Some p \<and> path_components p = butlast (path_components s)"
proof -
  let ?b = "if starts_with ''/'' s then [RootDir] else []" and ?c = "path_components s"
  have "prefix ?b (butlast ?c)"
  proof (cases "starts_with ''/'' s")
    case True
    then have "?c = RootDir # seg_comps (segments s)" by (simp add: path_components_def lead_def)
    then show ?thesis using True assms(2) by (cases "seg_comps (segments s)") simp_all
  qed simp
  then have "\<exists>xs. map path_components (path_ancestors s) = ?c # butlast ?c # xs"
    unfolding path_ancestors_list by (rule rev_prefixes_two[OF assms(1)])
  then show ?thesis by (auto simp: path_parent_def map_eq_Cons_conv)
qed

lemma takeWhile_prefixes:
  "prefix t p \<Longrightarrow> set (takeWhile (\<lambda>q. q \<noteq> t) (rev (prefixes p))) = {q. prefix q p \<and> strict_prefix t q}"
proof (induction p rule: rev_induct)
  case (snoc x p)
  show ?case
  proof (cases "t = p @ [x]")
    case True
    then show ?thesis using prefix_length_le[of _ p] prefix_length_less[of t] by (fastforce simp: prefixes_snoc)
  next
    case False
    then have t: "prefix t p" using snoc.prems by simp
    then have "strict_prefix t (p @ [x])" using False by (auto simp: strict_prefix_def)
    then show ?thesis using snoc.IH[OF t] False by (auto simp: prefixes_snoc)
  qed
qed auto

text \<open>A single name is a single component.\<close>

lemma path_components_name:
  assumes "x \<noteq> []" "CHR ''/'' \<notin> set x" "x \<noteq> ''.''" "x \<noteq> ''..''"
  shows "path_components x = [Normal x]" "normal_path x"
proof -
  have "\<not> starts_with ''/'' x" using assms by (cases x) auto
  then show "path_components x = [Normal x]"
    using assms by (simp add: path_components_def lead_def split_char_none seg_component_def)
  then show "normal_path x" by (simp add: normal_path_def)
qed


end
