(* ===== verification/Chunker.thy ===== *)
theory Chunker
  imports Fastcdc Schema Rust_Path
begin

text \<open>
  Chunk capture (\<open>crates/snapshot/src/chunker.rs\<close>): padding, content-defined chunking and
  the encryption of the chunks in both wire versions. The value of the environment
  variable with the chunking profile is an argument. The chunking interface is
  interpreted here for every value of that variable.
\<close>

subsection \<open>Definitions\<close>

datatype SnapshotError =
    IoError io_error
  | ConcurrentModification string
  | UnsafePath string
  | FileTooLarge string u64
  | IntegrityMismatch string string string
  | MissingChunk string string
  | Snapshot_CryptoError CryptoError
  | Snapshot_FormatError FormatError
  | InvalidInput string

definition MIN_PADDING_SIZE :: nat where "MIN_PADDING_SIZE = 4096"
definition MAX_FILE_SIZE :: u64 where "MAX_FILE_SIZE = 256 * 1024 * 1024"

record ChunkedFile =
  cf_file_version_id :: bytes
  cf_file_version_key :: bytes
  cf_raw_length :: u64
  cf_padded_length :: u64
  cf_plaintext_sha256 :: bytes
  cf_chunks :: "ChunkWireObject list"

text \<open>The chunks under the configured profile; \<open>None\<close> would be a panic or an endless loop.\<close>

definition chunk_with_env :: "string option \<Rightarrow> bytes \<Rightarrow> bytes list option" where
  "chunk_with_env env d =
     (case config_from_env env of Inl _ \<Rightarrow> None | Inr config \<Rightarrow> fastcdc_chunk d config)"

definition raw_chunks :: "string option \<Rightarrow> bytes \<Rightarrow> bytes list" where
  "raw_chunks env d = (case chunk_with_env env d of Some cs \<Rightarrow> cs | None \<Rightarrow> [])"

definition pad :: "bytes \<Rightarrow> bytes" where
  "pad d = (if length d < MIN_PADDING_SIZE then d @ replicate (MIN_PADDING_SIZE - length d) 0 else d)"

definition v1_chunk :: "bytes \<Rightarrow> u64 \<Rightarrow> bytes \<Rightarrow> nat \<Rightarrow> nat \<Rightarrow> bytes \<Rightarrow> ChunkWireObject" where
  "v1_chunk vault_id key_epoch file_version_id count i raw_chunk =
     \<lparr>cw_version = PROTOCOL_VERSION, cw_vault_id = vault_id, cw_file_version_id = file_version_id,
      cw_chunk_index = word_of_nat i, cw_total_chunks = word_of_nat count,
      cw_declared_padded_length = word_of_nat (length raw_chunk), cw_key_epoch = key_epoch, cw_payload = []\<rparr>"

definition encrypt_v1_chunk ::
  "crypto_crate \<Rightarrow> bytes \<Rightarrow> u64 \<Rightarrow> bytes \<Rightarrow> bytes \<Rightarrow> nat \<Rightarrow> nat \<times> bytes \<Rightarrow> SnapshotError + ChunkWireObject" where
  "encrypt_v1_chunk cr vault_id key_epoch file_version_id file_version_key count = (\<lambda>(i, raw_chunk).
     let dummy = v1_chunk vault_id key_epoch file_version_id count i raw_chunk;
         nonce = derive_chunk_nonce cr file_version_key (word_of_nat i) (compute_digest cr raw_chunk)
     in rbind (rmap_err Snapshot_CryptoError
                 (encrypt_chunk_with_nonce cr file_version_key nonce raw_chunk (compute_aad dummy))) (\<lambda>payload.
        Inr (dummy\<lparr>cw_payload := payload\<rparr>)))"

definition chunk_and_encrypt_file ::
  "crypto_crate \<Rightarrow> string option \<Rightarrow> bytes \<Rightarrow> u64 \<Rightarrow> bytes \<Rightarrow> bytes \<Rightarrow> SnapshotError + ChunkedFile" where
  "chunk_and_encrypt_file cr env vault_id key_epoch epoch_key plaintext =
     (let raw_length = word_of_nat (length plaintext) in
      if raw_length > MAX_FILE_SIZE then Inl (FileTooLarge ''in-memory'' raw_length)
      else
        (let plaintext_sha256 = compute_digest cr plaintext;
             file_version_id = derive_file_version_id cr vault_id key_epoch plaintext_sha256
         in rbind (rmap_err Snapshot_CryptoError (derive_file_version_key cr epoch_key key_epoch plaintext_sha256)) (\<lambda>file_version_key.
            let padded = (if raw_length < word_of_nat MIN_PADDING_SIZE then pad plaintext else plaintext);
                chunks = raw_chunks env padded
            in rbind (rtraverse (encrypt_v1_chunk cr vault_id key_epoch file_version_id file_version_key (length chunks))
                        (enumerate 0 chunks)) (\<lambda>encrypted.
               Inr \<lparr>cf_file_version_id = file_version_id, cf_file_version_key = file_version_key,
                    cf_raw_length = raw_length, cf_padded_length = word_of_nat (length padded),
                    cf_plaintext_sha256 = plaintext_sha256, cf_chunks = encrypted\<rparr>))))"

definition v2_chunk :: "bytes \<Rightarrow> u64 \<Rightarrow> bytes \<Rightarrow> bytes \<Rightarrow> ChunkWireObject" where
  "v2_chunk vault_id key_epoch opaque_id raw_chunk =
     \<lparr>cw_version = CHUNK_WIRE_VERSION_V2, cw_vault_id = vault_id, cw_file_version_id = opaque_id,
      cw_chunk_index = 0, cw_total_chunks = 1,
      cw_declared_padded_length = word_of_nat (length raw_chunk), cw_key_epoch = key_epoch, cw_payload = []\<rparr>"

definition encrypt_v2_chunk ::
  "crypto_crate \<Rightarrow> bytes \<Rightarrow> u64 \<Rightarrow> bytes \<Rightarrow> bytes \<Rightarrow> SnapshotError + ChunkWireObject" where
  "encrypt_v2_chunk cr vault_id key_epoch domain_key raw_chunk =
     (let opaque_id = derive_v2_chunk_id cr domain_key vault_id key_epoch (compute_digest cr raw_chunk);
          chunk = v2_chunk vault_id key_epoch opaque_id raw_chunk;
          (key, nonce) = derive_v2_chunk_key_nonce cr domain_key vault_id key_epoch opaque_id
      in rbind (rmap_err Snapshot_CryptoError (encrypt_chunk_with_nonce cr key nonce raw_chunk (compute_aad chunk))) (\<lambda>payload.
         Inr (chunk\<lparr>cw_payload := payload\<rparr>)))"

definition chunk_and_encrypt_file_v2 ::
  "crypto_crate \<Rightarrow> string option \<Rightarrow> bytes \<Rightarrow> u64 \<Rightarrow> bytes \<Rightarrow> bytes \<Rightarrow> SnapshotError + ChunkedFile" where
  "chunk_and_encrypt_file_v2 cr env vault_id key_epoch epoch_key plaintext =
     (let raw_length = word_of_nat (length plaintext) in
      if raw_length > MAX_FILE_SIZE then Inl (FileTooLarge ''in-memory'' raw_length)
      else
        (let plaintext_sha256 = compute_digest cr plaintext;
             domain_key = derive_v2_chunk_domain_key cr epoch_key vault_id key_epoch;
             file_version_id = derive_v2_file_version_id cr domain_key vault_id key_epoch plaintext_sha256;
             padded = pad plaintext
         in rbind (rtraverse (encrypt_v2_chunk cr vault_id key_epoch domain_key) (raw_chunks env padded)) (\<lambda>encrypted.
            Inr \<lparr>cf_file_version_id = file_version_id, cf_file_version_key = domain_key,
                 cf_raw_length = raw_length, cf_padded_length = word_of_nat (length padded),
                 cf_plaintext_sha256 = plaintext_sha256, cf_chunks = encrypted\<rparr>)))"

subsection \<open>The chunking interface\<close>

lemma config_env_sizes:
  "config_from_env env = Inr c \<Longrightarrow> 2048 \<le> min_size c \<and> max_size c \<le> 262144"
  by (auto simp: config_from_env_def config_from_profile_def default_config_def FastCdcConfig_new_def
      DEFAULT_MIN_SIZE_def DEFAULT_AVG_SIZE_def DEFAULT_MAX_SIZE_def Let_def split: option.splits if_splits)

lemma chunk_with_env_parts:
  "\<exists>c cs. config_from_env env = Inr c \<and> config_ok c \<and> chunk_with_env env d = fastcdc_chunk d c \<and>
     fastcdc_chunk d c = Some cs \<and> concat cs = d \<and>
     (\<forall>x\<in>set cs. x \<noteq> [] \<and> length x \<le> max_size c) \<and> (\<forall>x\<in>set (butlast cs). min_size c \<le> length x)"
proof -
  obtain c where c: "config_from_env env = Inr c" "config_ok c" by (rule config_from_env_ok)
  then show ?thesis using fastcdc_partition_aux[OF c(2), of d] by (auto simp: chunk_with_env_def)
qed

interpretation cdc: content_chunker "chunk_with_env env" 2048 262144 for env
proof
  fix d cs x
  obtain c cs' where c: "config_from_env env = Inr c" "chunk_with_env env d = Some cs'" "concat cs' = d"
      "\<forall>x\<in>set cs'. x \<noteq> [] \<and> length x \<le> max_size c" "\<forall>x\<in>set (butlast cs'). min_size c \<le> length x"
    using chunk_with_env_parts[of env d] by auto
  show "\<exists>cs. chunk_with_env env d = Some cs" using c(2) by blast
  show "concat cs = d" if "chunk_with_env env d = Some cs" using c that by simp
  show "x \<noteq> [] \<and> length x \<le> 262144" if "chunk_with_env env d = Some cs" "x \<in> set cs"
    using c(2,4) that config_env_sizes[OF c(1)] by fastforce
  show "2048 \<le> length x" if "chunk_with_env env d = Some cs" "x \<in> set (butlast cs)"
    using c(2,5) that config_env_sizes[OF c(1)] by fastforce
qed simp

lemma raw_chunks_Some: "chunk_with_env env d = Some (raw_chunks env d)"
  using cdc.total[of env d] by (auto simp: raw_chunks_def)

lemmas raw_chunks_concat = cdc.parts[OF raw_chunks_Some]
lemmas raw_chunks_bounds = cdc.upper[OF raw_chunks_Some]
lemmas raw_chunks_count = cdc.count[OF raw_chunks_Some]

text \<open>Chunk lengths fit their 32-bit field.\<close>

lemma raw_chunk_length32: "x \<in> set (raw_chunks env d) \<Longrightarrow> unat (word_of_nat (length x) :: u32) = length x"
  using raw_chunks_bounds[of x env d] by (simp add: unat_of_nat)

subsection \<open>Padding\<close>

lemma pad_take: "take (length d) (pad d) = d"
  by (simp add: pad_def)

lemma pad_zero: "Suc (length d) < MIN_PADDING_SIZE \<Longrightarrow> pad (d @ [0]) = pad d"
  using replicate_Suc[of "MIN_PADDING_SIZE - Suc (length d)" "0 :: byte"] by (simp add: pad_def Suc_diff_Suc)

lemma length_pad: "length (pad d) = max (length d) MIN_PADDING_SIZE"
  by (simp add: pad_def)

lemma pad_guard:
  assumes "length d < 2 ^ 64"
  shows "(if (word_of_nat (length d) :: u64) < word_of_nat MIN_PADDING_SIZE then pad d else d) = pad d"
  using assms by (simp add: pad_def MIN_PADDING_SIZE_def word_less_nat_alt unat_of_nat)

lemma small_file:
  assumes "length d < 2 ^ 64" "\<not> (word_of_nat (length d) :: u64) > MAX_FILE_SIZE"
  shows "length d \<le> 2 ^ 28" "length (pad d) \<le> 2 ^ 28"
  using assms by (simp_all add: MAX_FILE_SIZE_def word_less_nat_alt unat_of_nat length_pad MIN_PADDING_SIZE_def)

subsection \<open>Encrypted chunks decrypt\<close>

lemma encrypt_v1_chunk_ok:
  assumes "crypto_ok cr" "length fvk = 32" "length raw \<le> 2 ^ 37"
  shows "\<exists>w. encrypt_v1_chunk cr vault e fvid fvk n (i, raw) = Inr w \<and>
    w = (v1_chunk vault e fvid n i raw)\<lparr>cw_payload := cw_payload w\<rparr> \<and>
    decrypt_chunk cr fvk (cw_payload w) (compute_aad w) = Inr raw"
proof -
  note ok = crypto_okD[OF assms(1)]
  let ?c = "v1_chunk vault e fvid n i raw"
  let ?nonce = "derive_chunk_nonce cr fvk (word_of_nat i) (compute_digest cr raw)"
  have n: "length ?nonce = 24" using ok(1) by simp
  obtain p where p: "encrypt_chunk_with_nonce cr fvk ?nonce raw (compute_aad ?c) = Inr p"
    using encrypt_chunk_with_nonce_ok[OF ok(2) assms(2) n assms(3)] by blast
  have "compute_aad (?c\<lparr>cw_payload := p\<rparr>) = compute_aad ?c" by (simp add: compute_aad_def)
  then show ?thesis using p decrypt_encrypt_chunk[OF ok(2) n p] by (simp add: encrypt_v1_chunk_def Let_def)
qed

lemma encrypt_v2_chunk_ok:
  fixes vault :: bytes and e :: u64
  assumes "crypto_ok cr" "length raw \<le> 2 ^ 37"
  defines "oid \<equiv> \<lambda>dk. derive_v2_chunk_id cr dk vault e (compute_digest cr raw)"
  shows "\<exists>w. encrypt_v2_chunk cr vault e dk raw = Inr w \<and>
    w = (v2_chunk vault e (oid dk) raw)\<lparr>cw_payload := cw_payload w\<rparr> \<and>
    take 24 (cw_payload w) = snd (derive_v2_chunk_key_nonce cr dk vault e (oid dk)) \<and> 24 \<le> length (cw_payload w) \<and>
    decrypt_chunk cr (fst (derive_v2_chunk_key_nonce cr dk vault e (oid dk))) (cw_payload w) (compute_aad w) = Inr raw"
proof -
  note ok = crypto_okD[OF assms(1)]
  let ?c = "v2_chunk vault e (oid dk) raw"
  obtain key nonce where kn: "derive_v2_chunk_key_nonce cr dk vault e (oid dk) = (key, nonce)" by fastforce
  have len: "length key = 32" "length nonce = 24" using kn ok(1) by (auto simp: derive_v2_chunk_key_nonce_def)
  obtain p where p: "encrypt_chunk_with_nonce cr key nonce raw (compute_aad ?c) = Inr p" "length p = length raw + 40"
    using encrypt_chunk_with_nonce_ok[OF ok(2) len assms(2)] by blast
  have "take 24 p = nonce" using p(1) len(2) by (auto simp: encrypt_chunk_with_nonce_def result_simps)
  moreover have "compute_aad (?c\<lparr>cw_payload := p\<rparr>) = compute_aad ?c" by (simp add: compute_aad_def)
  ultimately show ?thesis using p kn decrypt_encrypt_chunk[OF ok(2) len(2) p(1)]
    by (simp add: encrypt_v2_chunk_def oid_def Let_def)
qed

lemma file_version_key_ok:
  "crypto_ok cr \<Longrightarrow> \<exists>k. derive_file_version_key cr ek e d = Inr k \<and> length k = 32"
  using crypto_okD(1)[of cr] by (simp add: derive_file_version_key_def kdf_derive_file_version_key_def)

text \<open>What a captured file contains.\<close>

lemma chunk_and_encrypt_file_ok:
  assumes "crypto_ok cr" "length d < 2 ^ 64" "\<not> (word_of_nat (length d) :: u64) > MAX_FILE_SIZE"
  shows "\<exists>cf fvk. chunk_and_encrypt_file cr env vault e ek d = Inr cf \<and>
    derive_file_version_key cr ek e (compute_digest cr d) = Inr fvk \<and> length fvk = 32 \<and>
    rtraverse (encrypt_v1_chunk cr vault e (derive_file_version_id cr vault e (compute_digest cr d)) fvk
      (length (raw_chunks env (pad d)))) (enumerate 0 (raw_chunks env (pad d))) = Inr (cf_chunks cf) \<and>
    cf = \<lparr>cf_file_version_id = derive_file_version_id cr vault e (compute_digest cr d), cf_file_version_key = fvk,
      cf_raw_length = word_of_nat (length d), cf_padded_length = word_of_nat (length (pad d)),
      cf_plaintext_sha256 = compute_digest cr d, cf_chunks = cf_chunks cf\<rparr>"
proof -
  obtain fvk where fvk: "derive_file_version_key cr ek e (compute_digest cr d) = Inr fvk" "length fvk = 32"
    using file_version_key_ok[OF assms(1)] by blast
  let ?f = "encrypt_v1_chunk cr vault e (derive_file_version_id cr vault e (compute_digest cr d)) fvk (length (raw_chunks env (pad d)))"
  have "\<exists>w. ?f x = Inr w" if "x \<in> set (enumerate 0 (raw_chunks env (pad d)))" for x
  proof -
    obtain i raw where x: "x = (i, raw)" by (cases x)
    with that have "raw \<in> set (raw_chunks env (pad d))" by (auto simp: in_set_enumerate_eq)
    then have "length raw \<le> 2 ^ 37" using raw_chunks_bounds by fastforce
    from encrypt_v1_chunk_ok[OF assms(1) fvk(2) this] show ?thesis unfolding x by blast
  qed
  from rtraverse_total[of "enumerate 0 (raw_chunks env (pad d))" ?f, OF this] show ?thesis
    using fvk assms(3) by (auto simp: chunk_and_encrypt_file_def Let_def pad_guard[OF assms(2)])
qed

lemma chunk_and_encrypt_file_v2_ok:
  fixes vault ek :: bytes and e :: u64
  assumes "crypto_ok cr" "length d < 2 ^ 64" "\<not> (word_of_nat (length d) :: u64) > MAX_FILE_SIZE"
  defines "dk \<equiv> derive_v2_chunk_domain_key cr ek vault e"
  shows "\<exists>cf. chunk_and_encrypt_file_v2 cr env vault e ek d = Inr cf \<and>
    rtraverse (encrypt_v2_chunk cr vault e dk) (raw_chunks env (pad d)) = Inr (cf_chunks cf) \<and>
    cf = \<lparr>cf_file_version_id = derive_v2_file_version_id cr dk vault e (compute_digest cr d), cf_file_version_key = dk,
      cf_raw_length = word_of_nat (length d), cf_padded_length = word_of_nat (length (pad d)),
      cf_plaintext_sha256 = compute_digest cr d, cf_chunks = cf_chunks cf\<rparr>"
proof -
  have "\<exists>w. encrypt_v2_chunk cr vault e dk x = Inr w" if "x \<in> set (raw_chunks env (pad d))" for x
  proof -
    have "length x \<le> 2 ^ 37" using raw_chunks_bounds[OF that] by simp
    from encrypt_v2_chunk_ok[OF assms(1) this] show ?thesis by blast
  qed
  from rtraverse_total[of "raw_chunks env (pad d)" "encrypt_v2_chunk cr vault e dk", OF this] show ?thesis
    using assms(3) by (auto simp: chunk_and_encrypt_file_v2_def Let_def dk_def)
qed

subsection \<open>Properties\<close>

lemma raw_chunks_resync:
  assumes "raw_chunks env (p @ s) = cs @ ds" "concat cs = p"
  shows "raw_chunks env s = ds"
proof -
  obtain c where c: "config_from_env env = Inr c" "config_ok c" by (rule config_from_env_ok)
  then have "fastcdc_chunk (p @ s) c = Some (cs @ ds)"
    using raw_chunks_Some[of env "p @ s"] assms(1) by (simp add: chunk_with_env_def)
  from fastcdc_resync[OF c(2) this assms(2)] show ?thesis by (simp add: raw_chunks_def chunk_with_env_def c(1))
qed

lemma rtraverse_append:
  "rtraverse f (xs @ ys) = Inr zs \<Longrightarrow>
   \<exists>us vs. zs = us @ vs \<and> length us = length xs \<and> rtraverse f xs = Inr us \<and> rtraverse f ys = Inr vs"
  by (induction xs arbitrary: zs) (force simp: result_simps)+

text \<open>
  C26. Version 2 captures reuse chunks across edits: when two files agree from some
  point on and the chunker puts a boundary there in both, all chunks after it are
  the same wire objects, hence stored once under the same identifiers, whatever
  precedes the common part.
\<close>

theorem v2_chunk_reuse:
  assumes "chunk_and_encrypt_file_v2 cr env vault e ek f = Inr a" "chunk_and_encrypt_file_v2 cr env vault e ek g = Inr b"
    and "pad f = p @ s" "raw_chunks env (pad f) = cs @ ds" "concat cs = p"
    and "pad g = q @ s" "raw_chunks env (pad g) = cs' @ ds'" "concat cs' = q"
  shows "ds = ds' \<and> drop (length cs) (cf_chunks a) = drop (length cs') (cf_chunks b)"
proof -
  let ?enc = "encrypt_v2_chunk cr vault e (derive_v2_chunk_domain_key cr ek vault e)"
  have ds: "ds = ds'"
    using raw_chunks_resync[of env p s cs ds] raw_chunks_resync[of env q s cs' ds'] assms(3-8) by simp
  have "rtraverse ?enc (cs @ ds) = Inr (cf_chunks a)" "rtraverse ?enc (cs' @ ds') = Inr (cf_chunks b)"
    using assms(1,2,4,7) by (auto simp: chunk_and_encrypt_file_v2_def Let_def result_simps split: if_splits)
  from this[THEN rtraverse_append] ds show ?thesis by force
qed

theorem v2_chunk_reuse_witness:
  "\<exists>a b. chunk_and_encrypt_file_v2 crypto_std None [1] 1 [2] [7] = Inr a \<and>
     chunk_and_encrypt_file_v2 crypto_std None [1] 1 [2] [7, 0] = Inr b \<and> cf_chunks a = cf_chunks b"
proof -
  obtain a where a: "chunk_and_encrypt_file_v2 crypto_std None [1] 1 [2] [7] = Inr a"
    using chunk_and_encrypt_file_v2_ok[OF crypto_std_ok, of "[7]" None "[1]" 1 "[2]"] by (auto simp: MAX_FILE_SIZE_def)
  obtain b where b: "chunk_and_encrypt_file_v2 crypto_std None [1] 1 [2] [7, 0] = Inr b"
    using chunk_and_encrypt_file_v2_ok[OF crypto_std_ok, of "[7, 0]" None "[1]" 1 "[2]"] by (auto simp: MAX_FILE_SIZE_def)
  have p: "pad [7, 0] = pad [7]" using pad_zero[of "[7]"] by (simp add: MIN_PADDING_SIZE_def)
  have "cf_chunks a = cf_chunks b"
    using v2_chunk_reuse[OF a b, of "[]" "pad [7]" "[]" "raw_chunks None (pad [7])" "[]" "[]" "raw_chunks None (pad [7])"]
    unfolding p by simp
  with a b show ?thesis by blast
qed

end
