(* ===== verification/Engine.thy ===== *)
theory Engine
  imports Chunker
begin

text \<open>
  Capture and decryption of snapshots (\<open>crates/snapshot/src/engine.rs\<close>). Every look at the
  file system during a capture is an observation of its own (\<open>file_view\<close>), so that
  other processes may change files between any two calls. Randomness, the clock and
  the environment are arguments. Paths are texts of their UTF-8 bytes; the checks are
  those of a Unix build.
\<close>

subsection \<open>Safe paths and links\<close>

definition illegal_char :: "char \<Rightarrow> bool" where
  "illegal_char c \<longleftrightarrow> (of_char c :: nat) < 32 \<or> c \<in> set ''<>:\"|?*''"

definition normalize_slashes :: "string \<Rightarrow> string" where
  "normalize_slashes = replace_char (CHR 0x5C) (CHR ''/'')"

definition reserved_names :: "string list" where
  "reserved_names =
     [''CON'', ''PRN'', ''AUX'', ''NUL'', ''COM1'', ''COM2'', ''COM3'', ''COM4'', ''COM5'', ''COM6'', ''COM7'',
      ''COM8'', ''COM9'', ''LPT1'', ''LPT2'', ''LPT3'', ''LPT4'', ''LPT5'', ''LPT6'', ''LPT7'', ''LPT8'', ''LPT9'']"

fun check_component :: "string \<Rightarrow> Component \<Rightarrow> SnapshotError + unit" where
  "check_component path_str (Normal s) =
     (if ends_with ''.'' s \<or> ends_with '' '' s
      then Inl (UnsafePath (''Component ends with space or dot: '' @ path_str))
      else if to_ascii_uppercase (hd (split_char (CHR ''.'') s)) \<in> set reserved_names
      then Inl (UnsafePath (''Windows reserved device name rejected: '' @ path_str))
      else Inr ())"
| "check_component path_str _ = Inl (UnsafePath (''Unsafe path component rejected: '' @ path_str))"

definition validate_safe_relative_path :: "string \<Rightarrow> SnapshotError + unit" where
  "validate_safe_relative_path path_str =
     (if path_str = [] then Inl (UnsafePath ''Path cannot be empty'')
      else
        (case find illegal_char path_str of
           Some ch \<Rightarrow> Inl (UnsafePath (''Path contains illegal character '' @ [CHR 0x27, ch, CHR 0x27] @ '': '' @ path_str))
         | None \<Rightarrow> rcheck_all (check_component path_str) (path_components (normalize_slashes path_str))))"

text \<open>\<open>symlink_metadata\<close> at one moment: whether the path is a symbolic link.\<close>

type_synonym lstat = "string \<Rightarrow> io_error + bool"

definition check_link :: "lstat \<Rightarrow> string \<Rightarrow> SnapshotError + unit" where
  "check_link ls component =
     (case ls component of
        Inr link \<Rightarrow>
          if link then Inl (UnsafePath (''Refusing symlink or reparse point: '' @ component)) else Inr ()
      | Inl (NotFound _) \<Rightarrow> Inr ()
      | Inl e \<Rightarrow> Inl (IoError e))"

definition validate_no_links :: "lstat \<Rightarrow> string \<Rightarrow> SnapshotError + unit" where
  "validate_no_links ls path = rcheck_all (check_link ls) (path_ancestors path)"

subsection \<open>Capture\<close>

datatype ChunkWriteVersion = LegacyV1 | V2

definition from_setting :: "string option \<Rightarrow> SnapshotError + ChunkWriteVersion" where
  "from_setting v =
     (if v = None \<or> v = Some ''0'' then Inr LegacyV1
      else if v = Some ''1'' then Inr V2
      else Inl (InvalidInput ''CIPHERVAULT_CHUNK_V2_WRITE must be exactly 0 or 1; unset defaults to legacy v1''))"

text \<open>An environment variable: absent, a text, or bytes that are no Unicode.\<close>

datatype env_var = NotPresent | Var string | NotUnicode

fun from_env :: "env_var \<Rightarrow> SnapshotError + ChunkWriteVersion" where
  "from_env (Var v) = from_setting (Some v)"
| "from_env NotPresent = from_setting None"
| "from_env NotUnicode = Inl (InvalidInput ''CIPHERVAULT_CHUNK_V2_WRITE is not valid Unicode'')"

datatype DeviceSigner = Software bytes | Hardware hsm_signer

fun signer_sign_snapshot ::
  "crypto_crate \<Rightarrow> SnapshotRecord codec \<Rightarrow> DeviceSigner \<Rightarrow> SnapshotRecord \<Rightarrow> SnapshotError + SnapshotRecord" where
  "signer_sign_snapshot cr c (Software sk) r = rmap_err Snapshot_FormatError (snapshot_sign cr c sk r)"
| "signer_sign_snapshot cr c (Hardware hsm) r = rmap_err Snapshot_FormatError (snapshot_sign_with_hsm c hsm r)"

record file_stat =
  st_len :: u64
  st_modified :: "io_error + u64"
  st_dev :: u64
  st_ino :: u64

text \<open>What the calls on one tracked file see, in the order in which the code makes them.\<close>

record file_view =
  fv_links :: lstat
  fv_exists :: bool
  fv_canonical :: "io_error + string"
  fv_open :: "io_error + unit"
  fv_pre_stat :: "io_error + file_stat"
  fv_contents :: "io_error + bytes"
  fv_post_stat :: "io_error + file_stat"
  fv_links_after :: lstat
  fv_canonical_after :: "io_error + string"
  fv_path_stat :: "io_error + file_stat"

text \<open>The comparison of the three stats after the read.\<close>

definition stats_changed :: "file_stat \<Rightarrow> file_stat \<Rightarrow> file_stat \<Rightarrow> SnapshotError + bool" where
  "stats_changed pre post path =
     (if st_len pre \<noteq> st_len post then Inr True
      else
        rbind (rmap_err IoError (st_modified pre)) (\<lambda>pre_m.
        rbind (rmap_err IoError (st_modified post)) (\<lambda>post_m.
        if pre_m \<noteq> post_m \<or> st_len path \<noteq> st_len post then Inr True
        else
          rbind (rmap_err IoError (st_modified path)) (\<lambda>path_m.
          Inr (path_m \<noteq> post_m)))))"

definition read_file :: "string \<Rightarrow> string \<Rightarrow> string \<Rightarrow> file_view \<Rightarrow> SnapshotError + bytes" where
  "read_file canonical_root rel_path full_path v =
     rbind (rmap_err IoError (fv_canonical v)) (\<lambda>real.
     if \<not> path_starts_with real canonical_root then Inl (UnsafePath full_path)
     else
       rbind (rmap_err IoError (fv_open v)) (\<lambda>_.
       rbind (rmap_err IoError (fv_pre_stat v)) (\<lambda>pre_stat.
       if st_len pre_stat > MAX_FILE_SIZE then Inl (FileTooLarge rel_path (st_len pre_stat))
       else
         rbind (rmap_err IoError (fv_contents v)) (\<lambda>all.
         let contents = take (unat (MAX_FILE_SIZE + 1)) all
         in if word_of_nat (length contents) > MAX_FILE_SIZE
            then Inl (FileTooLarge rel_path (word_of_nat (length contents)))
            else
              rbind (rmap_err IoError (fv_post_stat v)) (\<lambda>post_stat.
              rbind (validate_no_links (fv_links_after v) full_path) (\<lambda>_.
              rbind (rmap_err IoError (fv_canonical_after v)) (\<lambda>real'.
              if \<not> path_starts_with real' canonical_root then Inl (UnsafePath full_path)
              else
                rbind (rmap_err IoError (fv_path_stat v)) (\<lambda>path_stat.
                if st_dev path_stat \<noteq> st_dev post_stat \<or> st_ino path_stat \<noteq> st_ino post_stat
                then Inl (ConcurrentModification rel_path)
                else
                  rbind (stats_changed pre_stat post_stat path_stat) (\<lambda>changed.
                  if changed then Inl (ConcurrentModification rel_path) else Inr contents)))))))))"

definition tombstone :: "string \<Rightarrow> bytes \<Rightarrow> ManifestFileEntry" where
  "tombstone rel_path file_id =
     \<lparr>mf_file_id = file_id, mf_relative_path = normalize_slashes rel_path, mf_file_version_id = replicate 32 0,
      mf_raw_length = 0, mf_padded_length = 0, mf_plaintext_sha256 = replicate 32 0,
      mf_file_version_key = replicate 32 0, mf_chunk_cids = [], mf_is_deleted = True\<rparr>"

definition file_entry :: "string \<Rightarrow> bytes \<Rightarrow> ChunkedFile \<Rightarrow> bytes list \<Rightarrow> ManifestFileEntry" where
  "file_entry rel_path file_id chunked cids =
     \<lparr>mf_file_id = file_id, mf_relative_path = normalize_slashes rel_path,
      mf_file_version_id = cf_file_version_id chunked, mf_raw_length = cf_raw_length chunked,
      mf_padded_length = cf_padded_length chunked, mf_plaintext_sha256 = cf_plaintext_sha256 chunked,
      mf_file_version_key = cf_file_version_key chunked, mf_chunk_cids = cids, mf_is_deleted = False\<rparr>"

text \<open>What one round of the capture loop adds: the manifest entry, the chunks and the digest.\<close>

record captured =
  cap_entry :: ManifestFileEntry
  cap_chunks :: "ChunkWireObject list"
  cap_hash :: "string \<times> bytes option"
  cap_bytes :: u64

text \<open>The fixed inputs of a capture.\<close>

record capture_ctx =
  cx_vault_id :: bytes
  cx_epoch :: u64
  cx_epoch_key :: bytes
  cx_profile :: "string option"
  cx_write_version :: ChunkWriteVersion

definition capture_chunks :: "crypto_crate \<Rightarrow> capture_ctx \<Rightarrow> bytes \<Rightarrow> SnapshotError + ChunkedFile" where
  "capture_chunks cr x contents =
     (case cx_write_version x of
        LegacyV1 \<Rightarrow> chunk_and_encrypt_file cr (cx_profile x) (cx_vault_id x) (cx_epoch x) (cx_epoch_key x) contents
      | V2 \<Rightarrow> chunk_and_encrypt_file_v2 cr (cx_profile x) (cx_vault_id x) (cx_epoch x) (cx_epoch_key x) contents)"

definition capture_file ::
  "crypto_crate \<Rightarrow> schema_codecs \<Rightarrow> capture_ctx \<Rightarrow> string \<Rightarrow> string \<Rightarrow> string \<times> bytes \<times> file_view \<Rightarrow> SnapshotError + captured" where
  "capture_file cr k x vault_root canonical_root = (\<lambda>(rel_path, file_id, v).
     rbind (validate_safe_relative_path rel_path) (\<lambda>_.
     let full_path = path_join vault_root rel_path in
     rbind (validate_no_links (fv_links v) full_path) (\<lambda>_.
     if \<not> fv_exists v
     then Inr \<lparr>cap_entry = tombstone rel_path file_id, cap_chunks = [], cap_hash = (rel_path, None), cap_bytes = 0\<rparr>
     else
       rbind (read_file canonical_root rel_path full_path v) (\<lambda>contents.
       rbind (capture_chunks cr x contents) (\<lambda>chunked.
       rbind (rmap_err Snapshot_FormatError (rtraverse (compute_cid cr (k_chunk k)) (cf_chunks chunked))) (\<lambda>cids.
       Inr \<lparr>cap_entry = file_entry rel_path file_id chunked cids, cap_chunks = cf_chunks chunked,
            cap_hash = (rel_path, Some (cf_plaintext_sha256 chunked)), cap_bytes = cf_raw_length chunked\<rparr>))))))"

record SnapshotOutput =
  so_record :: SnapshotRecord
  so_encrypted_manifest :: bytes
  so_manifest_cid :: bytes
  so_chunks :: "ChunkWireObject list"
  so_closure :: RecoveryClosure
  so_captured_file_hashes :: "(string \<times> bytes option) list"

definition manifest_aad :: "bytes \<Rightarrow> u64 \<Rightarrow> bytes" where
  "manifest_aad vault_id epoch = as_bytes ''CipherVault-Manifest:'' @ vault_id @ le64 epoch"

text \<open>The identity of the device that captures, and the random and clock values it uses.\<close>

record capture_device =
  cd_parent_ids :: "bytes list"
  cd_device_id :: bytes
  cd_device_counter :: u64
  cd_authority_generation :: u64
  cd_signer :: DeviceSigner
  cd_snapshot_id :: bytes
  cd_nonce :: bytes
  cd_now :: u64

definition snapshot_record :: "capture_ctx \<Rightarrow> capture_device \<Rightarrow> bytes \<Rightarrow> bytes \<Rightarrow> SnapshotRecord" where
  "snapshot_record x d manifest_cid encrypted_manifest =
     \<lparr>sr_version = PROTOCOL_VERSION, sr_vault_id = cx_vault_id x, sr_snapshot_id = cd_snapshot_id d,
      sr_parent_snapshot_ids = cd_parent_ids d, sr_device_id = cd_device_id d,
      sr_device_counter = cd_device_counter d, sr_authority_generation = cd_authority_generation d,
      sr_epoch = cx_epoch x, sr_encrypted_manifest_cid = manifest_cid,
      sr_encrypted_manifest_len = word_of_nat (length encrypted_manifest),
      sr_advisory_timestamp_utc = cd_now d, sr_signature = []\<rparr>"

definition create_snapshot_with_signer_and_write_version ::
  "crypto_crate \<Rightarrow> schema_codecs \<Rightarrow> capture_ctx \<Rightarrow> capture_device \<Rightarrow> lstat \<Rightarrow> io_error + string \<Rightarrow> string \<Rightarrow>
   (string \<times> bytes \<times> file_view) list \<Rightarrow> SnapshotError + SnapshotOutput" where
  "create_snapshot_with_signer_and_write_version cr k x d root_links root_canonical vault_root tracked_files =
     rbind (validate_no_links root_links vault_root) (\<lambda>_.
     rbind (rmap_err IoError root_canonical) (\<lambda>canonical_root.
     rbind (rtraverse (capture_file cr k x vault_root canonical_root) tracked_files) (\<lambda>caps.
     let manifest = \<lparr>sm_version = PROTOCOL_VERSION, sm_vault_id = cx_vault_id x, sm_epoch = cx_epoch x,
                      sm_snapshot_id = cd_snapshot_id d, sm_files = map cap_entry caps\<rparr>
     in
     rbind (rmap_err Snapshot_FormatError (to_canonical_cbor (k_manifest k) manifest)) (\<lambda>manifest_bytes.
     rbind (rmap_err Snapshot_CryptoError (derive_manifest_key cr (cx_epoch_key x) (cx_epoch x))) (\<lambda>manifest_key.
     rbind (rmap_err Snapshot_CryptoError
              (encrypt_chunk cr (cd_nonce d) manifest_key manifest_bytes (manifest_aad (cx_vault_id x) (cx_epoch x)))) (\<lambda>encrypted_manifest.
     let manifest_cid = compute_digest cr encrypted_manifest in
     rbind (signer_sign_snapshot cr (k_snapshot k) (cd_signer d) (snapshot_record x d manifest_cid encrypted_manifest)) (\<lambda>record.
     rbind (rmap_err Snapshot_FormatError (compute_record_cid cr (k_snapshot k) record)) (\<lambda>record_cid.
     Inr \<lparr>so_record = record, so_encrypted_manifest = encrypted_manifest, so_manifest_cid = manifest_cid,
          so_chunks = concat (map cap_chunks caps),
          so_closure = \<lparr>rc_snapshot_id = cd_snapshot_id d, rc_snapshot_record_cid = record_cid,
            rc_manifest_cid = manifest_cid, rc_envelope_ids = [],
            rc_chunk_cids = concat (map (mf_chunk_cids \<circ> cap_entry) caps),
            rc_total_bytes = sum_list (map cap_bytes caps)\<rparr>,
          so_captured_file_hashes = map cap_hash caps\<rparr>))))))))"

definition create_snapshot_with_signer ::
  "crypto_crate \<Rightarrow> schema_codecs \<Rightarrow> env_var \<Rightarrow> capture_ctx \<Rightarrow> capture_device \<Rightarrow> lstat \<Rightarrow> io_error + string \<Rightarrow> string \<Rightarrow>
   (string \<times> bytes \<times> file_view) list \<Rightarrow> SnapshotError + SnapshotOutput" where
  "create_snapshot_with_signer cr k setting x d root_links root_canonical vault_root tracked_files =
     rbind (from_env setting) (\<lambda>write_version.
     create_snapshot_with_signer_and_write_version cr k (x\<lparr>cx_write_version := write_version\<rparr>) d
       root_links root_canonical vault_root tracked_files)"

definition create_snapshot ::
  "crypto_crate \<Rightarrow> schema_codecs \<Rightarrow> env_var \<Rightarrow> capture_ctx \<Rightarrow> capture_device \<Rightarrow> bytes \<Rightarrow> lstat \<Rightarrow> io_error + string \<Rightarrow> string \<Rightarrow>
   (string \<times> bytes \<times> file_view) list \<Rightarrow> SnapshotError + SnapshotOutput" where
  "create_snapshot cr k setting x d device_sk root_links root_canonical vault_root tracked_files =
     create_snapshot_with_signer cr k setting x (d\<lparr>cd_signer := Software device_sk\<rparr>)
       root_links root_canonical vault_root tracked_files"

definition create_snapshot_with_write_version ::
  "crypto_crate \<Rightarrow> schema_codecs \<Rightarrow> capture_ctx \<Rightarrow> capture_device \<Rightarrow> bytes \<Rightarrow> lstat \<Rightarrow> io_error + string \<Rightarrow> string \<Rightarrow>
   (string \<times> bytes \<times> file_view) list \<Rightarrow> SnapshotError + SnapshotOutput" where
  "create_snapshot_with_write_version cr k x d device_sk root_links root_canonical vault_root tracked_files =
     create_snapshot_with_signer_and_write_version cr k x (d\<lparr>cd_signer := Software device_sk\<rparr>)
       root_links root_canonical vault_root tracked_files"

subsection \<open>Decryption\<close>

definition MAX_RESTORE_FILE_SIZE :: u64 where "MAX_RESTORE_FILE_SIZE = 256 * 1024 * 1024"

record DecryptedFile =
  df_relative_path :: string
  df_plaintext :: bytes

text \<open>The index of the chunks by identifier; a later chunk replaces an earlier one.\<close>

definition index_chunks ::
  "crypto_crate \<Rightarrow> ChunkWireObject codec \<Rightarrow> ChunkWireObject list \<Rightarrow> FormatError + (bytes \<rightharpoonup> ChunkWireObject)" where
  "index_chunks cr c chunks =
     rbind (rtraverse (compute_cid cr c) chunks) (\<lambda>cids. Inr (map_of (rev (zip cids chunks))))"

text \<open>The inputs of the decryption that are the same for every file.\<close>

record decrypt_ctx =
  dx_vault_id :: bytes
  dx_epoch :: u64
  dx_domain_key :: bytes
  dx_chunks :: "bytes \<rightharpoonup> ChunkWireObject"

definition decrypt_v1 ::
  "crypto_crate \<Rightarrow> ManifestFileEntry \<Rightarrow> nat \<Rightarrow> ChunkWireObject \<Rightarrow> SnapshotError + bytes" where
  "decrypt_v1 cr entry position chunk =
     (if cw_file_version_id chunk \<noteq> mf_file_version_id entry \<or> unat (cw_chunk_index chunk) \<noteq> position \<or>
         unat (cw_total_chunks chunk) \<noteq> length (mf_chunk_cids entry)
      then Inl (InvalidInput ''Legacy chunk order/file binding mismatch'')
      else rmap_err Snapshot_CryptoError
             (decrypt_chunk cr (mf_file_version_key entry) (cw_payload chunk) (compute_aad chunk)))"

definition decrypt_v2 ::
  "crypto_crate \<Rightarrow> decrypt_ctx \<Rightarrow> ManifestFileEntry \<Rightarrow> ChunkWireObject \<Rightarrow> SnapshotError + bytes" where
  "decrypt_v2 cr x entry chunk =
     (if cw_chunk_index chunk \<noteq> 0 \<or> cw_total_chunks chunk \<noteq> 1 \<or> mf_file_version_key entry \<noteq> dx_domain_key x
      then Inl (InvalidInput ''Invalid v2 chunk header or domain key'')
      else
        let opaque_id = cw_file_version_id chunk;
            (key, nonce) = derive_v2_chunk_key_nonce cr (dx_domain_key x) (dx_vault_id x) (dx_epoch x) opaque_id
        in if length (cw_payload chunk) < 24 \<or> take 24 (cw_payload chunk) \<noteq> nonce
           then Inl (InvalidInput ''Invalid v2 deterministic nonce'')
           else
             rbind (rmap_err Snapshot_CryptoError (decrypt_chunk cr key (cw_payload chunk) (compute_aad chunk))) (\<lambda>plaintext.
             if derive_v2_chunk_id cr (dx_domain_key x) (dx_vault_id x) (dx_epoch x) (compute_digest cr plaintext) \<noteq> opaque_id
             then Inl (InvalidInput ''V2 opaque chunk identifier mismatch'')
             else Inr plaintext))"

text \<open>One round of the loop over the chunks of a file, without the two variables it updates.\<close>

definition open_chunk ::
  "hex_crate \<Rightarrow> crypto_crate \<Rightarrow> decrypt_ctx \<Rightarrow> ManifestFileEntry \<Rightarrow> nat \<times> bytes \<Rightarrow> u32 option \<Rightarrow> nat \<Rightarrow>
   SnapshotError + u32 \<times> bytes" where
  "open_chunk h cr x entry = (\<lambda>(position, expected_cid) wire_version assembled_len.
     if length expected_cid \<noteq> 32
     then Inl (InvalidInput (''Invalid chunk CID length for '' @ mf_relative_path entry))
     else
       (case dx_chunks x expected_cid of
          None \<Rightarrow> Inl (MissingChunk (mf_relative_path entry) (hex_encode h expected_cid))
        | Some chunk \<Rightarrow>
            if cw_vault_id chunk \<noteq> dx_vault_id x \<or> cw_key_epoch chunk \<noteq> dx_epoch x \<or> length (cw_file_version_id chunk) \<noteq> 32
            then Inl (InvalidInput ''Chunk vault/epoch/identifier mismatch'')
            else if wire_version \<noteq> None \<and> wire_version \<noteq> Some (cw_version chunk)
            then Inl (InvalidInput ''Mixed chunk wire versions in one file'')
            else
              rbind
                (if cw_version chunk = PROTOCOL_VERSION then decrypt_v1 cr entry position chunk
                 else if cw_version chunk = CHUNK_WIRE_VERSION_V2 then decrypt_v2 cr x entry chunk
                 else Inl (InvalidInput ''Unsupported chunk wire version'')) (\<lambda>decrypted.
              if length decrypted \<noteq> unat (cw_declared_padded_length chunk) \<or>
                 assembled_len + length decrypted > unat (mf_padded_length entry)
              then Inl (InvalidInput ''Chunk/manifest padded length mismatch'')
              else Inr (cw_version chunk, decrypted))))"

fun open_chunks ::
  "hex_crate \<Rightarrow> crypto_crate \<Rightarrow> decrypt_ctx \<Rightarrow> ManifestFileEntry \<Rightarrow> (nat \<times> bytes) list \<Rightarrow> u32 option \<Rightarrow> bytes \<Rightarrow>
   SnapshotError + u32 option \<times> bytes" where
  "open_chunks h cr x entry [] wire_version assembled = Inr (wire_version, assembled)"
| "open_chunks h cr x entry (c # cs) wire_version assembled =
     rbind (open_chunk h cr x entry c wire_version (length assembled)) (\<lambda>(version, decrypted).
     open_chunks h cr x entry cs (Some version) (assembled @ decrypted))"

definition entry_bounds :: "ManifestFileEntry \<Rightarrow> SnapshotError + unit" where
  "entry_bounds entry =
     (if length (mf_file_version_key entry) \<noteq> 32
      then Inl (InvalidInput (''Invalid file_version_key length for '' @ mf_relative_path entry @
             '': expected 32, got '' @ show_nat (length (mf_file_version_key entry))))
      else if mf_padded_length entry > MAX_RESTORE_FILE_SIZE \<or> mf_raw_length entry > MAX_RESTORE_FILE_SIZE
      then Inl (FileTooLarge (mf_relative_path entry) (max (mf_raw_length entry) (mf_padded_length entry)))
      else if mf_raw_length entry > mf_padded_length entry
      then Inl (IntegrityMismatch (mf_relative_path entry)
             (''padded >= raw (raw='' @ show_word (mf_raw_length entry) @ '')'')
             (''padded='' @ show_word (mf_padded_length entry)))
      else Inr ())"

definition decrypt_entry ::
  "hex_crate \<Rightarrow> crypto_crate \<Rightarrow> decrypt_ctx \<Rightarrow> ManifestFileEntry \<Rightarrow> SnapshotError + DecryptedFile" where
  "decrypt_entry h cr x entry =
     rbind (validate_safe_relative_path (mf_relative_path entry)) (\<lambda>_.
     rbind (entry_bounds entry) (\<lambda>_.
     rbind (open_chunks h cr x entry (enumerate 0 (mf_chunk_cids entry)) None []) (\<lambda>(wire_version, assembled).
     if (word_of_nat (length assembled) :: u64) \<noteq> mf_padded_length entry
     then Inl (IntegrityMismatch (mf_relative_path entry) (show_word (mf_raw_length entry) @ '' bytes'')
            (show_nat (length assembled) @ '' bytes''))
     else
       let plaintext = take (unat (mf_raw_length entry)) assembled;
           actual_sha256 = compute_digest cr plaintext
       in if actual_sha256 \<noteq> mf_plaintext_sha256 entry
          then Inl (IntegrityMismatch (mf_relative_path entry)
                 (hex_encode h (mf_plaintext_sha256 entry)) (hex_encode h actual_sha256))
          else if wire_version = Some CHUNK_WIRE_VERSION_V2 \<and>
             derive_v2_file_version_id cr (dx_domain_key x) (dx_vault_id x) (dx_epoch x) actual_sha256 \<noteq> mf_file_version_id entry
          then Inl (InvalidInput ''V2 file version identifier mismatch'')
          else Inr \<lparr>df_relative_path = mf_relative_path entry, df_plaintext = plaintext\<rparr>)))"

definition decrypt_snapshot ::
  "hex_crate \<Rightarrow> crypto_crate \<Rightarrow> schema_codecs \<Rightarrow> bytes \<Rightarrow> bytes \<Rightarrow> u64 \<Rightarrow> bytes \<Rightarrow> ChunkWireObject list \<Rightarrow>
   SnapshotError + DecryptedFile list" where
  "decrypt_snapshot h cr k vault_id epoch_key epoch encrypted_manifest chunks =
     rbind (rmap_err Snapshot_CryptoError (derive_manifest_key cr epoch_key epoch)) (\<lambda>manifest_key.
     rbind (rmap_err Snapshot_CryptoError
              (decrypt_chunk cr manifest_key encrypted_manifest (manifest_aad vault_id epoch))) (\<lambda>manifest_bytes.
     rbind (rmap_err Snapshot_FormatError (from_canonical_cbor (k_manifest k) manifest_bytes)) (\<lambda>manifest.
     if sm_version manifest \<noteq> PROTOCOL_VERSION \<or> sm_vault_id manifest \<noteq> vault_id \<or> sm_epoch manifest \<noteq> epoch
     then Inl (InvalidInput ''Manifest version/vault/epoch mismatch'')
     else
       rbind (rmap_err Snapshot_FormatError (index_chunks cr (k_chunk k) chunks)) (\<lambda>chunk_map.
       rtraverse
         (decrypt_entry h cr
           \<lparr>dx_vault_id = vault_id, dx_epoch = epoch,
            dx_domain_key = derive_v2_chunk_domain_key cr epoch_key vault_id epoch, dx_chunks = chunk_map\<rparr>)
         (filter (\<lambda>entry. \<not> mf_is_deleted entry) (sm_files manifest))))))"

subsection \<open>Lemmas on paths\<close>

definition safe_component :: "Component \<Rightarrow> bool" where
  "safe_component c \<longleftrightarrow> (\<exists>s. c = Normal s \<and> \<not> ends_with ''.'' s \<and> \<not> ends_with '' '' s \<and>
     to_ascii_uppercase (hd (split_char (CHR ''.'') s)) \<notin> set reserved_names)"

lemma check_component_iff: "check_component p c = Inr () \<longleftrightarrow> safe_component c"
  by (cases c) (auto simp: safe_component_def)

lemma validate_safe_iff:
  "validate_safe_relative_path p = Inr () \<longleftrightarrow>
     p \<noteq> [] \<and> (\<forall>c\<in>set p. \<not> illegal_char c) \<and> (\<forall>c\<in>set (path_components (normalize_slashes p)). safe_component c)"
proof -
  have "find illegal_char p = None \<longleftrightarrow> (\<forall>c\<in>set p. \<not> illegal_char c)" by (auto simp: find_None_iff)
  then show ?thesis
    by (auto simp: validate_safe_relative_path_def rcheck_all_eq_Inr check_component_iff split: option.splits)
qed

lemma normalize_slashes_idem [simp]: "normalize_slashes (normalize_slashes p) = normalize_slashes p"
  by (simp add: normalize_slashes_def replace_char_def)

lemma validate_safe_normalize:
  assumes "validate_safe_relative_path p = Inr ()"
  shows "validate_safe_relative_path (normalize_slashes p) = Inr ()"
proof -
  have "\<not> illegal_char (CHR ''/'')" by (simp add: illegal_char_def)
  then have "\<forall>c\<in>set (normalize_slashes p). \<not> illegal_char c"
    using assms by (auto simp: validate_safe_iff normalize_slashes_def replace_char_def)
  moreover have "normalize_slashes p \<noteq> []" using assms by (simp add: validate_safe_iff normalize_slashes_def replace_char_def)
  ultimately show ?thesis using assms by (simp add: validate_safe_iff)
qed

lemma path_components_empty: "path_components p = [] \<Longrightarrow> p = []"
proof (rule ccontr)
  assume p: "path_components p = []" "p \<noteq> []"
  then have "\<not> starts_with ''/'' p" "hd (segments p) \<noteq> ''.''" "seg_comps (segments p) = []"
    by (auto simp: path_components_def lead_def split: if_splits)
  moreover obtain x xs where x: "segments p = x # xs" by (cases "segments p") auto
  moreover have "x \<noteq> []" using p(2) calculation(1) x by (cases p) (auto split: if_splits list.splits)
  ultimately show False by (auto simp: seg_component_def split: option.splits if_splits)
qed

text \<open>A path that passes the check is relative and has only ordinary components.\<close>

lemma safe_normal_path:
  assumes "validate_safe_relative_path p = Inr ()"
  shows "normal_path (normalize_slashes p)"
proof -
  have "normalize_slashes p \<noteq> []" using assms by (simp add: validate_safe_iff normalize_slashes_def replace_char_def)
  then have "path_components (normalize_slashes p) \<noteq> []" using path_components_empty by blast
  then show ?thesis using assms by (auto simp: normal_path_def validate_safe_iff safe_component_def)
qed

lemma validate_no_links_iff:
  "validate_no_links ls p = Inr () \<longleftrightarrow>
     (\<forall>a\<in>set (path_ancestors p). ls a = Inr False \<or> (\<exists>e. ls a = Inl (NotFound e)))"
proof -
  have "check_link ls a = Inr () \<longleftrightarrow> ls a = Inr False \<or> (\<exists>e. ls a = Inl (NotFound e))" for a
    by (auto simp: check_link_def split: sum.splits io_error.splits)
  then show ?thesis by (simp add: validate_no_links_def rcheck_all_eq_Inr)
qed

subsection \<open>Lemmas on decryption\<close>

lemma index_chunks_lookup:
  assumes "rtraverse (compute_cid cr c) chunks = Inr cids" "inj_on (compute_cid cr c) (set chunks)"
    and "w \<in> set chunks" "compute_cid cr c w = Inr cid"
  shows "index_chunks cr c chunks = Inr (map_of (rev (zip cids chunks)))" "map_of (rev (zip cids chunks)) cid = Some w"
proof -
  have l: "list_all2 (\<lambda>v i. compute_cid cr c v = Inr i) chunks cids" using assms(1) by (simp only: rtraverse_eq_Inr)
  have z: "compute_cid cr c v = Inr i \<and> v \<in> set chunks" if "(i, v) \<in> set (zip cids chunks)" for i v
    using l that by (auto simp: list_all2_conv_all_nth in_set_zip)
  obtain n where n: "n < length chunks" "chunks ! n = w" using assms(3) by (auto simp: in_set_conv_nth)
  then have "(cid, w) \<in> set (zip cids chunks)"
    using l assms(4) by (force simp: list_all2_conv_all_nth in_set_zip)
  then have "\<exists>v. map_of (rev (zip cids chunks)) cid = Some v"
    using weak_map_of_SomeI[of cid w "rev (zip cids chunks)"] by simp
  then obtain v where v: "map_of (rev (zip cids chunks)) cid = Some v" ..
  then have "(cid, v) \<in> set (zip cids chunks)" by (auto dest: map_of_SomeD)
  then have "v = w" using z assms by (metis inj_onD)
  with v show "map_of (rev (zip cids chunks)) cid = Some w" by simp
  show "index_chunks cr c chunks = Inr (map_of (rev (zip cids chunks)))" using assms(1) by (simp add: index_chunks_def)
qed

lemma compute_cid_length: "crypto_ok cr \<Longrightarrow> compute_cid cr c w = Inr cid \<Longrightarrow> length cid = 32"
  by (auto simp: compute_cid_def compute_digest_def result_simps crypto_okD)

lemma open_chunks_run:
  assumes "length cids = length raws"
    and "\<And>i v n. i < length raws \<Longrightarrow> v = None \<or> v = Some ver \<Longrightarrow> n + length (raws ! i) \<le> P \<Longrightarrow>
      open_chunk h cr x entry (off + i, cids ! i) v n = Inr (ver, raws ! i)"
    and "v = None \<or> v = Some ver" "length asm + length (concat raws) \<le> P"
  shows "open_chunks h cr x entry (enumerate off cids) v asm = Inr (if raws = [] then v else Some ver, asm @ concat raws)"
  using assms
proof (induction cids raws arbitrary: off v asm rule: list_induct2')
  case (4 cid cids raw raws)
  have "open_chunk h cr x entry (off, cid) v (length asm) = Inr (ver, raw)"
    using "4.prems"(2)[of 0 v "length asm"] "4.prems"(3,4) by simp
  moreover have "open_chunks h cr x entry (enumerate (Suc off) cids) (Some ver) (asm @ raw) =
      Inr (if raws = [] then Some ver else Some ver, (asm @ raw) @ concat raws)"
  proof (rule "4.IH")
    show "open_chunk h cr x entry (Suc off + i, cids ! i) v n = Inr (ver, raws ! i)"
      if "i < length raws" "v = None \<or> v = Some ver" "n + length (raws ! i) \<le> P" for i v n
      using "4.prems"(2)[of "Suc i" v n] that by simp
  qed (use "4.prems" in simp_all)
  ultimately show ?case by simp
qed simp_all

subsection \<open>A captured file decrypts\<close>

text \<open>The chunks of a captured file, seen from the decryption of its manifest entry.\<close>

definition chunk_opens ::
  "crypto_crate \<Rightarrow> decrypt_ctx \<Rightarrow> ManifestFileEntry \<Rightarrow> u32 \<Rightarrow> nat \<Rightarrow> ChunkWireObject \<Rightarrow> bytes \<Rightarrow> bool" where
  "chunk_opens cr x entry ver i w raw \<longleftrightarrow>
     cw_version w = ver \<and> cw_vault_id w = dx_vault_id x \<and> cw_key_epoch w = dx_epoch x \<and>
     length (cw_file_version_id w) = 32 \<and> unat (cw_declared_padded_length w) = length raw \<and>
     (if ver = PROTOCOL_VERSION then decrypt_v1 cr entry i w = Inr raw
      else ver = CHUNK_WIRE_VERSION_V2 \<and> decrypt_v2 cr x entry w = Inr raw)"

lemma open_chunk_ok:
  assumes "chunk_opens cr x entry ver i w raw" "length cid = 32" "dx_chunks x cid = Some w"
    and "v = None \<or> v = Some ver" "n + length raw \<le> unat (mf_padded_length entry)"
  shows "open_chunk h cr x entry (i, cid) v n = Inr (ver, raw)"
  using assms by (auto simp: open_chunk_def chunk_opens_def split: if_splits)

lemma v1_chunk_opens:
  assumes "crypto_ok cr" "length fvk = 32" "length vault = 32" "i < count" "count < 2 ^ 32" "length raw < 2 ^ 32"
    and "encrypt_v1_chunk cr vault e fvid fvk count (i, raw) = Inr w" "length fvid = 32"
    and "dx_vault_id x = vault" "dx_epoch x = e" "mf_file_version_id entry = fvid" "mf_file_version_key entry = fvk"
    and "length (mf_chunk_cids entry) = count"
  shows "chunk_opens cr x entry PROTOCOL_VERSION i w raw"
proof -
  have "length raw \<le> 2 ^ 37" using assms(6) by simp
  from encrypt_v1_chunk_ok[OF assms(1,2) this, of vault e fvid count i] assms(7)
  have w: "w = (v1_chunk vault e fvid count i raw)\<lparr>cw_payload := cw_payload w\<rparr>"
    and d: "decrypt_chunk cr fvk (cw_payload w) (compute_aad w) = Inr raw" by auto
  have "cw_version w = PROTOCOL_VERSION" "cw_vault_id w = vault" "cw_key_epoch w = e" "cw_file_version_id w = fvid"
    "cw_chunk_index w = word_of_nat i" "cw_total_chunks w = word_of_nat count" "cw_declared_padded_length w = word_of_nat (length raw)"
    by (subst w, simp add: v1_chunk_def)+
  then show ?thesis using assms d by (simp add: chunk_opens_def decrypt_v1_def unat_of_nat)
qed

lemma v2_chunk_opens:
  assumes "crypto_ok cr" "length vault = 32" "length raw < 2 ^ 32"
    and "encrypt_v2_chunk cr vault e dk raw = Inr w"
    and "dx_vault_id x = vault" "dx_epoch x = e" "mf_file_version_key entry = dk" "dx_domain_key x = dk"
  shows "chunk_opens cr x entry CHUNK_WIRE_VERSION_V2 i w raw"
proof -
  let ?oid = "derive_v2_chunk_id cr dk vault e (compute_digest cr raw)"
  have "length raw \<le> 2 ^ 37" using assms(3) by simp
  from encrypt_v2_chunk_ok[OF assms(1) this, of vault e dk] assms(4)
  have w: "w = (v2_chunk vault e ?oid raw)\<lparr>cw_payload := cw_payload w\<rparr>"
    and n: "take 24 (cw_payload w) = snd (derive_v2_chunk_key_nonce cr dk vault e ?oid)" "24 \<le> length (cw_payload w)"
    and d: "decrypt_chunk cr (fst (derive_v2_chunk_key_nonce cr dk vault e ?oid)) (cw_payload w) (compute_aad w) = Inr raw"
    by auto
  have "cw_version w = CHUNK_WIRE_VERSION_V2" "cw_vault_id w = vault" "cw_key_epoch w = e" "cw_file_version_id w = ?oid"
    "cw_chunk_index w = 0" "cw_total_chunks w = 1" "cw_declared_padded_length w = word_of_nat (length raw)"
    by (subst w, simp add: v2_chunk_def)+
  then show ?thesis using assms n d crypto_okD(1)[OF assms(1)]
    by (simp add: chunk_opens_def decrypt_v2_def unat_of_nat case_prod_beta PROTOCOL_VERSION_def CHUNK_WIRE_VERSION_V2_def)
qed

lemma decrypt_entry_ok:
  assumes "crypto_ok cr" "length d \<le> 2 ^ 28" "length (mf_file_version_key entry) = 32"
    and "validate_safe_relative_path (mf_relative_path entry) = Inr ()"
    and "mf_raw_length entry = word_of_nat (length d)" "mf_padded_length entry = word_of_nat (length (pad d))"
    and "mf_plaintext_sha256 entry = compute_digest cr d" "concat raws = pad d" "raws \<noteq> []"
    and "length (mf_chunk_cids entry) = length raws" "length ws = length raws"
    and "\<And>i. i < length raws \<Longrightarrow> chunk_opens cr x entry ver i (ws ! i) (raws ! i) \<and>
      length (mf_chunk_cids entry ! i) = 32 \<and> dx_chunks x (mf_chunk_cids entry ! i) = Some (ws ! i)"
    and "ver = CHUNK_WIRE_VERSION_V2 \<Longrightarrow>
      mf_file_version_id entry = derive_v2_file_version_id cr (dx_domain_key x) (dx_vault_id x) (dx_epoch x) (compute_digest cr d)"
  shows "decrypt_entry h cr x entry = Inr \<lparr>df_relative_path = mf_relative_path entry, df_plaintext = d\<rparr>"
proof -
  have lp: "length (pad d) \<le> 2 ^ 28" "length d \<le> length (pad d)"
    using assms(2) by (simp_all add: length_pad MIN_PADDING_SIZE_def)
  then have u: "unat (word_of_nat (length d) :: u64) = length d" "unat (word_of_nat (length (pad d)) :: u64) = length (pad d)"
    using assms(2) by (simp_all add: unat_of_nat)
  have "entry_bounds entry = Inr ()"
    using lp assms(2,3) u unfolding entry_bounds_def assms(5,6)
    by (simp add: MAX_RESTORE_FILE_SIZE_def word_less_nat_alt not_less)
  moreover have "open_chunks h cr x entry (enumerate 0 (mf_chunk_cids entry)) None [] =
      Inr (if raws = [] then None else Some ver, [] @ concat raws)"
  proof (rule open_chunks_run[where P = "length (pad d)"])
    fix i v n
    assume "i < length raws" "v = None \<or> v = Some ver" "n + length (raws ! i) \<le> length (pad d)"
    then show "open_chunk h cr x entry (0 + i, mf_chunk_cids entry ! i) v n = Inr (ver, raws ! i)"
      using assms(12)[of i] u(2) by (auto simp: assms(6) intro!: open_chunk_ok)
  qed (use assms(8,10) in simp_all)
  ultimately show ?thesis
    using assms u pad_take[of d] unfolding decrypt_entry_def by (simp add: Let_def)
qed

lemma read_file_contents:
  assumes "read_file root rel full v = Inr d"
  shows "fv_contents v = Inr d" "length d \<le> 2 ^ 28" "\<not> (word_of_nat (length d) :: u64) > MAX_FILE_SIZE"
proof -
  obtain all where all: "fv_contents v = Inr all" "d = take (unat (MAX_FILE_SIZE + 1)) all"
    "\<not> (word_of_nat (length d) :: u64) > MAX_FILE_SIZE"
    using assms by (auto simp: read_file_def result_simps Let_def)
  have m: "unat (MAX_FILE_SIZE + 1) = 2 ^ 28 + 1" by (simp add: MAX_FILE_SIZE_def)
  then have "length d \<le> 2 ^ 28 + 1" using all(2) by simp
  then show l: "length d \<le> 2 ^ 28" using all(3) by (simp add: MAX_FILE_SIZE_def word_less_nat_alt unat_of_nat)
  then have "length all \<le> 2 ^ 28 + 1" using all(2) m by (cases "length all \<le> 2 ^ 28 + 1") simp_all
  then show "fv_contents v = Inr d" using all m by simp
  show "\<not> (word_of_nat (length d) :: u64) > MAX_FILE_SIZE" by (rule all(3))
qed

lemma raw_chunks_few: "length d \<le> 2 ^ 28 \<Longrightarrow> length (raw_chunks env (pad d)) < 2 ^ 32"
proof -
  assume "length d \<le> 2 ^ 28"
  then have "length (pad d) \<le> 2 ^ 28" by (simp add: length_pad MIN_PADDING_SIZE_def)
  with raw_chunks_count[of env "pad d"] show ?thesis by auto
qed

lemma raw_chunks_pad_nonempty: "raw_chunks env (pad d) \<noteq> []"
proof -
  have "pad d \<noteq> []" using length_pad[of d] by (auto simp: MIN_PADDING_SIZE_def)
  then show ?thesis using cdc.nonempty[OF raw_chunks_Some] by blast
qed

text \<open>What the two chunkers give the manifest entry, in the terms of its decryption.\<close>

definition captured_opens ::
  "crypto_crate \<Rightarrow> capture_ctx \<Rightarrow> decrypt_ctx \<Rightarrow> bytes \<Rightarrow> ManifestFileEntry \<Rightarrow> ChunkedFile \<Rightarrow> u32 \<Rightarrow> bool" where
  "captured_opens cr x y d entry cf ver \<longleftrightarrow>
     length (cf_chunks cf) = length (raw_chunks (cx_profile x) (pad d)) \<and>
     length (cf_file_version_key cf) = 32 \<and> cf_raw_length cf = word_of_nat (length d) \<and>
     cf_padded_length cf = word_of_nat (length (pad d)) \<and> cf_plaintext_sha256 cf = compute_digest cr d \<and>
     (\<forall>i < length (cf_chunks cf).
       chunk_opens cr y entry ver i (cf_chunks cf ! i) (raw_chunks (cx_profile x) (pad d) ! i)) \<and>
     (ver = CHUNK_WIRE_VERSION_V2 \<longrightarrow> cf_file_version_id cf =
        derive_v2_file_version_id cr (dx_domain_key y) (dx_vault_id y) (dx_epoch y) (compute_digest cr d))"

lemma raw_chunk_small: "i < length (raw_chunks env d) \<Longrightarrow> length (raw_chunks env d ! i) < 2 ^ 32"
  using raw_chunks_bounds[OF nth_mem, of i env d] by simp

lemma captured_v1_opens:
  assumes "crypto_ok cr" "length (cx_vault_id x) = 32" "length d \<le> 2 ^ 28"
    and "\<not> (word_of_nat (length d) :: u64) > MAX_FILE_SIZE" "capture_chunks cr x d = Inr cf" "cx_write_version x = LegacyV1"
    and "dx_vault_id y = cx_vault_id x" "dx_epoch y = cx_epoch x" "length cids = length (cf_chunks cf)"
  shows "captured_opens cr x y d (file_entry p fid cf cids) cf PROTOCOL_VERSION"
proof -
  let ?raws = "raw_chunks (cx_profile x) (pad d)"
  let ?fvid = "derive_file_version_id cr (cx_vault_id x) (cx_epoch x) (compute_digest cr d)"
  note ok = crypto_okD(1)[OF assms(1)]
  have d64: "length d < 2 ^ 64" using assms(3) by simp
  obtain fvk where f: "length fvk = 32" and
    r: "rtraverse (encrypt_v1_chunk cr (cx_vault_id x) (cx_epoch x) ?fvid fvk (length ?raws)) (enumerate 0 ?raws) = Inr (cf_chunks cf)" and
    cf: "cf = \<lparr>cf_file_version_id = ?fvid, cf_file_version_key = fvk, cf_raw_length = word_of_nat (length d),
      cf_padded_length = word_of_nat (length (pad d)), cf_plaintext_sha256 = compute_digest cr d, cf_chunks = cf_chunks cf\<rparr>"
    using chunk_and_encrypt_file_ok[OF assms(1) d64 assms(4), of "cx_profile x" "cx_vault_id x" "cx_epoch x" "cx_epoch_key x"] assms(5,6)
    by (auto simp: capture_chunks_def)
  have fs: "cf_file_version_id cf = ?fvid" "cf_file_version_key cf = fvk" "cf_raw_length cf = word_of_nat (length d)"
    "cf_padded_length cf = word_of_nat (length (pad d))" "cf_plaintext_sha256 cf = compute_digest cr d"
    by (subst cf, simp)+
  have l: "length (cf_chunks cf) = length ?raws" using r by (auto simp: rtraverse_eq_Inr dest: list_all2_lengthD)
  have "chunk_opens cr y (file_entry p fid cf cids) PROTOCOL_VERSION i (cf_chunks cf ! i) (?raws ! i)"
    if i: "i < length ?raws" for i
  proof (rule v1_chunk_opens[OF assms(1) f assms(2) i raw_chunks_few[OF assms(3)] raw_chunk_small[OF i]])
    show "encrypt_v1_chunk cr (cx_vault_id x) (cx_epoch x) ?fvid fvk (length ?raws) (i, ?raws ! i) = Inr (cf_chunks cf ! i)"
      using r i by (auto simp: rtraverse_eq_Inr list_all2_conv_all_nth nth_enumerate_eq)
  qed (use assms(7-9) ok l fs in \<open>simp_all add: file_entry_def\<close>)
  then show ?thesis using l f fs by (simp add: captured_opens_def PROTOCOL_VERSION_def CHUNK_WIRE_VERSION_V2_def)
qed

lemma captured_v2_opens:
  assumes "crypto_ok cr" "length (cx_vault_id x) = 32" "length d \<le> 2 ^ 28"
    and "\<not> (word_of_nat (length d) :: u64) > MAX_FILE_SIZE" "capture_chunks cr x d = Inr cf" "cx_write_version x = V2"
    and "dx_vault_id y = cx_vault_id x" "dx_epoch y = cx_epoch x" "length cids = length (cf_chunks cf)"
    and "dx_domain_key y = derive_v2_chunk_domain_key cr (cx_epoch_key x) (cx_vault_id x) (cx_epoch x)"
  shows "captured_opens cr x y d (file_entry p fid cf cids) cf CHUNK_WIRE_VERSION_V2"
proof -
  let ?raws = "raw_chunks (cx_profile x) (pad d)"
  let ?dk = "derive_v2_chunk_domain_key cr (cx_epoch_key x) (cx_vault_id x) (cx_epoch x)"
  let ?fvid = "derive_v2_file_version_id cr ?dk (cx_vault_id x) (cx_epoch x) (compute_digest cr d)"
  note ok = crypto_okD(1)[OF assms(1)]
  have d64: "length d < 2 ^ 64" using assms(3) by simp
  have r: "rtraverse (encrypt_v2_chunk cr (cx_vault_id x) (cx_epoch x) ?dk) ?raws = Inr (cf_chunks cf)" and
    cf: "cf = \<lparr>cf_file_version_id = ?fvid, cf_file_version_key = ?dk, cf_raw_length = word_of_nat (length d),
      cf_padded_length = word_of_nat (length (pad d)), cf_plaintext_sha256 = compute_digest cr d, cf_chunks = cf_chunks cf\<rparr>"
    using chunk_and_encrypt_file_v2_ok[OF assms(1) d64 assms(4), of "cx_profile x" "cx_vault_id x" "cx_epoch x" "cx_epoch_key x"] assms(5,6)
    by (auto simp: capture_chunks_def)
  have fs: "cf_file_version_id cf = ?fvid" "cf_file_version_key cf = ?dk" "cf_raw_length cf = word_of_nat (length d)"
    "cf_padded_length cf = word_of_nat (length (pad d))" "cf_plaintext_sha256 cf = compute_digest cr d"
    by (subst cf, simp)+
  have l: "length (cf_chunks cf) = length ?raws" using r by (auto simp: rtraverse_eq_Inr dest: list_all2_lengthD)
  have "chunk_opens cr y (file_entry p fid cf cids) CHUNK_WIRE_VERSION_V2 i (cf_chunks cf ! i) (?raws ! i)"
    if i: "i < length ?raws" for i
  proof (rule v2_chunk_opens[OF assms(1,2) raw_chunk_small[OF i]])
    show "encrypt_v2_chunk cr (cx_vault_id x) (cx_epoch x) ?dk (?raws ! i) = Inr (cf_chunks cf ! i)"
      using r i by (auto simp: rtraverse_eq_Inr list_all2_conv_all_nth)
  qed (use assms(7-10) fs in \<open>simp_all add: file_entry_def\<close>)
  then show ?thesis using l ok fs assms(7-10) by (simp add: captured_opens_def)
qed

lemma file_entry_cids [simp]: "mf_chunk_cids (file_entry p fid cf cids) = cids"
  by (simp add: file_entry_def)

text \<open>One tracked file: a deleted one leaves a tombstone, any other is decrypted to what was read.\<close>

lemma capture_file_decrypts:
  assumes "crypto_ok cr" "length (cx_vault_id x) = 32"
    and "capture_file cr k x root croot (p, fid, v) = Inr c"
    and "dx_vault_id y = cx_vault_id x" "dx_epoch y = cx_epoch x"
    and "dx_domain_key y = derive_v2_chunk_domain_key cr (cx_epoch_key x) (cx_vault_id x) (cx_epoch x)"
    and "\<And>w cid. w \<in> set (cap_chunks c) \<Longrightarrow> compute_cid cr (k_chunk k) w = Inr cid \<Longrightarrow> dx_chunks y cid = Some w"
  shows "(mf_is_deleted (cap_entry c) \<longleftrightarrow> \<not> fv_exists v) \<and>
    (fv_exists v \<longrightarrow> decrypt_entry h cr y (cap_entry c) =
       Inr \<lparr>df_relative_path = normalize_slashes p, df_plaintext = projr (fv_contents v)\<rparr>)"
proof (cases "fv_exists v")
  case False
  then show ?thesis using assms(3) by (auto simp: capture_file_def result_simps tombstone_def Let_def)
next
  case True
  obtain d cf cids where safe: "validate_safe_relative_path p = Inr ()" and d: "read_file croot p (path_join root p) v = Inr d"
    and cf: "capture_chunks cr x d = Inr cf" and cids: "rtraverse (compute_cid cr (k_chunk k)) (cf_chunks cf) = Inr cids"
    and c: "cap_entry c = file_entry p fid cf cids" "cap_chunks c = cf_chunks cf"
    using assms(3) True by (auto simp: capture_file_def result_simps Let_def)
  note rd = read_file_contents[OF d]
  have ci: "length cids = length (cf_chunks cf)" "\<And>i. i < length cids \<Longrightarrow> compute_cid cr (k_chunk k) (cf_chunks cf ! i) = Inr (cids ! i)"
    using cids by (auto simp: rtraverse_eq_Inr list_all2_conv_all_nth)
  have "\<exists>ver. captured_opens cr x y d (file_entry p fid cf cids) cf ver"
    using captured_v1_opens[OF assms(1,2) rd(2,3) cf _ assms(4,5) ci(1)] captured_v2_opens[OF assms(1,2) rd(2,3) cf _ assms(4,5) ci(1) assms(6)]
    by (cases "cx_write_version x") blast+
  then obtain ver where o: "captured_opens cr x y d (file_entry p fid cf cids) cf ver" ..
  have "decrypt_entry h cr y (cap_entry c) = Inr \<lparr>df_relative_path = mf_relative_path (cap_entry c), df_plaintext = d\<rparr>"
  proof (rule decrypt_entry_ok[OF assms(1) rd(2) _ _ _ _ _ raw_chunks_concat raw_chunks_pad_nonempty, of _ "cx_profile x" "cf_chunks cf" _ ver])
    fix i assume "i < length (raw_chunks (cx_profile x) (pad d))"
    then have i: "i < length (cf_chunks cf)" using o by (simp add: captured_opens_def)
    then have cid: "compute_cid cr (k_chunk k) (cf_chunks cf ! i) = Inr (cids ! i)" using ci by simp
    have "dx_chunks y (cids ! i) = Some (cf_chunks cf ! i)" using assms(7)[OF _ cid] i by (simp add: c)
    then show "chunk_opens cr y (cap_entry c) ver i (cf_chunks cf ! i) (raw_chunks (cx_profile x) (pad d) ! i) \<and>
        length (mf_chunk_cids (cap_entry c) ! i) = 32 \<and> dx_chunks y (mf_chunk_cids (cap_entry c) ! i) = Some (cf_chunks cf ! i)"
      using o i compute_cid_length[OF assms(1) cid] unfolding captured_opens_def c by simp
  qed (use o ci validate_safe_normalize[OF safe] in \<open>simp_all add: captured_opens_def c file_entry_def\<close>)
  then show ?thesis using True rd(1) by (simp add: c file_entry_def)
qed

subsection \<open>Properties\<close>

definition captured_files :: "(string \<times> bytes \<times> file_view) list \<Rightarrow> DecryptedFile list" where
  "captured_files tracked_files =
     map (\<lambda>(p, _, v). \<lparr>df_relative_path = normalize_slashes p, df_plaintext = projr (fv_contents v)\<rparr>)
       (filter (\<lambda>(_, _, v). fv_exists v) tracked_files)"

lemma captured_list_decrypts:
  assumes "list_all2 (\<lambda>t c. capture_file cr k x root croot t = Inr c) tracked caps"
    and "\<And>p fid v c. c \<in> set caps \<Longrightarrow> capture_file cr k x root croot (p, fid, v) = Inr c \<Longrightarrow>
      (mf_is_deleted (cap_entry c) \<longleftrightarrow> \<not> fv_exists v) \<and>
      (fv_exists v \<longrightarrow> dec (cap_entry c) = Inr \<lparr>df_relative_path = normalize_slashes p, df_plaintext = projr (fv_contents v)\<rparr>)"
  shows "rtraverse dec (filter (\<lambda>e. \<not> mf_is_deleted e) (map cap_entry caps)) = Inr (captured_files tracked)"
  using assms
proof (induction rule: list_all2_induct)
  case (Cons t tracked c caps)
  obtain p fid v where t: "t = (p, fid, v)" by (cases t)
  have "rtraverse dec (filter (\<lambda>e. \<not> mf_is_deleted e) (map cap_entry caps)) = Inr (captured_files tracked)"
    using Cons.IH Cons.prems by simp
  then show ?case using Cons.prems[of c p fid v] Cons.hyps(1) by (auto simp: t captured_files_def)
qed (simp add: captured_files_def)

lemma created_decrypts:
  assumes "crypto_ok cr" "codecs_ok k" "length (cx_vault_id x) = 32" "length (cd_nonce d) = 24"
    and "create_snapshot_with_signer_and_write_version cr k x d root_links root_canonical vault_root tracked_files = Inr out"
    and "set (so_chunks out) \<subseteq> set chunks" "inj_on (compute_cid cr (k_chunk k)) (set chunks)"
    and "rtraverse (compute_cid cr (k_chunk k)) chunks = Inr cids"
  shows "decrypt_snapshot h cr k (cx_vault_id x) (cx_epoch_key x) (cx_epoch x) (so_encrypted_manifest out) chunks =
    Inr (captured_files tracked_files)"
proof -
  obtain croot caps mb mk where caps: "rtraverse (capture_file cr k x vault_root croot) tracked_files = Inr caps"
    and mb: "to_canonical_cbor (k_manifest k) \<lparr>sm_version = PROTOCOL_VERSION, sm_vault_id = cx_vault_id x, sm_epoch = cx_epoch x,
      sm_snapshot_id = cd_snapshot_id d, sm_files = map cap_entry caps\<rparr> = Inr mb"
    and mk: "derive_manifest_key cr (cx_epoch_key x) (cx_epoch x) = Inr mk"
    and em: "encrypt_chunk cr (cd_nonce d) mk mb (manifest_aad (cx_vault_id x) (cx_epoch x)) = Inr (so_encrypted_manifest out)"
    and ch: "so_chunks out = concat (map cap_chunks caps)"
    using assms(5) by (auto simp: create_snapshot_with_signer_and_write_version_def result_simps Let_def)
  let ?y = "\<lparr>dx_vault_id = cx_vault_id x, dx_epoch = cx_epoch x,
    dx_domain_key = derive_v2_chunk_domain_key cr (cx_epoch_key x) (cx_vault_id x) (cx_epoch x),
    dx_chunks = map_of (rev (zip cids chunks))\<rparr>"
  have dec: "decrypt_chunk cr mk (so_encrypted_manifest out) (manifest_aad (cx_vault_id x) (cx_epoch x)) = Inr mb"
    using decrypt_encrypt_chunk[OF crypto_okD(2)[OF assms(1)] assms(4)] em by (simp add: encrypt_chunk_def)
  have mr: "from_canonical_cbor (k_manifest k) mb = Inr \<lparr>sm_version = PROTOCOL_VERSION, sm_vault_id = cx_vault_id x,
      sm_epoch = cx_epoch x, sm_snapshot_id = cd_snapshot_id d, sm_files = map cap_entry caps\<rparr>"
    using cbor_roundtrip[OF _ mb] assms(2) by (simp add: codecs_ok_def)
  have "rtraverse (decrypt_entry h cr ?y) (filter (\<lambda>e. \<not> mf_is_deleted e) (map cap_entry caps)) = Inr (captured_files tracked_files)"
  proof (rule captured_list_decrypts[OF caps[unfolded rtraverse_eq_Inr]])
    fix p fid v c
    assume c: "c \<in> set caps" "capture_file cr k x vault_root croot (p, fid, v) = Inr c"
    have "w \<in> set chunks" if "w \<in> set (cap_chunks c)" for w using that c(1) ch assms(6) by auto
    then show "(mf_is_deleted (cap_entry c) \<longleftrightarrow> \<not> fv_exists v) \<and> (fv_exists v \<longrightarrow> decrypt_entry h cr ?y (cap_entry c) =
        Inr \<lparr>df_relative_path = normalize_slashes p, df_plaintext = projr (fv_contents v)\<rparr>)"
      by (intro capture_file_decrypts[OF assms(1,3) c(2)]) (simp_all add: index_chunks_lookup[OF assms(8,7)])
  qed
  then show ?thesis using mk dec mr assms(8) by (simp add: decrypt_snapshot_def index_chunks_def)
qed

text \<open>
  C38. A captured snapshot can always be restored: decrypting its manifest with the
  epoch key, given any collection of chunks that contains the captured ones and has
  no two chunks with the same identifier, returns exactly the tracked files that
  existed, in order, each under its path with forward slashes and with the contents
  that were read, in both wire versions and for every chunking profile.
\<close>

theorem snapshot_roundtrip:
  assumes "crypto_ok cr" "codecs_ok k" "length (cx_vault_id x) = 32" "length (cd_nonce d) = 24"
    and "create_snapshot_with_signer_and_write_version cr k x d root_links root_canonical vault_root tracked_files = Inr out"
    and "set (so_chunks out) \<subseteq> set chunks" "inj_on (compute_cid cr (k_chunk k)) (set chunks)"
    and "rtraverse (compute_cid cr (k_chunk k)) chunks = Inr cids"
  shows "decrypt_snapshot h cr k (cx_vault_id x) (cx_epoch_key x) (cx_epoch x) (so_encrypted_manifest out) chunks =
    Inr (captured_files tracked_files)"
  by (rule created_decrypts[OF assms])

lemma decrypt_entry_sound:
  assumes "decrypt_entry h cr x e = Inr f"
  shows "df_relative_path f = mf_relative_path e \<and> validate_safe_relative_path (df_relative_path f) = Inr () \<and>
    compute_digest cr (df_plaintext f) = mf_plaintext_sha256 e \<and> length (df_plaintext f) = unat (mf_raw_length e) \<and>
    length (df_plaintext f) \<le> 2 ^ 28"
proof -
  obtain wv asm where b: "validate_safe_relative_path (mf_relative_path e) = Inr ()" "entry_bounds e = Inr ()"
    and l: "(word_of_nat (length asm) :: u64) = mf_padded_length e"
    and f: "compute_digest cr (take (unat (mf_raw_length e)) asm) = mf_plaintext_sha256 e"
      "f = \<lparr>df_relative_path = mf_relative_path e, df_plaintext = take (unat (mf_raw_length e)) asm\<rparr>"
    using assms by (auto simp: decrypt_entry_def result_simps Let_def split: prod.splits)
  have r: "unat (mf_raw_length e) \<le> unat (mf_padded_length e)" "unat (mf_raw_length e) \<le> 2 ^ 28"
    using b(2) by (auto simp: entry_bounds_def result_simps not_less word_le_nat_alt MAX_RESTORE_FILE_SIZE_def)
  have "unat (mf_padded_length e) \<le> length asm" unfolding l[symmetric] by (simp add: unat_of_nat)
  then show ?thesis using b f r by simp
qed

text \<open>
  C39. Storage is not trusted: whatever bytes and chunks it returns, files come out only
  if the manifest was encrypted under the manifest key of this epoch for this vault
  and epoch, and then there is one file per live manifest entry, under the path of
  the entry, with the length and the SHA-256 digest the manifest has, at most
  256 MiB long, and under a relative path made of ordinary components only.
\<close>

theorem decrypt_snapshot_sound:
  assumes "aead_ok cr" "decrypt_snapshot h cr k vault ek epoch em chunks = Inr files"
  shows "\<exists>mk mb manifest. derive_manifest_key cr ek epoch = Inr mk \<and>
    encrypt_chunk_with_nonce cr mk (take 24 em) mb (manifest_aad vault epoch) = Inr em \<and>
    from_canonical_cbor (k_manifest k) mb = Inr manifest \<and> sm_vault_id manifest = vault \<and> sm_epoch manifest = epoch \<and>
    list_all2 (\<lambda>e f. df_relative_path f = mf_relative_path e \<and> normal_path (normalize_slashes (df_relative_path f)) \<and>
        compute_digest cr (df_plaintext f) = mf_plaintext_sha256 e \<and>
        length (df_plaintext f) = unat (mf_raw_length e) \<and> length (df_plaintext f) \<le> 2 ^ 28)
      (filter (\<lambda>e. \<not> mf_is_deleted e) (sm_files manifest)) files"
proof -
  obtain mk mb manifest x where mk: "derive_manifest_key cr ek epoch = Inr mk"
    and d: "decrypt_chunk cr mk em (manifest_aad vault epoch) = Inr mb"
    and m: "from_canonical_cbor (k_manifest k) mb = Inr manifest" "sm_vault_id manifest = vault" "sm_epoch manifest = epoch"
    and r: "rtraverse (decrypt_entry h cr x) (filter (\<lambda>e. \<not> mf_is_deleted e) (sm_files manifest)) = Inr files"
    using assms(2) by (auto simp: decrypt_snapshot_def result_simps)
  have "list_all2 (\<lambda>e f. df_relative_path f = mf_relative_path e \<and> normal_path (normalize_slashes (df_relative_path f)) \<and>
        compute_digest cr (df_plaintext f) = mf_plaintext_sha256 e \<and>
        length (df_plaintext f) = unat (mf_raw_length e) \<and> length (df_plaintext f) \<le> 2 ^ 28)
      (filter (\<lambda>e. \<not> mf_is_deleted e) (sm_files manifest)) files"
    using r unfolding rtraverse_eq_Inr by (rule list_all2_mono) (use decrypt_entry_sound safe_normal_path in blast)
  then show ?thesis using mk m d decrypt_chunk_iff[OF assms(1)] by blast
qed

definition no_links :: "lstat \<Rightarrow> string \<Rightarrow> bool" where
  "no_links ls p \<longleftrightarrow> (\<forall>a\<in>set (path_ancestors p). ls a \<noteq> Inr True)"

definition coherent_read :: "string \<Rightarrow> string \<Rightarrow> file_view \<Rightarrow> bool" where
  "coherent_read croot full v \<longleftrightarrow>
     (\<exists>real real' pre post path m. fv_canonical v = Inr real \<and> path_starts_with real croot \<and>
       fv_canonical_after v = Inr real' \<and> path_starts_with real' croot \<and> no_links (fv_links_after v) full \<and>
       fv_pre_stat v = Inr pre \<and> fv_post_stat v = Inr post \<and> fv_path_stat v = Inr path \<and>
       st_len pre = st_len post \<and> st_len path = st_len post \<and> st_dev path = st_dev post \<and> st_ino path = st_ino post \<and>
       st_modified pre = Inr m \<and> st_modified post = Inr m \<and> st_modified path = Inr m)"

lemma validate_no_links_no_links: "validate_no_links ls p = Inr () \<Longrightarrow> no_links ls p"
  by (auto simp: validate_no_links_iff no_links_def)

lemma read_file_coherent:
  assumes "read_file croot rel full v = Inr d"
  shows "coherent_read croot full v"
proof -
  have "\<exists>real real' pre post path m. fv_canonical v = Inr real \<and> path_starts_with real croot \<and>
       fv_canonical_after v = Inr real' \<and> path_starts_with real' croot \<and> validate_no_links (fv_links_after v) full = Inr () \<and>
       fv_pre_stat v = Inr pre \<and> fv_post_stat v = Inr post \<and> fv_path_stat v = Inr path \<and>
       st_len pre = st_len post \<and> st_len path = st_len post \<and> st_dev path = st_dev post \<and> st_ino path = st_ino post \<and>
       st_modified pre = Inr m \<and> st_modified post = Inr m \<and> st_modified path = Inr m"
    using assms by (auto simp: read_file_def stats_changed_def result_simps Let_def split: if_splits)
  then show ?thesis unfolding coherent_read_def using validate_no_links_no_links by blast
qed

text \<open>
  C40. A capture is coherent and stays inside the vault, whatever other processes do
  meanwhile: when it succeeds, every tracked path is safe, no ancestor of it was a
  symbolic link, and each file that was read resolved below the canonical root
  before and after the read, with the same length and modification time before and
  after, and with the path still naming the file that was open.
\<close>

theorem capture_coherent:
  assumes "create_snapshot_with_signer_and_write_version cr k x d root_links root_canonical vault_root tracked_files = Inr out"
  shows "\<exists>croot. root_canonical = Inr croot \<and> (\<forall>(p, fid, v)\<in>set tracked_files.
    normal_path (normalize_slashes p) \<and> no_links (fv_links v) (path_join vault_root p) \<and>
    (fv_exists v \<longrightarrow> coherent_read croot (path_join vault_root p) v))"
proof -
  obtain croot caps where cr: "root_canonical = Inr croot" "rtraverse (capture_file cr k x vault_root croot) tracked_files = Inr caps"
    using assms by (auto simp: create_snapshot_with_signer_and_write_version_def result_simps Let_def)
  have "\<exists>c. capture_file cr k x vault_root croot t = Inr c" if "t \<in> set tracked_files" for t
    using cr(2) that by (auto simp: rtraverse_eq_Inr list_all2_conv_all_nth in_set_conv_nth)
  then have t: "validate_safe_relative_path p = Inr ()" "validate_no_links (fv_links v) (path_join vault_root p) = Inr ()"
      "fv_exists v \<Longrightarrow> \<exists>d. read_file croot p (path_join vault_root p) v = Inr d" if "(p, fid, v) \<in> set tracked_files" for p fid v
    using that by (fastforce simp: capture_file_def result_simps Let_def)+
  show ?thesis using cr(1) t safe_normal_path validate_no_links_no_links read_file_coherent
    by (intro exI[of _ croot]) blast
qed

subsection \<open>A concrete capture\<close>

definition stat_example :: file_stat where
  "stat_example = \<lparr>st_len = 1, st_modified = Inr 5, st_dev = 1, st_ino = 2\<rparr>"

definition view_example :: "string \<Rightarrow> bool \<Rightarrow> bytes \<Rightarrow> file_view" where
  "view_example real ex d = \<lparr>fv_links = \<lambda>_. Inr False, fv_exists = ex, fv_canonical = Inr real, fv_open = Inr (),
     fv_pre_stat = Inr stat_example, fv_contents = Inr d, fv_post_stat = Inr stat_example,
     fv_links_after = \<lambda>_. Inr False, fv_canonical_after = Inr real, fv_path_stat = Inr stat_example\<rparr>"

definition tracked_example :: "(string \<times> bytes \<times> file_view) list" where
  "tracked_example = [(''a.txt'', [1], view_example ''/v/a.txt'' True [7]), (''old.txt'', [2], view_example ''/v/old.txt'' False [])]"

definition ctx_example :: capture_ctx where
  "ctx_example = \<lparr>cx_vault_id = replicate 32 1, cx_epoch = 1, cx_epoch_key = replicate 32 2, cx_profile = None,
     cx_write_version = V2\<rparr>"

definition device_example :: capture_device where
  "device_example = \<lparr>cd_parent_ids = [], cd_device_id = replicate 32 4, cd_device_counter = 1, cd_authority_generation = 4,
     cd_signer = Software [3], cd_snapshot_id = replicate 32 6, cd_nonce = replicate 24 9, cd_now = 1000\<rparr>"

lemma raw_chunks_small:
  assumes "length d \<le> MIN_PADDING_SIZE"
  shows "raw_chunks None (pad d) = [pad d]"
proof -
  have l: "length (pad d) = 4096" using assms by (simp add: length_pad MIN_PADDING_SIZE_def)
  obtain c where c: "config_from_env None = Inr c" by (rule config_from_env_ok)
  then have "min_size c = 4096"
    by (auto simp: config_from_env_def default_config_def FastCdcConfig_new_def DEFAULT_MIN_SIZE_def result_simps Let_def split: if_splits)
  then have "chunk_loop c (pad d) 0 [] = Some [pad d]" using l by (subst chunk_loop.simps) simp
  moreover have "pad d \<noteq> []" using l by auto
  ultimately show ?thesis using c by (simp add: raw_chunks_def chunk_with_env_def fastcdc_chunk_def)
qed

lemma length_sdl: "(\<And>x. x \<in> set xs \<Longrightarrow> length (f x) \<le> n) \<Longrightarrow> length (sdl f xs) \<le> length xs * (n + 1) + 1"
  by (induction xs) fastforce+

lemma compute_cid_std:
  assumes "length (cw_vault_id w) = 32" "length (cw_file_version_id w) = 32" "length (cw_payload w) \<le> 2 ^ 20"
  shows "\<exists>cid. compute_cid crypto_std (k_chunk codecs_std) w = Inr cid"
  using assms by (simp add: compute_cid_def to_canonical_cbor_def codecs_std_def codec_of_def enc_chunk_def MAX_RECORD_SIZE_def)

lemma encrypt_chunk_length:
  "aead_ok cr \<Longrightarrow> encrypt_chunk_with_nonce cr key nonce m aad = Inr p \<Longrightarrow> length p = length nonce + length m + 16"
  by (auto simp: encrypt_chunk_with_nonce_def encrypt_with_nonce_def result_simps aead_length split: option.splits if_splits)

lemma v2_wire_lengths:
  assumes "crypto_ok cr" "encrypt_v2_chunk cr vault e dk raw = Inr w"
  shows "length (cw_payload w) = length raw + 40" "cw_vault_id w = vault" "length (cw_file_version_id w) = 32"
  using assms(2) crypto_okD(1)[OF assms(1)] encrypt_chunk_length[OF crypto_okD(2)[OF assms(1)]]
  by (auto simp: encrypt_v2_chunk_def v2_chunk_def derive_v2_chunk_key_nonce_def result_simps Let_def)

lemma file_example:
  "\<exists>cf w cid. capture_chunks crypto_std ctx_example [7] = Inr cf \<and> cf_chunks cf = [w] \<and>
     compute_cid crypto_std (k_chunk codecs_std) w = Inr cid \<and> length (cf_file_version_id cf) = 32 \<and>
     length (cf_file_version_key cf) = 32 \<and> length (cf_plaintext_sha256 cf) = 32"
proof -
  let ?dk = "derive_v2_chunk_domain_key crypto_std (replicate 32 2) (replicate 32 1) 1"
  note ok = crypto_okD(1)[OF crypto_std_ok]
  have small: "\<not> (word_of_nat (length [7 :: byte]) :: u64) > MAX_FILE_SIZE" by (simp add: MAX_FILE_SIZE_def)
  obtain cf where cf: "chunk_and_encrypt_file_v2 crypto_std None (replicate 32 1) 1 (replicate 32 2) [7] = Inr cf"
    and r: "rtraverse (encrypt_v2_chunk crypto_std (replicate 32 1) 1 ?dk) (raw_chunks None (pad [7])) = Inr (cf_chunks cf)"
    and fs: "cf = \<lparr>cf_file_version_id = derive_v2_file_version_id crypto_std ?dk (replicate 32 1) 1 (compute_digest crypto_std [7]),
      cf_file_version_key = ?dk, cf_raw_length = word_of_nat (length [7 :: byte]), cf_padded_length = word_of_nat (length (pad [7])),
      cf_plaintext_sha256 = compute_digest crypto_std [7], cf_chunks = cf_chunks cf\<rparr>"
    using chunk_and_encrypt_file_v2_ok[OF crypto_std_ok _ small, of None "replicate 32 1" 1 "replicate 32 2"] by auto
  have "raw_chunks None (pad [7]) = [pad [7]]" by (rule raw_chunks_small) (simp add: MIN_PADDING_SIZE_def)
  with r obtain w where w: "encrypt_v2_chunk crypto_std (replicate 32 1) 1 ?dk (pad [7]) = Inr w" "cf_chunks cf = [w]"
    by (auto simp: result_simps)
  have lp: "length (pad [7]) = 4096" by (simp add: length_pad MIN_PADDING_SIZE_def)
  have "length (cw_payload w) = 4096 + 40" "cw_vault_id w = replicate 32 1" "length (cw_file_version_id w) = 32"
    using v2_wire_lengths[OF crypto_std_ok w(1)] lp by simp_all
  then obtain cid where "compute_cid crypto_std (k_chunk codecs_std) w = Inr cid" using compute_cid_std[of w] by auto
  moreover have "length (cf_file_version_id cf) = 32" "length (cf_file_version_key cf) = 32" "length (cf_plaintext_sha256 cf) = 32"
    by (subst fs, simp add: ok compute_digest_def)+
  ultimately show ?thesis using cf w(2) by (simp add: capture_chunks_def ctx_example_def)
qed

lemma no_links_example: "validate_no_links (\<lambda>_. Inr False) p = Inr ()"
  by (simp add: validate_no_links_iff)

lemma paths_example:
  "validate_safe_relative_path ''a.txt'' = Inr ()" "validate_safe_relative_path ''old.txt'' = Inr ()"
  "path_starts_with ''/v/a.txt'' ''/v''"
  by code_simp+

lemma read_example: "read_file ''/v'' ''a.txt'' full (view_example ''/v/a.txt'' True [7]) = Inr [7]"
  by (simp add: read_file_def view_example_def stat_example_def stats_changed_def paths_example no_links_example
      MAX_FILE_SIZE_def Let_def)

lemma manifest_example:
  assumes "length (cf_file_version_id cf) = 32" "length (cf_file_version_key cf) = 32" "length (cf_plaintext_sha256 cf) = 32"
    and "length cid = 32"
  shows "\<exists>mb. to_canonical_cbor (k_manifest codecs_std) \<lparr>sm_version = PROTOCOL_VERSION, sm_vault_id = replicate 32 1, sm_epoch = 1,
      sm_snapshot_id = replicate 32 6, sm_files = [file_entry ''a.txt'' [1] cf [cid], tombstone ''old.txt'' [2]]\<rparr> = Inr mb \<and>
      length mb \<le> 2 ^ 37"
  using assms by (simp add: to_canonical_cbor_def codecs_std_def codec_of_def enc_manifest_def enc_file_def file_entry_def
      tombstone_def normalize_slashes_def replace_char_def MAX_RECORD_SIZE_def)

lemma create_example:
  "\<exists>out w cid. create_snapshot_with_signer_and_write_version crypto_std codecs_std ctx_example device_example
      (\<lambda>_. Inr False) (Inr ''/v'') ''/v'' tracked_example = Inr out \<and> so_chunks out = [w] \<and>
      compute_cid crypto_std (k_chunk codecs_std) w = Inr cid"
proof -
  note ok = crypto_okD[OF crypto_std_ok]
  obtain cf w cid where cf: "capture_chunks crypto_std ctx_example [7] = Inr cf" "cf_chunks cf = [w]"
    and cid: "compute_cid crypto_std (k_chunk codecs_std) w = Inr cid"
    and l: "length (cf_file_version_id cf) = 32" "length (cf_file_version_key cf) = 32" "length (cf_plaintext_sha256 cf) = 32"
    using file_example by blast
  let ?c1 = "\<lparr>cap_entry = file_entry ''a.txt'' [1] cf [cid], cap_chunks = [w],
    cap_hash = (''a.txt'', Some (cf_plaintext_sha256 cf)), cap_bytes = cf_raw_length cf\<rparr>"
  let ?c2 = "\<lparr>cap_entry = tombstone ''old.txt'' [2], cap_chunks = [], cap_hash = (''old.txt'', None), cap_bytes = 0\<rparr>"
  have "fv_links (view_example r ex d) = (\<lambda>_. Inr False)" "fv_exists (view_example r ex d) = ex" for r ex d
    by (simp_all add: view_example_def)
  then have caps: "rtraverse (capture_file crypto_std codecs_std ctx_example ''/v'' ''/v'') tracked_example = Inr [?c1, ?c2]"
    using cf cid by (simp add: tracked_example_def capture_file_def paths_example no_links_example read_example Let_def)
  obtain mb where mb: "to_canonical_cbor (k_manifest codecs_std) \<lparr>sm_version = PROTOCOL_VERSION, sm_vault_id = replicate 32 1, sm_epoch = 1,
      sm_snapshot_id = replicate 32 6, sm_files = [file_entry ''a.txt'' [1] cf [cid], tombstone ''old.txt'' [2]]\<rparr> = Inr mb" "length mb \<le> 2 ^ 37"
    using manifest_example[OF l compute_cid_length[OF crypto_std_ok cid]] by blast
  obtain mk where mk: "derive_manifest_key crypto_std (replicate 32 2) 1 = Inr mk" "length mk = 32"
    using derive_subkey_ok[OF ok(1), of "replicate 32 2" 1 CTX_MANIFEST_KEY] by (auto simp: derive_manifest_key_def)
  obtain em where em: "encrypt_chunk_with_nonce crypto_std mk (replicate 24 9) mb (manifest_aad (replicate 32 1) 1) = Inr em"
    using encrypt_chunk_with_nonce_ok[OF ok(2) mk(2) _ mb(2), of "replicate 24 9"] by auto
  have "length (compute_digest crypto_std em) = 32" using ok(1) by (simp add: compute_digest_def)
  then obtain r cid' where r: "snapshot_sign crypto_std (k_snapshot codecs_std) [3]
      (snapshot_record ctx_example device_example (compute_digest crypto_std em) em) = Inr r"
    "compute_record_cid crypto_std (k_snapshot codecs_std) r = Inr cid'"
    using ed25519_laws(3)[OF ok(3)]
    by (simp add: snapshot_sign_def snapshot_unsigned_bytes_def compute_record_cid_def to_canonical_cbor_def codecs_std_def
        codec_of_def enc_snapshot_def snapshot_record_def ctx_example_def device_example_def MAX_RECORD_SIZE_def sign_with_domain_def)
  show ?thesis
    using caps mb mk em r cid by (simp add: create_snapshot_with_signer_and_write_version_def no_links_example encrypt_chunk_def Let_def)
      (simp add: ctx_example_def device_example_def)
qed

theorem snapshot_roundtrip_witness:
  "\<exists>out. create_snapshot_with_signer_and_write_version crypto_std codecs_std ctx_example device_example
      (\<lambda>_. Inr False) (Inr ''/v'') ''/v'' tracked_example = Inr out \<and>
    decrypt_snapshot hex_std crypto_std codecs_std (replicate 32 1) (replicate 32 2) 1 (so_encrypted_manifest out) (so_chunks out) =
      Inr [\<lparr>df_relative_path = ''a.txt'', df_plaintext = [7]\<rparr>]"
proof -
  obtain out w cid where o: "create_snapshot_with_signer_and_write_version crypto_std codecs_std ctx_example device_example
      (\<lambda>_. Inr False) (Inr ''/v'') ''/v'' tracked_example = Inr out" "so_chunks out = [w]"
      "compute_cid crypto_std (k_chunk codecs_std) w = Inr cid"
    using create_example by blast
  have "decrypt_snapshot hex_std crypto_std codecs_std (cx_vault_id ctx_example) (cx_epoch_key ctx_example) (cx_epoch ctx_example)
      (so_encrypted_manifest out) [w] = Inr (captured_files tracked_example)"
    by (rule snapshot_roundtrip[OF crypto_std_ok codecs_std_ok _ _ o(1), of _ "[cid]"])
      (simp_all add: o(2,3) ctx_example_def device_example_def)
  then show ?thesis using o(1,2)
    by (simp add: ctx_example_def captured_files_def tracked_example_def view_example_def normalize_slashes_def replace_char_def)
qed

lemma example_decrypts:
  assumes "create_snapshot_with_signer_and_write_version crypto_std codecs_std ctx_example device_example
      (\<lambda>_. Inr False) (Inr ''/v'') ''/v'' tracked_example = Inr out" "so_chunks out = [w]"
    and "compute_cid crypto_std (k_chunk codecs_std) w = Inr cid"
  shows "decrypt_snapshot hex_std crypto_std codecs_std (replicate 32 1) (replicate 32 2) 1 (so_encrypted_manifest out) [w] =
      Inr (captured_files tracked_example)"
proof -
  have "decrypt_snapshot hex_std crypto_std codecs_std (cx_vault_id ctx_example) (cx_epoch_key ctx_example) (cx_epoch ctx_example)
      (so_encrypted_manifest out) [w] = Inr (captured_files tracked_example)"
    by (rule created_decrypts[OF crypto_std_ok codecs_std_ok _ _ assms(1), of _ "[cid]"])
      (simp_all add: assms(2,3) ctx_example_def device_example_def)
  then show ?thesis by (simp add: ctx_example_def)
qed

theorem decrypt_snapshot_sound_witness:
  "\<exists>em chunks files mk mb. decrypt_snapshot hex_std crypto_std codecs_std (replicate 32 1) (replicate 32 2) 1 em chunks = Inr files \<and>
    length files = 1 \<and> derive_manifest_key crypto_std (replicate 32 2) 1 = Inr mk \<and>
    encrypt_chunk_with_nonce crypto_std mk (take 24 em) mb (manifest_aad (replicate 32 1) 1) = Inr em"
proof -
  obtain out w cid where o: "create_snapshot_with_signer_and_write_version crypto_std codecs_std ctx_example device_example
      (\<lambda>_. Inr False) (Inr ''/v'') ''/v'' tracked_example = Inr out" "so_chunks out = [w]"
      "compute_cid crypto_std (k_chunk codecs_std) w = Inr cid"
    using create_example by blast
  have dec: "decrypt_snapshot hex_std crypto_std codecs_std (replicate 32 1) (replicate 32 2) 1 (so_encrypted_manifest out) [w] =
      Inr (captured_files tracked_example)"
    using example_decrypts[OF o] .
  have "length (captured_files tracked_example) = 1" by (simp add: captured_files_def tracked_example_def view_example_def)
  moreover obtain mk mb where "derive_manifest_key crypto_std (replicate 32 2) 1 = Inr mk"
    "encrypt_chunk_with_nonce crypto_std mk (take 24 (so_encrypted_manifest out)) mb (manifest_aad (replicate 32 1) 1) = Inr (so_encrypted_manifest out)"
    using decrypt_snapshot_sound[OF crypto_okD(2)[OF crypto_std_ok] dec] by blast
  ultimately show ?thesis using dec by (intro exI conjI)
qed

theorem capture_coherent_witness:
  "coherent_read ''/v'' ''/v/a.txt'' (view_example ''/v/a.txt'' True [7])"
proof -
  obtain out where o: "create_snapshot_with_signer_and_write_version crypto_std codecs_std ctx_example device_example
      (\<lambda>_. Inr False) (Inr ''/v'') ''/v'' tracked_example = Inr out"
    using create_example by blast
  have j: "path_join ''/v'' ''a.txt'' = ''/v/a.txt''" by code_simp
  from capture_coherent[OF o] show ?thesis by (simp add: tracked_example_def view_example_def j)
qed

end
