(* ===== verification/File_System.thy ===== *)
theory File_System
  imports Rust_Path CV_Prelude
begin

text \<open>
  The file system that the restore transaction works on, with failures. A world is a
  map from component lists to nodes, the faults that the next system calls meet, and
  the random numbers. Every call that changes or reads files takes one fault from
  the list: it runs, it fails with an error, or the process is killed. An interrupted
  call may have been carried out in part (\<open>extent\<close>). Calls that only ask for metadata do
  not fail. The functions of \<open>crates/file-lock/src/lib.rs\<close> are those of a Unix build.
  The last part is a Hoare logic with a condition for crashes.
\<close>

subsection \<open>Worlds and effects\<close>

datatype node = File bytes | Dir | Link

type_synonym fs = "Component list \<Rightarrow> node option"
type_synonym extent = "Component list \<Rightarrow> nat"

datatype fault = Go | Fail io_error extent | Crash extent

record world =
  w_fs :: fs
  w_faults :: "fault list"
  w_random :: "nat list"

datatype ('e, 'a) outcome = Done 'a | Err 'e | Crashed

type_synonym ('e, 'a) io = "world \<Rightarrow> ('e, 'a) outcome \<times> world"

definition io_return :: "'a \<Rightarrow> ('e, 'a) io" where
  "io_return a w = (Done a, w)"

definition io_fail :: "'e \<Rightarrow> ('e, 'a) io" where
  "io_fail e w = (Err e, w)"

definition io_bind :: "('e, 'a) io \<Rightarrow> ('a \<Rightarrow> ('e, 'b) io) \<Rightarrow> ('e, 'b) io" where
  "io_bind m f w =
     (case m w of (Done a, w') \<Rightarrow> f a w' | (Err e, w') \<Rightarrow> (Err e, w') | (Crashed, w') \<Rightarrow> (Crashed, w'))"

abbreviation io_then :: "('e, 'a) io \<Rightarrow> ('e, 'b) io \<Rightarrow> ('e, 'b) io" where
  "io_then m n \<equiv> io_bind m (\<lambda>_. n)"

definition io_map_err :: "('e \<Rightarrow> 'f) \<Rightarrow> ('e, 'a) io \<Rightarrow> ('f, 'a) io" where
  "io_map_err g m w =
     (case m w of (Done a, w') \<Rightarrow> (Done a, w') | (Err e, w') \<Rightarrow> (Err (g e), w') | (Crashed, w') \<Rightarrow> (Crashed, w'))"

text \<open>A handler for errors; a killed process handles nothing.\<close>

definition io_catch :: "('e, 'a) io \<Rightarrow> ('e \<Rightarrow> ('f, 'b) io) \<Rightarrow> ('a \<Rightarrow> ('f, 'b) io) \<Rightarrow> ('f, 'b) io" where
  "io_catch m h f w =
     (case m w of (Done a, w') \<Rightarrow> f a w' | (Err e, w') \<Rightarrow> h e w' | (Crashed, w') \<Rightarrow> (Crashed, w'))"

definition io_lift :: "'e + 'a \<Rightarrow> ('e, 'a) io" where
  "io_lift r = (case r of Inl e \<Rightarrow> io_fail e | Inr a \<Rightarrow> io_return a)"

definition io_fs :: "(fs \<Rightarrow> ('e, 'a) io) \<Rightarrow> ('e, 'a) io" where
  "io_fs f w = f (w_fs w) w"

fun io_each :: "('a \<Rightarrow> ('e, unit) io) \<Rightarrow> 'a list \<Rightarrow> ('e, unit) io" where
  "io_each f [] = io_return ()"
| "io_each f (x # xs) = io_then (f x) (io_each f xs)"

text \<open>A system call: its effect when it runs, and what an interrupted one may leave.\<close>

definition sys :: "(fs \<Rightarrow> io_error + 'a \<times> fs) \<Rightarrow> (extent \<Rightarrow> fs \<Rightarrow> fs) \<Rightarrow> (io_error, 'a) io" where
  "sys f part w =
     (case w_faults w of
        Fail e n # rest \<Rightarrow> (Err e, w\<lparr>w_fs := part n (w_fs w), w_faults := rest\<rparr>)
      | Crash n # rest \<Rightarrow> (Crashed, w\<lparr>w_fs := part n (w_fs w), w_faults := rest\<rparr>)
      | faults \<Rightarrow>
          (case f (w_fs w) of
             Inl e \<Rightarrow> (Err e, w\<lparr>w_faults := tl faults\<rparr>)
           | Inr (a, s) \<Rightarrow> (Done a, w\<lparr>w_fs := s, w_faults := tl faults\<rparr>)))"

definition io_random :: "('e, nat) io" where
  "io_random w = (case w_random w of [] \<Rightarrow> (Done 0, w) | n # ns \<Rightarrow> (Done n, w\<lparr>w_random := ns\<rparr>))"

text \<open>The text of an error.\<close>

fun show_io_error :: "io_error \<Rightarrow> string" where
  "show_io_error (NotFound s) = s"
| "show_io_error (OtherError s) = s"

subsection \<open>Queries\<close>

text \<open>Symbolic links are not followed: the code refuses them before it uses a path.\<close>

definition lookup :: "fs \<Rightarrow> string \<Rightarrow> node option" where
  "lookup s p = s (path_components p)"

definition fs_exists :: "fs \<Rightarrow> string \<Rightarrow> bool" where
  "fs_exists s p \<longleftrightarrow> lookup s p \<noteq> None"

text \<open>A path below a regular file: the system reports "not a directory" for it, not "not found".\<close>

definition under_file :: "fs \<Rightarrow> Component list \<Rightarrow> bool" where
  "under_file s p \<longleftrightarrow> list_ex (\<lambda>q. q \<noteq> p \<and> (case s q of Some (File _) \<Rightarrow> True | _ \<Rightarrow> False)) (prefixes p)"

definition missing :: "fs \<Rightarrow> string \<Rightarrow> io_error" where
  "missing s p = (if under_file s (path_components p) then OtherError ''Not a directory'' else NotFound p)"

definition fs_lstat :: "fs \<Rightarrow> string \<Rightarrow> io_error + bool" where
  "fs_lstat s p = (case lookup s p of None \<Rightarrow> Inl (missing s p) | Some n \<Rightarrow> Inr (n = Link))"

definition parent_is_dir :: "fs \<Rightarrow> Component list \<Rightarrow> bool" where
  "parent_is_dir s p \<longleftrightarrow> butlast p = [] \<or> butlast p = [RootDir] \<or> s (butlast p) = Some Dir"

subsection \<open>System calls\<close>

definition mkdir :: "Component list \<Rightarrow> (io_error, unit) io" where
  "mkdir p = sys (\<lambda>s.
     if s p \<noteq> None then Inl (OtherError ''File exists'')
     else if \<not> parent_is_dir s p then Inl (NotFound ''No such file or directory'')
     else Inr ((), s(p \<mapsto> Dir))) (\<lambda>_ s. s)"

text \<open>\<open>create_dir_all\<close>: the missing ancestors from the top; what exists must be a directory.\<close>

definition mkdir_missing :: "Component list \<Rightarrow> (io_error, unit) io" where
  "mkdir_missing p = io_fs (\<lambda>s.
     if p = [] \<or> p = [RootDir] \<or> s p = Some Dir then io_return ()
     else if s p \<noteq> None then io_fail (OtherError ''Not a directory'')
     else mkdir p)"

definition create_dir_all :: "string \<Rightarrow> (io_error, unit) io" where
  "create_dir_all p = io_each mkdir_missing (prefixes (path_components p))"

definition open_create :: "string \<Rightarrow> (io_error, unit) io" where
  "open_create p = sys (\<lambda>s.
     case lookup s p of
       None \<Rightarrow> if parent_is_dir s (path_components p) then Inr ((), s(path_components p \<mapsto> File []))
               else Inl (NotFound ''No such file or directory'')
     | Some (File _) \<Rightarrow> Inr ((), s)
     | _ \<Rightarrow> Inl (OtherError ''Is a directory'')) (\<lambda>_ s. s)"

definition create_new :: "string \<Rightarrow> (io_error, unit) io" where
  "create_new p = sys (\<lambda>s.
     if lookup s p \<noteq> None then Inl (OtherError ''File exists'')
     else if \<not> parent_is_dir s (path_components p) then Inl (NotFound ''No such file or directory'')
     else Inr ((), s(path_components p \<mapsto> File []))) (\<lambda>_ s. s)"

text \<open>Calls without effect on the model: permissions, locks and flushing.\<close>

definition no_effect :: "(io_error, unit) io" where
  "no_effect = sys (\<lambda>s. Inr ((), s)) (\<lambda>_ s. s)"

text \<open>\<open>write_all\<close> into a file that was just created; interrupted, it has written a prefix.\<close>

definition write_all :: "string \<Rightarrow> bytes \<Rightarrow> (io_error, unit) io" where
  "write_all p bs = sys (\<lambda>s. Inr ((), s(path_components p \<mapsto> File bs)))
     (\<lambda>n s. s(path_components p \<mapsto> File (take (n (path_components p)) bs)))"

definition read_all :: "string \<Rightarrow> (io_error, bytes) io" where
  "read_all p = sys (\<lambda>s.
     case lookup s p of Some (File bs) \<Rightarrow> Inr (bs, s)
     | None \<Rightarrow> Inl (NotFound p)
     | _ \<Rightarrow> Inl (OtherError ''source is not a regular file'')) (\<lambda>_ s. s)"

definition rename :: "string \<Rightarrow> string \<Rightarrow> (io_error, unit) io" where
  "rename a b = sys (\<lambda>s.
     case lookup s a of
       Some (File bs) \<Rightarrow>
         if lookup s b = Some Dir then Inl (OtherError ''Is a directory'')
         else if \<not> parent_is_dir s (path_components b) then Inl (NotFound ''No such file or directory'')
         else Inr ((), s(path_components a := None, path_components b \<mapsto> File bs))
     | _ \<Rightarrow> Inl (NotFound a)) (\<lambda>_ s. s)"

definition remove_file :: "string \<Rightarrow> (io_error, unit) io" where
  "remove_file p = sys (\<lambda>s.
     case lookup s p of Some (File _) \<Rightarrow> Inr ((), s(path_components p := None))
     | Some Link \<Rightarrow> Inr ((), s(path_components p := None))
     | Some Dir \<Rightarrow> Inl (OtherError ''Is a directory'')
     | None \<Rightarrow> Inl (NotFound p)) (\<lambda>_ s. s)"

text \<open>Interrupted, \<open>remove_dir_all\<close> has removed some of what is below the directory, in no fixed order.\<close>

definition remove_dir_all :: "string \<Rightarrow> (io_error, unit) io" where
  "remove_dir_all p = sys (\<lambda>s.
     if lookup s p = Some Dir then Inr ((), \<lambda>q. if prefix (path_components p) q then None else s q)
     else Inl (NotFound p))
     (\<lambda>n s q. if strict_prefix (path_components p) q \<and> n q > 0 then None else s q)"

subsection \<open>The file-lock crate\<close>

definition lock_secret_file :: "string \<Rightarrow> (io_error, unit) io" where
  "lock_secret_file p = no_effect"

definition lock_secret_directory :: "string \<Rightarrow> (io_error, unit) io" where
  "lock_secret_directory p = no_effect"

definition sync_directory :: "string \<Rightarrow> (io_error, unit) io" where
  "sync_directory p = no_effect"

definition atomic_replace :: "string \<Rightarrow> string \<Rightarrow> (io_error, unit) io" where
  "atomic_replace source destination = rename source destination"

definition create_secret_file :: "string \<Rightarrow> (io_error, unit) io" where
  "create_secret_file p =
     io_then (create_new p)
       (io_catch (lock_secret_file p)
          (\<lambda>e. io_catch (remove_file p) (\<lambda>_. io_fail e) (\<lambda>_. io_fail e))
          io_return)"

text \<open>Opening a regular file for reading and reading it; other nodes are refused.\<close>

definition open_regular_file :: "string \<Rightarrow> (io_error, bytes) io" where
  "open_regular_file p = read_all p"

subsection \<open>Hoare logic with a crash condition\<close>

text \<open>
  \<open>chl F P m Q E C\<close>: from a file system with \<open>P\<close>, under faults that all satisfy \<open>F\<close>, the
  computation \<open>m\<close> ends normally in \<open>Q\<close>, with an error in \<open>E\<close>, or is killed in \<open>C\<close>.
\<close>

definition chl ::
  "(fault \<Rightarrow> bool) \<Rightarrow> (fs \<Rightarrow> bool) \<Rightarrow> ('e, 'a) io \<Rightarrow> ('a \<Rightarrow> fs \<Rightarrow> bool) \<Rightarrow> ('e \<Rightarrow> fs \<Rightarrow> bool) \<Rightarrow> (fs \<Rightarrow> bool) \<Rightarrow> bool" where
  "chl F P m Q E C \<longleftrightarrow>
     (\<forall>w r w'. P (w_fs w) \<longrightarrow> (\<forall>f\<in>set (w_faults w). F f) \<longrightarrow> m w = (r, w') \<longrightarrow>
        (\<forall>f\<in>set (w_faults w'). F f) \<and>
        (case r of Done a \<Rightarrow> Q a (w_fs w') | Err e \<Rightarrow> E e (w_fs w') | Crashed \<Rightarrow> C (w_fs w')))"

lemma chlI:
  assumes "\<And>w r w'. P (w_fs w) \<Longrightarrow> \<forall>f\<in>set (w_faults w). F f \<Longrightarrow> m w = (r, w') \<Longrightarrow>
    (\<forall>f\<in>set (w_faults w'). F f) \<and> (case r of Done a \<Rightarrow> Q a (w_fs w') | Err e \<Rightarrow> E e (w_fs w') | Crashed \<Rightarrow> C (w_fs w'))"
  shows "chl F P m Q E C"
  using assms by (simp add: chl_def)

lemma chlD:
  assumes "chl F P m Q E C" "P (w_fs w)" "\<forall>f\<in>set (w_faults w). F f" "m w = (r, w')"
  shows "\<forall>f\<in>set (w_faults w'). F f" "case r of Done a \<Rightarrow> Q a (w_fs w') | Err e \<Rightarrow> E e (w_fs w') | Crashed \<Rightarrow> C (w_fs w')"
  using assms unfolding chl_def by blast+

lemma chl_conseq:
  assumes "chl F P' m Q' E' C'" "\<And>s. P s \<Longrightarrow> P' s" "\<And>a s. Q' a s \<Longrightarrow> Q a s" "\<And>e s. E' e s \<Longrightarrow> E e s" "\<And>s. C' s \<Longrightarrow> C s"
  shows "chl F P m Q E C"
proof (rule chlI)
  fix w r w' assume "P (w_fs w)" "\<forall>f\<in>set (w_faults w). F f" "m w = (r, w')"
  with assms chlD[OF assms(1), of w r w']
  show "(\<forall>f\<in>set (w_faults w'). F f) \<and> (case r of Done a \<Rightarrow> Q a (w_fs w') | Err e \<Rightarrow> E e (w_fs w') | Crashed \<Rightarrow> C (w_fs w'))"
    by (cases r) auto
qed

lemma chl_pre: "chl F P' m Q E C \<Longrightarrow> (\<And>s. P s \<Longrightarrow> P' s) \<Longrightarrow> chl F P m Q E C"
  by (rule chl_conseq)

lemma chl_return: "(\<And>s. P s \<Longrightarrow> Q a s) \<Longrightarrow> chl F P (io_return a) Q E C"
  by (simp add: chl_def io_return_def)

lemma chl_fail: "(\<And>s. P s \<Longrightarrow> E e s) \<Longrightarrow> chl F P (io_fail e) Q E C"
  by (simp add: chl_def io_fail_def)

lemma chl_bind:
  assumes "chl F P m Q' E C" "\<And>a. chl F (Q' a) (f a) Q E C"
  shows "chl F P (io_bind m f) Q E C"
proof (rule chlI)
  fix w r w'
  assume P: "P (w_fs w)" "\<forall>f\<in>set (w_faults w). F f" and r: "io_bind m f w = (r, w')"
  obtain r1 w1 where m: "m w = (r1, w1)" by fastforce
  note d = chlD[OF assms(1) P m]
  show "(\<forall>f\<in>set (w_faults w'). F f) \<and> (case r of Done a \<Rightarrow> Q a (w_fs w') | Err e \<Rightarrow> E e (w_fs w') | Crashed \<Rightarrow> C (w_fs w'))"
  proof (cases r1)
    case (Done a)
    then have "f a w1 = (r, w')" "Q' a (w_fs w1)" using r m d(2) by (simp_all add: io_bind_def)
    then show ?thesis using chlD[OF assms(2)[of a] _ d(1)] by blast
  qed (use r m d in \<open>auto simp: io_bind_def\<close>)
qed

lemma chl_map_err:
  assumes "chl F P m Q (\<lambda>e. E (g e)) C"
  shows "chl F P (io_map_err g m) Q E C"
proof (rule chlI)
  fix w r w'
  assume P: "P (w_fs w)" "\<forall>f\<in>set (w_faults w). F f" and r: "io_map_err g m w = (r, w')"
  obtain r1 w1 where m: "m w = (r1, w1)" by fastforce
  note d = chlD[OF assms(1) P m]
  show "(\<forall>f\<in>set (w_faults w'). F f) \<and> (case r of Done a \<Rightarrow> Q a (w_fs w') | Err e \<Rightarrow> E e (w_fs w') | Crashed \<Rightarrow> C (w_fs w'))"
    using r m d by (cases r1) (auto simp: io_map_err_def)
qed

lemma chl_catch:
  assumes "chl F P m Q' E' C" "\<And>e. chl F (E' e) (h e) Q E C" "\<And>a. chl F (Q' a) (f a) Q E C"
  shows "chl F P (io_catch m h f) Q E C"
proof (rule chlI)
  fix w r w'
  assume P: "P (w_fs w)" "\<forall>f\<in>set (w_faults w). F f" and r: "io_catch m h f w = (r, w')"
  obtain r1 w1 where m: "m w = (r1, w1)" by fastforce
  note d = chlD[OF assms(1) P m]
  show "(\<forall>f\<in>set (w_faults w'). F f) \<and> (case r of Done a \<Rightarrow> Q a (w_fs w') | Err e \<Rightarrow> E e (w_fs w') | Crashed \<Rightarrow> C (w_fs w'))"
  proof (cases r1)
    case (Done a)
    then have "f a w1 = (r, w')" "Q' a (w_fs w1)" using r m d(2) by (simp_all add: io_catch_def)
    then show ?thesis using chlD[OF assms(3)[of a] _ d(1)] by blast
  next
    case (Err e)
    then have "h e w1 = (r, w')" "E' e (w_fs w1)" using r m d(2) by (simp_all add: io_catch_def)
    then show ?thesis using chlD[OF assms(2)[of e] _ d(1)] by blast
  qed (use r m d in \<open>auto simp: io_catch_def\<close>)
qed

lemma chl_lift:
  "(\<And>s a. P s \<Longrightarrow> v = Inr a \<Longrightarrow> Q a s) \<Longrightarrow> (\<And>s e. P s \<Longrightarrow> v = Inl e \<Longrightarrow> E e s) \<Longrightarrow> chl F P (io_lift v) Q E C"
  by (cases v) (auto simp: io_lift_def intro: chl_return chl_fail)

lemma chl_fs: "(\<And>s. P s \<Longrightarrow> chl F (\<lambda>s'. s' = s) (f s) Q E C) \<Longrightarrow> chl F P (io_fs f) Q E C"
  unfolding chl_def io_fs_def by metis

lemma chl_random: "(\<And>s r. P s \<Longrightarrow> Q r s) \<Longrightarrow> chl F P io_random Q E C"
  by (auto simp: chl_def io_random_def split: list.splits)

lemma chl_each:
  assumes "\<And>i. i < length xs \<Longrightarrow> chl F (I i) (f (xs ! i)) (\<lambda>_. I (Suc i)) E C"
  shows "chl F (I 0) (io_each f xs) (\<lambda>_. I (length xs)) E C"
  using assms
proof (induction xs arbitrary: I)
  case Nil
  then show ?case by (simp add: chl_return)
next
  case (Cons x xs)
  have "chl F (I (Suc 0)) (io_each f xs) (\<lambda>_. I (Suc (length xs))) E C"
    using Cons.IH[of "\<lambda>i. I (Suc i)"] Cons.prems[of "Suc _"] by simp
  moreover have "chl F (I 0) (f x) (\<lambda>_. I (Suc 0)) E C" using Cons.prems[of 0] by simp
  ultimately show ?case by (auto intro: chl_bind)
qed

text \<open>A system call, when no call is made to fail from outside.\<close>

definition crash_only :: "fault \<Rightarrow> bool" where
  "crash_only f = (case f of Fail _ _ \<Rightarrow> False | _ \<Rightarrow> True)"

definition no_fault :: "fault \<Rightarrow> bool" where
  "no_fault f = (case f of Go \<Rightarrow> True | _ \<Rightarrow> False)"

definition quiet :: "(fault \<Rightarrow> bool) \<Rightarrow> bool" where
  "quiet F \<longleftrightarrow> (\<forall>e n. \<not> F (Fail e n))"

definition can_crash :: "(fault \<Rightarrow> bool) \<Rightarrow> bool" where
  "can_crash F \<longleftrightarrow> (\<exists>n. F (Crash n))"

lemma quiet_simps [simp]: "quiet crash_only" "quiet no_fault" "can_crash crash_only" "\<not> can_crash no_fault"
  by (simp_all add: quiet_def can_crash_def crash_only_def no_fault_def)

lemma chl_sys:
  assumes "quiet F" "\<And>s n. P s \<Longrightarrow> can_crash F \<Longrightarrow> C (part n s)"
    and "\<And>s a s'. P s \<Longrightarrow> f s = Inr (a, s') \<Longrightarrow> Q a s'" "\<And>s e. P s \<Longrightarrow> f s = Inl e \<Longrightarrow> E e s"
  shows "chl F P (sys f part) Q E C"
proof (rule chlI)
  fix w r w'
  assume P: "P (w_fs w)" and F: "\<forall>f\<in>set (w_faults w). F f" and r: "sys f part w = (r, w')"
  have ff: "w_faults w = [] \<or> (\<exists>fs. w_faults w = Go # fs) \<or> (\<exists>n fs. w_faults w = Crash n # fs) \<and> can_crash F"
    using F assms(1) by (cases "w_faults w"; cases "hd (w_faults w)") (auto simp: quiet_def can_crash_def)
  then show "(\<forall>f\<in>set (w_faults w'). F f) \<and>
      (case r of Done a \<Rightarrow> Q a (w_fs w') | Err e \<Rightarrow> E e (w_fs w') | Crashed \<Rightarrow> C (w_fs w'))"
    using r F P assms by (cases "f (w_fs w)") (auto simp: sys_def)
qed

subsection \<open>The calls in this logic\<close>

text \<open>Each rule has the case in which the call succeeds as its precondition.\<close>

lemma chl_no_effect: "quiet F \<Longrightarrow> (\<And>s. P s \<Longrightarrow> Q () s \<and> (can_crash F \<longrightarrow> C s)) \<Longrightarrow> chl F P no_effect Q E C"
  unfolding no_effect_def by (rule chl_sys) auto

lemma chl_create_secret_file:
  assumes "quiet F"
    and "\<And>s. P s \<Longrightarrow> s (path_components p) = None \<and> parent_is_dir s (path_components p) \<and> (can_crash F \<longrightarrow> C s)"
    and "\<And>s. P s \<Longrightarrow> Q () (s(path_components p \<mapsto> File [])) \<and> (can_crash F \<longrightarrow> C (s(path_components p \<mapsto> File [])))"
  shows "chl F P (create_secret_file p) Q E C"
  unfolding create_secret_file_def
proof (rule chl_bind)
  show "chl F P (create_new p) (\<lambda>_ s. Q () s \<and> (can_crash F \<longrightarrow> C s)) E C"
    unfolding create_new_def using assms by (intro chl_sys) (auto simp: lookup_def)
  fix a :: unit
  show "chl F (\<lambda>s. Q () s \<and> (can_crash F \<longrightarrow> C s))
     (io_catch (lock_secret_file p) (\<lambda>e. io_catch (remove_file p) (\<lambda>_. io_fail e) (\<lambda>_. io_fail e)) io_return) Q E C"
  proof (rule chl_catch[where E' = "\<lambda>_ _. False" and Q' = Q])
    show "chl F (\<lambda>s. Q () s \<and> (can_crash F \<longrightarrow> C s)) (lock_secret_file p) Q (\<lambda>_ _. False) C"
      unfolding lock_secret_file_def by (rule chl_no_effect[OF assms(1)]) simp
  qed (auto simp: chl_def io_return_def)
qed

lemma chl_write_all:
  assumes "quiet F" "\<And>s n. P s \<Longrightarrow> can_crash F \<Longrightarrow> C (s(path_components p \<mapsto> File (take n bs)))"
    and "\<And>s. P s \<Longrightarrow> Q () (s(path_components p \<mapsto> File bs))"
  shows "chl F P (write_all p bs) Q E C"
  unfolding write_all_def using assms by (intro chl_sys) auto

lemma chl_read_all:
  assumes "quiet F" "\<And>s. P s \<Longrightarrow> (can_crash F \<longrightarrow> C s) \<and> (\<exists>bs. s (path_components p) = Some (File bs) \<and> Q bs s)"
  shows "chl F P (read_all p) Q E C"
  unfolding read_all_def using assms by (intro chl_sys) (fastforce simp: lookup_def)+

lemma chl_rename:
  assumes "quiet F"
    and "\<And>s. P s \<Longrightarrow> (can_crash F \<longrightarrow> C s) \<and> s (path_components b) \<noteq> Some Dir \<and> parent_is_dir s (path_components b) \<and>
      (\<exists>bs. s (path_components a) = Some (File bs) \<and> Q () (s(path_components a := None, path_components b \<mapsto> File bs)))"
  shows "chl F P (rename a b) Q E C"
  unfolding rename_def using assms by (intro chl_sys) (fastforce simp: lookup_def)+

lemma chl_remove_file:
  assumes "quiet F"
    and "\<And>s. P s \<Longrightarrow> (can_crash F \<longrightarrow> C s) \<and> (\<exists>bs. s (path_components p) = Some (File bs)) \<and> Q () (s(path_components p := None))"
  shows "chl F P (remove_file p) Q E C"
  unfolding remove_file_def using assms by (intro chl_sys) (fastforce simp: lookup_def)+

definition removed :: "Component list \<Rightarrow> extent \<Rightarrow> fs \<Rightarrow> fs" where
  "removed p n s = (\<lambda>q. if strict_prefix p q \<and> n q > 0 then None else s q)"

definition removed_all :: "Component list \<Rightarrow> fs \<Rightarrow> fs" where
  "removed_all p s = (\<lambda>q. if prefix p q then None else s q)"

lemma chl_remove_dir_all:
  assumes "quiet F" "\<And>s. P s \<Longrightarrow> s (path_components p) = Some Dir \<and> Q () (removed_all (path_components p) s)"
    and "\<And>s n. P s \<Longrightarrow> can_crash F \<Longrightarrow> C (removed (path_components p) n s)"
  shows "chl F P (remove_dir_all p) Q E C"
  unfolding remove_dir_all_def using assms by (intro chl_sys) (auto simp: lookup_def removed_def removed_all_def)

lemma chl_mkdir:
  assumes "quiet F" "\<And>s. P s \<Longrightarrow> (can_crash F \<longrightarrow> C s) \<and> s p = None \<and> parent_is_dir s p \<and> Q () (s(p \<mapsto> Dir))"
  shows "chl F P (mkdir p) Q E C"
  unfolding mkdir_def using assms by (intro chl_sys) auto

text \<open>\<open>create_dir_all\<close> makes the missing prefixes one after the other.\<close>

definition made :: "Component list \<Rightarrow> nat \<Rightarrow> fs \<Rightarrow> fs" where
  "made p k s = (\<lambda>q. if prefix q p \<and> length q < k \<and> q \<noteq> [] \<and> q \<noteq> [RootDir] then Some Dir else s q)"

lemma made_0 [simp]: "made p 0 s = s"
  by (simp add: made_def)

lemma made_Suc: "i \<le> length p \<Longrightarrow>
    made p (Suc i) s = (if take i p = [] \<or> take i p = [RootDir] then made p i s else (made p i s)(take i p \<mapsto> Dir))"
proof -
  assume i: "i \<le> length p"
  have q: "prefix q p \<and> length q = i \<longleftrightarrow> q = take i p" for q
    using i by (auto simp: take_is_prefix) (auto simp: prefix_def)
  have "made p (Suc i) s q = (if take i p = [] \<or> take i p = [RootDir] then made p i s else (made p i s)(take i p \<mapsto> Dir)) q" for q
    using q[of q] by (auto simp: made_def less_Suc_eq take_is_prefix)
  then show ?thesis by blast
qed

lemma prefixes_nth: "i \<le> length p \<Longrightarrow> prefixes p ! i = take i p"
proof (induction p arbitrary: i)
  case (Cons x p)
  then show ?case by (cases i) simp_all
qed simp

lemma made_parent: "i \<le> length p \<Longrightarrow> parent_is_dir (made p i s) (take i p)"
proof (cases "i = 0")
  case False
  moreover assume "i \<le> length p"
  ultimately have "butlast (take i p) = take (i - 1) p" by (simp add: butlast_take)
  moreover have "length (take (i - 1) p) < i" using False by auto
  ultimately show ?thesis by (auto simp: parent_is_dir_def made_def take_is_prefix)
qed (simp add: parent_is_dir_def)

lemma chl_create_dir_all:
  assumes "quiet F" "\<And>s q. P s \<Longrightarrow> prefix q (path_components p) \<Longrightarrow> s q = None \<or> s q = Some Dir"
    and "\<And>s k. P s \<Longrightarrow> can_crash F \<Longrightarrow> C (made (path_components p) k s)"
    and "\<And>s. P s \<Longrightarrow> Q () (made (path_components p) (Suc (length (path_components p))) s)"
  shows "chl F P (create_dir_all p) Q E C"
proof -
  let ?p = "path_components p"
  let ?I = "\<lambda>i s'. \<exists>s. P s \<and> s' = made ?p i s"
  have "chl F (?I 0) (io_each mkdir_missing (prefixes ?p)) (\<lambda>_. ?I (length (prefixes ?p))) E C"
  proof (rule chl_each)
    fix i assume "i < length (prefixes ?p)"
    then have i: "i \<le> length ?p" "prefixes ?p ! i = take i ?p" by (auto simp: prefixes_nth)
    show "chl F (?I i) (mkdir_missing (prefixes ?p ! i)) (\<lambda>_. ?I (Suc i)) E C"
      unfolding mkdir_missing_def i(2)
    proof (rule chl_fs)
      fix s' assume "?I i s'"
      then obtain s where s: "P s" "s' = made ?p i s" by blast
      have cur: "made ?p i s (take i ?p) = s (take i ?p)" using i(1) by (simp add: made_def)
      have nd: "s (take i ?p) = None \<or> s (take i ?p) = Some Dir" using assms(2)[OF s(1)] by (simp add: take_is_prefix)
      show "chl F (\<lambda>u. u = s') (if take i ?p = [] \<or> take i ?p = [RootDir] \<or> s' (take i ?p) = Some Dir then io_return ()
          else if s' (take i ?p) \<noteq> None then io_fail (OtherError ''Not a directory'') else mkdir (take i ?p)) (\<lambda>_. ?I (Suc i)) E C"
      proof (cases "take i ?p = [] \<or> take i ?p = [RootDir] \<or> s' (take i ?p) = Some Dir")
        case True
        have "s' = made ?p (Suc i) s"
          using True unfolding s(2) made_Suc[OF i(1)] by (auto simp: fun_upd_idem)
        then show ?thesis using True s(1) by (auto intro!: chl_return)
      next
        case False
        then have "s' (take i ?p) = None" using nd cur s(2) by auto
        moreover have "made ?p (Suc i) s = s'(take i ?p \<mapsto> Dir)" using False unfolding s(2) made_Suc[OF i(1)] by auto
        ultimately show ?thesis using False made_parent[OF i(1), of s] s assms(3)[OF s(1), of i]
          by (auto intro!: chl_mkdir[OF assms(1)] exI[of _ s])
      qed
    qed
  qed
  then show ?thesis unfolding create_dir_all_def
    by (rule chl_conseq) (use assms(4) in \<open>auto intro: exI\<close>)
qed

subsection \<open>Symbolic execution\<close>

text \<open>The same rules for a known file system, followed by the rest of the computation.\<close>

abbreviation at :: "fs \<Rightarrow> fs \<Rightarrow> bool" where
  "at u \<equiv> (\<lambda>s. s = u)"

lemma chl_at: "(\<And>u. P u \<Longrightarrow> chl F (at u) m Q E C) \<Longrightarrow> chl F P m Q E C"
  unfolding chl_def by blast

lemma chl_atD: "chl F P m Q E C \<Longrightarrow> P u \<Longrightarrow> chl F (at u) m Q E C"
  unfolding chl_def by blast

lemma step_fs: "chl F (at u) (f u) Q E C \<Longrightarrow> chl F (at u) (io_fs f) Q E C"
  by (rule chl_fs) simp

lemma step_fs_bind: "chl F (at u) (io_bind (g u) f) Q E C \<Longrightarrow> chl F (at u) (io_bind (io_fs g) f) Q E C"
  by (simp add: chl_def io_bind_def io_fs_def)

lemma step_return: "chl F (at u) (f a) Q E C \<Longrightarrow> chl F (at u) (io_bind (io_return a) f) Q E C"
  by (simp add: chl_def io_bind_def io_return_def)

lemma step_fail: "E e u \<Longrightarrow> chl F (at u) (io_bind (io_fail e) f) Q E C"
  by (simp add: chl_def io_bind_def io_fail_def)

lemma step_lift: "v = Inr a \<Longrightarrow> chl F (at u) (f a) Q E C \<Longrightarrow> chl F (at u) (io_bind (io_lift v) f) Q E C"
  by (simp add: io_lift_def step_return)

lemma step_assoc: "chl F P (io_bind m (\<lambda>a. io_bind (g a) f)) Q E C \<Longrightarrow> chl F P (io_bind (io_bind m g) f) Q E C"
proof -
  have "io_bind (io_bind m g) f = io_bind m (\<lambda>a. io_bind (g a) f)"
    by (rule ext) (auto simp: io_bind_def split: prod.splits outcome.splits)
  then show "chl F P (io_bind m (\<lambda>a. io_bind (g a) f)) Q E C \<Longrightarrow> ?thesis" by simp
qed

lemma step_random: "(\<And>r. chl F (at u) (f r) Q E C) \<Longrightarrow> chl F (at u) (io_bind io_random f) Q E C"
  by (rule chl_bind[where Q' = "\<lambda>_. at u"]) (auto intro: chl_random)

lemma step_no_effect:
  "quiet F \<Longrightarrow> (can_crash F \<Longrightarrow> C u) \<Longrightarrow> chl F (at u) (f ()) Q E C \<Longrightarrow>
   chl F (at u) (io_bind (io_map_err g no_effect) f) Q E C"
  by (rule chl_bind[where Q' = "\<lambda>_. at u"]) (auto intro!: chl_map_err chl_no_effect)

lemma step_create_secret_file:
  assumes "quiet F" "u (path_components p) = None" "parent_is_dir u (path_components p)"
    and "can_crash F \<Longrightarrow> C u \<and> C (u(path_components p \<mapsto> File []))"
    and "chl F (at (u(path_components p \<mapsto> File []))) (f ()) Q E C"
  shows "chl F (at u) (io_bind (io_map_err g (create_secret_file p)) f) Q E C"
  by (rule chl_bind[where Q' = "\<lambda>_. at (u(path_components p \<mapsto> File []))"])
    (use assms in \<open>auto intro!: chl_map_err chl_create_secret_file\<close>)

lemma step_write_all:
  assumes "quiet F" "\<And>n. can_crash F \<Longrightarrow> C (u(path_components p \<mapsto> File (take n bs)))"
    and "chl F (at (u(path_components p \<mapsto> File bs))) (f ()) Q E C"
  shows "chl F (at u) (io_bind (io_map_err g (write_all p bs)) f) Q E C"
  by (rule chl_bind[where Q' = "\<lambda>_. at (u(path_components p \<mapsto> File bs))"])
    (use assms in \<open>auto intro!: chl_map_err chl_write_all\<close>)

lemma step_read_all:
  assumes "quiet F" "u (path_components p) = Some (File bs)" "can_crash F \<Longrightarrow> C u" "chl F (at u) (f bs) Q E C"
  shows "chl F (at u) (io_bind (io_map_err g (read_all p)) f) Q E C"
proof (rule chl_bind[where Q' = "\<lambda>a s. s = u \<and> a = bs"])
  show "chl F (at u) (io_map_err g (read_all p)) (\<lambda>a s. s = u \<and> a = bs) E C"
    by (rule chl_map_err, rule chl_read_all) (use assms in auto)
  fix a show "chl F (\<lambda>s. s = u \<and> a = bs) (f a) Q E C" by (rule chl_at) (use assms in simp)
qed

lemma step_rename:
  assumes "quiet F" "u (path_components a) = Some (File bs)" "can_crash F \<Longrightarrow> C u"
    and "u (path_components b) \<noteq> Some Dir" "parent_is_dir u (path_components b)"
    and "chl F (at (u(path_components a := None, path_components b \<mapsto> File bs))) (f ()) Q E C"
  shows "chl F (at u) (io_bind (io_map_err g (rename a b)) f) Q E C"
  by (rule chl_bind[where Q' = "\<lambda>_. at (u(path_components a := None, path_components b \<mapsto> File bs))"])
    (use assms in \<open>auto intro!: chl_map_err chl_rename\<close>)

lemma step_remove_file:
  assumes "quiet F" "u (path_components p) = Some (File bs)" "can_crash F \<Longrightarrow> C u"
    and "chl F (at (u(path_components p := None))) (f ()) Q E C"
  shows "chl F (at u) (io_bind (io_map_err g (remove_file p)) f) Q E C"
  by (rule chl_bind[where Q' = "\<lambda>_. at (u(path_components p := None))"])
    (use assms in \<open>auto intro!: chl_map_err chl_remove_file\<close>)

lemma step_remove_dir_all:
  assumes "quiet F" "u (path_components p) = Some Dir" "\<And>n. can_crash F \<Longrightarrow> C (removed (path_components p) n u)"
    and "chl F (at (removed_all (path_components p) u)) (f ()) Q E C"
  shows "chl F (at u) (io_bind (io_map_err g (remove_dir_all p)) f) Q E C"
  by (rule chl_bind[where Q' = "\<lambda>_. at (removed_all (path_components p) u)"])
    (use assms in \<open>auto intro!: chl_map_err chl_remove_dir_all\<close>)

lemma step_mkdir:
  assumes "quiet F" "u p = None" "parent_is_dir u p" "can_crash F \<Longrightarrow> C u" "chl F (at (u(p \<mapsto> Dir))) (f ()) Q E C"
  shows "chl F (at u) (io_bind (io_map_err g (mkdir p)) f) Q E C"
  by (rule chl_bind[where Q' = "\<lambda>_. at (u(p \<mapsto> Dir))"]) (use assms in \<open>auto intro!: chl_map_err chl_mkdir\<close>)

lemma step_create_dir_all:
  assumes "quiet F" "\<And>q. prefix q (path_components p) \<Longrightarrow> u q = None \<or> u q = Some Dir"
    and "\<And>k. can_crash F \<Longrightarrow> C (made (path_components p) k u)"
    and "chl F (at (made (path_components p) (Suc (length (path_components p))) u)) (f ()) Q E C"
  shows "chl F (at u) (io_bind (io_map_err g (create_dir_all p)) f) Q E C"
  by (rule chl_bind[where Q' = "\<lambda>_. at (made (path_components p) (Suc (length (path_components p))) u)"])
    (use assms in \<open>auto intro!: chl_map_err chl_create_dir_all\<close>)

lemma step_open_create:
  assumes "quiet F" "u (path_components p) = Some (File b)" "can_crash F \<Longrightarrow> C u" "chl F (at u) (f ()) Q E C"
  shows "chl F (at u) (io_bind (io_map_err g (open_create p)) f) Q E C"
proof (rule chl_bind[where Q' = "\<lambda>_. at u"])
  show "chl F (at u) (io_map_err g (open_create p)) (\<lambda>_. at u) E C"
    unfolding open_create_def by (rule chl_map_err, rule chl_sys) (use assms in \<open>auto simp: lookup_def\<close>)
qed (use assms in simp)

lemma step_open_create_new:
  assumes "quiet F" "u (path_components p) = None" "parent_is_dir u (path_components p)" "can_crash F \<Longrightarrow> C u"
    and "chl F (at (u(path_components p \<mapsto> File []))) (f ()) Q E C"
  shows "chl F (at u) (io_bind (io_map_err g (open_create p)) f) Q E C"
proof (rule chl_bind[where Q' = "\<lambda>_. at (u(path_components p \<mapsto> File []))"])
  show "chl F (at u) (io_map_err g (open_create p)) (\<lambda>_. at (u(path_components p \<mapsto> File []))) E C"
    unfolding open_create_def by (rule chl_map_err, rule chl_sys) (use assms in \<open>auto simp: lookup_def\<close>)
qed (use assms in simp)

end
