(* ===== verification/Restore.thy ===== *)
theory Restore
  imports Engine File_System Recovery_Base Storage_Base
begin

text \<open>
  The journaled publication of restored files (\<open>crates/snapshot/src/restore.rs\<close>) on the
  file system of \<open>File_System\<close>: staging with backups, the journal, publication by
  atomic renames, rollback and the recovery of an interrupted run. The text form of the
  journal (\<open>serde_json\<close>) is a parameter. One process works on the target directory at a
  time, since it holds the lock; it can be killed at any system call.
\<close>

subsection \<open>The journal\<close>

definition STAGE :: string where "STAGE = ''.ciphervault-restore''"
definition LOCK :: string where "LOCK = ''.ciphervault-restore.lock''"

record Entry =
  e_path :: string
  e_previous_digest :: "bytes option"
  e_new_digest :: bytes

record Journal =
  j_version :: u32
  j_publishing :: bool
  j_committed :: bool
  j_entries :: "Entry list"

text \<open>\<open>serde_json\<close> on journals.\<close>

record journal_json =
  journal_write :: "Journal \<Rightarrow> string + bytes"
  journal_read :: "bytes \<Rightarrow> string + Journal"

definition journal_ok :: "journal_json \<Rightarrow> bool" where
  "journal_ok jj \<longleftrightarrow> (\<forall>j. \<exists>bs. journal_write jj j = Inr bs \<and> journal_read jj bs = Inr j)"

text \<open>The messages of the errors, as far as an error of the rollback embeds them.\<close>

fun show_format_error :: "FormatError \<Rightarrow> string" where
  "show_format_error (SerializationError s) = ''CBOR serialization failed: '' @ s"
| "show_format_error (DeserializationError s) = ''CBOR deserialization failed: '' @ s"
| "show_format_error (MalformedRecord s) = ''Malformed record: '' @ s"
| "show_format_error (SizeLimitExceeded l a) =
     ''Size limit exceeded: expected at most '' @ show_nat l @ '' bytes, got '' @ show_nat a @ '' bytes''"
| "show_format_error (FormatCryptoError e) = ''Crypto error during format validation: '' @ show_crypto_error e"

fun show_snapshot_error :: "SnapshotError \<Rightarrow> string" where
  "show_snapshot_error (IoError e) = ''I/O error: '' @ show_io_error e"
| "show_snapshot_error (ConcurrentModification s) = ''File modified during capture: '' @ s"
| "show_snapshot_error (UnsafePath s) = ''Path traversal or unsafe path rejected: '' @ s"
| "show_snapshot_error (FileTooLarge p n) = ''File exceeds MVP size limit (256 MiB): '' @ p @ '' ('' @ show_word n @ '' bytes)''"
| "show_snapshot_error (IntegrityMismatch p e a) =
     ''Plaintext SHA-256 mismatch for '' @ p @ '': expected '' @ e @ '', actual '' @ a"
| "show_snapshot_error (MissingChunk p c) = ''Missing chunk '' @ c @ '' for file '' @ p"
| "show_snapshot_error (Snapshot_CryptoError e) = ''Crypto error: '' @ show_crypto_error e"
| "show_snapshot_error (Snapshot_FormatError e) = ''Format error: '' @ show_format_error e"
| "show_snapshot_error (InvalidInput s) = ''Invalid input: '' @ s"

type_synonym 'a restore_io = "(SnapshotError, 'a) io"

abbreviation os :: "(io_error, 'a) io \<Rightarrow> 'a restore_io" where
  "os m \<equiv> io_map_err IoError m"

abbreviation stage_of :: "string \<Rightarrow> string" where
  "stage_of target \<equiv> path_join target STAGE"

text \<open>\<open>{:032x}\<close> of a random 128-bit number.\<close>

definition show_hex32 :: "nat \<Rightarrow> string" where
  "show_hex32 n = map (\<lambda>i. hex_digits ! (n div 16 ^ i mod 16)) (rev [0..<32])"

subsection \<open>Steps of the transaction\<close>

definition check_no_links :: "string \<Rightarrow> unit restore_io" where
  "check_no_links p = io_fs (\<lambda>s. io_lift (validate_no_links (fs_lstat s) p))"

definition acquire :: "string \<Rightarrow> unit restore_io" where
  "acquire target =
     io_then (check_no_links target)
     (io_then (os (create_dir_all target))
     (let lock_path = path_join target LOCK in
      io_then (check_no_links lock_path)
      (io_then (os (open_create lock_path))
      (os no_effect))))"

definition write_journal :: "journal_json \<Rightarrow> string \<Rightarrow> Journal \<Rightarrow> unit restore_io" where
  "write_journal jj stage journal =
     io_bind io_random (\<lambda>r.
     let path = path_join stage ''journal.json'';
         tmp = path_join stage (''journal-'' @ show_hex32 r @ ''.tmp'')
     in io_catch
          (io_then (os (create_secret_file tmp))
          (io_bind (io_lift (rmap_err InvalidInput (journal_write jj journal))) (\<lambda>bs.
           io_then (os (write_all tmp bs))
          (io_then (os no_effect)
          (io_then (os (atomic_replace tmp path))
          (os (sync_directory stage)))))))
          (\<lambda>e. io_catch (remove_file tmp) (\<lambda>_. io_fail e) (\<lambda>_. io_fail e))
          io_return)"

definition file_digest :: "crypto_crate \<Rightarrow> string \<Rightarrow> bytes restore_io" where
  "file_digest cr p =
     io_bind (os (open_regular_file p)) (\<lambda>bs.
     if length bs > unat MAX_FILE_SIZE then io_fail (FileTooLarge p (word_of_nat (length bs)))
     else io_return (compute_digest cr bs))"

fun check_parents :: "fs \<Rightarrow> string \<Rightarrow> string list \<Rightarrow> SnapshotError + unit" where
  "check_parents s target [] = Inr ()"
| "check_parents s target (p # ps) =
     (if path_eq p target then Inr ()
      else
        (case lookup s p of
           None \<Rightarrow> if under_file s (path_components p) then Inl (IoError (missing s p)) else check_parents s target ps
         | Some Dir \<Rightarrow> check_parents s target ps
         | Some _ \<Rightarrow> Inl (UnsafePath (''Restore parent is not a directory: '' @ p))))"

definition validate_destination :: "fs \<Rightarrow> string \<Rightarrow> string \<Rightarrow> SnapshotError + string" where
  "validate_destination s target relative =
     rbind (validate_safe_relative_path relative) (\<lambda>_.
     let c = hd (segments (normalize_slashes relative)) in
     if eq_ignore_ascii_case c STAGE \<or> eq_ignore_ascii_case c LOCK
     then Inl (UnsafePath ''Path reserved for restore transaction metadata'')
     else
       let path = path_join target relative in
       rbind (validate_no_links (fs_lstat s) path) (\<lambda>_.
       if (case lookup s path of None \<Rightarrow> False | Some (File _) \<Rightarrow> False | Some _ \<Rightarrow> True)
       then Inl (UnsafePath (''Restore destination is not a regular file: '' @ path))
       else
         rbind (check_parents s target (tl (path_ancestors path))) (\<lambda>_.
         Inr path)))"

definition checked_destination :: "string \<Rightarrow> string \<Rightarrow> string restore_io" where
  "checked_destination target relative = io_fs (\<lambda>s. io_lift (validate_destination s target relative))"

definition sync_parent :: "string \<Rightarrow> unit restore_io" where
  "sync_parent p = (case path_parent p of Some d \<Rightarrow> os (sync_directory d) | None \<Rightarrow> io_return ())"

text \<open>One round of the rollback loop.\<close>

definition unchanged_outside :: "crypto_crate \<Rightarrow> Entry \<Rightarrow> string \<Rightarrow> unit restore_io" where
  "unchanged_outside cr entry destination = io_fs (\<lambda>s.
     if fs_exists s destination then
       io_bind (file_digest cr destination) (\<lambda>digest.
       if digest \<noteq> e_new_digest entry \<and> e_previous_digest entry \<noteq> Some digest
       then io_fail (InvalidInput (''Restore rollback stopped: '' @ destination @
              '' changed outside this transaction; journal retained''))
       else io_return ())
     else io_return ())"

definition restore_backup :: "crypto_crate \<Rightarrow> string \<Rightarrow> nat \<Rightarrow> bytes \<Rightarrow> string \<Rightarrow> unit restore_io" where
  "restore_backup cr stage index previous destination =
     (let backup = path_join stage (''backup-'' @ show_nat index) in
      io_fs (\<lambda>s.
        if fs_exists s backup then
          io_bind (file_digest cr backup) (\<lambda>digest.
          if digest \<noteq> previous then io_fail (InvalidInput ''Restore backup digest mismatch; journal retained'')
          else
            io_bind io_random (\<lambda>r.
            let rollback_file = path_join stage (''rollback-'' @ show_nat index @ ''-'' @ show_hex32 r) in
            io_then (os (create_secret_file rollback_file))
            (io_bind (os (open_regular_file backup)) (\<lambda>bs.
             io_then (os (write_all rollback_file bs))
            (io_then (os no_effect)
            (os (atomic_replace rollback_file destination)))))))
        else io_fail (InvalidInput ''Restore backup missing; journal retained'')))"

definition rollback_entry :: "crypto_crate \<Rightarrow> string \<Rightarrow> string \<Rightarrow> nat \<times> Entry \<Rightarrow> unit restore_io" where
  "rollback_entry cr target stage = (\<lambda>(index, entry).
     io_bind (checked_destination target (e_path entry)) (\<lambda>destination.
     io_then (unchanged_outside cr entry destination)
     (io_then
        (case e_previous_digest entry of
           Some previous \<Rightarrow> restore_backup cr stage index previous destination
         | None \<Rightarrow> io_fs (\<lambda>s. if fs_exists s destination then os (remove_file destination) else io_return ()))
      (sync_parent destination))))"

definition rollback :: "crypto_crate \<Rightarrow> string \<Rightarrow> string \<Rightarrow> Journal \<Rightarrow> unit restore_io" where
  "rollback cr target stage journal = io_each (rollback_entry cr target stage) (rev (enumerate 0 (j_entries journal)))"

definition read_journal :: "journal_json \<Rightarrow> string \<Rightarrow> Journal restore_io" where
  "read_journal jj journal_path =
     io_bind (os (read_all journal_path)) (\<lambda>bs.
     if length bs > 16 * 1024 * 1024 then io_fail (InvalidInput ''Restore journal is too large'')
     else io_lift (rmap_err (\<lambda>e. InvalidInput (''Invalid restore journal: '' @ e)) (journal_read jj bs)))"

definition recover_locked :: "journal_json \<Rightarrow> crypto_crate \<Rightarrow> string \<Rightarrow> bool restore_io" where
  "recover_locked jj cr target =
     (let stage = stage_of target in
      io_then (check_no_links stage)
      (io_fs (\<lambda>s.
        if \<not> fs_exists s stage then io_return False
        else
          let journal_path = path_join stage ''journal.json'' in
          io_then (check_no_links journal_path)
          (io_then
             (if fs_exists s journal_path then
                io_bind (read_journal jj journal_path) (\<lambda>journal.
                if j_version journal \<noteq> 1 then io_fail (InvalidInput ''Unsupported restore journal version'')
                else if j_publishing journal \<and> \<not> j_committed journal then rollback cr target stage journal
                else io_return ())
              else io_return ())
          (io_then (os (remove_dir_all stage))
          (io_then (os (sync_directory target))
          (io_return True)))))))"

definition recover_interrupted_restore :: "journal_json \<Rightarrow> crypto_crate \<Rightarrow> string \<Rightarrow> bool restore_io" where
  "recover_interrupted_restore jj cr target = io_then (acquire target) (recover_locked jj cr target)"

subsection \<open>Publication\<close>

fun component_str :: "Component \<Rightarrow> string" where
  "component_str RootDir = ''/''"
| "component_str CurDir = ''.''"
| "component_str ParentDir = ''..''"
| "component_str (Normal s) = s"

definition portable_name :: "string \<Rightarrow> string" where
  "portable_name relative =
     join ''/'' (map (\<lambda>c. to_ascii_lowercase (component_str c)) (path_components (normalize_slashes relative)))"

fun destinations :: "fs \<Rightarrow> string \<Rightarrow> DecryptedFile list \<Rightarrow> string list \<Rightarrow> SnapshotError + string list" where
  "destinations s target [] seen = Inr []"
| "destinations s target (f # files) seen =
     (let n = portable_name (df_relative_path f) in
      if n \<in> set seen then Inl (UnsafePath ''Duplicate restore destination'')
      else
        rbind (validate_destination s target (df_relative_path f)) (\<lambda>path.
        rbind (destinations s target files (n # seen)) (\<lambda>paths.
        Inr (path # paths))))"

fun scan_prefixes :: "string \<Rightarrow> string list \<Rightarrow> string list" where
  "scan_prefixes pre [] = []"
| "scan_prefixes pre (c # cs) =
     (let pre' = (if pre \<noteq> [] then pre @ ''/'' @ c else c) in pre' # scan_prefixes pre' cs)"

definition collides :: "string list \<Rightarrow> string \<Rightarrow> bool" where
  "collides seen path \<longleftrightarrow> list_ex (\<lambda>p. p \<noteq> path \<and> p \<in> set seen) (scan_prefixes [] (segments path))"

definition plan_destinations :: "fs \<Rightarrow> string \<Rightarrow> DecryptedFile list \<Rightarrow> SnapshotError + string list" where
  "plan_destinations s target files =
     rbind (destinations s target files []) (\<lambda>paths.
     let seen = map (portable_name \<circ> df_relative_path) files in
     if list_ex (collides seen) seen
     then Inl (UnsafePath ''File/directory collision in restore destinations'')
     else Inr paths)"

definition backup_original :: "crypto_crate \<Rightarrow> string \<Rightarrow> nat \<Rightarrow> DecryptedFile \<Rightarrow> string \<Rightarrow> bytes option restore_io" where
  "backup_original cr stage index file destination = io_fs (\<lambda>s.
     if fs_exists s destination then
       io_bind (file_digest cr destination) (\<lambda>digest.
       let backup = path_join stage (''backup-'' @ show_nat index) in
       io_then (os (create_secret_file backup))
       (io_bind (os (open_regular_file destination)) (\<lambda>bs.
        io_then (os (write_all backup bs))
       (io_then (os no_effect)
       (io_bind (file_digest cr backup) (\<lambda>copy.
        if copy \<noteq> digest then io_fail (ConcurrentModification (df_relative_path file))
        else io_return (Some digest)))))))
     else io_return None)"

definition stage_file :: "crypto_crate \<Rightarrow> string \<Rightarrow> nat \<Rightarrow> DecryptedFile \<Rightarrow> string \<Rightarrow> Entry restore_io" where
  "stage_file cr stage index file destination =
     (let new_file = path_join stage (''new-'' @ show_nat index) in
      io_then (os (create_secret_file new_file))
      (io_then (os (write_all new_file (df_plaintext file)))
      (io_then (os no_effect)
      (io_bind (backup_original cr stage index file destination) (\<lambda>previous_digest.
       io_then
         (case path_parent destination of Some d \<Rightarrow> os (create_dir_all d) | None \<Rightarrow> io_return ())
         (io_return \<lparr>e_path = df_relative_path file, e_previous_digest = previous_digest,
            e_new_digest = compute_digest cr (df_plaintext file)\<rparr>))))))"

fun stage_files :: "crypto_crate \<Rightarrow> string \<Rightarrow> nat \<Rightarrow> (DecryptedFile \<times> string) list \<Rightarrow> Entry list restore_io" where
  "stage_files cr stage index [] = io_return []"
| "stage_files cr stage index ((file, destination) # rest) =
     io_bind (stage_file cr stage index file destination) (\<lambda>entry.
     io_bind (stage_files cr stage (Suc index) rest) (\<lambda>entries.
     io_return (entry # entries)))"

definition current_digest :: "crypto_crate \<Rightarrow> string \<Rightarrow> bytes option restore_io" where
  "current_digest cr destination = io_fs (\<lambda>s.
     if fs_exists s destination then io_bind (file_digest cr destination) (\<lambda>d. io_return (Some d))
     else io_return None)"

definition publish_file ::
  "crypto_crate \<Rightarrow> (nat \<Rightarrow> string \<Rightarrow> string \<Rightarrow> (io_error, unit) io) \<Rightarrow> string \<Rightarrow> string \<Rightarrow> nat \<times> Entry \<times> string \<Rightarrow> unit restore_io" where
  "publish_file cr publish target stage = (\<lambda>(index, entry, destination).
     io_then (checked_destination target (e_path entry))
     (io_bind (current_digest cr destination) (\<lambda>current.
      if current \<noteq> e_previous_digest entry then io_fail (ConcurrentModification (e_path entry))
      else
        io_then (os (publish index (path_join stage (''new-'' @ show_nat index)) destination))
        (sync_parent destination))))"

definition publish_all ::
  "journal_json \<Rightarrow> crypto_crate \<Rightarrow> (nat \<Rightarrow> string \<Rightarrow> string \<Rightarrow> (io_error, unit) io) \<Rightarrow> string \<Rightarrow> string \<Rightarrow> Entry list \<Rightarrow> string list \<Rightarrow>
   unit restore_io" where
  "publish_all jj cr publish target stage entries paths =
     io_then (write_journal jj stage \<lparr>j_version = 1, j_publishing = True, j_committed = False, j_entries = entries\<rparr>)
     (io_then (io_each (publish_file cr publish target stage) (enumerate 0 (zip entries paths)))
     (write_journal jj stage \<lparr>j_version = 1, j_publishing = True, j_committed = True, j_entries = entries\<rparr>))"

definition publish_with ::
  "journal_json \<Rightarrow> crypto_crate \<Rightarrow> (nat \<Rightarrow> string \<Rightarrow> string \<Rightarrow> (io_error, unit) io) \<Rightarrow> string \<Rightarrow> DecryptedFile list \<Rightarrow>
   string list restore_io" where
  "publish_with jj cr publish target files =
     io_then (acquire target)
     (io_then (recover_locked jj cr target)
     (io_fs (\<lambda>s. io_bind (io_lift (plan_destinations s target files)) (\<lambda>paths.
      let stage = stage_of target in
      io_then (os (mkdir (path_components stage)))
      (io_then (os (lock_secret_directory stage))
      (io_catch (stage_files cr stage 0 (zip files paths))
         (\<lambda>e. io_then (os (remove_dir_all stage)) (io_fail e))
         (\<lambda>entries.
           io_catch (publish_all jj cr publish target stage entries paths)
             (\<lambda>e. io_then
                (io_map_err (\<lambda>r. InvalidInput (''Restore failed ('' @ show_snapshot_error e @ ''); rollback failed ('' @
                     show_snapshot_error r @ ''); journal at '' @ stage))
                   (rollback cr target stage \<lparr>j_version = 1, j_publishing = True, j_committed = False, j_entries = entries\<rparr>))
                (io_then (os (remove_dir_all stage)) (io_fail e)))
             (\<lambda>_.
               io_then (os (remove_dir_all stage))
               (io_then (os (sync_directory target))
               (io_return paths))))))))))"

definition publish_verified_files :: "journal_json \<Rightarrow> crypto_crate \<Rightarrow> string \<Rightarrow> DecryptedFile list \<Rightarrow> string list restore_io" where
  "publish_verified_files jj cr target files = publish_with jj cr (\<lambda>_. atomic_replace) target files"

definition restore_snapshot ::
  "journal_json \<Rightarrow> hex_crate \<Rightarrow> crypto_crate \<Rightarrow> schema_codecs \<Rightarrow> string \<Rightarrow> bytes \<Rightarrow> bytes \<Rightarrow> u64 \<Rightarrow> bytes \<Rightarrow> ChunkWireObject list \<Rightarrow>
   string list restore_io" where
  "restore_snapshot jj h cr k target_dir vault_id epoch_key epoch encrypted_manifest chunks =
     io_bind (io_lift (decrypt_snapshot h cr k vault_id epoch_key epoch encrypted_manifest chunks)) (\<lambda>verified_files.
     publish_verified_files jj cr target_dir verified_files)"

end
