(* ===== verification/Restore_Paths.thy ===== *)
theory Restore_Paths
  imports Restore
begin

text \<open>
  Where a restore writes: what the checks on the destinations mean for the component
  lists of the paths. Destinations lie below the target and outside the files of the
  transaction, and no destination is equal to or below another.
\<close>

subsection \<open>Relative paths\<close>

lemma split_replace:
  "a \<noteq> b \<Longrightarrow> split_char b (replace_char a b s) = concat (map (split_char a) (split_char b s))"
proof (induction s)
  case (Cons c s)
  obtain x xs where x: "split_char b s = x # xs" by (cases "split_char b s") auto
  obtain y ys where y: "split_char a x = y # ys" by (cases "split_char a x") auto
  show ?case using Cons x y by (auto simp: replace_char_def)
qed (simp add: replace_char_def)

lemma segments_normalize: "segments (normalize_slashes p) = concat (map (split_char (CHR 0x5C)) (segments p))"
  by (simp add: normalize_slashes_def split_replace)

lemma hd_segments_normalize: "hd (segments (normalize_slashes p)) = hd (split_char (CHR 0x5C) (hd (segments p)))"
  by (cases "segments p") (simp_all add: segments_normalize)

text \<open>The check on the normalized path makes the path itself an ordinary relative one.\<close>

lemma safe_raw_normal:
  assumes "validate_safe_relative_path p = Inr ()"
  shows "normal_path p" "path_components p = Normal (hd (segments p)) # seg_comps (tl (segments p))"
proof -
  let ?n = "normalize_slashes p"
  have safe: "c \<in> set (path_components ?n) \<Longrightarrow> \<exists>s. c = Normal s" for c
    using safe_normal_path[OF assms] by (simp add: normal_path_def)
  have pne: "p \<noteq> []" using assms by (simp add: validate_safe_iff)
  have nroot: "\<not> starts_with ''/'' p"
  proof
    assume "starts_with ''/'' p"
    then have "starts_with ''/'' ?n" by (cases p) (auto simp: normalize_slashes_def replace_char_def)
    then have "RootDir \<in> set (path_components ?n)" by (simp add: path_components_def lead_def)
    then show False using safe by blast
  qed
  have sub: "x \<in> set (segments ?n)" if "x \<in> set (segments p)" "CHR 0x5C \<notin> set x" for x
    using that split_char_none[OF that(2)] by (force simp: segments_normalize)
  have ndot: "hd (segments p) \<noteq> ''.''"
  proof
    assume d: "hd (segments p) = ''.''"
    then have "hd (segments ?n) = ''.''" by (simp add: hd_segments_normalize)
    then have "lead ?n \<noteq> []" by (simp add: lead_def)
    moreover have "c \<in> set (lead ?n) \<Longrightarrow> c = RootDir \<or> c = CurDir" for c by (auto simp: lead_def split: if_splits)
    ultimately have "RootDir \<in> set (path_components ?n) \<or> CurDir \<in> set (path_components ?n)"
      by (cases "lead ?n") (auto simp: path_components_def)
    then show False using safe by blast
  qed
  have nup: "''..'' \<notin> set (segments p)"
  proof
    assume "''..'' \<in> set (segments p)"
    then have "''..'' \<in> set (segments ?n)" using sub by simp
    then have "ParentDir \<in> set (path_components ?n)"
      by (force simp: path_components_def seg_comps_def map_filter_def seg_component_def)
    then show False using safe by blast
  qed
  obtain x xs where x: "segments p = x # xs" by (cases "segments p") auto
  have "x \<noteq> []" using pne nroot x by (cases p) (auto split: if_splits list.splits)
  then have "seg_component x = Some (Normal x)" using ndot nup x by (auto simp: seg_component_def)
  then show eq: "path_components p = Normal (hd (segments p)) # seg_comps (tl (segments p))"
    using nroot ndot x by (simp add: path_components_def lead_def)
  have "\<exists>s. c = Normal s" if "c \<in> set (seg_comps (segments p))" for c
    using that nup by (auto simp: seg_comps_def map_filter_def seg_component_def split: if_splits)
  then show "normal_path p" using eq nroot ndot by (simp add: normal_path_def path_components_def lead_def)
qed

definition rel_ok :: "string \<Rightarrow> bool" where
  "rel_ok r \<longleftrightarrow> validate_safe_relative_path r = Inr () \<and>
     \<not> eq_ignore_ascii_case (hd (segments (normalize_slashes r))) STAGE \<and>
     \<not> eq_ignore_ascii_case (hd (segments (normalize_slashes r))) LOCK"

lemma rel_ok_components:
  assumes "rel_ok r"
  shows "normal_path r" "\<exists>x xs. path_components r = Normal x # xs \<and> x \<noteq> STAGE \<and> x \<noteq> LOCK"
proof -
  have safe: "validate_safe_relative_path r = Inr ()" using assms by (simp add: rel_ok_def)
  have "hd (segments (normalize_slashes r)) = hd (segments r)" if "CHR 0x5C \<notin> set (hd (segments r))"
    using that by (simp add: hd_segments_normalize split_char_none)
  moreover have "CHR 0x5C \<notin> set STAGE" "CHR 0x5C \<notin> set LOCK" by (simp_all add: STAGE_def LOCK_def)
  ultimately have "hd (segments r) \<noteq> STAGE" "hd (segments r) \<noteq> LOCK"
    using assms by (auto simp: rel_ok_def eq_ignore_ascii_case_def)
  then show "\<exists>x xs. path_components r = Normal x # xs \<and> x \<noteq> STAGE \<and> x \<noteq> LOCK"
    using safe_raw_normal(2)[OF safe] by simp
  show "normal_path r" by (rule safe_raw_normal(1)[OF safe])
qed

subsection \<open>The destination of a file\<close>

definition dest :: "string \<Rightarrow> string \<Rightarrow> Component list" where
  "dest target r = path_components target @ path_components r"

lemma path_components_dest: "rel_ok r \<Longrightarrow> path_components (path_join target r) = dest target r"
  using path_components_join[OF rel_ok_components(1)] by (simp add: dest_def)

lemma under_file_iff: "under_file s p \<longleftrightarrow> (\<exists>q b. strict_prefix q p \<and> s q = Some (File b))"
proof -
  have "(case s q of Some (File _) \<Rightarrow> True | _ \<Rightarrow> False) \<longleftrightarrow> (\<exists>b. s q = Some (File b))" for q
    by (auto split: option.splits node.splits)
  then show ?thesis by (auto simp: under_file_def list_ex_iff strict_prefix_def)
qed

lemma under_file_Nil [simp]: "\<not> under_file s []"
  by (simp add: under_file_iff)

text \<open>No link on the path, and nothing on it is looked up below a regular file.\<close>

definition passable :: "fs \<Rightarrow> Component list \<Rightarrow> bool" where
  "passable s p \<longleftrightarrow> (\<forall>q. prefix q p \<longrightarrow> q \<noteq> [] \<longrightarrow> s q \<noteq> Some Link \<and> (s q = None \<longrightarrow> \<not> under_file s q))"

lemma passableI:
  "(\<And>q. prefix q p \<Longrightarrow> s q \<noteq> Some Link) \<Longrightarrow> (\<And>q b. strict_prefix q p \<Longrightarrow> s q \<noteq> Some (File b)) \<Longrightarrow> passable s p"
  unfolding passable_def under_file_iff by (meson prefix_order.less_le_trans)

lemma no_links_fs:
  assumes "s [] = None"
  shows "validate_no_links (fs_lstat s) p = Inr () \<longleftrightarrow> passable s (path_components p)"
proof -
  have "fs_lstat s a = Inr False \<or> (\<exists>e. fs_lstat s a = Inl (NotFound e)) \<longleftrightarrow>
      s (path_components a) \<noteq> Some Link \<and> (s (path_components a) = None \<longrightarrow> \<not> under_file s (path_components a))" for a
    by (auto simp: fs_lstat_def lookup_def missing_def split: option.splits)
  then have "validate_no_links (fs_lstat s) p = Inr () \<longleftrightarrow>
      (\<forall>q\<in>path_components ` set (path_ancestors p). s q \<noteq> Some Link \<and> (s q = None \<longrightarrow> \<not> under_file s q))"
    by (simp add: validate_no_links_iff)
  moreover have "s [] \<noteq> Some Link \<and> (s [] = None \<longrightarrow> \<not> under_file s [])" using assms by simp
  ultimately show ?thesis unfolding ancestor_components passable_def mem_Collect_eq Ball_def by metis
qed

lemma check_parents_takeWhile:
  "check_parents s target ps = Inr () \<longleftrightarrow>
     (\<forall>q\<in>set (takeWhile (\<lambda>q. q \<noteq> path_components target) (map path_components ps)).
       s q = None \<and> \<not> under_file s q \<or> s q = Some Dir)"
proof (induction ps)
  case (Cons p ps)
  show ?case using Cons
    by (cases "s (path_components p)"; cases "the (s (path_components p))") (auto simp: path_eq_def lookup_def)
qed simp

lemma takeWhile_filter_prefixes:
  "prefix b t \<Longrightarrow> prefix t p \<Longrightarrow>
   takeWhile (\<lambda>q. q \<noteq> t) (rev (filter (prefix b) (prefixes p))) = takeWhile (\<lambda>q. q \<noteq> t) (rev (prefixes p))"
proof (induction p rule: rev_induct)
  case (snoc x p)
  have b: "prefix b (p @ [x])" using snoc.prems by (rule prefix_order.trans)
  show ?case using snoc b by (cases "t = p @ [x]") (auto simp: prefixes_snoc)
qed simp

lemma check_parents_iff:
  assumes "rel_ok r"
  shows "check_parents s target (tl (path_ancestors (path_join target r))) = Inr () \<longleftrightarrow>
    (\<forall>q. strict_prefix (path_components target) q \<and> strict_prefix q (dest target r) \<longrightarrow> s q = None \<and> \<not> under_file s q \<or> s q = Some Dir)"
proof -
  let ?p = "path_join target r" and ?t = "path_components target"
  let ?b = "if starts_with ''/'' ?p then [RootDir] else []"
  note norm = rel_ok_components(1)[OF assms]
  have d: "path_components ?p = dest target r" by (rule path_components_dest[OF assms])
  have ne: "dest target r \<noteq> []" "prefix ?t (butlast (dest target r))"
    using norm by (auto simp: dest_def normal_path_def butlast_append)
  have "starts_with ''/'' target" if "starts_with ''/'' ?p"
    using that normal_path_segs[OF norm] by (cases target) (auto simp: path_join_def split: if_splits)
  then have b: "prefix ?b ?t" by (auto simp: path_components_def lead_def)
  have "map path_components (tl (path_ancestors ?p)) = tl (rev (filter (prefix ?b) (prefixes (dest target r))))"
    using path_ancestors_list[of ?p] by (simp add: map_tl d)
  also have "\<dots> = rev (filter (prefix ?b) (prefixes (butlast (dest target r))))"
    using ne(1) prefix_order.trans[OF prefix_order.trans[OF b ne(2)], of "dest target r"]
    by (simp add: prefixes_butlast prefixeq_butlast)
  finally have "set (takeWhile (\<lambda>q. q \<noteq> ?t) (map path_components (tl (path_ancestors ?p)))) =
      {q. prefix q (butlast (dest target r)) \<and> strict_prefix ?t q}"
    using takeWhile_filter_prefixes[OF b ne(2)] takeWhile_prefixes[OF ne(2)] by simp
  moreover have "prefix q (butlast (dest target r)) \<longleftrightarrow> strict_prefix q (dest target r)" for q
    using ne(1) by (cases "dest target r" rule: rev_cases) (auto simp: strict_prefix_def dest: prefix_length_le)
  ultimately show ?thesis unfolding check_parents_takeWhile by auto
qed

text \<open>All that the check of a destination says about the file system.\<close>

definition place_ok :: "fs \<Rightarrow> string \<Rightarrow> string \<Rightarrow> bool" where
  "place_ok s target r \<longleftrightarrow> passable s (dest target r) \<and> (s (dest target r) = None \<or> (\<exists>bs. s (dest target r) = Some (File bs))) \<and>
     (\<forall>q. strict_prefix (path_components target) q \<and> strict_prefix q (dest target r) \<longrightarrow> s q = None \<or> s q = Some Dir)"

lemma validate_destination_iff:
  assumes "s [] = None"
  shows "validate_destination s target r = Inr p \<longleftrightarrow> p = path_join target r \<and> rel_ok r \<and> place_ok s target r"
proof (cases "rel_ok r")
  case True
  then have "validate_safe_relative_path r = Inr ()" by (simp add: rel_ok_def)
  moreover have "(case lookup s (path_join target r) of None \<Rightarrow> False | Some (File _) \<Rightarrow> False | Some _ \<Rightarrow> True) \<longleftrightarrow>
      \<not> (s (dest target r) = None \<or> (\<exists>bs. s (dest target r) = Some (File bs)))"
    unfolding lookup_def path_components_dest[OF True] by (auto split: option.splits node.splits)
  moreover have "check_parents s target (tl (path_ancestors (path_join target r))) = Inr () \<longleftrightarrow>
      (\<forall>q. strict_prefix (path_components target) q \<and> strict_prefix q (dest target r) \<longrightarrow> s q = None \<or> s q = Some Dir)"
    if "passable s (dest target r)"
  proof -
    have "strict_prefix (path_components target) q \<Longrightarrow> strict_prefix q (dest target r) \<Longrightarrow> s q = None \<Longrightarrow> \<not> under_file s q" for q
      using that unfolding passable_def by (metis prefix_order.less_imp_le strict_prefix_simps(1))
    then show ?thesis using check_parents_iff[OF True, of s target] by blast
  qed
  ultimately show ?thesis
    using True no_links_fs[where s = s and p = "path_join target r"] assms
    by (auto simp: validate_destination_def rel_ok_def result_simps place_ok_def path_components_dest[OF True] Let_def)
qed (auto simp: validate_destination_def rel_ok_def result_simps Let_def)

subsection \<open>Destinations do not meet\<close>

definition scattered :: "Component list list \<Rightarrow> bool" where
  "scattered ds \<longleftrightarrow> (\<forall>i<length ds. \<forall>j<length ds. i \<noteq> j \<longrightarrow> \<not> prefix (ds ! i) (ds ! j))"

definition name_parts :: "string \<Rightarrow> string list" where
  "name_parts r = map (\<lambda>c. to_ascii_lowercase (component_str c)) (path_components (normalize_slashes r))"

lemma portable_name_parts: "portable_name r = join ''/'' (name_parts r)"
  by (simp add: portable_name_def name_parts_def)

lemma seg_comps_concat: "seg_comps (concat xss) = concat (map seg_comps xss)"
  by (induction xss) simp_all

lemma seg_comps_split_comps:
  "''..'' \<notin> set segs \<Longrightarrow> concat (map (\<lambda>x. seg_comps (split_char (CHR 0x5C) x)) segs) =
     concat (map (\<lambda>c. seg_comps (split_char (CHR 0x5C) (component_str c))) (seg_comps segs))"
  by (induction segs) (auto simp: seg_component_def seg_comps_def map_filter_simps)

text \<open>The portable name depends on the components only, and it keeps the prefix order.\<close>

lemma components_normalize:
  assumes "validate_safe_relative_path r = Inr ()"
  shows "path_components (normalize_slashes r) =
    concat (map (\<lambda>c. seg_comps (split_char (CHR 0x5C) (component_str c))) (path_components r))"
proof -
  have n: "normal_path r" by (rule safe_raw_normal(1)[OF assms])
  have up: "''..'' \<notin> set (segments r)"
  proof
    assume "''..'' \<in> set (segments r)"
    then have "ParentDir \<in> set (path_components r)"
      by (force simp: path_components_def seg_comps_def map_filter_def seg_component_def)
    then show False using n by (auto simp: normal_path_def)
  qed
  show ?thesis
    unfolding normal_path_segs(1)[OF safe_normal_path[OF assms]] normal_path_segs(1)[OF n] segments_normalize
    using seg_comps_split_comps[OF up] by (simp add: seg_comps_concat o_def)
qed

lemma name_parts_prefix:
  assumes "validate_safe_relative_path p = Inr ()" "validate_safe_relative_path q = Inr ()"
    and "prefix (path_components p) (path_components q)"
  shows "prefix (name_parts p) (name_parts q)"
  using assms by (auto simp: name_parts_def components_normalize prefix_def)

lemma ascii_lower_slash: "d \<noteq> CHR ''/'' \<Longrightarrow> ascii_lower d \<noteq> CHR ''/''"
proof
  assume d: "d \<noteq> CHR ''/''" and l: "ascii_lower d = CHR ''/''"
  have "of_char (ascii_lower d) = (47 :: nat)" unfolding l by simp
  moreover have "65 \<le> (of_char d :: nat)" "(of_char d :: nat) \<le> 90" using d l by (auto simp: ascii_lower_def split: if_splits)
  moreover from this have "of_char (ascii_lower d) = (of_char d + 32 :: nat)" by (simp add: ascii_lower_def)
  ultimately show False by linarith
qed

lemma name_parts_plain:
  assumes "validate_safe_relative_path r = Inr ()"
  shows "name_parts r \<noteq> []" "\<forall>x\<in>set (name_parts r). x \<noteq> [] \<and> CHR ''/'' \<notin> set x"
proof -
  have n: "normal_path (normalize_slashes r)" by (rule safe_normal_path[OF assms])
  then show "name_parts r \<noteq> []" by (simp add: name_parts_def normal_path_def)
  show "\<forall>x\<in>set (name_parts r). x \<noteq> [] \<and> CHR ''/'' \<notin> set x"
  proof
    fix x assume "x \<in> set (name_parts r)"
    then obtain c where c: "c \<in> set (path_components (normalize_slashes r))" "x = to_ascii_lowercase (component_str c)"
      by (auto simp: name_parts_def)
    then obtain y where y: "c = Normal y" "c \<in> set (seg_comps (segments (normalize_slashes r)))"
      using n normal_path_segs(1)[OF n] by (auto simp: normal_path_def)
    then have "y \<in> set (segments (normalize_slashes r))" "y \<noteq> []"
      by (auto simp: seg_comps_def map_filter_def seg_component_def split: if_splits)
    then have "CHR ''/'' \<notin> set y" "y \<noteq> []" using segments_no_slash[of y] by blast+
    then have "\<forall>d\<in>set y. ascii_lower d \<noteq> CHR ''/''" using ascii_lower_slash by metis
    then show "x \<noteq> [] \<and> CHR ''/'' \<notin> set x"
      using c(2) y(1) \<open>y \<noteq> []\<close> by (auto simp: to_ascii_lowercase_def)
  qed
qed

lemma join_snoc: "xs \<noteq> [] \<Longrightarrow> join sep (xs @ [y]) = join sep xs @ sep @ y"
  by (induction sep xs rule: join.induct) auto

lemma scan_prefixes_join:
  assumes "\<forall>x\<in>set xs. x \<noteq> []" "\<forall>x\<in>set ys. x \<noteq> []" "xs \<noteq> []"
  shows "set (scan_prefixes (join ''/'' xs) ys) = (\<lambda>n. join ''/'' (xs @ take n ys)) ` {1..length ys}"
  using assms
proof (induction ys arbitrary: xs)
  case (Cons y ys)
  have ne: "join ''/'' xs \<noteq> []" using Cons.prems by (cases xs; cases "tl xs") auto
  have j: "join ''/'' xs @ ''/'' @ y = join ''/'' (xs @ [y])"
    using Cons.prems(3) by (simp add: join_snoc)
  have s: "{1..length (y # ys)} = insert 1 (Suc ` {1..length ys})"
    by (auto simp: image_Suc_atLeastAtMost)
  have "set (scan_prefixes (join ''/'' xs) (y # ys)) = insert (join ''/'' (xs @ [y])) (set (scan_prefixes (join ''/'' (xs @ [y])) ys))"
    using ne j by (simp add: Let_def)
  also have "\<dots> = (\<lambda>n. join ''/'' (xs @ take n (y # ys))) ` {1..length (y # ys)}"
    using Cons.IH[of "xs @ [y]"] Cons.prems unfolding s by (simp add: image_image del: image_Suc_atLeastAtMost)
  finally show ?case .
qed simp

lemma scan_prefixes_all:
  assumes "\<forall>x\<in>set ys. x \<noteq> []"
  shows "set (scan_prefixes [] ys) = (\<lambda>n. join ''/'' (take n ys)) ` {1..length ys}"
proof (cases ys)
  case (Cons y zs)
  have s: "{1..length (y # zs)} = insert 1 (Suc ` {1..length zs})"
    by (auto simp: image_Suc_atLeastAtMost)
  show ?thesis using scan_prefixes_join[of "[y]" zs] assms unfolding Cons s by (simp add: image_image del: image_Suc_atLeastAtMost)
qed simp

lemma not_collides_prefix:
  assumes "validate_safe_relative_path p = Inr ()" "validate_safe_relative_path q = Inr ()"
    and "portable_name p \<in> set seen" "\<not> collides seen (portable_name q)"
    and "prefix (path_components p) (path_components q)"
  shows "portable_name p = portable_name q"
proof -
  note pl = name_parts_plain[OF assms(1)] and ql = name_parts_plain[OF assms(2)]
  obtain n where n: "name_parts p = take n (name_parts q)" "n \<le> length (name_parts q)"
    using name_parts_prefix[OF assms(1,2,5)] by (metis prefix_length_le take_is_prefix prefix_def append_eq_conv_conj)
  have "n \<noteq> 0" using n pl(1) by auto
  then have "portable_name p \<in> set (scan_prefixes [] (name_parts q))"
    using scan_prefixes_all[of "name_parts q"] ql(2) n unfolding portable_name_parts by auto
  moreover have "segments (portable_name q) = name_parts q"
    unfolding portable_name_parts by (rule segments_join) (use ql in auto)
  ultimately show ?thesis using assms(3,4) by (auto simp: collides_def list_ex_iff)
qed

lemma destinations_sound:
  assumes "destinations s target files seen = Inr paths" "s [] = None"
  shows "paths = map (\<lambda>f. path_join target (df_relative_path f)) files"
    and "\<forall>f\<in>set files. rel_ok (df_relative_path f) \<and> place_ok s target (df_relative_path f)"
    and "distinct (map (portable_name \<circ> df_relative_path) files) \<and> set seen \<inter> set (map (portable_name \<circ> df_relative_path) files) = {}"
proof -
  have "paths = map (\<lambda>f. path_join target (df_relative_path f)) files \<and>
    (\<forall>f\<in>set files. rel_ok (df_relative_path f) \<and> place_ok s target (df_relative_path f)) \<and>
    distinct (map (portable_name \<circ> df_relative_path) files) \<and> set seen \<inter> set (map (portable_name \<circ> df_relative_path) files) = {}"
    using assms
  proof (induction files arbitrary: seen paths)
    case (Cons f files)
    then obtain p ps where p: "portable_name (df_relative_path f) \<notin> set seen" "validate_destination s target (df_relative_path f) = Inr p"
        "destinations s target files (portable_name (df_relative_path f) # seen) = Inr ps" "paths = p # ps"
      by (auto simp: result_simps Let_def split: if_splits)
    show ?case using Cons.IH[OF p(3) Cons.prems(2)] p(1,2,4) Cons.prems(2) by (auto simp: validate_destination_iff)
  qed (simp add: result_simps)
  then show "paths = map (\<lambda>f. path_join target (df_relative_path f)) files"
    "\<forall>f\<in>set files. rel_ok (df_relative_path f) \<and> place_ok s target (df_relative_path f)"
    "distinct (map (portable_name \<circ> df_relative_path) files) \<and> set seen \<inter> set (map (portable_name \<circ> df_relative_path) files) = {}"
    by blast+
qed

text \<open>What a successful plan promises.\<close>

lemma plan_destinations_sound:
  assumes "plan_destinations s target files = Inr paths" "s [] = None"
  shows "paths = map (\<lambda>f. path_join target (df_relative_path f)) files"
    and "\<forall>f\<in>set files. rel_ok (df_relative_path f) \<and> place_ok s target (df_relative_path f)"
    and "scattered (map (\<lambda>f. dest target (df_relative_path f)) files)"
proof -
  let ?n = "map (portable_name \<circ> df_relative_path) files"
  have p: "destinations s target files [] = Inr paths" "\<forall>f\<in>set files. \<not> collides ?n (portable_name (df_relative_path f))"
    using assms(1) by (auto simp: plan_destinations_def result_simps Let_def list_ex_iff split: if_splits)
  note d = destinations_sound[OF p(1) assms(2)]
  show "paths = map (\<lambda>f. path_join target (df_relative_path f)) files"
    "\<forall>f\<in>set files. rel_ok (df_relative_path f) \<and> place_ok s target (df_relative_path f)" by (fact d(1), fact d(2))
  have "i = j" if "i < length files" "j < length files" "prefix (path_components (df_relative_path (files ! i))) (path_components (df_relative_path (files ! j)))" for i j
  proof -
    have "portable_name (df_relative_path (files ! i)) = portable_name (df_relative_path (files ! j))"
      using that d(2) p(2) by (intro not_collides_prefix[where seen = ?n]) (auto simp: rel_ok_def)
    then show "i = j" using d(3) that by (auto simp: distinct_conv_nth)
  qed
  then show "scattered (map (\<lambda>f. dest target (df_relative_path f)) files)"
    by (auto simp: scattered_def dest_def)
qed

subsection \<open>The files of the transaction\<close>

lemma path_components_file:
  assumes "x \<noteq> []" "CHR ''/'' \<notin> set x" "x \<noteq> ''.''" "x \<noteq> ''..''"
  shows "path_components (path_join d x) = path_components d @ [Normal x]"
  using path_components_join[OF path_components_name(2)[OF assms]] path_components_name(1)[OF assms] by simp

lemma show_nat_no_slash [simp]: "CHR ''/'' \<notin> set (show_nat n)"
  using show_nat_graphic[of "CHR ''/''" n] by (auto simp: is_ascii_digit_def)

lemma hex_digits_no_slash [simp]: "CHR ''/'' \<notin> set (show_hex32 n)"
proof -
  have "CHR ''/'' \<notin> set hex_digits" by (simp add: hex_digits_def)
  moreover have "hex_digits ! (n div 16 ^ i mod 16) \<in> set hex_digits" for i
    by (rule nth_mem) (simp add: hex_digits_def)
  ultimately show ?thesis unfolding show_hex32_def by (metis (no_types, lifting) ex_map_conv)
qed

lemma stage_components: "path_components (stage_of t) = path_components t @ [Normal STAGE]"
  by (rule path_components_file) (simp_all add: STAGE_def)

lemma lock_components: "path_components (path_join t LOCK) = path_components t @ [Normal LOCK]"
  by (rule path_components_file) (simp_all add: LOCK_def)

lemma stage_file_components:
  "path_components (path_join d (''new-'' @ show_nat i)) = path_components d @ [Normal (''new-'' @ show_nat i)]"
  "path_components (path_join d (''backup-'' @ show_nat i)) = path_components d @ [Normal (''backup-'' @ show_nat i)]"
  "path_components (path_join d (''rollback-'' @ show_nat i @ ''-'' @ show_hex32 r)) =
     path_components d @ [Normal (''rollback-'' @ show_nat i @ ''-'' @ show_hex32 r)]"
  "path_components (path_join d ''journal.json'') = path_components d @ [Normal ''journal.json'']"
  "path_components (path_join d (''journal-'' @ show_hex32 r @ ''.tmp'')) =
     path_components d @ [Normal (''journal-'' @ show_hex32 r @ ''.tmp'')]"
  by (rule path_components_file; simp)+

end
