(* ===== verification/Restore_State.thy ===== *)
theory Restore_State
  imports Restore_Paths
begin

text \<open>
  The states a restore transaction goes through, as predicates on the file system: the
  files of the transaction below the stage directory, what the rest of the tree may look
  like meanwhile, and the three kinds of states that recovery can start from.
\<close>

subsection \<open>Names\<close>

lemma strict_prefix_append [simp]: "strict_prefix xs (xs @ ys) \<longleftrightarrow> ys \<noteq> []"
  by (auto simp: strict_prefix_def)

definition stage_at :: "string \<Rightarrow> Component list" where
  "stage_at t = path_components (stage_of t)"

definition lock_at :: "string \<Rightarrow> Component list" where
  "lock_at t = path_components (path_join t LOCK)"

definition new_at :: "string \<Rightarrow> nat \<Rightarrow> Component list" where
  "new_at t i = path_components (path_join (stage_of t) (''new-'' @ show_nat i))"

definition backup_at :: "string \<Rightarrow> nat \<Rightarrow> Component list" where
  "backup_at t i = path_components (path_join (stage_of t) (''backup-'' @ show_nat i))"

definition rollback_at :: "string \<Rightarrow> nat \<Rightarrow> nat \<Rightarrow> Component list" where
  "rollback_at t i r = path_components (path_join (stage_of t) (''rollback-'' @ show_nat i @ ''-'' @ show_hex32 r))"

definition journal_at :: "string \<Rightarrow> Component list" where
  "journal_at t = path_components (path_join (stage_of t) ''journal.json'')"

definition tmp_at :: "string \<Rightarrow> nat \<Rightarrow> Component list" where
  "tmp_at t r = path_components (path_join (stage_of t) (''journal-'' @ show_hex32 r @ ''.tmp''))"

lemmas at_folds = stage_at_def[symmetric] lock_at_def[symmetric] new_at_def[symmetric] backup_at_def[symmetric]
  rollback_at_def[symmetric] journal_at_def[symmetric] tmp_at_def[symmetric]

lemma at_forms:
  "stage_at t = path_components t @ [Normal STAGE]" "lock_at t = path_components t @ [Normal LOCK]"
  "new_at t i = stage_at t @ [Normal (''new-'' @ show_nat i)]" "backup_at t i = stage_at t @ [Normal (''backup-'' @ show_nat i)]"
  "rollback_at t i r = stage_at t @ [Normal (''rollback-'' @ show_nat i @ ''-'' @ show_hex32 r)]"
  "journal_at t = stage_at t @ [Normal ''journal.json'']"
  "tmp_at t r = stage_at t @ [Normal (''journal-'' @ show_hex32 r @ ''.tmp'')]"
  unfolding stage_at_def lock_at_def new_at_def backup_at_def rollback_at_def journal_at_def tmp_at_def
  by (rule stage_components lock_components stage_file_components)+

lemma at_distinct [simp]:
  "new_at t i = new_at t j \<longleftrightarrow> i = j" "backup_at t i = backup_at t j \<longleftrightarrow> i = j"
  "new_at t i \<noteq> backup_at t j" "backup_at t j \<noteq> new_at t i" "new_at t i \<noteq> rollback_at t j r" "rollback_at t j r \<noteq> new_at t i"
  "new_at t i \<noteq> journal_at t" "journal_at t \<noteq> new_at t i" "new_at t i \<noteq> tmp_at t r" "tmp_at t r \<noteq> new_at t i"
  "backup_at t i \<noteq> rollback_at t j r" "rollback_at t j r \<noteq> backup_at t i" "backup_at t i \<noteq> journal_at t"
  "journal_at t \<noteq> backup_at t i" "backup_at t i \<noteq> tmp_at t r" "tmp_at t r \<noteq> backup_at t i"
  "rollback_at t i r \<noteq> journal_at t" "journal_at t \<noteq> rollback_at t i r"
  "rollback_at t i r \<noteq> tmp_at t r'" "tmp_at t r' \<noteq> rollback_at t i r" "tmp_at t r \<noteq> journal_at t" "journal_at t \<noteq> tmp_at t r"
  by (simp_all add: at_forms)

lemma at_below [simp]:
  "strict_prefix (stage_at t) (new_at t i)" "strict_prefix (stage_at t) (backup_at t i)" "strict_prefix (stage_at t) (rollback_at t i r)"
  "strict_prefix (stage_at t) (journal_at t)" "strict_prefix (stage_at t) (tmp_at t r)"
  by (simp_all add: at_forms(3-))

lemma at_prefix [simp]:
  "prefix (stage_at t) (new_at t i)" "prefix (stage_at t) (backup_at t i)" "prefix (stage_at t) (rollback_at t i r)"
  "prefix (stage_at t) (journal_at t)" "prefix (stage_at t) (tmp_at t r)"
  by (simp_all add: at_forms(3-))

lemma at_parent [simp]:
  "butlast (new_at t i) = stage_at t" "butlast (backup_at t i) = stage_at t" "butlast (rollback_at t i r) = stage_at t"
  "butlast (journal_at t) = stage_at t" "butlast (tmp_at t r) = stage_at t"
  "butlast (stage_at t) = path_components t" "butlast (lock_at t) = path_components t"
  by (simp_all add: at_forms(3-)) (simp_all add: at_forms)

lemma at_not_stage [simp]:
  "new_at t i \<noteq> stage_at t" "backup_at t i \<noteq> stage_at t" "rollback_at t i r \<noteq> stage_at t" "journal_at t \<noteq> stage_at t"
  "tmp_at t r \<noteq> stage_at t" "lock_at t \<noteq> stage_at t" "stage_at t \<noteq> lock_at t"
  "\<not> prefix (stage_at t) (lock_at t)" "\<not> prefix (stage_at t) (path_components t)"
  by (simp_all add: at_forms(3-)) (auto simp: at_forms STAGE_def LOCK_def dest: prefix_length_le)

lemma stage_not_at [simp]:
  "stage_at t \<noteq> new_at t i" "stage_at t \<noteq> backup_at t i" "stage_at t \<noteq> rollback_at t i r" "stage_at t \<noteq> journal_at t"
  "stage_at t \<noteq> tmp_at t r"
  using at_not_stage by metis+

lemma stage_not_Nil [simp]: "stage_at t \<noteq> []" "lock_at t \<noteq> []" "stage_at t \<noteq> [RootDir]"
  by (simp_all add: at_forms)

lemma prefix_target:
  "strict_prefix q (stage_at t) \<longleftrightarrow> prefix q (path_components t)" "strict_prefix q (lock_at t) \<longleftrightarrow> prefix q (path_components t)"
  by (auto simp: at_forms strict_prefix_def dest: prefix_length_le)

lemma prefix_target_stage [simp]: "prefix q (path_components t) \<Longrightarrow> \<not> prefix (stage_at t) q"
  using at_not_stage(9) prefix_order.trans by blast

subsection \<open>Directories\<close>

definition dirs :: "fs \<Rightarrow> Component list \<Rightarrow> bool" where
  "dirs s p \<longleftrightarrow> (\<forall>q. strict_prefix q p \<longrightarrow> q \<noteq> [] \<longrightarrow> q \<noteq> [RootDir] \<longrightarrow> s q = Some Dir)"

lemma dirs_parent: "dirs s p \<Longrightarrow> p \<noteq> [] \<Longrightarrow> parent_is_dir s p"
proof -
  assume d: "dirs s p" "p \<noteq> []"
  then have "strict_prefix (butlast p) p" by (cases p rule: rev_cases) simp_all
  then show ?thesis using d(1) by (auto simp: dirs_def parent_is_dir_def)
qed

definition base_ok :: "string \<Rightarrow> fs \<Rightarrow> bool" where
  "base_ok t s \<longleftrightarrow> s [] = None \<and> (\<forall>q. prefix q (path_components t) \<longrightarrow> s q = None \<or> s q = Some Dir) \<and>
     (s (lock_at t) = None \<or> (\<exists>b. s (lock_at t) = Some (File b))) \<and> s (stage_at t) \<noteq> Some Link \<and> (\<forall>b. s (stage_at t) \<noteq> Some (File b))"

lemma passable_base:
  assumes "base_ok t s"
  shows "passable s (path_components t)" "passable s (stage_at t)" "passable s (lock_at t)"
proof -
  have t: "s q \<noteq> Some Link \<and> (\<forall>b. s q \<noteq> Some (File b))" if "prefix q (path_components t)" for q
    using assms that by (auto simp: base_ok_def)
  moreover have "s (stage_at t) \<noteq> Some Link" "s (lock_at t) \<noteq> Some Link" using assms by (auto simp: base_ok_def)
  ultimately show "passable s (path_components t)" "passable s (stage_at t)" "passable s (lock_at t)"
    by (auto intro!: passableI simp: prefix_target prefix_order.le_less[of _ "stage_at t"] prefix_order.le_less[of _ "lock_at t"]
        dest: prefix_order.less_imp_le)
qed

lemma passable_below:
  assumes "base_ok t s" "s (stage_at t) = Some Dir" "s p \<noteq> Some Link" "butlast p = stage_at t"
  shows "passable s p"
proof -
  have p: "prefix q p \<longleftrightarrow> q = p \<or> q = stage_at t \<or> prefix q (path_components t)" for q
    using assms(4) prefix_target(1)[of q t] by (cases p rule: rev_cases) (auto simp: prefix_order.le_less[of q "stage_at t"])
  have "s q \<noteq> Some Link \<and> (\<forall>b. s q \<noteq> Some (File b))" if "prefix q (path_components t)" for q
    using assms(1) that by (auto simp: base_ok_def)
  then show ?thesis using assms(2,3) p by (intro passableI) (auto simp: strict_prefix_def)
qed

subsection \<open>A plan\<close>

text \<open>The target, the files to write, and the file system when writing starts.\<close>

record plan =
  p_target :: string
  p_files :: "DecryptedFile list"
  p_base :: fs

definition place :: "plan \<Rightarrow> nat \<Rightarrow> Component list" where
  "place X i = dest (p_target X) (df_relative_path (p_files X ! i))"

definition text_of :: "plan \<Rightarrow> nat \<Rightarrow> bytes" where
  "text_of X i = df_plaintext (p_files X ! i)"

abbreviation count :: "plan \<Rightarrow> nat" where
  "count X \<equiv> length (p_files X)"

abbreviation stage :: "plan \<Rightarrow> Component list" where
  "stage X \<equiv> stage_at (p_target X)"

definition planned :: "plan \<Rightarrow> bool" where
  "planned X \<longleftrightarrow> base_ok (p_target X) (p_base X) \<and> dirs (p_base X) (stage X) \<and> (\<exists>b. p_base X (lock_at (p_target X)) = Some (File b)) \<and>
     (\<forall>q. prefix (stage X) q \<longrightarrow> p_base X q = None) \<and>
     (\<forall>f\<in>set (p_files X). rel_ok (df_relative_path f) \<and> place_ok (p_base X) (p_target X) (df_relative_path f) \<and>
        length (df_plaintext f) \<le> unat MAX_FILE_SIZE) \<and>
     scattered (map (\<lambda>f. dest (p_target X) (df_relative_path f)) (p_files X))"

lemma planned_file:
  assumes "planned X" "i < count X"
  shows "rel_ok (df_relative_path (p_files X ! i))" "place_ok (p_base X) (p_target X) (df_relative_path (p_files X ! i))"
    "length (text_of X i) \<le> unat MAX_FILE_SIZE"
  using assms by (auto simp: planned_def text_of_def)

lemma place_prefix:
  assumes "planned X" "i < count X" "j < count X"
  shows "prefix (place X i) (place X j) \<longleftrightarrow> i = j"
  using assms by (auto simp: planned_def scattered_def place_def)

lemma place_eq:
  assumes "planned X" "i < count X" "j < count X"
  shows "place X i = place X j \<longleftrightarrow> i = j"
  using place_prefix[OF assms] by auto

lemma place_form:
  assumes "planned X" "i < count X"
  obtains x xs where "place X i = path_components (p_target X) @ Normal x # xs" "x \<noteq> STAGE" "x \<noteq> LOCK"
  using rel_ok_components(2)[OF planned_file(1)[OF assms]] by (auto simp: place_def dest_def)

lemma place_apart:
  assumes "planned X" "i < count X"
  shows "\<not> prefix (stage X) (place X i)" "\<not> prefix (lock_at (p_target X)) (place X i)" "\<not> prefix (place X i) (path_components (p_target X))"
    "\<not> prefix (place X i) (stage X)" "\<not> prefix (place X i) (lock_at (p_target X))" "place X i \<noteq> []" "place X i \<noteq> [RootDir]"
    "strict_prefix (path_components (p_target X)) (place X i)"
proof -
  obtain x xs where p: "place X i = path_components (p_target X) @ Normal x # xs" "x \<noteq> STAGE" "x \<noteq> LOCK"
    by (rule place_form[OF assms])
  show "\<not> prefix (stage X) (place X i)" "\<not> prefix (lock_at (p_target X)) (place X i)" "\<not> prefix (place X i) (path_components (p_target X))"
    "\<not> prefix (place X i) (stage X)" "\<not> prefix (place X i) (lock_at (p_target X))" "place X i \<noteq> []" "place X i \<noteq> [RootDir]"
    "strict_prefix (path_components (p_target X)) (place X i)"
    using p by (auto simp: at_forms append_eq_Cons_conv dest: prefix_length_le)
qed

lemma place_not_below:
  assumes "planned X" "i < count X" "prefix (stage X) q"
  shows "place X i \<noteq> q" "q \<noteq> place X i"
  using place_apart(1)[OF assms(1,2)] assms(3) by auto

subsection \<open>The tree around the files\<close>

definition around :: "plan \<Rightarrow> fs \<Rightarrow> bool" where
  "around X s \<longleftrightarrow> (\<forall>q. \<not> prefix (stage X) q \<longrightarrow> (\<forall>i<count X. q \<noteq> place X i) \<longrightarrow>
     s q = p_base X q \<or> (p_base X q = None \<and> s q = Some Dir \<and> q \<noteq> [] \<and> (\<exists>i<count X. strict_prefix q (place X i))))"

definition old_at :: "plan \<Rightarrow> fs \<Rightarrow> nat \<Rightarrow> bool" where
  "old_at X s i \<longleftrightarrow> s (place X i) = p_base X (place X i)"

definition done_at :: "plan \<Rightarrow> fs \<Rightarrow> nat \<Rightarrow> bool" where
  "done_at X s i \<longleftrightarrow> s (place X i) = Some (File (text_of X i))"

definition all_old :: "plan \<Rightarrow> fs \<Rightarrow> bool" where
  "all_old X s \<longleftrightarrow> (\<forall>i<count X. old_at X s i)"

definition all_done :: "plan \<Rightarrow> fs \<Rightarrow> bool" where
  "all_done X s \<longleftrightarrow> (\<forall>i<count X. done_at X s i)"

text \<open>Writing below the stage directory changes nothing of this.\<close>

lemma around_below:
  assumes "planned X" "prefix (stage X) q"
  shows "around X (s(q := v)) \<longleftrightarrow> around X s" "i < count X \<Longrightarrow> old_at X (s(q := v)) i \<longleftrightarrow> old_at X s i"
    "i < count X \<Longrightarrow> done_at X (s(q := v)) i \<longleftrightarrow> done_at X s i"
    "all_old X (s(q := v)) \<longleftrightarrow> all_old X s" "all_done X (s(q := v)) \<longleftrightarrow> all_done X s"
proof -
  have ne: "i < count X \<Longrightarrow> (s(q := v)) (place X i) = s (place X i)" for i
    using place_not_below[OF assms(1) _ assms(2)] by simp
  show "around X (s(q := v)) \<longleftrightarrow> around X s" using assms(2) by (auto simp: around_def)
  show "i < count X \<Longrightarrow> old_at X (s(q := v)) i \<longleftrightarrow> old_at X s i" "i < count X \<Longrightarrow> done_at X (s(q := v)) i \<longleftrightarrow> done_at X s i"
    using ne by (simp_all add: old_at_def done_at_def)
  show "all_old X (s(q := v)) \<longleftrightarrow> all_old X s" "all_done X (s(q := v)) \<longleftrightarrow> all_done X s"
    using ne by (simp_all add: all_old_def all_done_def old_at_def done_at_def)
qed

lemma around_place:
  assumes "planned X" "i < count X"
  shows "around X (s(place X i := v)) \<longleftrightarrow> around X s"
  using assms by (auto simp: around_def)

lemma around_cong:
  assumes "\<And>q. \<not> prefix (stage X) q \<Longrightarrow> s' q = s q" "planned X"
  shows "around X s' \<longleftrightarrow> around X s" "all_old X s' \<longleftrightarrow> all_old X s" "all_done X s' \<longleftrightarrow> all_done X s"
  using assms place_apart(1)[OF assms(2)] by (auto simp: around_def all_old_def all_done_def old_at_def done_at_def)

lemma around_base:
  assumes "planned X" "around X s" "s (stage X) = None \<or> s (stage X) = Some Dir"
  shows "base_ok (p_target X) s" "dirs s (stage X)" "\<exists>b. s (lock_at (p_target X)) = Some (File b)"
proof -
  let ?t = "p_target X"
  have t: "s q = p_base X q \<or> (p_base X q = None \<and> s q = Some Dir \<and> q \<noteq> [])" if "prefix q (path_components ?t) \<or> q = lock_at ?t" for q
  proof -
    have "\<not> prefix (stage X) q" using that by auto
    moreover have "\<forall>i<count X. q \<noteq> place X i" using that place_apart(3,5)[OF assms(1)] by fastforce
    ultimately show ?thesis using assms(2) by (auto simp: around_def)
  qed
  obtain b where b: "p_base X (lock_at ?t) = Some (File b)" using assms(1) by (auto simp: planned_def)
  then show lk: "\<exists>b. s (lock_at ?t) = Some (File b)" using t[of "lock_at ?t"] by auto
  have "p_base X [] = None" "\<forall>q. prefix q (path_components ?t) \<longrightarrow> p_base X q = None \<or> p_base X q = Some Dir"
    using assms(1) by (auto simp: planned_def base_ok_def)
  then have "s [] = None" "\<forall>q. prefix q (path_components ?t) \<longrightarrow> s q = None \<or> s q = Some Dir"
    using t by (metis Nil_prefix, metis)
  then show "base_ok ?t s" using lk assms(3) by (auto simp: base_ok_def)
  have "dirs (p_base X) (stage X)" using assms(1) by (simp add: planned_def)
  then show "dirs s (stage X)" using t unfolding dirs_def prefix_target by (metis option.simps(3))
qed

lemma around_dest_ok:
  assumes "planned X" "around X s" "s (stage X) = None \<or> s (stage X) = Some Dir" "i < count X" "old_at X s i \<or> done_at X s i"
  shows "place_ok s (p_target X) (df_relative_path (p_files X ! i))"
proof -
  let ?t = "p_target X" and ?p = "place X i"
  have b: "passable (p_base X) ?p" "p_base X ?p = None \<or> (\<exists>bs. p_base X ?p = Some (File bs))"
      "\<And>q. strict_prefix (path_components ?t) q \<Longrightarrow> strict_prefix q ?p \<Longrightarrow> p_base X q = None \<or> p_base X q = Some Dir"
    using planned_file(2)[OF assms(1,4)] by (auto simp: place_ok_def place_def)
  have p: "s ?p = None \<or> (\<exists>bs. s ?p = Some (File bs))" using b(2) assms(5) by (auto simp: old_at_def done_at_def)
  have q: "s q = p_base X q \<or> (p_base X q = None \<and> s q = Some Dir)" if "strict_prefix q ?p" for q
  proof -
    have "\<not> prefix (stage X) q" using that place_apart(1)[OF assms(1,4)] by (meson prefix_order.less_imp_le prefix_order.trans)
    moreover have "q \<noteq> place X j" if "j < count X" for j
      using place_prefix[OF assms(1) that assms(4)] \<open>strict_prefix q ?p\<close> by (auto simp: strict_prefix_def)
    ultimately show ?thesis using assms(2) by (auto simp: around_def)
  qed
  have nd: "s q = None \<or> s q = Some Dir" if sq: "strict_prefix q ?p" for q
  proof (cases "prefix q (path_components ?t)")
    case True
    then show ?thesis using around_base(1)[OF assms(1-3)] by (auto simp: base_ok_def)
  next
    case False
    then have "strict_prefix (path_components ?t) q"
      using sq place_apart(8)[OF assms(1,4)] prefix_same_cases[of q ?p "path_components ?t"] by (auto simp: strict_prefix_def)
    then show ?thesis using b(3) q sq by fastforce
  qed
  have "s r \<noteq> Some Link" if "prefix r ?p" for r
    using that nd[of r] p by (cases "r = ?p") (auto simp: strict_prefix_def)
  then have "passable s ?p" using nd by (intro passableI) force+
  then show ?thesis using p b(3) q by (fastforce simp: place_ok_def place_def[symmetric])
qed

lemma made_other: "\<not> prefix q p \<Longrightarrow> made p k s q = s q"
  by (simp add: made_def)

text \<open>Making the parents of a destination.\<close>

lemma prefix_butlast: "p \<noteq> [] \<Longrightarrow> prefix q (butlast p) \<longleftrightarrow> strict_prefix q p"
  by (cases p rule: rev_cases) (auto simp: strict_prefix_def dest: prefix_length_le)

lemma around_made:
  assumes "planned X" "around X s" "i < count X" "old_at X s i" "s (stage X) = Some Dir"
  shows "around X (made (butlast (place X i)) k s)"
    and "prefix (stage X) q \<Longrightarrow> made (butlast (place X i)) k s q = s q"
    and "j < count X \<Longrightarrow> made (butlast (place X i)) k s (place X j) = s (place X j)"
    and "prefix q (butlast (place X i)) \<Longrightarrow> s q = None \<or> s q = Some Dir"
    and "dirs s p \<Longrightarrow> dirs (made (butlast (place X i)) k s) p"
    and "dirs (made (butlast (place X i)) (length (place X i)) s) (place X i)"
proof -
  let ?b = "butlast (place X i)"
  note a = place_apart[OF assms(1,3)]
  have pb: "prefix q ?b \<longleftrightarrow> strict_prefix q (place X i)" for q by (rule prefix_butlast[OF a(6)])
  have st: "\<not> prefix q ?b" if "prefix (stage X) q" for q
    using that a(1) unfolding pb by (meson prefix_order.less_imp_le prefix_order.trans)
  have pl: "\<not> prefix (place X j) ?b" if "j < count X" for j
    using place_prefix[OF assms(1) that assms(3)] unfolding pb by (auto simp: strict_prefix_def)
  have nd: "s q = None \<or> s q = Some Dir" if q: "prefix q ?b" for q
  proof (cases "prefix q (path_components (p_target X))")
    case True
    then show ?thesis using around_base(1)[OF assms(1,2)] assms(5) by (auto simp: base_ok_def)
  next
    case False
    then have "strict_prefix (path_components (p_target X)) q"
      using q a(8) prefix_same_cases[of q "place X i" "path_components (p_target X)"] unfolding pb by (auto simp: strict_prefix_def)
    then show ?thesis using around_dest_ok[OF assms(1,2) _ assms(3)] assms(4,5) q unfolding pb
      by (auto simp: place_ok_def place_def)
  qed
  show "prefix (stage X) q \<Longrightarrow> made ?b k s q = s q" using st by (simp add: made_other)
  show "j < count X \<Longrightarrow> made ?b k s (place X j) = s (place X j)" using pl by (simp add: made_other)
  show "prefix q ?b \<Longrightarrow> s q = None \<or> s q = Some Dir" by (rule nd)
  show "dirs s p \<Longrightarrow> dirs (made ?b k s) p" by (auto simp: dirs_def made_def)
  show "dirs (made ?b (length (place X i)) s) (place X i)"
    using pb by (auto simp: dirs_def made_def dest: prefix_length_less)
  show "around X (made ?b k s)"
    unfolding around_def
  proof (intro allI impI)
    fix q assume q: "\<not> prefix (stage X) q" "\<forall>i<count X. q \<noteq> place X i"
    consider "made ?b k s q = s q" | "prefix q ?b" "q \<noteq> []" "made ?b k s q = Some Dir"
      by (cases "prefix q ?b \<and> length q < k \<and> q \<noteq> [] \<and> q \<noteq> [RootDir]") (auto simp: made_def)
    then show "made ?b k s q = p_base X q \<or>
       (p_base X q = None \<and> made ?b k s q = Some Dir \<and> q \<noteq> [] \<and> (\<exists>i<count X. strict_prefix q (place X i)))"
    proof cases
      case 1
      then show ?thesis using assms(2) q by (auto simp: around_def)
    next
      case 2
      then show ?thesis using nd[of q] assms(2,3) q pb by (auto simp: around_def)
    qed
  qed
qed

subsection \<open>Phases\<close>

definition entry_of :: "crypto_crate \<Rightarrow> plan \<Rightarrow> nat \<Rightarrow> Entry" where
  "entry_of cr X i = \<lparr>e_path = df_relative_path (p_files X ! i),
     e_previous_digest = (case p_base X (place X i) of Some (File b) \<Rightarrow> Some (compute_digest cr b) | _ \<Rightarrow> None),
     e_new_digest = compute_digest cr (text_of X i)\<rparr>"

definition entries_of :: "crypto_crate \<Rightarrow> plan \<Rightarrow> Entry list" where
  "entries_of cr X = map (entry_of cr X) [0..<count X]"

definition journal_of :: "crypto_crate \<Rightarrow> plan \<Rightarrow> bool \<Rightarrow> Journal" where
  "journal_of cr X c = \<lparr>j_version = 1, j_publishing = True, j_committed = c, j_entries = entries_of cr X\<rparr>"

definition journal_is :: "journal_json \<Rightarrow> crypto_crate \<Rightarrow> plan \<Rightarrow> bool \<Rightarrow> fs \<Rightarrow> bool" where
  "journal_is jj cr X c s \<longleftrightarrow> (\<exists>bs. s (journal_at (p_target X)) = Some (File bs) \<and> journal_read jj bs = Inr (journal_of cr X c) \<and>
     length bs \<le> 16 * 1024 * 1024)"

definition small_old :: "plan \<Rightarrow> nat \<Rightarrow> bool" where
  "small_old X k \<longleftrightarrow> (\<forall>i<k. \<forall>b. p_base X (place X i) = Some (File b) \<longrightarrow> length b \<le> unat MAX_FILE_SIZE)"

text \<open>
  What is below the stage directory when \<open>i\<close> files are staged and the first \<open>k\<close> of them
  published.
\<close>

definition staged :: "plan \<Rightarrow> nat \<Rightarrow> nat \<Rightarrow> fs \<Rightarrow> bool" where
  "staged X k i s \<longleftrightarrow> s (stage X) = Some Dir \<and>
     (\<forall>j. k \<le> j \<longrightarrow> j < i \<longrightarrow> s (new_at (p_target X) j) = Some (File (text_of X j))) \<and>
     (\<forall>j<i. s (backup_at (p_target X) j) = p_base X (place X j)) \<and>
     (\<forall>j\<ge>i. s (new_at (p_target X) j) = None \<and> s (backup_at (p_target X) j) = None) \<and>
     (\<forall>j r. s (rollback_at (p_target X) j r) = None) \<and> (\<forall>r. s (tmp_at (p_target X) r) = None)"

definition parents :: "plan \<Rightarrow> nat \<Rightarrow> fs \<Rightarrow> bool" where
  "parents X k s \<longleftrightarrow> (\<forall>j<k. dirs s (place X j))"

definition staging :: "plan \<Rightarrow> nat \<Rightarrow> fs \<Rightarrow> bool" where
  "staging X i s \<longleftrightarrow> around X s \<and> all_old X s \<and> staged X 0 i s \<and> s (journal_at (p_target X)) = None \<and> parents X i s \<and> small_old X i"

definition publishing :: "journal_json \<Rightarrow> crypto_crate \<Rightarrow> plan \<Rightarrow> nat \<Rightarrow> fs \<Rightarrow> bool" where
  "publishing jj cr X k s \<longleftrightarrow> around X s \<and> (\<forall>j<k. done_at X s j) \<and> (\<forall>j. k \<le> j \<longrightarrow> j < count X \<longrightarrow> old_at X s j) \<and>
     staged X k (count X) s \<and> journal_is jj cr X False s \<and> parents X (count X) s \<and> small_old X (count X)"

text \<open>The states that recovery meets: no journal, a journal that is not committed, a committed one.\<close>

definition unlogged :: "plan \<Rightarrow> fs \<Rightarrow> bool" where
  "unlogged X s \<longleftrightarrow> around X s \<and> (all_old X s \<or> all_done X s) \<and>
     ((\<forall>q. prefix (stage X) q \<longrightarrow> s q = None) \<or> s (stage X) = Some Dir \<and> s (journal_at (p_target X)) = None)"

definition unfinished :: "journal_json \<Rightarrow> crypto_crate \<Rightarrow> plan \<Rightarrow> nat \<Rightarrow> fs \<Rightarrow> bool" where
  "unfinished jj cr X k s \<longleftrightarrow> around X s \<and> (\<forall>j<k. old_at X s j \<or> done_at X s j) \<and>
     (\<forall>j. k \<le> j \<longrightarrow> j < count X \<longrightarrow> old_at X s j) \<and> s (stage X) = Some Dir \<and> journal_is jj cr X False s \<and>
     (\<forall>j<count X. s (backup_at (p_target X) j) = p_base X (place X j)) \<and> (\<forall>j r. s (rollback_at (p_target X) j r) = None) \<and>
     parents X (count X) s \<and> small_old X (count X)"

definition committed :: "journal_json \<Rightarrow> crypto_crate \<Rightarrow> plan \<Rightarrow> fs \<Rightarrow> bool" where
  "committed jj cr X s \<longleftrightarrow> around X s \<and> all_done X s \<and> s (stage X) = Some Dir \<and> journal_is jj cr X True s"

definition recoverable :: "journal_json \<Rightarrow> crypto_crate \<Rightarrow> plan \<Rightarrow> fs \<Rightarrow> bool" where
  "recoverable jj cr X s \<longleftrightarrow> unlogged X s \<or> unfinished jj cr X (count X) s \<or> committed jj cr X s"

definition settled :: "plan \<Rightarrow> fs \<Rightarrow> bool" where
  "settled X s \<longleftrightarrow> around X s \<and> (all_old X s \<or> all_done X s) \<and> (\<forall>q. prefix (stage X) q \<longrightarrow> s q = None)"

text \<open>A restore that stops before its journal is written, and why it does.\<close>

definition abandoned :: "plan \<Rightarrow> fs \<Rightarrow> bool" where
  "abandoned X s \<longleftrightarrow> around X s \<and> all_old X s \<and> s (stage X) = Some Dir \<and> s (journal_at (p_target X)) = None"

lemmas phase_defs = unlogged_def unfinished_def committed_def abandoned_def settled_def

lemma staging_abandoned: "staging X i s \<Longrightarrow> abandoned X s"
  by (simp add: staging_def abandoned_def staged_def)

lemma abandoned_unlogged: "abandoned X s \<Longrightarrow> unlogged X s"
  by (simp add: abandoned_def unlogged_def)

lemma abandoned_below:
  "planned X \<Longrightarrow> strict_prefix (stage X) q \<Longrightarrow> q \<noteq> journal_at (p_target X) \<Longrightarrow> abandoned X (s(q := v)) \<longleftrightarrow> abandoned X s"
  using around_below(1,4)[where X = X and q = q and s = s and v = v] by (auto simp: abandoned_def)

lemma publishing_unfinished: "publishing jj cr X k s \<Longrightarrow> unfinished jj cr X (count X) s"
proof -
  assume p: "publishing jj cr X k s"
  then have "old_at X s j \<or> done_at X s j" if "j < count X" for j
    using that by (cases "j < k") (auto simp: publishing_def)
  then show ?thesis using p by (simp add: publishing_def unfinished_def staged_def)
qed

lemma abandoned_made:
  assumes "planned X" "abandoned X v" "i < count X"
  shows "abandoned X (made (butlast (place X i)) k v)" "all_old X (made (butlast (place X i)) k v)"
proof -
  have v: "around X v" "old_at X v i" "v (stage X) = Some Dir" "all_old X v" "v (journal_at (p_target X)) = None"
    using assms(2,3) by (auto simp: abandoned_def all_old_def)
  note m = around_made[OF assms(1) v(1) assms(3) v(2,3)]
  show "all_old X (made (butlast (place X i)) k v)" using v(4) m(3) by (simp add: all_old_def old_at_def)
  then show "abandoned X (made (butlast (place X i)) k v)" using m(1,2) v(3,5) by (simp add: abandoned_def)
qed

lemma dirs_other: "\<not> prefix q p \<Longrightarrow> dirs (s(q := v)) p \<longleftrightarrow> dirs s p"
  unfolding dirs_def by (metis fun_upd_other prefix_order.less_imp_le)

lemma dirs_below: "planned X \<Longrightarrow> i < count X \<Longrightarrow> prefix (stage X) q \<Longrightarrow> dirs (s(q := v)) (place X i) \<longleftrightarrow> dirs s (place X i)"
  using place_apart(1) prefix_order.trans by (intro dirs_other) blast

end
