(* ===== verification/Restore_Publish.thy ===== *)
theory Restore_Publish
  imports Restore_State
begin

text \<open>
  The forward run of the restore transaction in the crash logic: staging, the journal and
  publication keep the file system in a state that recovery can start from.
\<close>

subsection \<open>Digests\<close>

lemma step_file_digest:
  assumes "quiet F" "u (path_components p) = Some (File bs)" "length bs \<le> unat MAX_FILE_SIZE" "can_crash F \<Longrightarrow> C u"
    and "chl F (at u) (f (compute_digest cr bs)) Q E C"
  shows "chl F (at u) (io_bind (file_digest cr p) f) Q E C"
  unfolding file_digest_def open_regular_file_def
  by (rule step_assoc, rule step_read_all) (use assms in \<open>auto intro: step_return\<close>)

lemma step_file_digest_large:
  assumes "quiet F" "u (path_components p) = Some (File bs)" "\<not> length bs \<le> unat MAX_FILE_SIZE" "can_crash F \<Longrightarrow> C u"
    and "\<And>e. E e u"
  shows "chl F (at u) (io_bind (file_digest cr p) f) Q E C"
  unfolding file_digest_def open_regular_file_def
  by (rule step_assoc, rule step_read_all) (use assms in \<open>auto intro: step_fail\<close>)

subsection \<open>Staging\<close>

lemma fs_exists_dest: "rel_ok r \<Longrightarrow> fs_exists s (path_join t r) \<longleftrightarrow> s (dest t r) \<noteq> None"
  by (simp add: fs_exists_def lookup_def path_components_dest)

lemma chl_backup_original:
  assumes "quiet F" "planned X" "i < count X" "abandoned X u" "u (backup_at (p_target X) i) = None"
  shows "chl F (at u)
    (backup_original cr (stage_of (p_target X)) i (p_files X ! i) (path_join (p_target X) (df_relative_path (p_files X ! i))))
    (\<lambda>p s. p = e_previous_digest (entry_of cr X i) \<and> s = u(backup_at (p_target X) i := p_base X (place X i)) \<and>
       (\<forall>b. p_base X (place X i) = Some (File b) \<longrightarrow> length b \<le> unat MAX_FILE_SIZE))
    (\<lambda>_ s. abandoned X s \<and> \<not> small_old X (count X)) (unlogged X)"
proof -
  let ?t = "p_target X" and ?r = "df_relative_path (p_files X ! i)" and ?B = "backup_at (p_target X) i"
  note rel = planned_file(1)[OF assms(2,3)]
  have pc: "path_components (path_join ?t ?r) = place X i" by (simp add: path_components_dest[OF rel] place_def)
  have ux: "u (place X i) = p_base X (place X i)" using assms(3,4) by (auto simp: abandoned_def all_old_def old_at_def)
  have par: "parent_is_dir u ?B" using assms(4) by (simp add: abandoned_def parent_is_dir_def)
  have ab: "abandoned X (u(?B := v))" for v using assms(4) by (simp add: abandoned_below[OF assms(2)])
  have nb: "place X i \<noteq> ?B" by (rule place_not_below[OF assms(2,3)]) simp
  show ?thesis
  proof (cases "p_base X (place X i)")
    case None
    then show ?thesis unfolding backup_original_def
      using ux assms(5) by (intro step_fs) (auto simp: fs_exists_def lookup_def pc entry_of_def fun_upd_idem intro: chl_return)
  next
    case (Some node)
    then obtain b where b: "p_base X (place X i) = Some (File b)"
      using planned_file(2)[OF assms(2,3)] by (auto simp: place_ok_def place_def)
    show ?thesis
    proof (cases "length b \<le> unat MAX_FILE_SIZE")
      case True
      show ?thesis unfolding backup_original_def Let_def open_regular_file_def
        apply (rule step_fs)
        apply (simp only: fs_exists_def lookup_def pc ux b option.distinct not_False_eq_True if_True)
        apply (rule step_file_digest[OF assms(1), where bs = b])
           apply (simp add: pc ux b, rule True, rule abandoned_unlogged[OF assms(4)])
        apply (rule step_create_secret_file[OF assms(1)])
           apply (simp_all only: at_folds assms(5) par)
         apply (simp add: abandoned_unlogged ab assms(4))
        apply (rule step_read_all[OF assms(1), where bs = b])
          apply (simp add: pc ux b nb)
         apply (rule abandoned_unlogged[OF ab])
        apply (rule step_write_all[OF assms(1)])
         apply (simp only: at_folds fun_upd_upd, rule abandoned_unlogged[OF ab])
        apply (rule step_no_effect[OF assms(1)])
         apply (simp only: at_folds fun_upd_upd, rule abandoned_unlogged[OF ab])
        apply (rule step_file_digest[OF assms(1), where bs = b])
           apply (simp only: at_folds fun_upd_same)
          apply (rule True)
         apply (simp only: at_folds fun_upd_upd, rule abandoned_unlogged[OF ab])
        apply (simp only: at_folds fun_upd_upd)
        apply (use True in \<open>auto intro!: chl_return simp: entry_of_def b\<close>)
        done
    next
      case False
      show ?thesis unfolding backup_original_def Let_def
        apply (rule step_fs)
        apply (simp only: fs_exists_def lookup_def pc ux b option.distinct not_False_eq_True if_True)
        apply (rule step_file_digest_large[OF assms(1), where bs = b])
           apply (simp add: pc ux b, rule False, rule abandoned_unlogged[OF assms(4)])
        apply (use b False assms(3,4) in \<open>auto simp: small_old_def\<close>)
        done
    qed
  qed
qed

lemma staging_made:
  assumes "planned X" "i < count X" "abandoned X v" "staged X 0 (Suc i) v" "parents X i v" "small_old X (Suc i)"
  shows "staging X (Suc i) (made (butlast (place X i)) (length (place X i)) v)"
proof -
  have v: "around X v" "old_at X v i" "v (stage X) = Some Dir" using assms(2,3) by (auto simp: abandoned_def all_old_def)
  note m = around_made[OF assms(1) v(1) assms(2) v(2,3)] and a = abandoned_made[OF assms(1,3,2)]
  have "staged X 0 (Suc i) (made (butlast (place X i)) (length (place X i)) v)"
    using assms(4) unfolding staged_def by (simp add: m(2))
  moreover have "parents X (Suc i) (made (butlast (place X i)) (length (place X i)) v)"
    using assms(2,5) m(5,6) by (simp add: parents_def less_Suc_eq)
  ultimately show ?thesis using a assms(6) by (simp add: staging_def abandoned_def)
qed

lemma staging_step:
  assumes "planned X" "i < count X" "staging X i u" "\<forall>b. p_base X (place X i) = Some (File b) \<longrightarrow> length b \<le> unat MAX_FILE_SIZE"
  defines "v \<equiv> u(new_at (p_target X) i \<mapsto> File (text_of X i), backup_at (p_target X) i := p_base X (place X i))"
  shows "abandoned X v" "staging X (Suc i) (made (butlast (place X i)) (length (place X i)) v)"
proof -
  show ab: "abandoned X v" unfolding v_def using staging_abandoned[OF assms(3)] by (simp add: abandoned_below[OF assms(1)])
  have "staged X 0 (Suc i) v"
    using assms(3) unfolding staging_def staged_def v_def by (auto simp: less_Suc_eq)
  moreover have "parents X i v"
    using assms(3) less_trans[OF _ assms(2)] unfolding v_def by (simp add: staging_def parents_def dirs_below[OF assms(1)])
  moreover have "small_old X (Suc i)" using assms(3,4) by (auto simp: staging_def small_old_def less_Suc_eq)
  ultimately show "staging X (Suc i) (made (butlast (place X i)) (length (place X i)) v)"
    by (rule staging_made[OF assms(1,2) ab])
qed

lemma chl_stage_file:
  assumes "quiet F" "planned X" "i < count X"
  shows "chl F (staging X i)
    (stage_file cr (stage_of (p_target X)) i (p_files X ! i) (path_join (p_target X) (df_relative_path (p_files X ! i))))
    (\<lambda>e s. e = entry_of cr X i \<and> staging X (Suc i) s) (\<lambda>_ s. abandoned X s \<and> \<not> small_old X (count X)) (unlogged X)"
proof (rule chl_at)
  fix u assume u: "staging X i u"
  let ?t = "p_target X" and ?f = "p_files X ! i"
  let ?r = "df_relative_path ?f" and ?N = "new_at (p_target X) i" and ?B = "backup_at (p_target X) i"
  let ?v = "u(?N \<mapsto> File (text_of X i))"
  let ?b = "butlast (place X i)"
  have ab: "abandoned X (u(?N := x))" "abandoned X (u(?N := x, ?B := y))" for x y
    using staging_abandoned[OF u] by (simp_all add: abandoned_below[OF assms(2)])
  have "path_components (path_join ?t ?r) = place X i"
    by (simp add: path_components_dest[OF planned_file(1)[OF assms(2,3)]] place_def)
  then obtain d where d: "path_parent (path_join ?t ?r) = Some d" "path_components d = ?b"
    using path_parent_components[of "path_join ?t ?r"] place_apart(6,7)[OF assms(2,3)] by auto
  have len: "Suc (length (place X i) - Suc 0) = length (place X i)" using place_apart(6)[OF assms(2,3)] by simp
  have rest: "chl F (at (?v(?B := p_base X (place X i))))
      (io_then (case path_parent (path_join ?t ?r) of Some d \<Rightarrow> os (create_dir_all d) | None \<Rightarrow> io_return ()) (io_return (entry_of cr X i)))
      (\<lambda>e s. e = entry_of cr X i \<and> staging X (Suc i) s) (\<lambda>_ s. abandoned X s \<and> \<not> small_old X (count X)) (unlogged X)"
    if sz: "\<forall>b. p_base X (place X i) = Some (File b) \<longrightarrow> length b \<le> unat MAX_FILE_SIZE"
  proof -
    define w where "w = ?v(?B := p_base X (place X i))"
    have ab': "abandoned X w" and st: "staging X (Suc i) (made ?b (length (place X i)) w)"
      using staging_step[OF assms(2,3) u sz] by (simp_all add: w_def)
    have w: "around X w" "old_at X w i" "w (stage X) = Some Dir" using ab' assms(3) by (auto simp: abandoned_def all_old_def)
    show ?thesis unfolding d(1) option.case w_def[symmetric]
      using around_made(4)[OF assms(2) w(1) assms(3) w(2,3)] st abandoned_made(1)[OF assms(2) ab' assms(3)]
      by (intro step_create_dir_all[OF assms(1)]) (auto simp: d(2) len abandoned_unlogged intro!: chl_return)
  qed
  have none: "u ?N = None" "u ?B = None" "parent_is_dir u ?N"
    using u by (simp_all add: staging_def staged_def parent_is_dir_def)
  show "chl F (at u) (stage_file cr (stage_of ?t) i ?f (path_join ?t ?r)) (\<lambda>e s. e = entry_of cr X i \<and> staging X (Suc i) s)
      (\<lambda>_ s. abandoned X s \<and> \<not> small_old X (count X)) (unlogged X)"
    unfolding stage_file_def Let_def
    apply (rule step_create_secret_file[OF assms(1)])
       apply (simp_all only: at_folds none)
     apply (simp add: abandoned_unlogged ab staging_abandoned[OF u])
    apply (rule step_write_all[OF assms(1)])
     apply (simp only: at_folds fun_upd_upd, rule abandoned_unlogged[OF ab(1)])
    apply (rule step_no_effect[OF assms(1)])
     apply (simp only: at_folds fun_upd_upd, rule abandoned_unlogged[OF ab(1)])
    apply (simp only: at_folds fun_upd_upd text_of_def[symmetric])
    apply (rule chl_bind, rule chl_backup_original[OF assms ab(1)])
     apply (simp add: none)
    apply (rule chl_at)
    apply (use rest in \<open>simp add: entry_of_def\<close>)
    done
qed

lemma chl_stage_files:
  assumes "quiet F" "planned X"
  defines "z \<equiv> zip (p_files X) (map (\<lambda>f. path_join (p_target X) (df_relative_path f)) (p_files X))"
  shows "i \<le> count X \<Longrightarrow> chl F (staging X i) (stage_files cr (stage_of (p_target X)) i (drop i z))
    (\<lambda>es s. es = map (entry_of cr X) [i..<count X] \<and> staging X (count X) s) (\<lambda>_ s. abandoned X s \<and> \<not> small_old X (count X)) (unlogged X)"
proof (induction "count X - i" arbitrary: i)
  case 0
  then show ?case by (simp add: z_def chl_return)
next
  case (Suc n)
  then have i: "i < count X" by linarith
  then have d: "drop i z = (p_files X ! i, path_join (p_target X) (df_relative_path (p_files X ! i))) # drop (Suc i) z"
    by (subst Cons_nth_drop_Suc[symmetric]) (simp_all add: z_def)
  have IH: "chl F (staging X (Suc i)) (stage_files cr (stage_of (p_target X)) (Suc i) (drop (Suc i) z))
    (\<lambda>es s. es = map (entry_of cr X) [Suc i..<count X] \<and> staging X (count X) s) (\<lambda>_ s. abandoned X s \<and> \<not> small_old X (count X)) (unlogged X)"
    using Suc i by (intro Suc.hyps(1)) auto
  show ?case unfolding d stage_files.simps
  proof (rule chl_bind[OF chl_stage_file[OF assms(1,2) i]])
    fix e
    show "chl F (\<lambda>s. e = entry_of cr X i \<and> staging X (Suc i) s)
      (io_bind (stage_files cr (stage_of (p_target X)) (Suc i) (drop (Suc i) z)) (\<lambda>es. io_return (e # es)))
      (\<lambda>es s. es = map (entry_of cr X) [i..<count X] \<and> staging X (count X) s) (\<lambda>_ s. abandoned X s \<and> \<not> small_old X (count X)) (unlogged X)"
    proof (cases "e = entry_of cr X i")
      case True
      show ?thesis
        by (rule chl_bind[OF chl_pre[OF IH]]) (use True i in \<open>auto intro!: chl_return simp: upt_conv_Cons\<close>)
    qed (simp add: chl_def)
  qed
qed

subsection \<open>The journal\<close>

lemma chl_write_journal:
  assumes "quiet F" "journal_write jj j = Inr bs" "u (stage_at t) = Some Dir" "\<And>r. u (tmp_at t r) = None" "u (journal_at t) \<noteq> Some Dir"
    and "can_crash F \<Longrightarrow> C u" "\<And>r x. can_crash F \<Longrightarrow> C (u(tmp_at t r \<mapsto> File x))" "can_crash F \<Longrightarrow> C (u(journal_at t \<mapsto> File bs))"
  shows "chl F (at u) (write_journal jj (stage_of t) j) (\<lambda>_. at (u(journal_at t \<mapsto> File bs))) (\<lambda>_ _. False) C"
  unfolding write_journal_def Let_def
proof (rule step_random)
  fix r
  let ?v = "u(journal_at t \<mapsto> File bs)"
  have v: "u(tmp_at t r := None, journal_at t \<mapsto> File bs) = ?v" using assms(4) by (simp add: fun_upd_idem)
  have par: "parent_is_dir u (tmp_at t r)" "parent_is_dir (u(tmp_at t r \<mapsto> n)) (journal_at t)" for n
    using assms(3) by (simp_all add: parent_is_dir_def)
  show "chl F (at u)
     (io_catch
       (io_then (os (create_secret_file (path_join (stage_of t) (''journal-'' @ show_hex32 r @ ''.tmp''))))
       (io_bind (io_lift (rmap_err InvalidInput (journal_write jj j))) (\<lambda>bs.
        io_then (os (write_all (path_join (stage_of t) (''journal-'' @ show_hex32 r @ ''.tmp'')) bs))
       (io_then (os no_effect)
       (io_then (os (atomic_replace (path_join (stage_of t) (''journal-'' @ show_hex32 r @ ''.tmp'')) (path_join (stage_of t) ''journal.json'')))
       (os (sync_directory (stage_of t))))))))
       (\<lambda>e. io_catch (remove_file (path_join (stage_of t) (''journal-'' @ show_hex32 r @ ''.tmp''))) (\<lambda>_. io_fail e) (\<lambda>_. io_fail e)) io_return)
     (\<lambda>_. at ?v) (\<lambda>_ _. False) C"
    apply (rule chl_catch[where E' = "\<lambda>_ _. False" and Q' = "\<lambda>_. at ?v"])
      apply (rule step_create_secret_file[OF assms(1)])
         apply (simp_all only: at_folds assms(4) par)
       apply (simp add: assms(6,7))
      apply (rule step_lift[where a = bs])
       apply (simp add: assms(2) result_simps)
      apply (rule step_write_all[OF assms(1)])
       apply (simp only: at_folds fun_upd_upd assms(7))
      apply (rule step_no_effect[OF assms(1)])
       apply (simp only: at_folds fun_upd_upd assms(7))
      apply (simp only: atomic_replace_def)
      apply (rule step_rename[OF assms(1), where bs = bs])
          apply (simp_all only: at_folds fun_upd_upd fun_upd_same assms(7) par)
       apply (simp add: assms(5))
      apply (simp only: v sync_directory_def)
      apply (rule chl_map_err, rule chl_no_effect[OF assms(1)])
      apply (simp add: assms(8))
     apply (simp add: chl_def)
    apply (simp add: chl_return)
    done
qed

subsection \<open>Publication\<close>

lemma checked_destination_ok:
  assumes "planned X" "around X u" "u (stage X) = Some Dir" "i < count X" "old_at X u i \<or> done_at X u i"
  shows "validate_destination u (p_target X) (df_relative_path (p_files X ! i)) =
    Inr (path_join (p_target X) (df_relative_path (p_files X ! i)))"
proof -
  have s: "u (stage X) = None \<or> u (stage X) = Some Dir" using assms(3) by simp
  then have "u [] = None" using around_base(1)[OF assms(1,2)] by (simp add: base_ok_def)
  then show ?thesis
    using around_dest_ok[OF assms(1,2) s assms(4,5)] planned_file(1)[OF assms(1,4)] by (simp add: validate_destination_iff)
qed

lemma step_checked_destination:
  assumes "planned X" "around X u" "u (stage X) = Some Dir" "i < count X" "old_at X u i \<or> done_at X u i"
    and "chl F (at u) (f (path_join (p_target X) (df_relative_path (p_files X ! i)))) Q E C"
  shows "chl F (at u) (io_bind (checked_destination (p_target X) (df_relative_path (p_files X ! i))) f) Q E C"
  unfolding checked_destination_def
  by (rule step_fs_bind, rule step_lift, rule checked_destination_ok[OF assms(1-5)], rule assms(6))

lemma place_path:
  assumes "planned X" "i < count X"
  shows "path_components (path_join (p_target X) (df_relative_path (p_files X ! i))) = place X i"
  by (simp add: path_components_dest[OF planned_file(1)[OF assms]] place_def)

lemma chl_sync_parent:
  assumes "quiet F" "planned X" "i < count X" "Q () u" "can_crash F \<Longrightarrow> C u"
  shows "chl F (at u) (sync_parent (path_join (p_target X) (df_relative_path (p_files X ! i)))) Q E C"
proof -
  obtain d where "path_parent (path_join (p_target X) (df_relative_path (p_files X ! i))) = Some d"
    using path_parent_components[of "path_join (p_target X) (df_relative_path (p_files X ! i))"]
      place_apart(6,7)[OF assms(2,3)] place_path[OF assms(2,3)] by auto
  then show ?thesis unfolding sync_parent_def sync_directory_def
    using assms by (auto intro!: chl_map_err chl_no_effect)
qed

lemma publishing_step:
  assumes "planned X" "publishing jj cr X k u" "k < count X"
  shows "publishing jj cr X (Suc k) (u(new_at (p_target X) k := None, place X k \<mapsto> File (text_of X k)))"
proof -
  let ?v = "u(new_at (p_target X) k := None, place X k \<mapsto> File (text_of X k))"
  note p = assms(2)[unfolded publishing_def]
  have st: "?v q = (if q = new_at (p_target X) k then None else u q)" if "prefix (stage X) q" for q
    using place_not_below[OF assms(1,3) that] by simp
  have pl: "?v (place X j) = (if j = k then Some (File (text_of X k)) else u (place X j))" if "j < count X" for j
    using place_eq[OF assms(1) that assms(3)] place_not_below[OF assms(1) that, of "new_at (p_target X) k"] by simp
  have "around X ?v" using p by (simp add: around_place[OF assms(1,3)] around_below[OF assms(1)])
  moreover have "\<forall>j<Suc k. done_at X ?v j" "\<forall>j. Suc k \<le> j \<longrightarrow> j < count X \<longrightarrow> old_at X ?v j"
    using p assms(3) pl by (auto simp: done_at_def old_at_def less_Suc_eq)
  moreover have "staged X (Suc k) (count X) ?v" using p assms(3) st unfolding staged_def by simp
  moreover have "journal_is jj cr X False ?v" using p st[of "journal_at (p_target X)"] by (simp add: journal_is_def)
  moreover have "dirs ?v (place X j)" if "j < count X" for j
  proof (cases "j = k")
    case True
    have "dirs (u(new_at (p_target X) k := None)) (place X k)"
      using p assms(3) by (simp add: dirs_below[OF assms(1,3)] parents_def)
    then show ?thesis using True by (auto simp: dirs_def)
  next
    case False
    then show ?thesis using p that place_prefix[OF assms(1,3) that] False
      by (simp add: dirs_other dirs_below[OF assms(1) that] parents_def)
  qed
  ultimately show ?thesis using p by (simp add: publishing_def parents_def)
qed

lemma step_current_digest:
  assumes "quiet F" "planned X" "i < count X" "old_at X u i" "small_old X (count X)" "can_crash F \<Longrightarrow> C u"
    and "chl F (at u) (f (e_previous_digest (entry_of cr X i))) Q E C"
  shows "chl F (at u) (io_bind (current_digest cr (path_join (p_target X) (df_relative_path (p_files X ! i)))) f) Q E C"
proof -
  let ?p = "path_join (p_target X) (df_relative_path (p_files X ! i))"
  note pp = place_path[OF assms(2,3)]
  have ux: "u (place X i) = p_base X (place X i)" using assms(4) by (simp add: old_at_def)
  have nb: "p_base X (place X i) = None \<or> (\<exists>b. p_base X (place X i) = Some (File b) \<and> length b \<le> unat MAX_FILE_SIZE)"
    using planned_file(2)[OF assms(2,3)] assms(3,5) by (auto simp: place_ok_def place_def small_old_def)
  then show ?thesis
  proof
    assume n: "p_base X (place X i) = None"
    then have "e_previous_digest (entry_of cr X i) = None" "\<not> fs_exists u ?p"
      by (simp_all add: entry_of_def fs_exists_def lookup_def pp ux)
    then show ?thesis using assms(7) unfolding current_digest_def by (intro step_fs_bind) (simp add: step_return)
  next
    assume "\<exists>b. p_base X (place X i) = Some (File b) \<and> length b \<le> unat MAX_FILE_SIZE"
    then obtain b where b: "p_base X (place X i) = Some (File b)" "length b \<le> unat MAX_FILE_SIZE" by blast
    then have d: "e_previous_digest (entry_of cr X i) = Some (compute_digest cr b)" "fs_exists u ?p"
      by (simp_all add: entry_of_def fs_exists_def lookup_def pp ux)
    show ?thesis unfolding current_digest_def
      by (rule step_fs_bind, simp only: d(2) if_True, rule step_assoc, rule step_file_digest[OF assms(1)])
        (use b assms(6,7) in \<open>auto simp: pp ux d(1) intro: step_return\<close>)
  qed
qed

lemma chl_publish_file:
  assumes "quiet F" "planned X" "k < count X"
  shows "chl F (publishing jj cr X k)
    (publish_file cr (\<lambda>_. atomic_replace) (p_target X) (stage_of (p_target X))
       (k, entry_of cr X k, path_join (p_target X) (df_relative_path (p_files X ! k))))
    (\<lambda>_. publishing jj cr X (Suc k)) (\<lambda>_ _. False) (unfinished jj cr X (count X))"
proof (rule chl_at)
  fix u assume u: "publishing jj cr X k u"
  let ?t = "p_target X"
  have f: "around X u" "u (stage X) = Some Dir" "old_at X u k" "small_old X (count X)" "u (new_at ?t k) = Some (File (text_of X k))"
      "dirs u (place X k)"
    using u assms(3) by (auto simp: publishing_def staged_def parents_def)
  note unf = publishing_unfinished[OF u]
  note nxt = publishing_step[OF assms(2) u assms(3)]
  have b: "u (place X k) \<noteq> Some Dir" "parent_is_dir u (place X k)"
    using f(3) planned_file(2)[OF assms(2,3)] dirs_parent[OF f(6)] place_apart(6)[OF assms(2,3)]
    by (auto simp: old_at_def place_ok_def place_def)
  have e: "e_path (entry_of cr X k) = df_relative_path (p_files X ! k)" by (simp add: entry_of_def)
  show "chl F (at u) (publish_file cr (\<lambda>_. atomic_replace) ?t (stage_of ?t)
       (k, entry_of cr X k, path_join ?t (df_relative_path (p_files X ! k))))
    (\<lambda>_. publishing jj cr X (Suc k)) (\<lambda>_ _. False) (unfinished jj cr X (count X))"
    unfolding publish_file_def prod.case e
    apply (rule step_checked_destination[OF assms(2) f(1,2) assms(3)])
     apply (simp add: f(3))
    apply (rule step_current_digest[OF assms f(3,4)], rule unf)
    apply (simp only: atomic_replace_def if_False not_True_eq_False refl)
    apply (rule step_rename[OF assms(1), where bs = "text_of X k"])
        apply (simp_all only: at_folds place_path[OF assms(2,3)] f(5) unf b not_False_eq_True)
    apply (rule chl_sync_parent[OF assms], rule nxt, rule publishing_unfinished[OF nxt])
    done
qed

lemma chl_publish_files:
  assumes "quiet F" "planned X"
  shows "chl F (publishing jj cr X 0)
    (io_each (publish_file cr (\<lambda>_. atomic_replace) (p_target X) (stage_of (p_target X)))
       (enumerate 0 (zip (entries_of cr X) (map (\<lambda>f. path_join (p_target X) (df_relative_path f)) (p_files X)))))
    (\<lambda>_. publishing jj cr X (count X)) (\<lambda>_ _. False) (unfinished jj cr X (count X))"
proof -
  let ?z = "enumerate 0 (zip (entries_of cr X) (map (\<lambda>f. path_join (p_target X) (df_relative_path f)) (p_files X)))"
  have len: "length ?z = count X" by (simp add: entries_of_def)
  have "?z ! i = (i, entry_of cr X i, path_join (p_target X) (df_relative_path (p_files X ! i)))" if "i < count X" for i
    using that by (simp add: nth_enumerate_eq entries_of_def)
  then show ?thesis
    using chl_each[of ?z F "publishing jj cr X" "publish_file cr (\<lambda>_. atomic_replace) (p_target X) (stage_of (p_target X))"
        "\<lambda>_ _. False" "unfinished jj cr X (count X)"] chl_publish_file[OF assms] len by simp
qed

definition journals_fit :: "journal_json \<Rightarrow> crypto_crate \<Rightarrow> plan \<Rightarrow> bool" where
  "journals_fit jj cr X \<longleftrightarrow> (\<forall>c. \<exists>bs. journal_write jj (journal_of cr X c) = Inr bs \<and>
     journal_read jj bs = Inr (journal_of cr X c) \<and> length bs \<le> 16 * 1024 * 1024)"

lemma staging_logged:
  assumes "planned X" "staging X (count X) u" "journal_read jj bs = Inr (journal_of cr X False)" "length bs \<le> 16 * 1024 * 1024"
  shows "publishing jj cr X 0 (u(journal_at (p_target X) \<mapsto> File bs))"
proof -
  let ?v = "u(journal_at (p_target X) \<mapsto> File bs)"
  have "around X ?v" "\<forall>j<count X. old_at X ?v j" "staged X 0 (count X) ?v" "parents X (count X) ?v" "small_old X (count X)"
    using assms(2) by (auto simp: staging_def around_below[OF assms(1)] all_old_def staged_def parents_def dirs_below[OF assms(1)])
  moreover have "journal_is jj cr X False ?v" using assms(3,4) by (simp add: journal_is_def)
  ultimately show ?thesis by (simp add: publishing_def)
qed

lemma unfinished_tmp:
  assumes "planned X" "unfinished jj cr X (count X) u"
  shows "unfinished jj cr X (count X) (u(tmp_at (p_target X) r := v))"
proof -
  let ?v = "u(tmp_at (p_target X) r := v)"
  have pl: "?v (place X j) = u (place X j)" if "j < count X" for j
    using place_not_below(1)[OF assms(1) that, of "tmp_at (p_target X) r"] by simp
  have "around X ?v" "\<forall>j<count X. dirs ?v (place X j)"
    using assms(2) by (auto simp: unfinished_def around_below[OF assms(1)] dirs_below[OF assms(1)] parents_def)
  moreover have "old_at X ?v j \<longleftrightarrow> old_at X u j" "done_at X ?v j \<longleftrightarrow> done_at X u j" if "j < count X" for j
    using around_below(2,3)[OF assms(1)] that by simp_all
  moreover have "journal_is jj cr X False ?v" using assms(2) by (simp add: unfinished_def journal_is_def)
  ultimately show ?thesis using assms(2) pl unfolding unfinished_def parents_def
    by auto
qed

lemma publishing_committed:
  assumes "planned X" "publishing jj cr X (count X) u" "journal_read jj bs = Inr (journal_of cr X True)" "length bs \<le> 16 * 1024 * 1024"
  shows "committed jj cr X (u(journal_at (p_target X) \<mapsto> File bs))"
  using assms by (auto simp: committed_def publishing_def around_below all_done_def staged_def journal_is_def)

lemma chl_publish_all:
  assumes "quiet F" "planned X" "journals_fit jj cr X"
  shows "chl F (staging X (count X))
    (publish_all jj cr (\<lambda>_. atomic_replace) (p_target X) (stage_of (p_target X)) (entries_of cr X)
       (map (\<lambda>f. path_join (p_target X) (df_relative_path f)) (p_files X)))
    (\<lambda>_. committed jj cr X) (\<lambda>_ _. False) (recoverable jj cr X)"
proof -
  let ?t = "p_target X"
  obtain b0 where b0: "journal_write jj (journal_of cr X False) = Inr b0" "journal_read jj b0 = Inr (journal_of cr X False)" "length b0 \<le> 16 * 1024 * 1024"
    using assms(3) unfolding journals_fit_def by metis
  obtain b1 where b1: "journal_write jj (journal_of cr X True) = Inr b1" "journal_read jj b1 = Inr (journal_of cr X True)" "length b1 \<le> 16 * 1024 * 1024"
    using assms(3) unfolding journals_fit_def by metis
  have j: "\<lparr>j_version = 1, j_publishing = True, j_committed = c, j_entries = entries_of cr X\<rparr> = journal_of cr X c" for c
    by (simp add: journal_of_def)
  have first: "chl F (staging X (count X)) (write_journal jj (stage_of ?t) (journal_of cr X False)) (\<lambda>_. publishing jj cr X 0) (\<lambda>_ _. False) (recoverable jj cr X)"
  proof (rule chl_at)
    fix u assume u: "staging X (count X) u"
    note l = staging_logged[OF assms(2) u b0(2,3)]
    have ab: "unlogged X u" "unlogged X (u(tmp_at ?t r \<mapsto> File x))" for r x
      using staging_abandoned[OF u] by (simp_all add: abandoned_unlogged abandoned_below[OF assms(2)])
    show "chl F (at u) (write_journal jj (stage_of ?t) (journal_of cr X False)) (\<lambda>_. publishing jj cr X 0) (\<lambda>_ _. False) (recoverable jj cr X)"
      by (rule chl_conseq[OF chl_write_journal[OF assms(1) b0(1), where u = u and C = "recoverable jj cr X"]])
        (use u l ab publishing_unfinished[OF l] in \<open>auto simp: staging_def staged_def recoverable_def\<close>)
  qed
  have last: "chl F (publishing jj cr X (count X)) (write_journal jj (stage_of ?t) (journal_of cr X True)) (\<lambda>_. committed jj cr X) (\<lambda>_ _. False) (recoverable jj cr X)"
  proof (rule chl_at)
    fix u assume u: "publishing jj cr X (count X) u"
    note l = publishing_committed[OF assms(2) u b1(2,3)] and n = publishing_unfinished[OF u]
    show "chl F (at u) (write_journal jj (stage_of ?t) (journal_of cr X True)) (\<lambda>_. committed jj cr X) (\<lambda>_ _. False) (recoverable jj cr X)"
      by (rule chl_conseq[OF chl_write_journal[OF assms(1) b1(1), where u = u and C = "recoverable jj cr X"]])
        (use u l n unfinished_tmp[OF assms(2) n] in \<open>auto simp: publishing_def staged_def recoverable_def journal_is_def\<close>)
  qed
  show ?thesis unfolding publish_all_def j
    by (rule chl_bind[OF first], rule chl_bind[OF _ last], rule chl_conseq[OF chl_publish_files[OF assms(1,2)]])
      (auto simp: recoverable_def)
qed

subsection \<open>Removing the stage directory\<close>

lemma settled_removed:
  assumes "planned X"
  shows "around X (removed_all (stage X) s) \<longleftrightarrow> around X s" "all_old X (removed_all (stage X) s) \<longleftrightarrow> all_old X s"
    "all_done X (removed_all (stage X) s) \<longleftrightarrow> all_done X s"
    "around X (removed (stage X) n s) \<longleftrightarrow> around X s" "all_old X (removed (stage X) n s) \<longleftrightarrow> all_old X s"
    "all_done X (removed (stage X) n s) \<longleftrightarrow> all_done X s"
proof -
  have r: "\<not> prefix (stage X) q \<Longrightarrow> removed_all (stage X) s q = s q" "\<not> prefix (stage X) q \<Longrightarrow> removed (stage X) n s q = s q" for q
    by (auto simp: removed_all_def removed_def strict_prefix_def)
  show "around X (removed_all (stage X) s) \<longleftrightarrow> around X s" "all_old X (removed_all (stage X) s) \<longleftrightarrow> all_old X s"
    "all_done X (removed_all (stage X) s) \<longleftrightarrow> all_done X s"
    "around X (removed (stage X) n s) \<longleftrightarrow> around X s" "all_old X (removed (stage X) n s) \<longleftrightarrow> all_old X s"
    "all_done X (removed (stage X) n s) \<longleftrightarrow> all_done X s"
    by (rule around_cong[OF r(1) assms] around_cong[OF r(2) assms], assumption)+
qed

lemma committed_removed:
  assumes "planned X" "committed jj cr X s"
  shows "recoverable jj cr X (removed (stage X) n s)"
proof -
  have s: "removed (stage X) n s (stage X) = Some Dir" using assms(2) by (simp add: committed_def removed_def)
  have j: "removed (stage X) n s (journal_at (p_target X)) = None \<or>
      removed (stage X) n s (journal_at (p_target X)) = s (journal_at (p_target X))" by (simp add: removed_def)
  have "unlogged X (removed (stage X) n s) \<or> committed jj cr X (removed (stage X) n s)"
    using assms s j by (auto simp: unlogged_def settled_removed committed_def journal_is_def)
  then show ?thesis by (auto simp: recoverable_def)
qed

lemma abandoned_removed: "planned X \<Longrightarrow> abandoned X s \<Longrightarrow> unlogged X (removed (stage X) n s)"
  by (simp add: unlogged_def abandoned_def settled_removed) (simp add: removed_def)

lemma removed_settled:
  assumes "planned X" "around X s"
  shows "all_old X s \<Longrightarrow> settled X (removed_all (stage X) s) \<and> all_old X (removed_all (stage X) s)"
    "all_done X s \<Longrightarrow> settled X (removed_all (stage X) s) \<and> all_done X (removed_all (stage X) s)"
  using assms by (auto simp: settled_def settled_removed) (auto simp: removed_all_def)

end
