(* ===== verification/Restore_Recover.thy ===== *)
theory Restore_Recover
  imports Restore_Publish
begin

text \<open>
  Recovery after an interrupted restore: from every state a killed run can leave, it ends
  with all destinations as they were or all of them new, and it removes the stage.
\<close>

subsection \<open>Rollback\<close>

lemma dirs_place:
  assumes "planned X" "i < count X" "j < count X"
  shows "dirs (s(place X i := v)) (place X j) \<longleftrightarrow> dirs s (place X j)"
proof (cases "i = j")
  case False
  then show ?thesis using place_prefix[OF assms] by (simp add: dirs_other)
qed (auto simp: dirs_def)

lemma unfinished_step:
  assumes "planned X" "unfinished jj cr X (Suc i) u" "i < count X"
  shows "unfinished jj cr X i (u(place X i := p_base X (place X i)))"
proof -
  let ?v = "u(place X i := p_base X (place X i))"
  note p = assms(2)[unfolded unfinished_def]
  have st: "?v q = u q" if "prefix (stage X) q" for q using place_not_below[OF assms(1,3) that] by simp
  have pl: "?v (place X j) = (if j = i then p_base X (place X i) else u (place X j))" if "j < count X" for j
    using place_eq[OF assms(1) that assms(3)] by simp
  have "\<forall>j<i. old_at X ?v j \<or> done_at X ?v j" "\<forall>j. i \<le> j \<longrightarrow> j < count X \<longrightarrow> old_at X ?v j"
  proof -
    show "\<forall>j<i. old_at X ?v j \<or> done_at X ?v j" using p assms(3) pl by (simp add: old_at_def done_at_def)
    have "old_at X u j" if "i \<le> j" "j \<noteq> i" "j < count X" for j using p that by simp
    then show "\<forall>j. i \<le> j \<longrightarrow> j < count X \<longrightarrow> old_at X ?v j" using pl by (simp add: old_at_def)
  qed
  moreover have "journal_is jj cr X False ?v" using p st[of "journal_at (p_target X)"] by (simp add: journal_is_def)
  moreover have "around X ?v" "parents X (count X) ?v"
    using p by (simp_all add: around_place[OF assms(1,3)] parents_def dirs_place[OF assms(1,3)])
  ultimately show ?thesis using p st by (simp add: unfinished_def)
qed

lemma known_digest:
  assumes "planned X" "i < count X" "old_at X u i \<or> done_at X u i" "small_old X (count X)"
  shows "u (place X i) = None \<or> (\<exists>b. u (place X i) = Some (File b) \<and> length b \<le> unat MAX_FILE_SIZE \<and>
       (compute_digest cr b = e_new_digest (entry_of cr X i) \<or> e_previous_digest (entry_of cr X i) = Some (compute_digest cr b)))"
proof -
  have "p_base X (place X i) = None \<or> (\<exists>b. p_base X (place X i) = Some (File b))"
    using planned_file(2)[OF assms(1,2)] by (auto simp: place_ok_def place_def)
  then show ?thesis
    using assms planned_file(3)[OF assms(1,2)] by (auto simp: old_at_def done_at_def entry_of_def small_old_def)
qed

lemma unfinished_file:
  assumes "unfinished jj cr X k u" "k \<le> count X" "i < count X"
  shows "old_at X u i \<or> done_at X u i" "around X u" "u (stage X) = Some Dir" "small_old X (count X)"
  using assms by (cases "i < k"; simp add: unfinished_def)+

lemma step_unchanged_outside:
  assumes "planned X" "i < count X" "old_at X u i \<or> done_at X u i" "small_old X (count X)" "chl no_fault (at u) (f ()) Q E C"
  shows "chl no_fault (at u) (io_bind (unchanged_outside cr (entry_of cr X i) (path_join (p_target X) (df_relative_path (p_files X ! i)))) f) Q E C"
proof -
  note pp = place_path[OF assms(1,2)]
  from known_digest[OF assms(1-4), of cr] show ?thesis
  proof
    assume "u (place X i) = None"
    then show ?thesis unfolding unchanged_outside_def
      using assms(5) by (intro step_fs_bind) (simp add: fs_exists_def lookup_def pp step_return)
  next
    assume "\<exists>b. u (place X i) = Some (File b) \<and> length b \<le> unat MAX_FILE_SIZE \<and>
       (compute_digest cr b = e_new_digest (entry_of cr X i) \<or> e_previous_digest (entry_of cr X i) = Some (compute_digest cr b))"
    then obtain b where b: "u (place X i) = Some (File b)" "length b \<le> unat MAX_FILE_SIZE"
       "compute_digest cr b = e_new_digest (entry_of cr X i) \<or> e_previous_digest (entry_of cr X i) = Some (compute_digest cr b)" by blast
    then have ex: "fs_exists u (path_join (p_target X) (df_relative_path (p_files X ! i)))" by (simp add: fs_exists_def lookup_def pp)
    have ok: "\<not> (compute_digest cr b \<noteq> e_new_digest (entry_of cr X i) \<and> e_previous_digest (entry_of cr X i) \<noteq> Some (compute_digest cr b))"
      using b(3) by blast
    show ?thesis unfolding unchanged_outside_def
      apply (rule step_fs_bind)
      apply (simp only: ex if_True)
      apply (rule step_assoc)
      apply (rule step_file_digest[where bs = b])
          apply (simp_all only: pp b(1,2) quiet_simps simp_thms)
      apply (subst if_not_P[OF ok])
      apply (rule step_return, rule assms(5))
      done
  qed
qed

lemma step_restore_backup:
  assumes "planned X" "unfinished jj cr X k u" "i < count X" "p_base X (place X i) = Some (File b)"
    and "chl no_fault (at (u(place X i \<mapsto> File b))) (f ()) Q E C" "u (place X i) \<noteq> Some Dir"
  shows "chl no_fault (at u) (io_bind (restore_backup cr (stage_of (p_target X)) i (compute_digest cr b)
    (path_join (p_target X) (df_relative_path (p_files X ! i)))) f) Q E C"
proof -
  let ?t = "p_target X"
  note p = assms(2)[unfolded unfinished_def] and pp = place_path[OF assms(1,3)]
  have bk: "u (backup_at ?t i) = Some (File b)" "length b \<le> unat MAX_FILE_SIZE" using p assms(3,4) by (auto simp: small_old_def)
  then have ex: "fs_exists u (path_join (stage_of ?t) (''backup-'' @ show_nat i))"
    unfolding fs_exists_def lookup_def at_folds by simp
  have rb: "u (rollback_at ?t i r) = None" "parent_is_dir u (rollback_at ?t i r)" for r
    using p by (simp_all add: parent_is_dir_def)
  have "dirs (u(rollback_at ?t i r \<mapsto> File b)) (place X i)" for r
    using p assms(3) by (simp add: dirs_below[OF assms(1,3)] parents_def)
  then have pd: "parent_is_dir (u(rollback_at ?t i r \<mapsto> File b)) (place X i)" for r
    using place_apart(6)[OF assms(1,3)] by (rule dirs_parent)
  have ne: "place X i \<noteq> rollback_at ?t i r" for r by (rule place_not_below[OF assms(1,3)]) simp
  have fin: "u(rollback_at ?t i r := None, place X i \<mapsto> File b) = u(place X i \<mapsto> File b)" for r
    using rb(1) by (simp add: fun_upd_idem)
  show ?thesis unfolding restore_backup_def Let_def
    apply (rule step_fs_bind)
    apply (simp only: ex if_True)
    apply (rule step_assoc)
    apply (rule step_file_digest[where bs = b])
        apply (simp_all only: at_folds bk quiet_simps simp_thms if_False)
    apply (rule step_assoc, rule step_random)
    apply (rule step_assoc, rule step_create_secret_file)
        apply (simp_all only: at_folds rb quiet_simps simp_thms)
    apply (rule step_assoc, simp only: open_regular_file_def, rule step_read_all[where bs = b])
       apply (simp_all only: at_folds quiet_simps simp_thms fun_upd_other[OF at_distinct(11)] bk)
    apply (rule step_assoc, rule step_write_all)
      apply (simp_all only: at_folds quiet_simps simp_thms fun_upd_upd)
    apply (rule step_assoc, rule step_no_effect)
      apply (simp_all only: at_folds quiet_simps simp_thms)
    apply (simp only: atomic_replace_def)
    apply (rule step_rename[where bs = b])
         apply (simp_all only: at_folds pp quiet_simps simp_thms fun_upd_upd fun_upd_same pd fin assms(5) fun_upd_other[OF ne] assms(6))
    done
qed

lemma chl_rollback_entry:
  assumes "planned X" "i < count X"
  shows "chl no_fault (unfinished jj cr X (Suc i)) (rollback_entry cr (p_target X) (stage_of (p_target X)) (i, entry_of cr X i))
    (\<lambda>_. unfinished jj cr X i) (\<lambda>_ _. False) (\<lambda>_. False)"
proof (rule chl_at)
  fix u assume u: "unfinished jj cr X (Suc i) u"
  let ?t = "p_target X" and ?p = "path_join (p_target X) (df_relative_path (p_files X ! i))"
  have le: "Suc i \<le> count X" using assms(2) by simp
  note uf = unfinished_file[OF u le assms(2)]
  note kd = known_digest[OF assms uf(1,4), of cr] and nxt = unfinished_step[OF assms(1) u assms(2)] and pp = place_path[OF assms]
  have e: "e_path (entry_of cr X i) = df_relative_path (p_files X ! i)" by (simp add: entry_of_def)
  have sp: "chl no_fault (at v) (sync_parent ?p) (\<lambda>_. unfinished jj cr X i) (\<lambda>_ _. False) (\<lambda>_. False)"
    if "v = u(place X i := p_base X (place X i))" for v
    by (rule chl_sync_parent[OF _ assms]) (use nxt that in simp_all)
  have "chl no_fault (at u) (io_then (case e_previous_digest (entry_of cr X i) of
           Some previous \<Rightarrow> restore_backup cr (stage_of ?t) i previous ?p
         | None \<Rightarrow> io_fs (\<lambda>s. if fs_exists s ?p then os (remove_file ?p) else io_return ())) (sync_parent ?p))
      (\<lambda>_. unfinished jj cr X i) (\<lambda>_ _. False) (\<lambda>_. False)"
  proof (cases "p_base X (place X i)")
    case None
    then have ep: "e_previous_digest (entry_of cr X i) = None" by (simp add: entry_of_def)
    show ?thesis unfolding ep option.case
    proof (rule step_fs_bind)
      show "chl no_fault (at u) (io_then (if fs_exists u ?p then os (remove_file ?p) else io_return ()) (sync_parent ?p))
        (\<lambda>_. unfinished jj cr X i) (\<lambda>_ _. False) (\<lambda>_. False)"
      proof (cases "u (place X i)")
        case None': None
        then have "u = u(place X i := p_base X (place X i))" using None by (auto simp: fun_upd_idem)
        then show ?thesis using None' sp by (simp add: fs_exists_def lookup_def pp step_return)
      next
        case (Some b)
        then obtain b where "u (place X i) = Some (File b)" using kd by auto
        then show ?thesis using None sp by (auto simp: fs_exists_def lookup_def pp intro!: step_remove_file)
      qed
    qed
  next
    case (Some n)
    then obtain b where b: "p_base X (place X i) = Some (File b)"
      using planned_file(2)[OF assms] by (auto simp: place_ok_def place_def)
    then have ep: "e_previous_digest (entry_of cr X i) = Some (compute_digest cr b)" by (simp add: entry_of_def)
    show ?thesis unfolding ep option.case
      by (rule step_restore_backup[OF assms(1) u assms(2) b]) (use sp b kd in auto)
  qed
  then show "chl no_fault (at u) (rollback_entry cr ?t (stage_of ?t) (i, entry_of cr X i))
     (\<lambda>_. unfinished jj cr X i) (\<lambda>_ _. False) (\<lambda>_. False)"
    unfolding rollback_entry_def prod.case e
    by (intro step_checked_destination[OF assms(1) uf(2,3) assms(2) uf(1)] step_unchanged_outside[OF assms uf(1,4)])
qed

lemma chl_rollback:
  assumes "planned X"
  shows "chl no_fault (unfinished jj cr X (count X)) (rollback cr (p_target X) (stage_of (p_target X)) (journal_of cr X False))
    (\<lambda>_. unfinished jj cr X 0) (\<lambda>_ _. False) (\<lambda>_. False)"
proof -
  let ?z = "rev (enumerate 0 (entries_of cr X))" and ?I = "\<lambda>k. unfinished jj cr X (count X - k)"
  have len: "length ?z = count X" by (simp add: entries_of_def)
  have step: "chl no_fault (?I k) (rollback_entry cr (p_target X) (stage_of (p_target X)) (?z ! k)) (\<lambda>_. ?I (Suc k)) (\<lambda>_ _. False) (\<lambda>_. False)"
    if k: "k < length ?z" for k
  proof -
    let ?i = "count X - Suc k"
    have i: "?i < count X" "count X - k = Suc ?i" using k len by auto
    have "?z ! k = (?i, entry_of cr X ?i)"
      using k len i by (simp add: rev_nth nth_enumerate_eq entries_of_def)
    then show ?thesis using chl_rollback_entry[OF assms i(1), of jj cr] i(2) by simp
  qed
  show ?thesis unfolding rollback_def journal_of_def Journal.select_convs
    using chl_each[of ?z no_fault ?I "rollback_entry cr (p_target X) (stage_of (p_target X))" "\<lambda>_ _. False" "\<lambda>_. False", OF step] len by simp
qed

subsection \<open>Taking the lock\<close>

lemma step_check_no_links:
  assumes "u [] = None" "passable u (path_components p)" "chl F (at u) (f ()) Q E C"
  shows "chl F (at u) (io_bind (check_no_links p) f) Q E C"
  unfolding check_no_links_def by (rule step_fs_bind, rule step_lift) (use assms in \<open>auto simp: no_links_fs\<close>)

text \<open>The file system after the lock is taken: the target exists, and so does the lock file.\<close>

definition locked :: "string \<Rightarrow> fs \<Rightarrow> fs" where
  "locked t s = (let m = made (path_components t) (Suc (length (path_components t))) s in
     if m (lock_at t) = None then m(lock_at t \<mapsto> File []) else m)"

lemma target_not_lock: "prefix q (path_components t) \<Longrightarrow> q \<noteq> lock_at t \<and> q \<noteq> stage_at t"
  by (auto simp: at_forms dest: prefix_length_le)

lemma base_ok_made: "base_ok t s \<Longrightarrow> base_ok t (made (path_components t) k s)"
  using target_not_lock[of _ t] by (auto simp: base_ok_def made_def)

lemma locked_props:
  assumes "base_ok t s"
  shows "base_ok t (locked t s)" "dirs (locked t s) (stage_at t)" "\<exists>b. locked t s (lock_at t) = Some (File b)"
    "\<not> prefix q (path_components t) \<Longrightarrow> q \<noteq> lock_at t \<Longrightarrow> locked t s q = s q"
proof -
  let ?m = "made (path_components t) (Suc (length (path_components t))) s"
  note b = base_ok_made[OF assms, of "Suc (length (path_components t))"]
  have lk: "locked t s = ?m \<and> ?m (lock_at t) \<noteq> None \<or> locked t s = ?m(lock_at t \<mapsto> File [])"
    by (simp add: locked_def Let_def)
  have d: "dirs ?m (stage_at t)" by (auto simp: dirs_def prefix_target made_def dest: prefix_length_le)
  then have "dirs (?m(lock_at t \<mapsto> File [])) (stage_at t)"
    unfolding dirs_def prefix_target using target_not_lock by auto
  then show "dirs (locked t s) (stage_at t)" using lk d by auto
  show "\<exists>b. locked t s (lock_at t) = Some (File b)" using lk b by (auto simp: base_ok_def)
  have "base_ok t (?m(lock_at t \<mapsto> File []))" using b target_not_lock[of _ t] by (auto simp: base_ok_def)
  then show "base_ok t (locked t s)" using lk b by auto
  show "\<not> prefix q (path_components t) \<Longrightarrow> q \<noteq> lock_at t \<Longrightarrow> locked t s q = s q" using lk by (auto simp: made_other)
qed

lemma chl_acquire:
  assumes "quiet F" "base_ok t u" "\<And>k. can_crash F \<Longrightarrow> C (made (path_components t) k u)" "can_crash F \<Longrightarrow> C (locked t u)"
  shows "chl F (at u) (acquire t) (\<lambda>_. at (locked t u)) E C"
proof -
  define m where "m = made (path_components t) (Suc (length (path_components t))) u"
  have m: "base_ok t m" unfolding m_def by (rule base_ok_made[OF assms(2)])
  have Cm: "can_crash F \<Longrightarrow> C m" unfolding m_def by (rule assms(3))
  have d: "dirs m (lock_at t)" unfolding m_def by (auto simp: dirs_def prefix_target made_def dest: prefix_length_le)
  have lkd: "locked t u = (if m (lock_at t) = None then m(lock_at t \<mapsto> File []) else m)" by (simp add: locked_def m_def Let_def)
  have end_: "chl F (at (locked t u)) (os no_effect) (\<lambda>_. at (locked t u)) E C"
    by (rule chl_map_err, rule chl_no_effect[OF assms(1)]) (simp add: assms(4))
  have opn: "chl F (at m) (io_then (os (open_create (path_join t LOCK))) (os no_effect)) (\<lambda>_. at (locked t u)) E C"
  proof (cases "m (lock_at t)")
    case None
    have "parent_is_dir m (lock_at t)" using d by (rule dirs_parent) simp
    then show ?thesis using None end_ Cm assms(1)
      by (intro step_open_create_new) (simp_all only: at_folds lkd simp_thms if_True)
  next
    case (Some n)
    then obtain b where "m (lock_at t) = Some (File b)" using m by (auto simp: base_ok_def)
    then show ?thesis using end_ Cm assms(1)
      by (intro step_open_create[where b = b]) (simp_all only: at_folds lkd option.distinct if_False)
  qed
  show ?thesis unfolding acquire_def Let_def
  proof (rule step_check_no_links)
    show "u [] = None" "passable u (path_components t)" using assms(2) passable_base(1) by (auto simp: base_ok_def)
    have "chl F (at m) (io_then (check_no_links (path_join t LOCK)) (io_then (os (open_create (path_join t LOCK))) (os no_effect)))
       (\<lambda>_. at (locked t u)) E C"
      by (rule step_check_no_links[OF _ _ opn]) (use m passable_base(3)[OF m] in \<open>simp_all add: base_ok_def lock_at_def\<close>)
    then show "chl F (at u) (io_then (os (create_dir_all t)) (io_then (check_no_links (path_join t LOCK))
        (io_then (os (open_create (path_join t LOCK))) (os no_effect)))) (\<lambda>_. at (locked t u)) E C"
      using assms by (intro step_create_dir_all) (auto simp: m_def base_ok_def)
  qed
qed

lemma locked_idem:
  assumes "base_ok t s" "dirs s (stage_at t)" "s (lock_at t) \<noteq> None"
  shows "locked t s = s"
proof -
  have "made (path_components t) k s = s" for k
    using assms(2) by (auto simp: made_def dirs_def prefix_target)
  then show ?thesis using assms(3) by (auto simp: locked_def)
qed

subsection \<open>Recovery\<close>

lemma chl_recover_idle:
  assumes "quiet F" "base_ok t u" "u (stage_at t) = None" "can_crash F \<Longrightarrow> C u" "Q False u"
  shows "chl F (at u) (recover_locked jj cr t) Q E C"
proof -
  have "passable u (path_components (stage_of t))" "u [] = None"
    using passable_base(2)[OF assms(2)] assms(2) by (simp_all add: stage_at_def base_ok_def)
  then show ?thesis unfolding recover_locked_def Let_def
    using assms(3,5) by (intro step_check_no_links step_fs) (auto simp: fs_exists_def lookup_def stage_at_def intro: chl_return)
qed

lemma chl_cleanup:
  assumes "planned X" "around X u" "all_old X u \<or> all_done X u" "u (stage X) = Some Dir"
  shows "chl no_fault (at u) (io_then (os (remove_dir_all (stage_of (p_target X)))) (io_then (os (sync_directory (p_target X))) (io_return a)))
    (\<lambda>_. settled X) (\<lambda>_ _. False) (\<lambda>_. False)"
  unfolding sync_directory_def
  by (intro step_remove_dir_all step_no_effect chl_return)
    (use assms removed_settled[OF assms(1,2)] in \<open>auto simp: stage_at_def[symmetric]\<close>)

lemma step_read_journal:
  assumes "journal_is jj cr X c u" "chl no_fault (at u) (f (journal_of cr X c)) Q E C"
  shows "chl no_fault (at u) (io_bind (read_journal jj (path_join (stage_of (p_target X)) ''journal.json'')) f) Q E C"
proof -
  obtain bs where bs: "u (journal_at (p_target X)) = Some (File bs)" "journal_read jj bs = Inr (journal_of cr X c)" "length bs \<le> 16 * 1024 * 1024"
    using assms(1) by (auto simp: journal_is_def)
  have n: "\<not> length bs > 16 * 1024 * 1024" using bs(3) by simp
  show ?thesis unfolding read_journal_def
    apply (rule step_assoc)
    apply (rule step_read_all[where bs = bs])
       apply (simp_all only: at_folds bs(1) quiet_simps simp_thms)
    apply (simp only: if_not_P[OF n] bs(2))
    apply (rule step_lift[where a = "journal_of cr X c"])
    apply (simp_all add: result_simps assms(2))
    done
qed

lemma journal_exists:
  "fs_exists u (path_join (stage_of t) ''journal.json'') \<longleftrightarrow> u (journal_at t) \<noteq> None"
  "fs_exists u (stage_of t) \<longleftrightarrow> u (stage_at t) \<noteq> None"
  by (simp_all only: fs_exists_def lookup_def at_folds)

text \<open>The branch on the journal leaves the destinations all old or all new.\<close>

lemma chl_recover_stage:
  assumes "planned X" "recoverable jj cr X u" "u (stage X) = Some Dir"
  shows "chl no_fault (at u)
    (if fs_exists u (path_join (stage_of (p_target X)) ''journal.json'') then
       io_bind (read_journal jj (path_join (stage_of (p_target X)) ''journal.json'')) (\<lambda>journal.
         if j_version journal \<noteq> 1 then io_fail (InvalidInput ''Unsupported restore journal version'')
         else if j_publishing journal \<and> \<not> j_committed journal then rollback cr (p_target X) (stage_of (p_target X)) journal
         else io_return ())
     else io_return ())
    (\<lambda>_ s. around X s \<and> (all_old X s \<or> all_done X s) \<and> s (stage X) = Some Dir) (\<lambda>_ _. False) (\<lambda>_. False)"
proof -
  consider "unlogged X u" | "unfinished jj cr X (count X) u" | "committed jj cr X u" using assms(2) by (auto simp: recoverable_def)
  then show ?thesis
  proof cases
    case 1
    then show ?thesis using assms(3) unfolding journal_exists by (auto simp: unlogged_def intro!: chl_return)
  next
    case 2
    then have j: "journal_is jj cr X False u" "u (journal_at (p_target X)) \<noteq> None" by (auto simp: unfinished_def journal_is_def)
    have "chl no_fault (at u) (rollback cr (p_target X) (stage_of (p_target X)) (journal_of cr X False))
       (\<lambda>_ s. around X s \<and> (all_old X s \<or> all_done X s) \<and> s (stage X) = Some Dir) (\<lambda>_ _. False) (\<lambda>_. False)"
      by (rule chl_conseq[OF chl_rollback[OF assms(1)]]) (use 2 in \<open>auto simp: unfinished_def all_old_def\<close>)
    then show ?thesis unfolding journal_exists using j(2)
      by (simp only: simp_thms if_True) (rule step_read_journal[OF j(1)], simp add: journal_of_def)
  next
    case 3
    then have j: "journal_is jj cr X True u" "u (journal_at (p_target X)) \<noteq> None" by (auto simp: committed_def journal_is_def)
    show ?thesis unfolding journal_exists using j(2) 3
      by (simp only: simp_thms if_True) (rule step_read_journal[OF j(1)], auto simp: journal_of_def committed_def intro!: chl_return)
  qed
qed

lemma chl_recover_locked:
  assumes "planned X" "recoverable jj cr X u"
  shows "chl no_fault (at u) (recover_locked jj cr (p_target X)) (\<lambda>_. settled X)
    (\<lambda>_ _. False) (\<lambda>_. False)"
proof -
  let ?t = "p_target X"
  have a: "around X u" "u (stage X) = None \<or> u (stage X) = Some Dir"
    using assms(2) by (auto simp: recoverable_def unlogged_def unfinished_def committed_def)
  note b = around_base[OF assms(1) a]
  have un: "u [] = None" using b(1) by (simp add: base_ok_def)
  show ?thesis
  proof (cases "u (stage X) = None")
    case True
    then have "unlogged X u" using assms(2) by (auto simp: recoverable_def unfinished_def committed_def)
    then show ?thesis using True by (intro chl_recover_idle[OF _ b(1)]) (auto simp: unlogged_def settled_def)
  next
    case False
    then have st: "u (stage X) = Some Dir" using a(2) by auto
    have "u (journal_at ?t) \<noteq> Some Link"
      using assms(2) st by (auto simp: recoverable_def unlogged_def unfinished_def committed_def journal_is_def)
    then have lj: "passable u (journal_at ?t)" using passable_below[OF b(1) st] by simp
    have ls: "passable u (path_components (stage_of ?t))" using passable_base(2)[OF b(1)] by (simp only: at_folds)
    have ex: "fs_exists u (stage_of ?t)" using st by (simp add: journal_exists)
    show ?thesis unfolding recover_locked_def Let_def
      apply (rule step_check_no_links, rule un, rule ls)
      apply (rule step_fs)
      apply (simp only: ex simp_thms if_False)
      apply (rule step_check_no_links, rule un)
       apply (simp only: at_folds lj)
      apply (rule chl_bind[OF chl_recover_stage[OF assms st]])
      apply (rule chl_at)
      apply (rule chl_conseq[OF chl_cleanup[OF assms(1)]])
      apply auto
      done
  qed
qed

lemma chl_recover_interrupted:
  assumes "planned X" "recoverable jj cr X u"
  shows "chl no_fault (at u) (recover_interrupted_restore jj cr (p_target X))
    (\<lambda>_. settled X) (\<lambda>_ _. False) (\<lambda>_. False)"
proof -
  have a: "around X u" "u (stage X) = None \<or> u (stage X) = Some Dir"
    using assms(2) by (auto simp: recoverable_def unlogged_def unfinished_def committed_def)
  note b = around_base[OF assms(1) a]
  have l: "locked (p_target X) u = u" using b by (intro locked_idem) auto
  show ?thesis unfolding recover_interrupted_restore_def
    by (rule chl_bind[OF chl_acquire[OF _ b(1)]]) (simp_all add: l chl_recover_locked[OF assms])
qed

end
