(* ===== verification/Restore_Atomic.thy ===== *)
theory Restore_Atomic
  imports Restore_Recover
begin

text \<open>
  The restore transaction as an atomic update. The abstract state is the map from places
  to file contents, without the files of the transaction; the abstract operation
  overwrites the destinations. Every run of the code, killed at any system call and
  followed by a recovery, does the whole operation or nothing.
\<close>

subsection \<open>The abstract file map\<close>

definition files_of :: "string \<Rightarrow> fs \<Rightarrow> Component list \<Rightarrow> bytes option" where
  "files_of t s q = (if q = lock_at t then None else case s q of Some (File b) \<Rightarrow> Some b | _ \<Rightarrow> None)"

definition overwrite :: "string \<Rightarrow> DecryptedFile list \<Rightarrow> (Component list \<Rightarrow> bytes option) \<Rightarrow> Component list \<Rightarrow> bytes option" where
  "overwrite t files m = fold (\<lambda>f m. m(dest t (df_relative_path f) \<mapsto> df_plaintext f)) files m"

text \<open>A target that is free for a restore.\<close>

definition ready :: "string \<Rightarrow> fs \<Rightarrow> bool" where
  "ready t s \<longleftrightarrow> base_ok t s \<and> (\<forall>q. prefix (stage_at t) q \<longrightarrow> s q = None)"

lemma overwrite_other: "(\<And>f. f \<in> set files \<Longrightarrow> q \<noteq> dest t (df_relative_path f)) \<Longrightarrow> overwrite t files m q = m q"
  unfolding overwrite_def by (induction files arbitrary: m) auto

lemma overwrite_nth:
  assumes "i < length files" "\<And>j. j < length files \<Longrightarrow> j \<noteq> i \<Longrightarrow> dest t (df_relative_path (files ! j)) \<noteq> dest t (df_relative_path (files ! i))"
  shows "overwrite t files m (dest t (df_relative_path (files ! i))) = Some (df_plaintext (files ! i))"
proof -
  have s: "files = take i files @ files ! i # drop (Suc i) files" by (rule id_take_nth_drop[OF assms(1)])
  have "overwrite t files m = overwrite t (drop (Suc i) files) ((overwrite t (take i files) m)(dest t (df_relative_path (files ! i)) \<mapsto> df_plaintext (files ! i)))"
    unfolding overwrite_def by (subst s) simp
  moreover have "dest t (df_relative_path (files ! i)) \<noteq> dest t (df_relative_path f)" if f: "f \<in> set (drop (Suc i) files)" for f
  proof -
    obtain k where "k < length (drop (Suc i) files)" "f = drop (Suc i) files ! k" using f by (metis in_set_conv_nth)
    then have "Suc i + k < length files" "f = files ! (Suc i + k)" by simp_all
    then show ?thesis using assms(2)[of "Suc i + k"] by fastforce
  qed
  ultimately show ?thesis by (simp add: overwrite_other)
qed

lemma files_of_locked: "base_ok t s \<Longrightarrow> files_of t (locked t s) = files_of t s"
proof (rule ext)
  fix q assume b: "base_ok t s"
  show "files_of t (locked t s) q = files_of t s q"
  proof (cases "prefix q (path_components t)")
    case True
    then show ?thesis using b locked_props(1)[OF b] by (fastforce simp: files_of_def base_ok_def split: option.splits)
  next
    case False
    then show ?thesis using locked_props(4)[OF b] by (simp add: files_of_def)
  qed
qed

lemma files_of_made: "base_ok t s \<Longrightarrow> files_of t (made (path_components t) k s) = files_of t s"
  using base_ok_made[of t s k] by (fastforce simp: files_of_def base_ok_def made_def split: option.splits)

lemma ready_made: "ready t s \<Longrightarrow> ready t (made (path_components t) k s)"
  using base_ok_made[of t s k] prefix_target_stage made_other unfolding ready_def by metis

lemma ready_locked: "ready t s \<Longrightarrow> ready t (locked t s)"
  using locked_props(1,4) at_not_stage(8) prefix_target_stage unfolding ready_def by metis

lemma settled_around:
  assumes "planned X" "settled X s" "\<forall>i<count X. q \<noteq> place X i"
  shows "files_of (p_target X) s q = files_of (p_target X) (p_base X) q"
  using assms by (cases "prefix (stage X) q") (auto simp: settled_def around_def files_of_def planned_def)

lemma settled_files:
  assumes "planned X" "settled X s"
  shows "ready (p_target X) s" "all_old X s \<Longrightarrow> files_of (p_target X) s = files_of (p_target X) (p_base X)"
    "all_done X s \<Longrightarrow> files_of (p_target X) s = overwrite (p_target X) (p_files X) (files_of (p_target X) (p_base X))"
proof -
  let ?t = "p_target X"
  have "around X s" "s (stage X) = None" "\<forall>q. prefix (stage X) q \<longrightarrow> s q = None" using assms(2) by (auto simp: settled_def)
  then show "ready ?t s" using around_base(1)[OF assms(1)] by (auto simp: ready_def)
  show "files_of ?t s = files_of ?t (p_base X)" if "all_old X s"
  proof (rule ext)
    fix q show "files_of ?t s q = files_of ?t (p_base X) q"
    proof (cases "\<exists>i<count X. q = place X i")
      case True
      then show ?thesis using that by (auto simp: all_old_def old_at_def files_of_def)
    qed (use settled_around[OF assms] in blast)
  qed
  show "files_of ?t s = overwrite ?t (p_files X) (files_of ?t (p_base X))" if d: "all_done X s"
  proof (rule ext)
    fix q show "files_of ?t s q = overwrite ?t (p_files X) (files_of ?t (p_base X)) q"
    proof (cases "\<exists>i<count X. q = place X i")
      case True
      then obtain i where i: "i < count X" "q = place X i" by blast
      then have "files_of ?t s q = Some (text_of X i)"
        using d place_apart(5)[OF assms(1) i(1)] by (auto simp: files_of_def all_done_def done_at_def)
      then show ?thesis using overwrite_nth[of i "p_files X" ?t] place_eq[OF assms(1) _ i(1)] i
        unfolding place_def text_of_def by simp
    next
      case False
      then have "q \<noteq> dest ?t (df_relative_path f)" if "f \<in> set (p_files X)" for f
        using that by (auto simp: in_set_conv_nth place_def)
      then show ?thesis using settled_around[OF assms] False overwrite_other by metis
    qed
  qed
qed

subsection \<open>The whole run\<close>

definition run_plan :: "string \<Rightarrow> DecryptedFile list \<Rightarrow> fs \<Rightarrow> plan" where
  "run_plan t files s = \<lparr>p_target = t, p_files = files, p_base = locked t s\<rparr>"

definition interrupted :: "journal_json \<Rightarrow> crypto_crate \<Rightarrow> string \<Rightarrow> DecryptedFile list \<Rightarrow> fs \<Rightarrow> fs \<Rightarrow> bool" where
  "interrupted jj cr t files s0 s \<longleftrightarrow> ready t s \<and> files_of t s = files_of t s0 \<or>
     planned (run_plan t files s0) \<and> recoverable jj cr (run_plan t files s0) s"

lemma run_planned:
  assumes "ready t s" "plan_destinations (locked t s) t files = Inr paths" "\<forall>f\<in>set files. length (df_plaintext f) \<le> unat MAX_FILE_SIZE"
  shows "planned (run_plan t files s)" "paths = map (\<lambda>f. path_join t (df_relative_path f)) files"
proof -
  have b: "base_ok t s" and r: "ready t (locked t s)" using assms(1) ready_locked by (auto simp: ready_def)
  have n: "locked t s [] = None" using r by (simp add: ready_def base_ok_def)
  show "paths = map (\<lambda>f. path_join t (df_relative_path f)) files" by (rule plan_destinations_sound(1)[OF assms(2)]) (rule n)
  show "planned (run_plan t files s)"
    using plan_destinations_sound(2,3)[OF assms(2)] n assms(3) locked_props(2,3)[OF b] r
    by (auto simp: planned_def run_plan_def ready_def)
qed

lemma staging_0:
  assumes "planned X"
  shows "staging X 0 ((p_base X)(stage X \<mapsto> Dir))"
proof -
  have st: "p_base X q = None" if "prefix (stage X) q" for q using assms that by (simp add: planned_def)
  have "around X (p_base X)" "all_old X (p_base X)" by (simp_all add: around_def all_old_def old_at_def)
  then show ?thesis using st by (simp add: staging_def around_below[OF assms] staged_def parents_def small_old_def)
qed

lemma chl_transaction:
  assumes "quiet F" "planned X" "journals_fit jj cr X"
  defines "paths \<equiv> map (\<lambda>f. path_join (p_target X) (df_relative_path f)) (p_files X)"
  shows "chl F (staging X 0)
    (io_catch (stage_files cr (stage_of (p_target X)) 0 (zip (p_files X) paths))
       (\<lambda>e. io_then (os (remove_dir_all (stage_of (p_target X)))) (io_fail e))
       (\<lambda>entries.
         io_catch (publish_all jj cr (\<lambda>_. atomic_replace) (p_target X) (stage_of (p_target X)) entries paths)
           (\<lambda>e. io_then
              (io_map_err (\<lambda>r. InvalidInput (''Restore failed ('' @ show_snapshot_error e @ ''); rollback failed ('' @
                   show_snapshot_error r @ ''); journal at '' @ stage_of (p_target X)))
                 (rollback cr (p_target X) (stage_of (p_target X)) \<lparr>j_version = 1, j_publishing = True, j_committed = False, j_entries = entries\<rparr>))
              (io_then (os (remove_dir_all (stage_of (p_target X)))) (io_fail e)))
           (\<lambda>_.
             io_then (os (remove_dir_all (stage_of (p_target X))))
             (io_then (os (sync_directory (p_target X)))
             (io_return paths)))))
    (\<lambda>a s. a = paths \<and> settled X s \<and> all_done X s) (\<lambda>_ s. settled X s \<and> all_old X s \<and> \<not> small_old X (count X)) (recoverable jj cr X)"
proof (rule chl_catch)
  show "chl F (staging X 0) (stage_files cr (stage_of (p_target X)) 0 (zip (p_files X) paths))
     (\<lambda>es s. es = entries_of cr X \<and> staging X (count X) s) (\<lambda>_ s. abandoned X s \<and> \<not> small_old X (count X)) (recoverable jj cr X)"
    using chl_stage_files[OF assms(1,2), of 0 cr]
    unfolding paths_def entries_of_def drop_0 by (rule chl_conseq) (auto simp: recoverable_def)
next
  fix e
  show "chl F (\<lambda>s. abandoned X s \<and> \<not> small_old X (count X)) (io_then (os (remove_dir_all (stage_of (p_target X)))) (io_fail e))
     (\<lambda>a s. a = paths \<and> settled X s \<and> all_done X s) (\<lambda>_ s. settled X s \<and> all_old X s \<and> \<not> small_old X (count X)) (recoverable jj cr X)"
  proof (rule chl_at)
    fix u assume "abandoned X u \<and> \<not> small_old X (count X)"
    then have u: "abandoned X u" and big: "\<not> small_old X (count X)" by simp_all
    from u have "around X u" "all_old X u" "u (stage X) = Some Dir" by (simp_all add: abandoned_def)
    then show "chl F (at u) (io_then (os (remove_dir_all (stage_of (p_target X)))) (io_fail e))
     (\<lambda>a s. a = paths \<and> settled X s \<and> all_done X s) (\<lambda>_ s. settled X s \<and> all_old X s \<and> \<not> small_old X (count X)) (recoverable jj cr X)"
      using big abandoned_removed[OF assms(2) u] removed_settled(1)[OF assms(2)]
      by (intro step_remove_dir_all[OF assms(1)]) (auto simp: at_folds recoverable_def intro: chl_fail)
  qed
next
  fix es
  show "chl F (\<lambda>s. es = entries_of cr X \<and> staging X (count X) s)
     (io_catch (publish_all jj cr (\<lambda>_. atomic_replace) (p_target X) (stage_of (p_target X)) es paths)
           (\<lambda>e. io_then
              (io_map_err (\<lambda>r. InvalidInput (''Restore failed ('' @ show_snapshot_error e @ ''); rollback failed ('' @
                   show_snapshot_error r @ ''); journal at '' @ stage_of (p_target X)))
                 (rollback cr (p_target X) (stage_of (p_target X)) \<lparr>j_version = 1, j_publishing = True, j_committed = False, j_entries = es\<rparr>))
              (io_then (os (remove_dir_all (stage_of (p_target X)))) (io_fail e)))
           (\<lambda>_.
             io_then (os (remove_dir_all (stage_of (p_target X))))
             (io_then (os (sync_directory (p_target X)))
             (io_return paths))))
     (\<lambda>a s. a = paths \<and> settled X s \<and> all_done X s) (\<lambda>_ s. settled X s \<and> all_old X s \<and> \<not> small_old X (count X)) (recoverable jj cr X)"
  proof (rule chl_catch[where Q' = "\<lambda>_. committed jj cr X" and E' = "\<lambda>_ _. False"])
    show "chl F (\<lambda>s. es = entries_of cr X \<and> staging X (count X) s)
       (publish_all jj cr (\<lambda>_. atomic_replace) (p_target X) (stage_of (p_target X)) es paths)
       (\<lambda>_. committed jj cr X) (\<lambda>_ _. False) (recoverable jj cr X)"
      by (rule chl_at, elim conjE, simp only: paths_def, rule chl_atD[OF chl_publish_all[OF assms(1-3)]])
  next
    fix a :: unit
    show "chl F (committed jj cr X) (io_then (os (remove_dir_all (stage_of (p_target X)))) (io_then (os (sync_directory (p_target X))) (io_return paths)))
       (\<lambda>a s. a = paths \<and> settled X s \<and> all_done X s) (\<lambda>_ s. settled X s \<and> all_old X s \<and> \<not> small_old X (count X)) (recoverable jj cr X)"
    proof (rule chl_at)
      fix u assume u: "committed jj cr X u"
      then have c: "around X u" "all_done X u" "u (stage X) = Some Dir" by (simp_all add: committed_def)
      note r = removed_settled(2)[OF assms(2) c(1,2)]
      then have "recoverable jj cr X (removed_all (stage X) u)" by (auto simp: recoverable_def unlogged_def settled_def)
      then show "chl F (at u) (io_then (os (remove_dir_all (stage_of (p_target X)))) (io_then (os (sync_directory (p_target X))) (io_return paths)))
       (\<lambda>a s. a = paths \<and> settled X s \<and> all_done X s) (\<lambda>_ s. settled X s \<and> all_old X s \<and> \<not> small_old X (count X)) (recoverable jj cr X)"
        unfolding sync_directory_def
        using r c(3) committed_removed[OF assms(2) u]
        by (intro step_remove_dir_all[OF assms(1)] step_no_effect[OF assms(1)] chl_return) (auto simp: at_folds)
    qed
  qed (simp add: chl_def)
qed

lemma journals_fit_locked:
  assumes "planned (run_plan t files s)" "ready t s" "journals_fit jj cr \<lparr>p_target = t, p_files = files, p_base = s\<rparr>"
  shows "journals_fit jj cr (run_plan t files s)"
proof -
  let ?X = "run_plan t files s" and ?Y = "\<lparr>p_target = t, p_files = files, p_base = s\<rparr>"
  have pl: "place ?X i = place ?Y i" "text_of ?X i = text_of ?Y i" for i by (simp_all add: place_def text_of_def run_plan_def)
  have "entry_of cr ?X i = entry_of cr ?Y i" if i: "i < count ?X" for i
  proof -
    have "\<not> prefix (place ?X i) (path_components t)" "place ?X i \<noteq> lock_at t"
      using place_apart(3,5)[OF assms(1) i] by (auto simp: run_plan_def)
    then have "locked t s (place ?X i) = s (place ?X i)" using locked_props(4) assms(2) by (simp add: ready_def)
    then show ?thesis using pl by (simp add: entry_of_def run_plan_def)
  qed
  moreover have "count ?X = count ?Y" by (simp add: run_plan_def)
  ultimately have "entries_of cr ?X = entries_of cr ?Y" by (simp add: entries_of_def)
  then have "journal_of cr ?X c = journal_of cr ?Y c" for c by (simp add: journal_of_def)
  then show ?thesis using assms(3) by (simp add: journals_fit_def)
qed

lemma step_prepare:
  assumes "quiet F" "ready t s" "can_crash F \<Longrightarrow> C (locked t s)" "\<And>k. can_crash F \<Longrightarrow> C (made (path_components t) k s)"
    and "chl F (at (locked t s)) m Q E C"
  shows "chl F (at s) (io_then (acquire t) (io_then (recover_locked jj cr t) m)) Q E C"
proof -
  have b: "base_ok t s" "base_ok t (locked t s)" "locked t s (stage_at t) = None"
    using assms(2) ready_locked[OF assms(2)] by (auto simp: ready_def)
  have idle: "chl F (at (locked t s)) (recover_locked jj cr t) (\<lambda>_. at (locked t s)) E C"
    by (rule chl_recover_idle) (use assms b in auto)
  show ?thesis
    by (rule chl_bind, rule chl_acquire[OF assms(1) b(1)], erule assms(4), erule assms(3), rule chl_bind[OF idle assms(5)])
qed

lemma chl_publish_verified_files:
  assumes "quiet F" "ready t s0" "\<forall>f\<in>set files. length (df_plaintext f) \<le> unat MAX_FILE_SIZE"
    and "journals_fit jj cr \<lparr>p_target = t, p_files = files, p_base = s0\<rparr>"
  shows "chl F (at s0) (publish_verified_files jj cr t files)
    (\<lambda>a s. plan_destinations (locked t s0) t files = Inr a \<and> ready t s \<and> files_of t s = overwrite t files (files_of t s0))
    (\<lambda>_ s. ready t s \<and> files_of t s = files_of t s0 \<and>
       \<not> (is_ok (plan_destinations (locked t s0) t files) \<and> small_old (run_plan t files s0) (length files)))
    (interrupted jj cr t files s0)"
proof -
  let ?X = "run_plan t files s0" and ?l = "locked t s0"
  have X: "p_target ?X = t" "p_files ?X = files" "p_base ?X = ?l" by (simp_all add: run_plan_def)
  have b: "base_ok t s0" and r: "ready t ?l" and fl: "files_of t ?l = files_of t s0"
    using assms(2) ready_locked files_of_locked by (auto simp: ready_def)
  have int: "interrupted jj cr t files s0 ?l" "interrupted jj cr t files s0 (made (path_components t) k s0)" for k
    using r fl ready_made[OF assms(2)] files_of_made[OF b] by (simp_all add: interrupted_def)
  show ?thesis
  proof (cases "plan_destinations ?l t files")
    case (Inl e)
    show ?thesis unfolding publish_verified_files_def publish_with_def
      by (rule step_prepare[OF assms(1,2)], rule int, rule int, rule step_fs, simp only: Inl io_lift_def sum.case, rule step_fail)
        (use r fl in \<open>simp add: Inl\<close>)
  next
    case (Inr paths)
    note pl = run_planned[OF assms(2) Inr assms(3)]
    note fit = journals_fit_locked[OF pl(1) assms(2,4)]
    have st: "?l (stage_at t) = None" "parent_is_dir ?l (stage_at t)"
      using r dirs_parent[OF locked_props(2)[OF b]] by (auto simp: ready_def)
    have s0: "staging ?X 0 (?l(stage_at t \<mapsto> Dir))" using staging_0[OF pl(1)] unfolding X .
    have it: "interrupted jj cr t files s0 (?l(stage_at t \<mapsto> Dir))"
      using abandoned_unlogged[OF staging_abandoned[OF s0]] pl(1) by (simp add: interrupted_def recoverable_def)
    note tr = chl_atD[OF chl_transaction[OF assms(1) pl(1) fit], OF s0, unfolded X]
    note sf = settled_files[OF pl(1), unfolded X fl]
    show ?thesis unfolding publish_verified_files_def publish_with_def
      apply (rule step_prepare[OF assms(1,2)], rule int, rule int)
      apply (rule step_fs)
      apply (simp only: Inr pl(2) Let_def lock_secret_directory_def at_folds)
      apply (rule step_lift[OF refl])
      apply (rule step_mkdir[OF assms(1)], rule st, rule st, rule int)
      apply (rule step_no_effect[OF assms(1)], rule it)
      apply (rule chl_conseq[OF tr])
         apply (use sf pl Inr in \<open>auto simp: interrupted_def X\<close>)
      done
  qed
qed

subsection \<open>Atomicity\<close>

lemma recover_ready:
  assumes "ready t s"
  shows "chl no_fault (at s) (recover_interrupted_restore jj cr t) (\<lambda>_ s'. ready t s' \<and> files_of t s' = files_of t s) E C"
proof -
  have b: "base_ok t s" and r: "ready t (locked t s)" using assms ready_locked by (auto simp: ready_def)
  have "chl no_fault (at (locked t s)) (recover_locked jj cr t) (\<lambda>_ s'. ready t s' \<and> files_of t s' = files_of t s) E C"
    using r files_of_locked[OF b] by (intro chl_recover_idle) (auto simp: ready_def)
  then show ?thesis unfolding recover_interrupted_restore_def
    by (intro chl_bind[OF chl_acquire[OF _ b]]) simp_all
qed

lemma recover_after_crash:
  assumes "interrupted jj cr t files s0 s" "ready t s0"
  shows "chl no_fault (at s) (recover_interrupted_restore jj cr t)
    (\<lambda>_ s'. ready t s' \<and> (files_of t s' = files_of t s0 \<or> files_of t s' = overwrite t files (files_of t s0))) (\<lambda>_ _. False) (\<lambda>_. False)"
  using assms(1) unfolding interrupted_def
proof (elim disjE conjE)
  assume "ready t s" "files_of t s = files_of t s0"
  then show ?thesis by (intro chl_conseq[OF recover_ready[of t s]]) auto
next
  let ?X = "run_plan t files s0"
  assume p: "planned ?X" and r: "recoverable jj cr ?X s"
  have X: "p_target ?X = t" "p_files ?X = files" "p_base ?X = locked t s0" by (simp_all add: run_plan_def)
  have fl: "files_of t (locked t s0) = files_of t s0" using assms(2) files_of_locked by (auto simp: ready_def)
  show ?thesis
    by (rule chl_conseq[OF chl_recover_interrupted[OF p r, unfolded X]])
      (use settled_files[OF p, unfolded X fl] in \<open>auto simp: settled_def\<close>)
qed

lemma publish_atomic:
  assumes "ready target (w_fs w)" "\<forall>f\<in>set (w_faults w). crash_only f"
    and "\<forall>f\<in>set files. length (df_plaintext f) \<le> unat MAX_FILE_SIZE"
    and "journals_fit jj cr \<lparr>p_target = target, p_files = files, p_base = w_fs w\<rparr>"
  shows "case publish_verified_files jj cr target files w of
      (Done paths, w') \<Rightarrow> ready target (w_fs w') \<and>
        files_of target (w_fs w') = overwrite target files (files_of target (w_fs w))
    | (Err e, w') \<Rightarrow> ready target (w_fs w') \<and> files_of target (w_fs w') = files_of target (w_fs w)
    | (Crashed, w') \<Rightarrow> (\<forall>ns. \<exists>b w''. recover_interrupted_restore jj cr target \<lparr>w_fs = w_fs w', w_faults = [], w_random = ns\<rparr> = (Done b, w'') \<and>
        ready target (w_fs w'') \<and> files_of target (w_fs w'') \<in>
          {files_of target (w_fs w), overwrite target files (files_of target (w_fs w))})"
proof -
  obtain r w' where r: "publish_verified_files jj cr target files w = (r, w')" by fastforce
  note p = chlD(2)[OF chl_publish_verified_files[of crash_only, OF _ assms(1,3,4)] refl assms(2) r]
  have rec: "\<exists>b w''. recover_interrupted_restore jj cr target \<lparr>w_fs = w_fs w', w_faults = [], w_random = ns\<rparr> = (Done b, w'') \<and>
      ready target (w_fs w'') \<and> files_of target (w_fs w'') \<in> {files_of target (w_fs w), overwrite target files (files_of target (w_fs w))}"
    if i: "interrupted jj cr target files (w_fs w) (w_fs w')" for ns
  proof -
    let ?v = "\<lparr>w_fs = w_fs w', w_faults = [], w_random = ns\<rparr>"
    obtain q v where q: "recover_interrupted_restore jj cr target ?v = (q, v)" by fastforce
    show ?thesis using chlD(2)[OF recover_after_crash[OF i assms(1)] _ _ q] q by (cases q) auto
  qed
  show ?thesis using p rec unfolding r by (cases r) simp_all
qed


subsection \<open>Completion\<close>

text \<open>Without a crash among the faults no computation of the transaction is killed.\<close>

definition calm :: "('e, 'a) io \<Rightarrow> bool" where
  "calm m \<longleftrightarrow> chl no_fault (\<lambda>_. True) m (\<lambda>_ _. True) (\<lambda>_ _. True) (\<lambda>_. False)"

named_theorems calm_intros

lemma calm_basic [calm_intros]:
  "calm (io_return a)" "calm (io_fail e)" "calm (io_lift v)" "calm (sys f part)" "calm io_random"
  unfolding calm_def by (auto intro: chl_return chl_fail chl_lift chl_sys chl_random)

lemma calm_compose [calm_intros]:
  "calm m \<Longrightarrow> (\<And>a. calm (f a)) \<Longrightarrow> calm (io_bind m f)" "calm m \<Longrightarrow> calm (io_map_err g m)"
  "calm m \<Longrightarrow> (\<And>e. calm (h e)) \<Longrightarrow> (\<And>a. calm (k a)) \<Longrightarrow> calm (io_catch m h k)"
  unfolding calm_def by (auto intro: chl_bind chl_map_err chl_catch)

lemma calm_fs [calm_intros]: "(\<And>s. calm (f s)) \<Longrightarrow> calm (io_fs f)"
  unfolding calm_def by (rule chl_fs, rule chl_pre) auto

lemma calm_each [calm_intros]: "(\<And>x. calm (f x)) \<Longrightarrow> calm (io_each f xs)"
  by (induction xs) (auto intro!: calm_intros)

lemma calm_if [calm_intros]: "calm m \<Longrightarrow> calm n \<Longrightarrow> calm (if b then m else n)"
  by simp

lemma calm_option [calm_intros]: "calm m \<Longrightarrow> (\<And>x. calm (f x)) \<Longrightarrow> calm (case v of None \<Rightarrow> m | Some x \<Rightarrow> f x)"
  by (cases v) simp_all

lemmas call_defs = no_effect_def lock_secret_file_def lock_secret_directory_def sync_directory_def create_new_def create_secret_file_def
  open_create_def write_all_def read_all_def open_regular_file_def rename_def atomic_replace_def remove_file_def remove_dir_all_def
  mkdir_def mkdir_missing_def create_dir_all_def

lemma calm_rollback [calm_intros]: "calm (rollback cr target st j)"
  unfolding rollback_def rollback_entry_def checked_destination_def unchanged_outside_def restore_backup_def file_digest_def sync_parent_def
    Let_def call_defs
  by (auto intro!: calm_intros split: prod.split)

lemma calm_recover [calm_intros]: "calm (acquire target)" "calm (recover_locked jj cr target)"
  unfolding acquire_def recover_locked_def check_no_links_def read_journal_def Let_def call_defs by (auto intro!: calm_intros)

lemma calm_stage [calm_intros]: "calm (stage_files cr st i zs)"
proof (induction cr st i zs rule: stage_files.induct)
  case (2 cr st i f d rest)
  have "calm (stage_file cr st i f d)"
    unfolding stage_file_def backup_original_def file_digest_def Let_def call_defs by (auto intro!: calm_intros)
  then show ?case using 2 by (auto intro!: calm_intros)
qed (auto intro: calm_intros)

lemma calm_publish [calm_intros]: "calm (publish_all jj cr (\<lambda>_. atomic_replace) target st es paths)"
  unfolding publish_all_def write_journal_def publish_file_def checked_destination_def current_digest_def file_digest_def sync_parent_def
    Let_def call_defs
  by (auto intro!: calm_intros split: prod.split)

lemma calm_publish_verified_files: "calm (publish_verified_files jj cr target files)"
  unfolding publish_verified_files_def publish_with_def Let_def
  by (intro calm_intros; unfold call_defs; intro calm_intros)

text \<open>
  C9. A restore completes. When no system call fails, the checks on the destinations
  succeed and no file to be replaced is above the size limit, \<open>publish_verified_files\<close>
  returns the destination paths, every destination holds the decrypted contents and all
  other files are unchanged.
\<close>

theorem restore_completes:
  assumes "ready target (w_fs w)" "\<forall>f\<in>set (w_faults w). no_fault f"
    and "\<forall>f\<in>set files. length (df_plaintext f) \<le> unat MAX_FILE_SIZE"
    and "journals_fit jj cr \<lparr>p_target = target, p_files = files, p_base = w_fs w\<rparr>"
    and "plan_destinations (locked target (w_fs w)) target files = Inr paths"
    and "\<forall>f\<in>set files. \<forall>b. w_fs w (dest target (df_relative_path f)) = Some (File b) \<longrightarrow> length b \<le> unat MAX_FILE_SIZE"
  shows "\<exists>w'. publish_verified_files jj cr target files w = (Done paths, w') \<and>
    files_of target (w_fs w') = overwrite target files (files_of target (w_fs w)) \<and>
    (\<forall>i<length files. files_of target (w_fs w') (dest target (df_relative_path (files ! i))) = Some (df_plaintext (files ! i)))"
proof -
  let ?X = "run_plan target files (w_fs w)"
  obtain r w' where r: "publish_verified_files jj cr target files w = (r, w')" by fastforce
  note p = chlD(2)[OF chl_publish_verified_files[of no_fault, OF _ assms(1,3,4)] refl assms(2) r]
  have "r \<noteq> Crashed" using chlD(2)[OF calm_publish_verified_files[unfolded calm_def] TrueI assms(2) r] by auto
  have pl: "planned ?X" by (rule run_planned(1)[OF assms(1,5,3)])
  have pf: "p_files ?X = files" "p_target ?X = target" by (simp_all add: run_plan_def)
  have place: "place ?X i = dest target (df_relative_path (files ! i))" for i by (simp add: place_def run_plan_def)
  have "small_old ?X (length files)"
    unfolding small_old_def
  proof (intro allI impI)
    fix i b assume i: "i < length files" and b: "p_base ?X (place ?X i) = Some (File b)"
    have "\<not> prefix (place ?X i) (path_components target)" "place ?X i \<noteq> lock_at target"
      using place_apart(3,5)[OF pl, of i] i by (auto simp: pf)
    then have "w_fs w (place ?X i) = Some (File b)"
      using b locked_props(4)[of target "w_fs w"] assms(1) by (simp add: run_plan_def ready_def)
    then show "length b \<le> unat MAX_FILE_SIZE" using assms(6) i by (auto simp: place)
  qed
  then have d: "r = Done paths" "files_of target (w_fs w') = overwrite target files (files_of target (w_fs w))"
    using p assms(5) \<open>r \<noteq> Crashed\<close> by (cases r; simp)+
  have "overwrite target files (files_of target (w_fs w)) (dest target (df_relative_path (files ! i))) = Some (df_plaintext (files ! i))"
    if "i < length files" for i
    using that place_eq[OF pl, unfolded pf] by (intro overwrite_nth) (auto simp: place)
  then show ?thesis using r d by auto
qed

subsection \<open>Recovery can block itself\<close>

lemma removed_unfinished:
  assumes "planned X" "unfinished jj cr X 0 u" "n (journal_at (p_target X)) = 0" "n (backup_at (p_target X) i) > 0"
  defines "v \<equiv> removed (stage X) n u"
  shows "around X v" "all_old X v" "v (stage X) = Some Dir" "journal_is jj cr X False v" "v (backup_at (p_target X) i) = None"
    "small_old X (count X)" "v (journal_at (p_target X)) \<noteq> None" "v (journal_at (p_target X)) \<noteq> Some Link"
proof -
  have j: "v (journal_at (p_target X)) = u (journal_at (p_target X))" using assms(3) by (simp add: v_def removed_def)
  have "around X u" "all_old X u" using assms(2) by (simp_all add: unfinished_def all_old_def)
  then show "around X v" "all_old X v" by (simp_all add: v_def settled_removed[OF assms(1)])
  show "v (stage X) = Some Dir" "v (backup_at (p_target X) i) = None" using assms(2,4) by (simp_all add: v_def removed_def unfinished_def)
  show "journal_is jj cr X False v" "small_old X (count X)" "v (journal_at (p_target X)) \<noteq> None" "v (journal_at (p_target X)) \<noteq> Some Link"
    using assms(2) j by (auto simp: unfinished_def journal_is_def)
qed

lemma chl_rollback_blocked:
  assumes "planned X" "around X v" "all_old X v" "v (stage X) = Some Dir" "small_old X (count X)" "count X = Suc i"
    and "p_base X (place X i) = Some (File b)" "v (backup_at (p_target X) i) = None"
  shows "chl no_fault (at v) (rollback cr (p_target X) (stage_of (p_target X)) (journal_of cr X False)) (\<lambda>_ _. False)
    (\<lambda>e s. e = InvalidInput ''Restore backup missing; journal retained'' \<and> s = v) (\<lambda>_. False)"
proof -
  let ?t = "p_target X"
  have i: "i < count X" using assms(6) by simp
  have o: "old_at X v i \<or> done_at X v i" using assms(3) i by (simp add: all_old_def)
  have "rev (enumerate 0 (entries_of cr X)) = (i, entry_of cr X i) # rev (enumerate 0 (map (entry_of cr X) [0..<i]))"
    by (simp add: entries_of_def assms(6) enumerate_append_eq)
  then have r: "rollback cr ?t (stage_of ?t) (journal_of cr X False) =
      io_then (rollback_entry cr ?t (stage_of ?t) (i, entry_of cr X i)) (io_each (rollback_entry cr ?t (stage_of ?t)) (rev (enumerate 0 (map (entry_of cr X) [0..<i]))))"
    by (simp add: rollback_def journal_of_def)
  have e: "e_path (entry_of cr X i) = df_relative_path (p_files X ! i)" "e_previous_digest (entry_of cr X i) = Some (compute_digest cr b)"
    using assms(7) by (simp_all add: entry_of_def)
  have ex: "\<not> fs_exists v (path_join (stage_of ?t) (''backup-'' @ show_nat i))"
    using assms(8) unfolding fs_exists_def lookup_def at_folds by simp
  show ?thesis unfolding r rollback_entry_def prod.case e option.case
    apply (rule step_assoc, rule step_checked_destination[OF assms(1,2,4) i o])
    apply (rule step_assoc, rule step_unchanged_outside[OF assms(1) i o assms(5)])
    apply (simp only: restore_backup_def Let_def)
    apply (rule step_assoc, rule step_fs_bind)
    apply (simp only: ex if_False)
    apply (rule step_fail, simp)
    done
qed

text \<open>
  C10. An interrupted cleanup blocks every later restore. Take the state after a completed
  rollback, when the stage directory is about to be removed and the last file of the
  journal had a previous version. If the process is killed after the backup of that file
  has been removed and before the journal has been, each later recovery fails with
  "backup missing" and changes nothing, although the destinations are all restored.
\<close>

theorem interrupted_cleanup_blocks:
  assumes "planned X" "unfinished jj cr X 0 u" "count X = Suc i" "p_base X (place X i) = Some (File b)"
    and "n (journal_at (p_target X)) = 0" "n (backup_at (p_target X) i) > 0"
  shows "all_old X u \<and> remove_dir_all (stage_of (p_target X)) \<lparr>w_fs = u, w_faults = [Crash n], w_random = ns\<rparr> =
      (Crashed, \<lparr>w_fs = removed (stage X) n u, w_faults = [], w_random = ns\<rparr>) \<and>
    (\<exists>w'. recover_interrupted_restore jj cr (p_target X) \<lparr>w_fs = removed (stage X) n u, w_faults = [], w_random = ns'\<rparr> =
        (Err (InvalidInput ''Restore backup missing; journal retained''), w') \<and> w_fs w' = removed (stage X) n u)"
proof -
  let ?t = "p_target X"
  define v where "v = removed (stage X) n u"
  note v = removed_unfinished[OF assms(1,2,5,6), folded v_def]
  have st: "v (stage X) = None \<or> v (stage X) = Some Dir" using v(3) by simp
  note b = around_base[OF assms(1) v(1) st]
  have un: "v [] = None" and l: "locked ?t v = v" using b by (auto simp: base_ok_def intro: locked_idem)
  have ls: "passable v (stage_at ?t)" "passable v (journal_at ?t)"
    using passable_base(2)[OF b(1)] passable_below[OF b(1) v(3,8)] by simp_all
  let ?E = "\<lambda>e s. e = InvalidInput ''Restore backup missing; journal retained'' \<and> s = v"
  have "chl no_fault (at v) (recover_locked jj cr ?t) (\<lambda>_ _. False) ?E (\<lambda>_. False)"
    unfolding recover_locked_def Let_def
    apply (rule step_check_no_links, rule un, simp only: at_folds ls)
    apply (rule step_fs)
    apply (simp only: journal_exists v(3) option.distinct simp_thms if_False)
    apply (rule step_check_no_links, rule un, simp only: at_folds ls)
    apply (rule chl_bind[where Q' = "\<lambda>_ _. False"])
     apply (simp only: v(7) simp_thms if_True)
     apply (rule step_read_journal[OF v(4)])
     apply (use chl_rollback_blocked[OF assms(1) v(1-3,6) assms(3,4) v(5)] in \<open>simp add: journal_of_def\<close>)
    apply (simp add: chl_def)
    done
  then have rec: "chl no_fault (at v) (recover_interrupted_restore jj cr ?t) (\<lambda>_ _. False) ?E (\<lambda>_. False)"
    unfolding recover_interrupted_restore_def by (intro chl_bind[OF chl_acquire[OF _ b(1)]]) (simp_all add: l)
  obtain r w' where r: "recover_interrupted_restore jj cr ?t \<lparr>w_fs = v, w_faults = [], w_random = ns'\<rparr> = (r, w')" by fastforce
  have "r = Err (InvalidInput ''Restore backup missing; journal retained'') \<and> w_fs w' = v"
    using chlD(2)[OF rec _ _ r] by (cases r) auto
  moreover have "remove_dir_all (stage_of ?t) \<lparr>w_fs = u, w_faults = [Crash n], w_random = ns\<rparr> =
      (Crashed, \<lparr>w_fs = v, w_faults = [], w_random = ns\<rparr>)"
    unfolding remove_dir_all_def sys_def v_def removed_def at_folds by (simp cong: if_cong)
  moreover have "all_old X u" using assms(2) by (simp add: unfinished_def all_old_def)
  ultimately show ?thesis using r unfolding v_def by auto
qed

subsection \<open>Concrete runs\<close>

text \<open>A stand-in for the JSON text of a journal.\<close>

fun unsd :: "bytes \<Rightarrow> (bytes \<times> bytes) option" where
  "unsd [] = None"
| "unsd (c # r) = (if c = 0 then Some ([], r) else case r of [] \<Rightarrow> None | b # r' \<Rightarrow> map_option (map_prod (Cons b) id) (unsd r'))"

lemma unsd_sd [simp]: "unsd (sd a @ r) = Some (a, r)"
  by (induction a) simp_all

definition of_bytes :: "bytes \<Rightarrow> string" where
  "of_bytes bs = map (\<lambda>b. char_of (unat b)) bs"

lemma of_bytes_as_bytes [simp]: "of_bytes (as_bytes s) = s"
proof -
  have "unat (of_char c :: byte) = of_char c" for c
    by (subst of_nat_of_char[symmetric]) (simp add: unat_of_nat)
  then show ?thesis by (simp add: of_bytes_def as_bytes_def map_idI)
qed

definition enc_entry :: "Entry \<Rightarrow> bytes" where
  "enc_entry e = sd (as_bytes (e_path e)) @ (case e_previous_digest e of None \<Rightarrow> [0] | Some d \<Rightarrow> 1 # sd d) @ sd (e_new_digest e)"

definition dec_entry :: "bytes \<Rightarrow> (Entry \<times> bytes) option" where
  "dec_entry bs = (case unsd bs of
       Some (p, c # r) \<Rightarrow>
         (case (if c = 0 then Some (None, r) else map_option (map_prod Some id) (unsd r)) of
            Some (d, r') \<Rightarrow> map_option (map_prod (\<lambda>n. \<lparr>e_path = of_bytes p, e_previous_digest = d, e_new_digest = n\<rparr>) id) (unsd r')
          | None \<Rightarrow> None)
     | _ \<Rightarrow> None)"

lemma dec_enc_entry: "dec_entry (enc_entry e @ r) = Some (e, r)"
  by (cases e) (simp add: dec_entry_def enc_entry_def split: option.splits)

fun dec_entries :: "nat \<Rightarrow> bytes \<Rightarrow> Entry list option" where
  "dec_entries n bs =
     (if n = 0 then None else if bs = [] then Some []
      else case dec_entry bs of Some (e, r) \<Rightarrow> map_option (Cons e) (dec_entries (n - 1) r) | None \<Rightarrow> None)"

declare dec_entries.simps [simp del]

lemma dec_entries_concat: "length es < n \<Longrightarrow> dec_entries n (concat (map enc_entry es)) = Some es"
proof (induction es arbitrary: n)
  case (Cons e es)
  then obtain m where m: "n = Suc m" "length es < m" by (cases n) auto
  have "enc_entry e @ concat (map enc_entry es) \<noteq> []" by (cases "as_bytes (e_path e)") (simp_all add: enc_entry_def)
  then obtain b bs where b: "enc_entry e @ concat (map enc_entry es) = b # bs" by (cases "enc_entry e @ concat (map enc_entry es)") auto
  have "dec_entry (b # bs) = Some (e, concat (map enc_entry es))" unfolding b[symmetric] by (rule dec_enc_entry)
  then show ?case using Cons.IH[OF m(2)] by (subst dec_entries.simps) (simp add: m(1) b)
qed (simp add: dec_entries.simps)

definition journal_std :: journal_json where
  "journal_std = \<lparr>
     journal_write = \<lambda>j. Inr (sd (as_bytes (show_word (j_version j))) @ (if j_publishing j then 1 else 0) # (if j_committed j then 1 else 0) #
       concat (map enc_entry (j_entries j))),
     journal_read = \<lambda>bs. (case unsd bs of
       Some (v, p # c # r) \<Rightarrow>
         (case (parse_uint (2 ^ 32 - 1) (of_bytes v), dec_entries (Suc (length r)) r) of
            (Some n, Some es) \<Rightarrow> Inr \<lparr>j_version = word_of_nat n, j_publishing = p = 1, j_committed = c = 1, j_entries = es\<rparr>
          | _ \<Rightarrow> Inl ''bad journal'')
     | _ \<Rightarrow> Inl ''bad journal'')\<rparr>"

lemma journal_std_ok: "journal_ok journal_std"
proof -
  have len: "length es \<le> length (concat (map enc_entry es))" for es
    by (induction es) (auto simp: enc_entry_def)
  have "unat v \<le> 2 ^ 32 - 1" for v :: u32
  proof -
    have "unat v < 2 ^ LENGTH(32)" by (rule unsigned_less)
    then show ?thesis by simp
  qed
  then have "journal_read journal_std (sd (as_bytes (show_word (j_version j))) @ (if j_publishing j then 1 else 0) # (if j_committed j then 1 else 0) #
       concat (map enc_entry (j_entries j))) = Inr j" for j
    using dec_entries_concat[of "j_entries j"] len[of "j_entries j"] by (cases j) (auto simp: journal_std_def)
  then show ?thesis by (simp add: journal_ok_def journal_std_def)
qed

definition tree_example :: fs where
  "tree_example = Map.empty([Normal ''t''] \<mapsto> Dir, [Normal ''t'', Normal ''a''] \<mapsto> File [1], [Normal ''t'', Normal ''b''] \<mapsto> File [2])"

definition restore_example :: "DecryptedFile list" where
  "restore_example = [\<lparr>df_relative_path = ''a'', df_plaintext = [7]\<rparr>, \<lparr>df_relative_path = ''d/c'', df_plaintext = [8, 9]\<rparr>]"

definition world_at :: "fs \<Rightarrow> fault list \<Rightarrow> world" where
  "world_at s faults = \<lparr>w_fs = s, w_faults = faults, w_random = []\<rparr>"

lemma example_paths:
  "path_components ''t'' = [Normal ''t'']" "dest ''t'' ''a'' = [Normal ''t'', Normal ''a'']"
  "dest ''t'' ''d/c'' = [Normal ''t'', Normal ''d'', Normal ''c'']" "lock_at ''t'' = [Normal ''t'', Normal LOCK]"
  "stage_at ''t'' = [Normal ''t'', Normal STAGE]"
  by (simp_all add: dest_def at_forms) code_simp+

lemma ready_example: "ready ''t'' tree_example"
proof -
  have "prefix q [Normal ''t''] \<longleftrightarrow> q = [] \<or> q = [Normal ''t'']" for q by (cases q) (auto simp: prefix_Cons)
  moreover have "tree_example q = None" if "prefix [Normal ''t'', Normal STAGE] q" for q
    using that by (cases q) (auto simp: tree_example_def STAGE_def)
  ultimately show ?thesis
    by (auto simp: ready_def base_ok_def example_paths tree_example_def LOCK_def STAGE_def)
qed

lemma journals_fit_std:
  assumes "length (entries_of crypto_std X) \<le> 2" "\<forall>e\<in>set (entries_of crypto_std X). length (e_path e) \<le> 100"
  shows "journals_fit journal_std crypto_std X"
  unfolding journals_fit_def
proof
  fix c
  let ?es = "entries_of crypto_std X"
  obtain bs where bs: "journal_write journal_std (journal_of crypto_std X c) = Inr bs" "journal_read journal_std bs = Inr (journal_of crypto_std X c)"
    using journal_std_ok unfolding journal_ok_def by blast
  have e: "length (enc_entry e) \<le> 400" if "e \<in> set ?es" for e
  proof -
    have "length (e_new_digest e) = 32" "\<forall>d. e_previous_digest e = Some d \<longrightarrow> length d = 32"
      using that by (auto simp: entries_of_def entry_of_def compute_digest_def crypto_std_def sum_tag_def split: option.splits node.splits)
    then show ?thesis using that assms(2) by (cases "e_previous_digest e") (auto simp: enc_entry_def)
  qed
  have "length (concat (map enc_entry es)) \<le> 400 * length es" if "set es \<subseteq> set ?es" for es
    using that by (induction es) (use e in fastforce)+
  then have "length (concat (map enc_entry ?es)) \<le> 800" using assms(1) by fastforce
  moreover have "bs = sd (as_bytes (show_nat 1)) @ 1 # (if c then 1 else 0) # concat (map enc_entry ?es)"
    using bs(1) by (simp add: journal_std_def journal_of_def)
  moreover have "length (show_nat 1) = 1" by (simp add: show_nat.simps)
  ultimately have "length bs \<le> 16 * 1024 * 1024" by simp
  then show "\<exists>bs. journal_write journal_std (journal_of crypto_std X c) = Inr bs \<and> journal_read journal_std bs = Inr (journal_of crypto_std X c) \<and>
      length bs \<le> 16 * 1024 * 1024" using bs by blast
qed

lemma fit_example: "journals_fit journal_std crypto_std \<lparr>p_target = ''t'', p_files = restore_example, p_base = s\<rparr>"
  by (rule journals_fit_std) (auto simp: entries_of_def restore_example_def upt_rec entry_of_def)

lemma size_example: "\<forall>f\<in>set restore_example. length (df_plaintext f) \<le> unat MAX_FILE_SIZE"
  by (simp add: restore_example_def MAX_FILE_SIZE_def)


theorem restore_completes_witness:
  "\<exists>w'. publish_verified_files journal_std crypto_std ''t'' restore_example (world_at tree_example [Go, Go]) = (Done [''t/a'', ''t/d/c''], w') \<and>
    files_of ''t'' (w_fs w') [Normal ''t'', Normal ''a''] = Some [7] \<and>
    files_of ''t'' (w_fs w') [Normal ''t'', Normal ''d'', Normal ''c''] = Some [8, 9] \<and>
    files_of ''t'' (w_fs w') [Normal ''t'', Normal ''b''] = Some [2]"
proof -
  let ?w = "world_at tree_example [Go, Go]"
  have w: "w_fs ?w = tree_example" "\<forall>f\<in>set (w_faults ?w). no_fault f" by (simp_all add: world_at_def no_fault_def)
  have plan: "plan_destinations (locked ''t'' tree_example) ''t'' restore_example = Inr [''t/a'', ''t/d/c'']" by code_simp
  have small: "\<forall>f\<in>set restore_example. \<forall>b. tree_example (dest ''t'' (df_relative_path f)) = Some (File b) \<longrightarrow> length b \<le> unat MAX_FILE_SIZE"
    by (auto simp: restore_example_def example_paths tree_example_def MAX_FILE_SIZE_def)
  obtain w' where r: "publish_verified_files journal_std crypto_std ''t'' restore_example ?w = (Done [''t/a'', ''t/d/c''], w')"
    and f: "files_of ''t'' (w_fs w') = overwrite ''t'' restore_example (files_of ''t'' tree_example)"
    using restore_completes[of "''t''" ?w restore_example journal_std crypto_std] w ready_example fit_example size_example plan small by auto
  show ?thesis
    by (rule exI[of _ w'], unfold f, rule conjI, rule r) (simp add: overwrite_def restore_example_def example_paths files_of_def tree_example_def LOCK_def)
qed

definition stuck_plan :: plan where
  "stuck_plan = run_plan ''t'' [\<lparr>df_relative_path = ''a'', df_plaintext = [7]\<rparr>] tree_example"

definition stuck_tree :: fs where
  "stuck_tree = (locked ''t'' tree_example)(stage_at ''t'' \<mapsto> Dir,
     journal_at ''t'' \<mapsto> File (case journal_write journal_std (journal_of crypto_std stuck_plan False) of Inr bs \<Rightarrow> bs | _ \<Rightarrow> []),
     backup_at ''t'' 0 \<mapsto> File [1])"

lemma stuck_planned: "planned stuck_plan"
proof -
  have "plan_destinations (locked ''t'' tree_example) ''t'' [\<lparr>df_relative_path = ''a'', df_plaintext = [7]\<rparr>] = Inr [''t/a'']" by code_simp
  then show ?thesis unfolding stuck_plan_def by (rule run_planned(1)[OF ready_example]) (simp add: MAX_FILE_SIZE_def)
qed

lemma stuck_selectors:
  "p_target stuck_plan = ''t''" "p_files stuck_plan = [\<lparr>df_relative_path = ''a'', df_plaintext = [7]\<rparr>]" "p_base stuck_plan = locked ''t'' tree_example"
  "place stuck_plan 0 = [Normal ''t'', Normal ''a'']" "locked ''t'' tree_example [Normal ''t'', Normal ''a''] = Some (File [1])"
  "locked ''t'' tree_example [Normal ''t''] = Some Dir"
proof -
  show "p_target stuck_plan = ''t''" "p_files stuck_plan = [\<lparr>df_relative_path = ''a'', df_plaintext = [7]\<rparr>]" "p_base stuck_plan = locked ''t'' tree_example"
    "place stuck_plan 0 = [Normal ''t'', Normal ''a'']"
    by (simp_all add: stuck_plan_def run_plan_def place_def example_paths)
  show "locked ''t'' tree_example [Normal ''t'', Normal ''a''] = Some (File [1])" "locked ''t'' tree_example [Normal ''t''] = Some Dir"
    by code_simp+
qed

lemma stuck_unfinished: "unfinished journal_std crypto_std stuck_plan 0 stuck_tree"
proof -
  note s = stuck_selectors and p = stuck_planned
  have "around stuck_plan (locked ''t'' tree_example)" unfolding s(3)[symmetric] by (simp add: around_def)
  then have ar: "around stuck_plan stuck_tree"
    unfolding stuck_tree_def using around_below(1)[OF p, unfolded s(1)] by simp
  have "journals_fit journal_std crypto_std stuck_plan"
    by (rule journals_fit_std) (auto simp: entries_of_def s entry_of_def)
  then have j: "journal_is journal_std crypto_std stuck_plan False stuck_tree"
    by (auto simp: journals_fit_def journal_is_def stuck_tree_def s dest!: spec[of _ False])
  have below: "locked ''t'' tree_example q = None" if "prefix (stage_at ''t'') q" for q
    using ready_locked[OF ready_example] that by (simp add: ready_def)
  have pl: "stuck_tree [Normal ''t'', Normal ''a''] = Some (File [1])" "stuck_tree [Normal ''t''] = Some Dir"
    by (simp_all add: stuck_tree_def s at_forms(3-) example_paths STAGE_def)
  have "dirs stuck_tree [Normal ''t'', Normal ''a'']"
    using pl(2) by (auto simp: dirs_def strict_prefix_def prefix_Cons)
  then show ?thesis
    using ar j below pl
    by (auto simp: unfinished_def s old_at_def parents_def small_old_def MAX_FILE_SIZE_def less_Suc_eq) (simp_all add: stuck_tree_def s below)
qed

theorem interrupted_cleanup_blocks_witness:
  "\<exists>w'. recover_interrupted_restore journal_std crypto_std ''t''
       \<lparr>w_fs = removed (stage_at ''t'') (\<lambda>q. if q = backup_at ''t'' 0 then 1 else 0) stuck_tree, w_faults = [], w_random = [5]\<rparr> =
     (Err (InvalidInput ''Restore backup missing; journal retained''), w')"
proof -
  let ?n = "\<lambda>q. if q = backup_at ''t'' 0 then 1 else 0 :: nat"
  have "count stuck_plan = Suc 0" "p_base stuck_plan (place stuck_plan 0) = Some (File [1])"
      "?n (journal_at (p_target stuck_plan)) = 0" "?n (backup_at (p_target stuck_plan) 0) > 0"
    by (simp_all add: stuck_selectors)
  from interrupted_cleanup_blocks[OF stuck_planned stuck_unfinished this, of "[]" "[5]"]
  show ?thesis unfolding stuck_selectors(1) by blast
qed

end
