(* ===== verification/Operator_Base.thy ===== *)
theory Operator_Base
  imports Crates Rust_Std Storage_Base File_System Schema
begin

text \<open>
  The constants and the configuration of the operator service
  (\<open>services/operator/src/state.rs\<close>, lines 29 to 289): limits that the environment may
  override, permissions, the security policy and the normal form of an identity binding.
  The value of an environment variable is an argument, \<open>None\<close> when it is unset; \<open>usize\<close>
  has 64 bits. The last part adds to the file system the calls that the operator makes on
  an open log file.
\<close>

subsection \<open>Limits\<close>

definition MAX_OBJECT_SIZE :: nat where "MAX_OBJECT_SIZE = 4 * 1024 * 1024"
definition MAX_RECOVERY_RECORD_SIZE :: nat where "MAX_RECOVERY_RECORD_SIZE = 64 * 1024"
definition MAX_ACTIVE_CHALLENGES :: nat where "MAX_ACTIVE_CHALLENGES = 5000"
definition MAX_ACTIVE_SESSIONS :: nat where "MAX_ACTIVE_SESSIONS = 5000"
definition MAX_RECORDS_PER_LOCATOR :: nat where "MAX_RECORDS_PER_LOCATOR = 10000"
definition MAX_RECOVERY_RESPONSE_BYTES :: nat where "MAX_RECOVERY_RESPONSE_BYTES = 16 * 1024 * 1024"
definition MAX_RECOVERY_LOG_BYTES :: nat where "MAX_RECOVERY_LOG_BYTES = 64 * 1024 * 1024"
definition RECOVERY_PAGE_BYTES :: nat where "RECOVERY_PAGE_BYTES = 1024 * 1024"
definition MAX_RELAYED_CHECKPOINTS :: nat where "MAX_RELAYED_CHECKPOINTS = 5000"
definition MAX_ACTIVE_PEERS :: nat where "MAX_ACTIVE_PEERS = 128"
definition MAX_PEER_ANNOUNCE_AGE_SECS :: u64 where "MAX_PEER_ANNOUNCE_AGE_SECS = 86400"
definition MAX_PEER_ANNOUNCE_SKEW_SECS :: u64 where "MAX_PEER_ANNOUNCE_SKEW_SECS = 3600"
definition IO_STRIPE_COUNT :: nat where "IO_STRIPE_COUNT = 64"
definition DEFAULT_PROBATION_SECS :: u64 where "DEFAULT_PROBATION_SECS = 86400"
definition DEFAULT_JOIN_LIVENESS_GRACE_SECS :: u64 where "DEFAULT_JOIN_LIVENESS_GRACE_SECS = 7200"

definition USIZE_MAX :: nat where "USIZE_MAX = 2 ^ 64 - 1"

text \<open>\<open>strip_suffix\<close> of one character out of a list.\<close>

definition strip_last :: "char list \<Rightarrow> string \<Rightarrow> string option" where
  "strip_last cs s = (if s \<noteq> [] \<and> last s \<in> set cs then Some (butlast s) else None)"

definition parse_byte_size :: "string \<Rightarrow> nat option" where
  "parse_byte_size value =
     (let text = trim value;
          text = (case strip_last ''Bb'' text of Some t \<Rightarrow> t | None \<Rightarrow> text);
          (digits, multiplier) =
            (case strip_last ''Mm'' text of
               Some number \<Rightarrow> (number, 1024 * 1024)
             | None \<Rightarrow> (case strip_last ''Kk'' text of Some number \<Rightarrow> (number, 1024) | None \<Rightarrow> (text, 1)))
      in case parse_uint USIZE_MAX (trim digits) of
           None \<Rightarrow> None
         | Some number \<Rightarrow> if number * multiplier \<le> USIZE_MAX then Some (number * multiplier) else None)"

definition operator_limit_from_env :: "string option \<Rightarrow> nat \<Rightarrow> nat \<Rightarrow> nat" where
  "operator_limit_from_env var fallback floor =
     (case var of
        None \<Rightarrow> fallback
      | Some value \<Rightarrow>
          if trim value = [] then fallback
          else (case parse_byte_size (trim value) of
                  Some bytes \<Rightarrow> if floor \<le> bytes then bytes else fallback
                | None \<Rightarrow> fallback))"

definition max_object_size :: "string option \<Rightarrow> nat" where
  "max_object_size var = operator_limit_from_env var MAX_OBJECT_SIZE (512 * 1024)"

definition max_recovery_record_size :: "string option \<Rightarrow> nat" where
  "max_recovery_record_size var = operator_limit_from_env var MAX_RECOVERY_RECORD_SIZE (4 * 1024)"

definition operator_secs_from_env :: "string option \<Rightarrow> u64 \<Rightarrow> u64 \<Rightarrow> u64" where
  "operator_secs_from_env var fallback floor =
     (case var of
        None \<Rightarrow> fallback
      | Some value \<Rightarrow>
          if trim value = [] then fallback
          else (case parse_uint (2 ^ 64 - 1) (trim value) of
                  Some secs \<Rightarrow> if floor \<le> word_of_nat secs then word_of_nat secs else fallback
                | None \<Rightarrow> fallback))"

definition min_probation_secs :: "string option \<Rightarrow> u64" where
  "min_probation_secs var = operator_secs_from_env var DEFAULT_PROBATION_SECS 60"

definition join_liveness_grace_secs :: "string option \<Rightarrow> u64" where
  "join_liveness_grace_secs var = operator_secs_from_env var DEFAULT_JOIN_LIVENESS_GRACE_SECS 60"

definition max_recovery_response_bytes :: "string option \<Rightarrow> nat" where
  "max_recovery_response_bytes var = operator_limit_from_env var MAX_RECOVERY_RESPONSE_BYTES (1024 * 1024)"

text \<open>No setting of the environment lowers a limit below its floor.\<close>

lemma operator_limit_floor: "floor \<le> fallback \<Longrightarrow> floor \<le> operator_limit_from_env var fallback floor"
  by (auto simp: operator_limit_from_env_def split: option.splits)

lemma operator_secs_floor: "floor \<le> fallback \<Longrightarrow> floor \<le> operator_secs_from_env var fallback floor"
  by (auto simp: operator_secs_from_env_def split: option.splits)

lemma limit_floors:
  "512 * 1024 \<le> max_object_size v" "4 * 1024 \<le> max_recovery_record_size v"
  "1024 * 1024 \<le> max_recovery_response_bytes v" "60 \<le> min_probation_secs v" "60 \<le> join_liveness_grace_secs v"
  unfolding max_object_size_def max_recovery_record_size_def max_recovery_response_bytes_def
    min_probation_secs_def join_liveness_grace_secs_def
  by (rule operator_limit_floor operator_secs_floor;
      simp add: MAX_OBJECT_SIZE_def MAX_RECOVERY_RECORD_SIZE_def MAX_RECOVERY_RESPONSE_BYTES_def
        DEFAULT_PROBATION_SECS_def DEFAULT_JOIN_LIVENESS_GRACE_SECS_def)+

subsection \<open>Permissions and the security policy\<close>

definition PERMISSION_READ :: u32 where "PERMISSION_READ = 1"
definition PERMISSION_WRITE :: u32 where "PERMISSION_WRITE = 2"
definition PERMISSION_FLEET_ADMIN :: u32 where "PERMISSION_FLEET_ADMIN = push_bit 16 1"
definition PERMISSION_VAULT_DEFAULT :: u32 where "PERMISSION_VAULT_DEFAULT = PERMISSION_READ OR PERMISSION_WRITE"

record OperatorSecurityConfig =
  os_strict_auth :: bool
  os_require_enrollment :: bool

definition flag_enabled :: "string option \<Rightarrow> bool \<Rightarrow> bool" where
  "flag_enabled value fallback =
     (case value of None \<Rightarrow> fallback
      | Some v \<Rightarrow> to_ascii_lowercase (trim v) \<notin> {''0'', ''false'', ''no''})"

definition from_flags :: "string option \<Rightarrow> string option \<Rightarrow> OperatorSecurityConfig" where
  "from_flags strict enrollment =
     (let strict_auth = flag_enabled strict True
      in \<lparr>os_strict_auth = strict_auth, os_require_enrollment = strict_auth \<or> flag_enabled enrollment False\<rparr>)"

text \<open>Strict authentication is off only by an explicit denial, and it always asks for enrollment.\<close>

lemma from_flags_strict:
  "os_strict_auth (from_flags strict enrollment) \<Longrightarrow> os_require_enrollment (from_flags strict enrollment)"
  "os_strict_auth (from_flags None enrollment)"
  by (simp_all add: from_flags_def flag_enabled_def Let_def)

subsection \<open>Identity bindings\<close>

definition decodes_to :: "hex_crate \<Rightarrow> nat \<Rightarrow> string \<Rightarrow> bool" where
  "decodes_to h n s = (case hex_decode h s of Inr bytes \<Rightarrow> length bytes = n | Inl _ \<Rightarrow> False)"

definition valid_account_id :: "hex_crate \<Rightarrow> string \<Rightarrow> bool" where
  "valid_account_id h value =
     (let value = trim value
      in length value = 39 \<and> eq_ignore_ascii_case (take 7 value) ''cvacct_'' \<and> decodes_to h 16 (drop 7 value))"

definition valid_device_id :: "hex_crate \<Rightarrow> string \<Rightarrow> bool" where
  "valid_device_id h value = decodes_to h 32 (trim value)"

definition normal_text :: "string option \<Rightarrow> string option" where
  "normal_text v =
     (case v of None \<Rightarrow> None | Some s \<Rightarrow> if trim s = [] then None else Some (to_ascii_lowercase (trim s)))"

definition normalize_identity_binding ::
  "hex_crate \<Rightarrow> string option \<Rightarrow> string option \<Rightarrow> string + (string option \<times> string option)" where
  "normalize_identity_binding h account_id device_id_hex =
     (let account_id = normal_text account_id; device_id_hex = normal_text device_id_hex
      in if account_id \<noteq> None \<and> \<not> valid_account_id h (the account_id)
         then Inl ''account_id must use the cvacct_<32 hex characters> format''
         else if device_id_hex \<noteq> None \<and> \<not> valid_device_id h (the device_id_hex)
         then Inl ''device_id_hex must be 32-byte hex''
         else if (account_id = None) \<noteq> (device_id_hex = None)
         then Inl ''account_id and device_id_hex must be supplied together''
         else Inr (account_id, device_id_hex))"

subsection \<open>Calls on an open file\<close>

text \<open>Opening for reading and reading to the end; the directory of the operator has no symbolic links.\<close>

definition read_file_bytes :: "string \<Rightarrow> (io_error, bytes) io" where
  "read_file_bytes p = sys (\<lambda>s.
     case lookup s p of Some (File bs) \<Rightarrow> Inr (bs, s)
     | None \<Rightarrow> Inl (missing s p)
     | _ \<Rightarrow> Inl (OtherError ''Is a directory'')) (\<lambda>_ s. s)"

text \<open>\<open>write_all\<close> at the end of an open file; interrupted, it has written a prefix.\<close>

definition append_to :: "Component list \<Rightarrow> bytes \<Rightarrow> fs \<Rightarrow> fs" where
  "append_to p bs s = (case s p of Some (File old) \<Rightarrow> s(p \<mapsto> File (old @ bs)) | _ \<Rightarrow> s)"

definition write_end :: "string \<Rightarrow> bytes \<Rightarrow> (io_error, unit) io" where
  "write_end p bs = sys (\<lambda>s. Inr ((), append_to (path_components p) bs s))
     (\<lambda>n. append_to (path_components p) (take (n (path_components p)) bs))"

text \<open>\<open>set_len\<close> cuts or pads with zeros; interrupted, it has happened or not.\<close>

definition resize_to :: "Component list \<Rightarrow> nat \<Rightarrow> fs \<Rightarrow> fs" where
  "resize_to p n s =
     (case s p of Some (File old) \<Rightarrow> s(p \<mapsto> File (take n old @ replicate (n - length old) 0)) | _ \<Rightarrow> s)"

definition set_len :: "string \<Rightarrow> nat \<Rightarrow> (io_error, unit) io" where
  "set_len p n = sys (\<lambda>s. Inr ((), resize_to (path_components p) n s))
     (\<lambda>m s. if m (path_components p) > 0 then resize_to (path_components p) n s else s)"

definition sync_all :: "(io_error, unit) io" where
  "sync_all = no_effect"

definition file_len :: "string \<Rightarrow> fs \<Rightarrow> nat" where
  "file_len p s = (case lookup s p of Some (File bs) \<Rightarrow> length bs | _ \<Rightarrow> 0)"

text \<open>
  Failures from outside are not reported as a missing file: \<open>NotFound\<close> comes only from the
  state of the file system. The rule of a system call under such faults.
\<close>

definition genuine :: "fault \<Rightarrow> bool" where
  "genuine f = (case f of Fail (NotFound _) _ \<Rightarrow> False | _ \<Rightarrow> True)"

lemma genuine_Fail: "genuine (Fail e n) \<longleftrightarrow> (\<exists>m. e = OtherError m)"
  by (cases e) (simp_all add: genuine_def)

lemma chl_sys_faulty:
  assumes "\<And>s n. P s \<Longrightarrow> C (part n s)" "\<And>s e n. P s \<Longrightarrow> F (Fail e n) \<Longrightarrow> E e (part n s)"
    and "\<And>s a s'. P s \<Longrightarrow> f s = Inr (a, s') \<Longrightarrow> Q a s'" "\<And>s e. P s \<Longrightarrow> f s = Inl e \<Longrightarrow> E e s"
  shows "chl F P (sys f part) Q E C"
proof (rule chlI)
  fix w r w'
  assume P: "P (w_fs w)" and F: "\<forall>f\<in>set (w_faults w). F f" and r: "sys f part w = (r, w')"
  show "(\<forall>f\<in>set (w_faults w'). F f) \<and>
      (case r of Done a \<Rightarrow> Q a (w_fs w') | Err e \<Rightarrow> E e (w_fs w') | Crashed \<Rightarrow> C (w_fs w'))"
    using r F P assms by (cases "f (w_fs w)")
      (auto simp: sys_def split: list.splits fault.splits)
qed

end
