(* ===== verification/Recovery_Log.thy ===== *)
theory Recovery_Log
  imports Operator_Base
begin

text \<open>
  The recovery log of the operator (\<open>services/operator/src/state.rs\<close>, lines 2117 to 2508):
  one append-only file per locator with a length-prefixed frame for every record. An
  append scans the log for the registered recovery key and the certified devices, checks
  the new record and the caller against them, cuts off the incomplete frame of an
  interrupted append, and writes a frame. System calls may fail and the process may be
  killed at any of them. The locator lock makes the operations on one log sequential.
\<close>

subsection \<open>Frames\<close>

definition to_be_bytes :: "u32 \<Rightarrow> bytes" where
  "to_be_bytes w = rev (le32 w)"

definition from_be_bytes :: "bytes \<Rightarrow> u32" where
  "from_be_bytes bs = word_of_nat (foldl (\<lambda>a b. 256 * a + unat b) 0 bs)"

definition frame :: "bytes \<Rightarrow> bytes" where
  "frame record = to_be_bytes (word_of_nat (length record)) @ record"

text \<open>\<open>read_exact\<close> on the rest of a file; \<open>None\<close> is \<open>UnexpectedEof\<close>.\<close>

definition read_exact :: "nat \<Rightarrow> bytes \<Rightarrow> (bytes \<times> bytes) option" where
  "read_exact n bs = (if n \<le> length bs then Some (take n bs, drop n bs) else None)"

subsection \<open>Scanning\<close>

text \<open>The closure \<open>visit\<close> of the source updates the state \<open>st\<close>.\<close>

function scan_loop :: "nat \<Rightarrow> (bytes \<Rightarrow> 's \<Rightarrow> 's) \<Rightarrow> bytes \<Rightarrow> nat \<Rightarrow> nat \<Rightarrow> 's \<Rightarrow> string + (nat \<times> nat) \<times> 's" where
  "scan_loop limit visit reader count offset st =
     (case read_exact 4 reader of
        None \<Rightarrow> Inr ((count, offset), st)
      | Some (len_bytes, rest) \<Rightarrow>
          let len = unat (from_be_bytes len_bytes)
          in if len = 0 \<or> limit < len then Inl ''Invalid recovery record length''
             else (case read_exact len rest of
                    None \<Rightarrow> Inr ((count, offset), st)
                  | Some (record, rest') \<Rightarrow>
                      if MAX_RECORDS_PER_LOCATOR < count + 1 then Inl ''Recovery log exceeds record limit''
                      else scan_loop limit visit rest' (count + 1) (offset + 4 + len) (visit record st)))"
  by pat_completeness auto
termination
  by (relation "measure (\<lambda>(_, _, reader, _). length reader)") (auto simp: read_exact_def split: if_splits)

declare scan_loop.simps [simp del]

definition log_path :: "string \<Rightarrow> string \<Rightarrow> string" where
  "log_path data_dir locator_hex = path_join (path_join data_dir ''recovery'') (locator_hex @ ''.log'')"

definition scan_recovery_log ::
  "nat \<Rightarrow> string \<Rightarrow> (bytes \<Rightarrow> 's \<Rightarrow> 's) \<Rightarrow> 's \<Rightarrow> (string, (nat \<times> nat) \<times> 's) io" where
  "scan_recovery_log limit path visit st =
     io_catch (read_file_bytes path)
       (\<lambda>e. case e of NotFound _ \<Rightarrow> io_return ((0, 0), st) | _ \<Rightarrow> io_fail (show_io_error e))
       (\<lambda>file. if MAX_RECOVERY_LOG_BYTES < length file then io_fail ''Recovery log exceeds byte limit''
               else io_lift (scan_loop limit visit file 0 0 st))"

subsection \<open>Authorization\<close>

text \<open>The registered recovery key and the certified device keys, after one more record.\<close>

type_synonym authority = "bytes option \<times> bytes list"

definition registered_key :: "crypto_crate \<Rightarrow> schema_codecs \<Rightarrow> bytes \<Rightarrow> bytes option" where
  "registered_key cr k r =
     (case from_canonical_cbor (k_genesis k) r of
        Inr genesis \<Rightarrow>
          if is_ok (genesis_verify cr (k_genesis k) genesis) \<and> length (gr_recovery_signing_pk genesis) = 32
          then Some (gr_recovery_signing_pk genesis) else None
      | Inl _ \<Rightarrow> None)"

definition certified_key :: "crypto_crate \<Rightarrow> schema_codecs \<Rightarrow> bytes \<Rightarrow> bytes \<Rightarrow> bytes option" where
  "certified_key cr k r_pk r =
     (case from_canonical_cbor (k_cert k) r of
        Inr cert \<Rightarrow>
          if is_ok (cert_verify cr (k_cert k) r_pk cert) \<and> length (dc_device_signing_pk cert) = 32
          then Some (dc_device_signing_pk cert) else None
      | Inl _ \<Rightarrow> None)"

definition note_authority :: "crypto_crate \<Rightarrow> schema_codecs \<Rightarrow> bytes \<Rightarrow> authority \<Rightarrow> authority" where
  "note_authority cr k r a =
     (let registered = (case registered_key cr k r of Some pk \<Rightarrow> Some pk | None \<Rightarrow> fst a);
          devices =
            (case registered of
               None \<Rightarrow> snd a
             | Some r_pk \<Rightarrow>
                 (case certified_key cr k r_pk r of
                    None \<Rightarrow> snd a
                  | Some pk \<Rightarrow> if pk \<in> set (snd a) then snd a else snd a @ [pk]))
      in (registered, devices))"

text \<open>A signature of a certified device or of the recovery key.\<close>

definition signed_by_authority :: "(bytes \<Rightarrow> FormatError + unit) \<Rightarrow> authority \<Rightarrow> bool" where
  "signed_by_authority verify a =
     (list_ex (\<lambda>d_pk. is_ok (verify d_pk)) (snd a) \<or>
      (case fst a of Some r_pk \<Rightarrow> is_ok (verify r_pk) | None \<Rightarrow> False))"

definition genesis_authorized :: "crypto_crate \<Rightarrow> schema_codecs \<Rightarrow> authority \<Rightarrow> bytes \<Rightarrow> bool" where
  "genesis_authorized cr k a record =
     (case from_canonical_cbor (k_genesis k) record of
        Inl _ \<Rightarrow> False
      | Inr genesis \<Rightarrow>
          gr_version genesis = PROTOCOL_VERSION \<and> is_ok (genesis_verify cr (k_genesis k) genesis) \<and>
          length (gr_recovery_signing_pk genesis) = 32 \<and>
          (case fst a of Some existing \<Rightarrow> existing = gr_recovery_signing_pk genesis | None \<Rightarrow> True))"

definition cert_authorized :: "crypto_crate \<Rightarrow> schema_codecs \<Rightarrow> authority \<Rightarrow> bytes \<Rightarrow> bool" where
  "cert_authorized cr k a record =
     (case from_canonical_cbor (k_cert k) record of
        Inl _ \<Rightarrow> False
      | Inr cert \<Rightarrow>
          dc_version cert = PROTOCOL_VERSION \<and> length (dc_device_signing_pk cert) = 32 \<and>
          (case fst a of Some r_pk \<Rightarrow> is_ok (cert_verify cr (k_cert k) r_pk cert) | None \<Rightarrow> False))"

definition head_authorized :: "crypto_crate \<Rightarrow> schema_codecs \<Rightarrow> authority \<Rightarrow> bytes \<Rightarrow> bool" where
  "head_authorized cr k a record =
     (case from_canonical_cbor (k_head k) record of
        Inl _ \<Rightarrow> False
      | Inr head \<Rightarrow>
          hr_version head = PROTOCOL_VERSION \<and> length (hr_snapshot_id head) = 32 \<and>
          signed_by_authority (\<lambda>pk. head_verify cr (k_head k) pk head) a)"

definition envelope_authorized :: "crypto_crate \<Rightarrow> schema_codecs \<Rightarrow> authority \<Rightarrow> bytes \<Rightarrow> bool" where
  "envelope_authorized cr k a record =
     (case from_canonical_cbor (k_envelope k) record of
        Inl _ \<Rightarrow> False
      | Inr envelope \<Rightarrow>
          ee_version envelope = PROTOCOL_VERSION \<and> length (ee_recipient_fingerprint envelope) = 32 \<and>
          signed_by_authority (\<lambda>pk. envelope_verify cr (k_envelope k) pk envelope) a)"

definition snapshot_authorized :: "crypto_crate \<Rightarrow> schema_codecs \<Rightarrow> authority \<Rightarrow> bytes \<Rightarrow> bool" where
  "snapshot_authorized cr k a record =
     (case from_canonical_cbor (k_snapshot k) record of
        Inl _ \<Rightarrow> False
      | Inr snap \<Rightarrow>
          sr_version snap = PROTOCOL_VERSION \<and>
          signed_by_authority (\<lambda>pk. snapshot_verify cr (k_snapshot k) pk snap) a)"

definition is_authorized :: "crypto_crate \<Rightarrow> schema_codecs \<Rightarrow> authority \<Rightarrow> bytes \<Rightarrow> bool" where
  "is_authorized cr k a record =
     (genesis_authorized cr k a record \<or> cert_authorized cr k a record \<or> head_authorized cr k a record \<or>
      envelope_authorized cr k a record \<or> snapshot_authorized cr k a record)"

definition is_trusted_caller :: "crypto_crate \<Rightarrow> schema_codecs \<Rightarrow> authority \<Rightarrow> bytes \<Rightarrow> bytes option \<Rightarrow> bool" where
  "is_trusted_caller cr k a record caller_pk =
     (case (caller_pk, fst a) of
        (Some c_pk, Some r_pk) \<Rightarrow>
          c_pk = r_pk \<or> c_pk \<in> set (snd a) \<or> certified_key cr k r_pk record = Some c_pk
      | _ \<Rightarrow> True)"

subsection \<open>Appending\<close>

text \<open>A call whose result is ignored.\<close>

definition io_ignore :: "('e, 'a) io \<Rightarrow> ('f, 'b) io \<Rightarrow> ('f, 'b) io" where
  "io_ignore m n = io_catch m (\<lambda>_. n) (\<lambda>_. n)"

definition write_frame :: "string \<Rightarrow> bytes \<Rightarrow> (io_error, unit) io" where
  "write_frame path record =
     io_then (write_end path (to_be_bytes (word_of_nat (length record))))
       (io_then (write_end path record) sync_all)"

definition commit_record :: "string \<Rightarrow> nat \<Rightarrow> bytes \<Rightarrow> (string, unit) io" where
  "commit_record path committed_offset record =
     io_then (io_map_err show_io_error (open_create path)) (io_fs (\<lambda>s.
     io_then
       (if file_len path s \<noteq> committed_offset
        then io_map_err show_io_error (io_then (set_len path committed_offset) sync_all)
        else io_return ())
       (io_fs (\<lambda>s'.
          let original_len = file_len path s'
          in io_catch (write_frame path record)
               (\<lambda>e. io_ignore (set_len path original_len) (io_ignore sync_all (io_fail (show_io_error e))))
               io_return))))"

definition append_authorized_recovery_record_inner ::
  "hex_crate \<Rightarrow> crypto_crate \<Rightarrow> schema_codecs \<Rightarrow> string option \<Rightarrow> string \<Rightarrow> string \<Rightarrow> bytes \<Rightarrow> bytes option \<Rightarrow>
   (string, u64) io" where
  "append_authorized_recovery_record_inner h cr k var data_dir locator_hex record caller_pk =
     (let limit = max_recovery_record_size var; path = log_path data_dir locator_hex
      in if length locator_hex \<noteq> 64 \<or> \<not> is_ok (hex_decode h locator_hex)
         then io_fail ''Invalid recovery locator (must be 64 hex characters)''
         else if limit < length record
         then io_fail (''Record exceeds maximum size limit of '' @ show_nat limit @ '' bytes'')
         else io_bind (scan_recovery_log limit path (note_authority cr k) (None, [])) (\<lambda>((record_count, committed_offset), a).
           if MAX_RECORDS_PER_LOCATOR \<le> record_count \<or>
              MAX_RECOVERY_LOG_BYTES < min (committed_offset + (4 + length record)) (2 ^ 64 - 1)
           then io_fail ''Locator recovery log capacity exceeded''
           else if \<not> is_authorized cr k a record
           then io_fail ''Record failed cryptographic authorization against registered vault recovery key or authorized device certificate''
           else if \<not> is_trusted_caller cr k a record caller_pk
           then io_fail ''Caller session key is not authorized for this vault locator''
           else io_then (commit_record path committed_offset record) (io_return (word_of_nat record_count + 1))))"

subsection \<open>Reading\<close>

definition get_recovery_records_inner ::
  "hex_crate \<Rightarrow> string option \<Rightarrow> string \<Rightarrow> string \<Rightarrow> (string, bytes list) io" where
  "get_recovery_records_inner h var data_dir locator_hex =
     (if length locator_hex \<noteq> 64 \<or> \<not> is_ok (hex_decode h locator_hex) then io_return []
      else io_catch
        (scan_recovery_log (max_recovery_record_size var) (log_path data_dir locator_hex) (\<lambda>r out. out @ [r]) [])
        (\<lambda>_. io_return []) (\<lambda>(_, out). io_return out))"

record RecoveryPage =
  rp_records :: "bytes list"
  rp_next_cursor :: "u64 option"

function page_loop :: "nat \<Rightarrow> bytes \<Rightarrow> nat \<Rightarrow> nat \<Rightarrow> bytes list \<Rightarrow> string + bytes list \<times> nat" where
  "page_loop limit file offset nbytes records =
     (if offset < length file then
       (case read_exact 4 (drop offset file) of
          None \<Rightarrow> Inl ''Incomplete recovery log tail; repair required''
        | Some (len_bytes, rest) \<Rightarrow>
            let len = unat (from_be_bytes len_bytes)
            in if len = 0 \<or> limit < len \<or> length file < offset + 4 + len
               then Inl ''Invalid or incomplete recovery record''
               else if RECOVERY_PAGE_BYTES < nbytes + len \<and> records \<noteq> [] then Inr (records, offset)
               else page_loop limit file (offset + 4 + len) (nbytes + len) (records @ [take len rest]))
      else Inr (records, offset))"
  by pat_completeness auto
termination
  by (relation "measure (\<lambda>(_, file, offset, _). length file - offset)") auto

declare page_loop.simps [simp del]

definition get_recovery_page ::
  "hex_crate \<Rightarrow> string option \<Rightarrow> string \<Rightarrow> string \<Rightarrow> u64 \<Rightarrow> (string, RecoveryPage) io" where
  "get_recovery_page h var data_dir locator_hex cursor =
     (if \<not> decodes_to h 32 locator_hex then io_fail ''Invalid recovery locator''
      else io_catch (read_file_bytes (log_path data_dir locator_hex))
        (\<lambda>e. case e of
               NotFound _ \<Rightarrow>
                 if cursor = 0 then io_return \<lparr>rp_records = [], rp_next_cursor = None\<rparr>
                 else io_fail (show_io_error e)
             | _ \<Rightarrow> io_fail (show_io_error e))
        (\<lambda>file.
           if MAX_RECOVERY_LOG_BYTES < length file \<or> length file < unat cursor
           then io_fail ''Invalid recovery cursor or oversized log''
           else io_lift (rbind (page_loop (max_recovery_record_size var) file (unat cursor) 0 []) (\<lambda>(records, offset).
             Inr \<lparr>rp_records = records,
                  rp_next_cursor = (if offset < length file then Some (word_of_nat offset) else None)\<rparr>))))"

subsection \<open>Frames are read back\<close>

lemma foldl_le_bytes:
  fixes w :: "'a::len word"
  shows "foldl (\<lambda>a b. 256 * a + unat b) x (rev (le_bytes k w)) = x * 256 ^ k + unat w mod 256 ^ k"
proof (induction k arbitrary: x)
  case 0
  then show ?case by (simp add: le_bytes_def)
next
  case (Suc k)
  have "unat (drop_bit (8 * k) w) = drop_bit (8 * k) (unat w)" by (rule unat_drop_bit_eq)
  also have "\<dots> = unat w div 256 ^ k" by (simp add: drop_bit_eq_div power_mult)
  finally have "unat (ucast (drop_bit (8 * k) w) :: byte) = unat w div 256 ^ k mod 256"
    by (simp only: unsigned_ucast_eq take_bit_eq_mod) simp
  then have "foldl (\<lambda>a b. 256 * a + unat b) x (rev (le_bytes (Suc k) w)) =
      (256 * x + unat w div 256 ^ k mod 256) * 256 ^ k + unat w mod 256 ^ k"
    using Suc by (simp add: le_bytes_def)
  also have "\<dots> = x * 256 ^ Suc k + unat w mod (256 ^ k * 256)"
    by (simp only: mod_mult2_eq) (simp add: algebra_simps)
  finally show ?case by (simp add: mult.commute)
qed

lemma from_to_be_bytes [simp]: "from_be_bytes (to_be_bytes w) = w"
proof -
  have "unat w < 256 ^ 4" using unsigned_less[of w] by simp
  then show ?thesis by (simp add: from_be_bytes_def to_be_bytes_def foldl_le_bytes)
qed

lemma length_to_be_bytes [simp]: "length (to_be_bytes w) = 4"
  by (simp add: to_be_bytes_def)

lemma length_frame [simp]: "length (frame r) = 4 + length r"
  by (simp add: frame_def)

text \<open>The log that holds the records \<open>rs\<close>, and what an interrupted append may leave after it.\<close>

definition log_of :: "bytes list \<Rightarrow> bytes" where
  "log_of rs = concat (map frame rs)"

definition valid_record :: "nat \<Rightarrow> bytes \<Rightarrow> bool" where
  "valid_record limit r \<longleftrightarrow> 0 < length r \<and> length r \<le> limit \<and> length r < 2 ^ 32"

definition torn :: "nat \<Rightarrow> bytes \<Rightarrow> bool" where
  "torn limit t \<longleftrightarrow> t = [] \<or> (\<exists>r n. valid_record limit r \<and> t = take n (frame r) \<and> n < 4 + length r)"

lemma log_of_simps [simp]: "log_of [] = []" "log_of (r # rs) = frame r @ log_of rs" "log_of (rs @ rs') = log_of rs @ log_of rs'"
  by (simp_all add: log_of_def)

lemma torn_Nil [simp]: "torn limit []"
  by (simp add: torn_def)

lemma read_frame:
  assumes "valid_record limit r"
  shows "read_exact 4 (frame r @ rest) = Some (to_be_bytes (word_of_nat (length r)), r @ rest)"
    and "unat (word_of_nat (length r) :: u32) = length r"
    and "read_exact (length r) (r @ rest) = Some (r, rest)"
  using assms by (simp_all add: read_exact_def frame_def valid_record_def unat_of_nat)

lemma read_torn:
  assumes "torn limit t" "read_exact 4 t = Some (len_bytes, rest)"
  obtains r where "valid_record limit r" "len_bytes = to_be_bytes (word_of_nat (length r))" "length rest < length r"
proof -
  have "t \<noteq> []" using assms(2) by (auto simp: read_exact_def split: if_splits)
  then obtain r n where r: "valid_record limit r" "t = take n (frame r)" "n < 4 + length r"
    using assms(1) by (auto simp: torn_def)
  have "4 \<le> length t" using assms(2) by (auto simp: read_exact_def split: if_splits)
  then have n: "4 \<le> n" using r by simp
  have "len_bytes = take 4 (frame r)" "rest = drop 4 (take n (frame r))"
    using assms(2) r(2) n by (auto simp: read_exact_def split: if_splits)
  moreover have "length (drop 4 (take n (frame r))) < length r" using r(3) n by simp
  ultimately show thesis using that[OF r(1)] by (simp add: frame_def)
qed

lemma scan_log:
  assumes "\<forall>r\<in>set rs. valid_record limit r" "count + length rs \<le> MAX_RECORDS_PER_LOCATOR" "torn limit t"
  shows "scan_loop limit visit (log_of rs @ t) count offset st =
    Inr ((count + length rs, offset + length (log_of rs)), fold visit rs st)"
  using assms
proof (induction rs arbitrary: count offset st)
  case Nil
  show ?case
  proof (cases "read_exact 4 t")
    case None
    then show ?thesis by (simp add: scan_loop.simps)
  next
    case (Some p)
    then obtain len_bytes rest where p: "read_exact 4 t = Some (len_bytes, rest)" by (cases p) simp
    with Nil.prems obtain r where r: "valid_record limit r" "len_bytes = to_be_bytes (word_of_nat (length r))"
      "length rest < length r" using read_torn by blast
    then show ?thesis using p read_frame(2)[OF r(1)]
      by (simp add: scan_loop.simps valid_record_def read_exact_def[of "length r"])
  qed
next
  case (Cons r rs)
  then have r: "valid_record limit r" by simp
  note rf = read_frame(1)[OF r, of "log_of rs @ t"] read_frame(2)[OF r] read_frame(3)[OF r, of "log_of rs @ t"]
  have "scan_loop limit visit (log_of (r # rs) @ t) count offset st =
      scan_loop limit visit (log_of rs @ t) (count + 1) (offset + 4 + length r) (visit r st)"
    using r Cons.prems(2) rf by (simp add: scan_loop.simps[of _ _ "frame r @ _"] valid_record_def)
  with Cons show ?case by simp
qed

subsection \<open>The states of a log\<close>

text \<open>
  The log file of a node holds \<open>rs\<close>: there is none yet, or it consists of the frames of
  \<open>rs\<close> and a torn tail.
\<close>

definition holds_log :: "nat \<Rightarrow> bytes list \<Rightarrow> node option \<Rightarrow> bool" where
  "holds_log limit rs node \<longleftrightarrow>
     (\<forall>r\<in>set rs. valid_record limit r) \<and> length rs \<le> MAX_RECORDS_PER_LOCATOR \<and>
     (case node of
        None \<Rightarrow> rs = []
      | Some (File file) \<Rightarrow> length file \<le> MAX_RECOVERY_LOG_BYTES \<and> (\<exists>t. file = log_of rs @ t \<and> torn limit t)
      | _ \<Rightarrow> False)"

lemma holds_log_File:
  "holds_log limit rs (Some (File file)) \<longleftrightarrow>
     (\<forall>r\<in>set rs. valid_record limit r) \<and> length rs \<le> MAX_RECORDS_PER_LOCATOR \<and>
     length file \<le> MAX_RECOVERY_LOG_BYTES \<and> (\<exists>t. file = log_of rs @ t \<and> torn limit t)"
  by (auto simp: holds_log_def)

lemma holds_log_cases:
  assumes "holds_log limit rs node"
  obtains "node = None" "rs = []"
  | t where "node = Some (File (log_of rs @ t))" "torn limit t" "length (log_of rs @ t) \<le> MAX_RECOVERY_LOG_BYTES"
  using assms by (auto simp: holds_log_def split: option.splits node.splits)

text \<open>Writing the frame of \<open>r\<close> only in part, or in full.\<close>

lemma holds_log_partial:
  assumes "holds_log limit rs (Some (File (log_of rs)))" "valid_record limit r"
    and "length (log_of rs) + 4 + length r \<le> MAX_RECOVERY_LOG_BYTES" "length rs < MAX_RECORDS_PER_LOCATOR"
  shows "holds_log limit rs (Some (File (log_of rs @ take n (frame r)))) \<or>
    holds_log limit (rs @ [r]) (Some (File (log_of rs @ take n (frame r))))"
proof (cases "n < 4 + length r")
  case True
  then have "torn limit (take n (frame r))" using assms(2) by (auto simp: torn_def)
  with assms show ?thesis by (auto simp: holds_log_File)
next
  case False
  then have "holds_log limit (rs @ [r]) (Some (File (log_of rs @ take n (frame r))))"
    using assms by (simp add: holds_log_File)
  then show ?thesis ..
qed

lemma chl_read_file_bytes:
  assumes "s (path_components path) = node"
  shows "chl genuine (\<lambda>u. u = s) (read_file_bytes path)
    (\<lambda>file u. u = s \<and> node = Some (File file))
    (\<lambda>e u. u = s \<and> (node = None \<or> (\<exists>m. e = OtherError m))) (\<lambda>u. u = s)"
  unfolding read_file_bytes_def using assms
  by (intro chl_sys_faulty) (auto simp: genuine_Fail lookup_def split: option.splits node.splits)

lemma chl_scan:
  assumes "holds_log limit rs (s (path_components path))"
  shows "chl genuine (\<lambda>u. u = s) (scan_recovery_log limit path visit st)
    (\<lambda>r u. u = s \<and> r = ((length rs, length (log_of rs)), fold visit rs st)) (\<lambda>_ u. u = s) (\<lambda>u. u = s)"
  unfolding scan_recovery_log_def
proof (rule chl_catch[OF chl_read_file_bytes[OF refl]])
  fix e
  show "chl genuine (\<lambda>u. u = s \<and> (s (path_components path) = None \<or> (\<exists>m. e = OtherError m)))
    (case e of NotFound _ \<Rightarrow> io_return ((0, 0), st) | _ \<Rightarrow> io_fail (show_io_error e))
    (\<lambda>r u. u = s \<and> r = ((length rs, length (log_of rs)), fold visit rs st)) (\<lambda>_ u. u = s) (\<lambda>u. u = s)"
    using assms by (cases e) (auto intro!: chl_return chl_fail elim: holds_log_cases)
next
  fix content
  have "MAX_RECOVERY_LOG_BYTES \<ge> length content \<and>
      scan_loop limit visit content 0 0 st = Inr ((length rs, length (log_of rs)), fold visit rs st)"
    if "s (path_components path) = Some (File content)"
    using assms that by (auto simp: holds_log_File scan_log)
  then show "chl genuine (\<lambda>u. u = s \<and> s (path_components path) = Some (File content))
    (if MAX_RECOVERY_LOG_BYTES < length content then io_fail ''Recovery log exceeds byte limit''
     else io_lift (scan_loop limit visit content 0 0 st))
    (\<lambda>r u. u = s \<and> r = ((length rs, length (log_of rs)), fold visit rs st)) (\<lambda>_ u. u = s) (\<lambda>u. u = s)"
    by (auto intro!: chl_lift chl_fail)
qed

subsection \<open>Appending keeps the log\<close>

text \<open>The file system with the frames of \<open>rs\<close> and \<open>t\<close> as the log.\<close>

definition with_log :: "fs \<Rightarrow> Component list \<Rightarrow> bytes list \<Rightarrow> bytes \<Rightarrow> fs" where
  "with_log s p rs t = s(p \<mapsto> File (log_of rs @ t))"

lemma with_log_simps [simp]:
  "with_log s p rs t p = Some (File (log_of rs @ t))"
  "append_to p bs (with_log s p rs t) = with_log s p rs (t @ bs)"
  "resize_to p (length (log_of rs)) (with_log s p rs t) = with_log s p rs []"
  "resize_to p (length (log_of rs) + length t) (with_log s p rs t) = with_log s p rs t"
  by (simp_all add: with_log_def append_to_def resize_to_def)

lemma file_len_with_log [simp]:
  "file_len path (with_log s (path_components path) rs t) = length (log_of rs) + length t"
  by (simp add: file_len_def lookup_def)

lemma chl_write_end:
  "chl F (\<lambda>u. u = with_log s (path_components path) rs t) (write_end path bs)
    (\<lambda>_ u. u = with_log s (path_components path) rs (t @ bs))
    (\<lambda>_ u. \<exists>n. u = with_log s (path_components path) rs (t @ take n bs))
    (\<lambda>u. \<exists>n. u = with_log s (path_components path) rs (t @ take n bs))"
  unfolding write_end_def by (rule chl_sys_faulty) auto

lemma chl_set_len:
  assumes "\<And>u. P u \<Longrightarrow> I u \<and> I (resize_to (path_components path) n u)"
  shows "chl F P (set_len path n) (\<lambda>_ u. \<exists>v. P v \<and> u = resize_to (path_components path) n v) (\<lambda>_. I) I"
  unfolding set_len_def using assms by (intro chl_sys_faulty) auto

lemma chl_sync_all: "(\<And>u. P u \<Longrightarrow> E u \<and> C u) \<Longrightarrow> chl F P sync_all (\<lambda>_. P) (\<lambda>_. E) C"
  unfolding sync_all_def no_effect_def by (rule chl_sys_faulty) auto

lemma chl_write_frame:
  "chl F (\<lambda>u. u = with_log s (path_components path) rs []) (write_frame path r)
    (\<lambda>_ u. u = with_log s (path_components path) rs (frame r))
    (\<lambda>_ u. \<exists>n. u = with_log s (path_components path) rs (take n (frame r)))
    (\<lambda>u. \<exists>n. u = with_log s (path_components path) rs (take n (frame r)))"
proof -
  let ?L = "with_log s (path_components path) rs" and ?l = "to_be_bytes (word_of_nat (length r))"
  let ?I = "\<lambda>u. \<exists>n. u = ?L (take n (frame r))"
  have head: "take n ?l = take (min n 4) (frame r)" for n by (simp add: frame_def take_all_iff min_def)
  have body: "?l @ take n r = take (4 + n) (frame r)" for n by (simp add: frame_def)
  have "chl F (\<lambda>u. u = ?L []) (write_end path ?l) (\<lambda>_ u. u = ?L ?l) (\<lambda>_. ?I) ?I"
    by (rule chl_conseq[OF chl_write_end[of _ _ _ _ "[]"]]) (auto simp: head)
  moreover have "chl F (\<lambda>u. u = ?L ?l) (write_end path r) (\<lambda>_ u. u = ?L (frame r)) (\<lambda>_. ?I) ?I"
    by (rule chl_conseq[OF chl_write_end[of _ _ _ _ "?l"]]) (auto simp: body frame_def[symmetric])
  moreover have "chl F (\<lambda>u. u = ?L (frame r)) sync_all (\<lambda>_ u. u = ?L (frame r)) (\<lambda>_. ?I) ?I"
    by (rule chl_sync_all) (auto intro: exI[of _ "length (frame r)"])
  ultimately show ?thesis unfolding write_frame_def by (intro chl_bind) auto
qed

lemma chl_ignore:
  assumes "chl F P m (\<lambda>_. Q') (\<lambda>_. Q') C" "chl F Q' n Q E C"
  shows "chl F P (io_ignore m n) Q E C"
  unfolding io_ignore_def using assms by (intro chl_catch)

text \<open>From a log without a torn tail: the frame is written, or a prefix of it is left.\<close>

lemma chl_write_or_undo:
  "chl F (\<lambda>u. u = with_log s (path_components path) rs [])
    (io_catch (write_frame path r)
      (\<lambda>e. io_ignore (set_len path (length (log_of rs))) (io_ignore sync_all (io_fail (show_io_error e)))) io_return)
    (\<lambda>_ u. u = with_log s (path_components path) rs (frame r))
    (\<lambda>_ u. \<exists>n. u = with_log s (path_components path) rs (take n (frame r)))
    (\<lambda>u. \<exists>n. u = with_log s (path_components path) rs (take n (frame r)))"
proof (rule chl_catch[OF chl_write_frame])
  let ?I = "\<lambda>u. \<exists>n. u = with_log s (path_components path) rs (take n (frame r))"
  fix e
  have "chl F ?I (set_len path (length (log_of rs))) (\<lambda>_. ?I) (\<lambda>_. ?I) ?I"
    by (rule chl_conseq[OF chl_set_len[of ?I ?I]]) (auto intro: exI[of _ 0])
  then show "chl F ?I (io_ignore (set_len path (length (log_of rs))) (io_ignore sync_all (io_fail (show_io_error e))))
      (\<lambda>_ u. u = with_log s (path_components path) rs (frame r)) (\<lambda>_. ?I) ?I"
    by (rule chl_ignore[where Q' = ?I], intro chl_ignore[where Q' = ?I] chl_sync_all chl_fail) auto
qed (auto intro: chl_return)

text \<open>What every outcome leaves: the log with the old records, or with the new one after them.\<close>

definition log_state :: "nat \<Rightarrow> fs \<Rightarrow> Component list \<Rightarrow> bytes list \<Rightarrow> fs \<Rightarrow> bool" where
  "log_state limit s p rs u \<longleftrightarrow> holds_log limit rs (u p) \<and> (\<forall>q. q \<noteq> p \<longrightarrow> u q = s q)"

lemma with_log_other [simp]: "q \<noteq> p \<Longrightarrow> with_log s p rs t q = s q"
  by (simp add: with_log_def)

lemma chl_cases:
  assumes "\<And>u. P u \<Longrightarrow> chl F (\<lambda>u'. u' = u) m Q E C"
  shows "chl F P m Q E C"
  using assms unfolding chl_def by blast

lemma chl_cut_tail:
  assumes "chl F (\<lambda>u. u = with_log s (path_components path) rs []) m Q E C"
    and "\<And>t'. t' \<in> {t, []} \<Longrightarrow> (\<forall>e. E e (with_log s (path_components path) rs t')) \<and> C (with_log s (path_components path) rs t')"
  shows "chl F (\<lambda>u. u = with_log s (path_components path) rs t)
    (io_then
      (if length (log_of rs) + length t \<noteq> length (log_of rs)
       then io_map_err show_io_error (io_then (set_len path (length (log_of rs))) sync_all) else io_return ()) m) Q E C"
proof (rule chl_bind[where Q' = "\<lambda>_ u. u = with_log s (path_components path) rs []"])
  let ?L = "with_log s (path_components path) rs"
  have "chl F (\<lambda>u. u = ?L t) (set_len path (length (log_of rs))) (\<lambda>_ u. u = ?L []) (\<lambda>e. E (show_io_error e)) C"
    by (rule chl_conseq[OF chl_set_len[where P = "\<lambda>u. u = ?L t" and I = "\<lambda>u. u = ?L t \<or> u = ?L []"]]) (use assms(2) in auto)
  moreover have "chl F (\<lambda>u. u = ?L []) sync_all (\<lambda>_ u. u = ?L []) (\<lambda>e. E (show_io_error e)) C"
    by (rule chl_conseq[OF chl_sync_all[where P = "\<lambda>u. u = ?L []" and E = "\<lambda>u. u = ?L []" and C = "\<lambda>u. u = ?L []"]]) (use assms(2) in auto)
  ultimately show "chl F (\<lambda>u. u = ?L t)
      (if length (log_of rs) + length t \<noteq> length (log_of rs)
       then io_map_err show_io_error (io_then (set_len path (length (log_of rs))) sync_all) else io_return ())
      (\<lambda>_ u. u = ?L []) E C"
    by (auto intro!: chl_map_err chl_bind chl_return)
qed (use assms(1) in simp)

lemma chl_open_log:
  assumes "holds_log limit rs (s (path_components path))"
  shows "chl F (\<lambda>u. u = s) (open_create path)
    (\<lambda>_ u. \<exists>t. torn limit t \<and> length (log_of rs @ t) \<le> MAX_RECOVERY_LOG_BYTES \<and> u = with_log s (path_components path) rs t)
    (\<lambda>_ u. u = s) (\<lambda>u. u = s)"
  unfolding open_create_def
proof (rule chl_sys_faulty)
  fix u a u'
  assume u: "u = s" and "(case lookup u path of
       None \<Rightarrow> if parent_is_dir u (path_components path) then Inr ((), u(path_components path \<mapsto> File []))
               else Inl (NotFound ''No such file or directory'')
     | Some (File _) \<Rightarrow> Inr ((), u)
     | _ \<Rightarrow> Inl (OtherError ''Is a directory'')) = Inr (a, u')"
  with assms show "\<exists>t. torn limit t \<and> length (log_of rs @ t) \<le> MAX_RECOVERY_LOG_BYTES \<and>
      u' = with_log s (path_components path) rs t"
    by (elim holds_log_cases)
      (force simp: lookup_def with_log_def fun_upd_idem_iff split: if_splits intro: exI[of _ "[]"])+
qed auto

lemma chl_commit:
  assumes log: "holds_log limit rs (s (path_components path))" and r: "valid_record limit r"
    and room: "length (log_of rs) + 4 + length r \<le> MAX_RECOVERY_LOG_BYTES" "length rs < MAX_RECORDS_PER_LOCATOR"
  defines "kept \<equiv> \<lambda>u. log_state limit s (path_components path) rs u \<or> log_state limit s (path_components path) (rs @ [r]) u"
  shows "chl F (\<lambda>u. u = s) (commit_record path (length (log_of rs)) r)
    (\<lambda>_ u. u = with_log s (path_components path) rs (frame r)) (\<lambda>_. kept) kept"
proof -
  let ?L = "with_log s (path_components path) rs"
  have valid: "holds_log limit rs (Some (File (log_of rs)))"
    using log room by (auto simp: holds_log_def)
  have part: "kept (?L (take n (frame r)))" for n
    using holds_log_partial[OF valid r room, of n] by (auto simp: kept_def log_state_def)
  have old: "kept (?L t)" if "torn limit t" "length (log_of rs @ t) \<le> MAX_RECOVERY_LOG_BYTES" for t
    using that log by (auto simp: kept_def log_state_def holds_log_def)
  have written: "chl F (\<lambda>u. u = ?L []) (io_fs (\<lambda>s'. let original_len = file_len path s'
          in io_catch (write_frame path r)
               (\<lambda>e. io_ignore (set_len path original_len) (io_ignore sync_all (io_fail (show_io_error e)))) io_return))
      (\<lambda>_ u. u = ?L (frame r)) (\<lambda>_. kept) kept"
    by (rule chl_fs) (auto intro!: chl_conseq[OF chl_write_or_undo] part)
  have "kept s" using log by (simp add: kept_def log_state_def)
  moreover have "chl F (\<lambda>u. \<exists>t. torn limit t \<and> length (log_of rs @ t) \<le> MAX_RECOVERY_LOG_BYTES \<and> u = ?L t)
      (io_fs (\<lambda>s. io_then
        (if file_len path s \<noteq> length (log_of rs)
         then io_map_err show_io_error (io_then (set_len path (length (log_of rs))) sync_all) else io_return ())
        (io_fs (\<lambda>s'. let original_len = file_len path s'
          in io_catch (write_frame path r)
               (\<lambda>e. io_ignore (set_len path original_len) (io_ignore sync_all (io_fail (show_io_error e)))) io_return))))
      (\<lambda>_ u. u = ?L (frame r)) (\<lambda>_. kept) kept"
  proof (rule chl_fs, elim exE conjE, hypsubst)
    fix t assume "torn limit t" "length (log_of rs @ t) \<le> MAX_RECOVERY_LOG_BYTES"
    then show "chl F (\<lambda>s'. s' = ?L t) (io_then
        (if file_len path (?L t) \<noteq> length (log_of rs)
         then io_map_err show_io_error (io_then (set_len path (length (log_of rs))) sync_all) else io_return ())
        (io_fs (\<lambda>s'. let original_len = file_len path s'
          in io_catch (write_frame path r)
               (\<lambda>e. io_ignore (set_len path original_len) (io_ignore sync_all (io_fail (show_io_error e)))) io_return)))
      (\<lambda>_ u. u = ?L (frame r)) (\<lambda>_. kept) kept"
      using room by (subst file_len_with_log) (rule chl_cut_tail[OF written], auto intro: old)
  qed
  ultimately show ?thesis unfolding commit_record_def
    by (intro chl_bind[where Q' = "\<lambda>_ u. \<exists>t. torn limit t \<and> length (log_of rs @ t) \<le> MAX_RECOVERY_LOG_BYTES \<and> u = ?L t"]
        chl_map_err chl_conseq[OF chl_open_log[of limit rs s path, OF log]]) auto
qed

text \<open>The CBOR reader reports the end of input on no bytes at all.\<close>

definition empty_refused :: "schema_codecs \<Rightarrow> bool" where
  "empty_refused k \<longleftrightarrow> \<not> is_ok (cbor_read (k_genesis k) []) \<and> \<not> is_ok (cbor_read (k_cert k) []) \<and>
     \<not> is_ok (cbor_read (k_head k) []) \<and> \<not> is_ok (cbor_read (k_envelope k) []) \<and> \<not> is_ok (cbor_read (k_snapshot k) [])"

definition authority_of :: "crypto_crate \<Rightarrow> schema_codecs \<Rightarrow> bytes list \<Rightarrow> authority" where
  "authority_of cr k rs = fold (note_authority cr k) rs (None, [])"

lemma authorized_not_empty:
  assumes "empty_refused k" "is_authorized cr k a record"
  shows "0 < length record"
proof (rule ccontr)
  assume "\<not> 0 < length record"
  then have "record = []" by simp
  with assms show False
    by (auto simp: is_authorized_def genesis_authorized_def cert_authorized_def head_authorized_def
        envelope_authorized_def snapshot_authorized_def from_canonical_cbor_def empty_refused_def
        rmap_err_def is_ok_def split: sum.splits)
qed

lemma authorized_valid_record:
  assumes "empty_refused k" "is_authorized cr k a record" "length record \<le> limit"
    and "n + 4 + length record \<le> MAX_RECOVERY_LOG_BYTES"
  shows "valid_record limit record"
  using assms(3,4) authorized_not_empty[OF assms(1,2)] by (simp add: valid_record_def MAX_RECOVERY_LOG_BYTES_def)

lemma chl_if:
  "(c \<Longrightarrow> chl F P m Q E C) \<Longrightarrow> (\<not> c \<Longrightarrow> chl F P m' Q E C) \<Longrightarrow> chl F P (if c then m else m') Q E C"
  by simp

lemma chl_bind_val:
  assumes "chl F P m (\<lambda>a u. u = s \<and> a = v) E C" "chl F (\<lambda>u. u = s) (f v) Q E C"
  shows "chl F P (io_bind m f) Q E C"
  by (rule chl_bind[OF assms(1)]) (use assms(2) in \<open>auto simp: chl_def\<close>)

text \<open>
  An append, under any faults. Acknowledged: the log has the new record at its end, and
  the sequence number is its position. Otherwise the log has the old records, or it has
  the new record as well, which then was authorized. No other file changes.
\<close>

lemma chl_append:
  fixes var data_dir locator_hex cr r
  defines "limit \<equiv> max_recovery_record_size var" and "p \<equiv> path_components (log_path data_dir locator_hex)"
  assumes k: "empty_refused k" and log: "holds_log limit rs (s p)"
  defines "kept \<equiv> \<lambda>u. log_state limit s p rs u \<or>
    is_authorized cr k (authority_of cr k rs) r \<and> log_state limit s p (rs @ [r]) u"
  shows "chl genuine (\<lambda>u. u = s) (append_authorized_recovery_record_inner h cr k var data_dir locator_hex r caller_pk)
    (\<lambda>n u. n = word_of_nat (length rs) + 1 \<and> length rs < MAX_RECORDS_PER_LOCATOR \<and>
       is_authorized cr k (authority_of cr k rs) r \<and> log_state limit s p (rs @ [r]) u)
    (\<lambda>_. kept) kept"
proof -
  have old: "kept s" using log by (simp add: kept_def log_state_def)
  have scan: "chl genuine (\<lambda>u. u = s) (scan_recovery_log limit (log_path data_dir locator_hex) (note_authority cr k) (None, []))
      (\<lambda>r u. u = s \<and> r = ((length rs, length (log_of rs)), authority_of cr k rs)) (\<lambda>_. kept) kept"
    using old log unfolding p_def authority_of_def
    by (intro chl_conseq[OF chl_scan[of limit rs s "log_path data_dir locator_hex"]]) auto
  have commit: "chl genuine (\<lambda>u. u = s)
      (io_then (commit_record (log_path data_dir locator_hex) (length (log_of rs)) r)
        (io_return (word_of_nat (length rs) + 1)))
      (\<lambda>n u. n = word_of_nat (length rs) + 1 \<and> length rs < MAX_RECORDS_PER_LOCATOR \<and>
        is_authorized cr k (authority_of cr k rs) r \<and> log_state limit s p (rs @ [r]) u) (\<lambda>_. kept) kept"
    if auth: "is_authorized cr k (authority_of cr k rs) r" and size: "length r \<le> limit"
      and room: "length (log_of rs) + 4 + length r \<le> MAX_RECOVERY_LOG_BYTES" "length rs < MAX_RECORDS_PER_LOCATOR"
  proof -
    note valid = authorized_valid_record[OF k auth size room(1)]
    have "log_state limit s p (rs @ [r]) (with_log s p rs (frame r))"
      using log valid room by (auto simp: log_state_def holds_log_def intro: exI[of _ "[]"])
    then show ?thesis using auth room(2)
      by (intro chl_bind[where Q' = "\<lambda>_ u. u = with_log s p rs (frame r)"] chl_return
          chl_conseq[OF chl_commit[of limit rs s "log_path data_dir locator_hex" r, folded p_def, OF log valid room]])
        (auto simp: kept_def)
  qed
  show ?thesis
    unfolding append_authorized_recovery_record_inner_def Let_def limit_def[symmetric]
    by (intro chl_if chl_fail, simp_all only: old)
      (rule chl_bind_val[OF scan], simp only: prod.case, intro chl_if chl_fail commit,
        auto simp: old MAX_RECOVERY_LOG_BYTES_def)
qed

subsection \<open>Runs of the log\<close>

text \<open>Every record of the log was authorized by the records before it.\<close>

definition authorized_log :: "crypto_crate \<Rightarrow> schema_codecs \<Rightarrow> bytes list \<Rightarrow> bool" where
  "authorized_log cr k rs \<longleftrightarrow> (\<forall>i<length rs. is_authorized cr k (authority_of cr k (take i rs)) (rs ! i))"

lemma authorized_log_Nil [simp]: "authorized_log cr k []"
  by (simp add: authorized_log_def)

lemma authorized_log_snoc [simp]:
  "authorized_log cr k (rs @ [r]) \<longleftrightarrow> authorized_log cr k rs \<and> is_authorized cr k (authority_of cr k rs) r"
  by (auto simp: authorized_log_def nth_append less_Suc_eq)

text \<open>
  The life of one log: appends by any callers, each acknowledged, refused or killed, with
  a restart after a kill, and changes to other files. The second component lists the
  acknowledged records with their sequence numbers.
\<close>

inductive log_run ::
  "hex_crate \<Rightarrow> crypto_crate \<Rightarrow> schema_codecs \<Rightarrow> string option \<Rightarrow> string \<Rightarrow> string \<Rightarrow> fs \<Rightarrow> (u64 \<times> bytes) list \<Rightarrow> fs \<Rightarrow> bool"
  for h cr k var data_dir locator_hex s where
  start: "log_run h cr k var data_dir locator_hex s [] s"
| acknowledged:
    "log_run h cr k var data_dir locator_hex s acks (w_fs w) \<Longrightarrow> \<forall>f\<in>set (w_faults w). genuine f \<Longrightarrow>
     append_authorized_recovery_record_inner h cr k var data_dir locator_hex r caller_pk w = (Done n, w') \<Longrightarrow>
     log_run h cr k var data_dir locator_hex s (acks @ [(n, r)]) (w_fs w')"
| refused:
    "log_run h cr k var data_dir locator_hex s acks (w_fs w) \<Longrightarrow> \<forall>f\<in>set (w_faults w). genuine f \<Longrightarrow>
     append_authorized_recovery_record_inner h cr k var data_dir locator_hex r caller_pk w = (Err e, w') \<Longrightarrow>
     log_run h cr k var data_dir locator_hex s acks (w_fs w')"
| killed:
    "log_run h cr k var data_dir locator_hex s acks (w_fs w) \<Longrightarrow> \<forall>f\<in>set (w_faults w). genuine f \<Longrightarrow>
     append_authorized_recovery_record_inner h cr k var data_dir locator_hex r caller_pk w = (Crashed, w') \<Longrightarrow>
     log_run h cr k var data_dir locator_hex s acks (w_fs w')"
| elsewhere:
    "log_run h cr k var data_dir locator_hex s acks u \<Longrightarrow>
     u' (path_components (log_path data_dir locator_hex)) = u (path_components (log_path data_dir locator_hex)) \<Longrightarrow>
     log_run h cr k var data_dir locator_hex s acks u'"

text \<open>The acknowledgements after the first \<open>m\<close> records of a log.\<close>

definition acks_in :: "nat \<Rightarrow> bytes list \<Rightarrow> (u64 \<times> bytes) list \<Rightarrow> bool" where
  "acks_in m rs acks \<longleftrightarrow> (\<forall>(n, r)\<in>set acks. m < unat n \<and> unat n \<le> length rs \<and> rs ! (unat n - 1) = r)"

lemma acks_in_append: "acks_in m rs acks \<Longrightarrow> acks_in m (rs @ rs') acks"
  by (fastforce simp: acks_in_def nth_append)

lemma acks_in_snoc [simp]:
  "acks_in m rs (acks @ [(n, r)]) \<longleftrightarrow> acks_in m rs acks \<and> m < unat n \<and> unat n \<le> length rs \<and> rs ! (unat n - 1) = r"
  by (auto simp: acks_in_def)

lemma unat_sequence: "length rs < MAX_RECORDS_PER_LOCATOR \<Longrightarrow> unat (word_of_nat (length rs) + 1 :: u64) = Suc (length rs)"
  by (simp add: MAX_RECORDS_PER_LOCATOR_def unat_word_ariths unat_of_nat)

lemma append_outcome:
  fixes var data_dir locator_hex
  defines "limit \<equiv> max_recovery_record_size var" and "p \<equiv> path_components (log_path data_dir locator_hex)"
  assumes "empty_refused k" "holds_log limit rs (w_fs w p)" "\<forall>f\<in>set (w_faults w). genuine f"
    and "append_authorized_recovery_record_inner h cr k var data_dir locator_hex r caller_pk w = (res, w')"
  shows "case res of
      Done n \<Rightarrow> n = word_of_nat (length rs) + 1 \<and> length rs < MAX_RECORDS_PER_LOCATOR \<and>
        is_authorized cr k (authority_of cr k rs) r \<and> holds_log limit (rs @ [r]) (w_fs w' p)
    | _ \<Rightarrow> holds_log limit rs (w_fs w' p) \<or>
        is_authorized cr k (authority_of cr k rs) r \<and> holds_log limit (rs @ [r]) (w_fs w' p)"
  using chlD(2)[OF chl_append[where s = "w_fs w", OF assms(3), OF assms(4)[unfolded limit_def p_def]] refl assms(5,6)]
  by (cases res) (auto simp: log_state_def limit_def p_def)

lemma unacknowledged:
  assumes "holds_log limit (rs @ rs') old" "authorized_log cr k (rs @ rs')" "acks_in m (rs @ rs') acks"
    and "holds_log limit (rs @ rs') node \<or>
      is_authorized cr k (authority_of cr k (rs @ rs')) r \<and> holds_log limit ((rs @ rs') @ [r]) node"
  shows "\<exists>rs''. holds_log limit (rs @ rs'') node \<and> authorized_log cr k (rs @ rs'') \<and> acks_in m (rs @ rs'') acks"
  using assms authorized_log_snoc[of cr k "rs @ rs'" r] acks_in_append[of m "rs @ rs'" acks "[r]"] by auto

lemma log_run_grows:
  fixes var
  defines "limit \<equiv> max_recovery_record_size var"
  assumes "log_run h cr k var data_dir locator_hex s acks u" and k: "empty_refused k"
    and start: "holds_log limit rs (s (path_components (log_path data_dir locator_hex)))" "authorized_log cr k rs"
  shows "\<exists>rs'. holds_log limit (rs @ rs') (u (path_components (log_path data_dir locator_hex))) \<and>
    authorized_log cr k (rs @ rs') \<and> acks_in (length rs) (rs @ rs') acks"
  using assms(2)
proof (induction rule: log_run.induct)
  case start
  then show ?case using assms(4,5) by (auto simp: acks_in_def intro: exI[of _ "[]"])
next
  case (acknowledged acks w r caller_pk n w')
  then obtain rs' where rs': "holds_log limit (rs @ rs') (w_fs w (path_components (log_path data_dir locator_hex)))"
    "authorized_log cr k (rs @ rs')" "acks_in (length rs) (rs @ rs') acks" by blast
  from append_outcome[OF k, OF rs'(1)[unfolded limit_def] acknowledged(2,3)]
  have n: "n = word_of_nat (length (rs @ rs')) + 1" "length (rs @ rs') < MAX_RECORDS_PER_LOCATOR"
    and auth: "authorized_log cr k (rs @ rs' @ [r])"
    and log: "holds_log limit (rs @ rs' @ [r]) (w_fs w' (path_components (log_path data_dir locator_hex)))"
    using rs'(2) authorized_log_snoc[of cr k "rs @ rs'" r] by (simp_all add: limit_def)
  have "acks_in (length rs) (rs @ rs' @ [r]) (acks @ [(n, r)])"
    using rs'(3) acks_in_append[of "length rs" "rs @ rs'" acks "[r]"] unat_sequence[OF n(2)] by (simp add: n nth_append)
  with auth log show ?case by blast
next
  case (refused acks w r caller_pk e w')
  then obtain rs' where "holds_log limit (rs @ rs') (w_fs w (path_components (log_path data_dir locator_hex)))"
    "authorized_log cr k (rs @ rs')" "acks_in (length rs) (rs @ rs') acks" by blast
  from unacknowledged[OF this] append_outcome[OF k, OF this(1)[unfolded limit_def] refused(2,3)]
  show ?case by (simp add: limit_def)
next
  case (killed acks w r caller_pk w')
  then obtain rs' where "holds_log limit (rs @ rs') (w_fs w (path_components (log_path data_dir locator_hex)))"
    "authorized_log cr k (rs @ rs')" "acks_in (length rs) (rs @ rs') acks" by blast
  from unacknowledged[OF this] append_outcome[OF k, OF this(1)[unfolded limit_def] killed(2,3)]
  show ?case by (simp add: limit_def)
qed auto

text \<open>What a reader gets.\<close>

definition reads_log :: "hex_crate \<Rightarrow> string option \<Rightarrow> string \<Rightarrow> string \<Rightarrow> fs \<Rightarrow> bytes list \<Rightarrow> bool" where
  "reads_log h var data_dir locator_hex s rs \<longleftrightarrow>
     (\<forall>w. w_fs w = s \<longrightarrow> w_faults w = [] \<longrightarrow> get_recovery_records_inner h var data_dir locator_hex w = (Done rs, w))"

lemma fold_snoc: "fold (\<lambda>r out. out @ [r]) rs acc = acc @ rs"
  by (induction rs arbitrary: acc) simp_all

lemma run_sys:
  "w_faults w = [] \<Longrightarrow>
   sys f part w = (case f (w_fs w) of Inl e \<Rightarrow> (Err e, w) | Inr (a, s) \<Rightarrow> (Done a, w\<lparr>w_fs := s\<rparr>))"
  by (auto simp: sys_def split: sum.splits)

lemma calm_scan:
  assumes "holds_log limit rs (w_fs w (path_components path))" "w_faults w = []"
    and "\<not> (under_file (w_fs w) (path_components path) \<and> w_fs w (path_components path) = None)"
  shows "scan_recovery_log limit path visit st w = (Done ((length rs, length (log_of rs)), fold visit rs st), w)"
  using assms(1)
proof (cases rule: holds_log_cases)
  case 1
  with assms show ?thesis
    by (simp add: scan_recovery_log_def io_catch_def read_file_bytes_def run_sys lookup_def missing_def io_return_def)
next
  case (2 t)
  have "scan_loop limit visit (log_of rs @ t) 0 0 st = Inr ((length rs, length (log_of rs)), fold visit rs st)"
    using assms(1) scan_log[of rs limit 0 t visit 0 st] 2 by (simp add: holds_log_def)
  with 2 assms(2) show ?thesis
    by (simp add: scan_recovery_log_def io_catch_def read_file_bytes_def run_sys lookup_def io_lift_def io_return_def)
qed

lemma io_Done:
  "m w = (Done a, w') \<Longrightarrow> io_bind m f w = f a w'"
  "m w = (Done a, w') \<Longrightarrow> io_catch m g f' w = f' a w'"
  "m w = (Done a, w') \<Longrightarrow> io_map_err g' m w = (Done a, w')"
  by (simp_all add: io_bind_def io_catch_def io_map_err_def)

lemma calm_commit:
  assumes log: "holds_log limit rs (w_fs w (path_components path))" and calm: "w_faults w = []"
    and dir: "w_fs w (path_components path) \<noteq> None \<or> parent_is_dir (w_fs w) (path_components path)"
  shows "commit_record path (length (log_of rs)) r w =
    (Done (), w\<lparr>w_fs := with_log (w_fs w) (path_components path) rs (frame r)\<rparr>)"
proof -
  let ?L = "with_log (w_fs w) (path_components path) rs"
  obtain t where open_log: "open_create path w = (Done (), w\<lparr>w_fs := ?L t\<rparr>)"
    using log
  proof (cases rule: holds_log_cases)
    case 1
    with calm dir show ?thesis
      by (intro that[of "[]"]) (simp add: open_create_def run_sys lookup_def with_log_def)
  next
    case (2 t)
    then have "w_fs w = ?L t" by (auto simp: with_log_def)
    with calm 2 show ?thesis by (intro that[of t]) (simp add: open_create_def run_sys lookup_def)
  qed
  have cut: "(if file_len path (w_fs (w\<lparr>w_fs := ?L t\<rparr>)) \<noteq> length (log_of rs)
      then io_map_err show_io_error (io_then (set_len path (length (log_of rs))) sync_all)
      else io_return ()) (w\<lparr>w_fs := ?L t\<rparr>) = (Done (), w\<lparr>w_fs := ?L []\<rparr>)"
    using calm by (simp add: io_map_err_def io_bind_def io_return_def set_len_def sync_all_def no_effect_def run_sys)
  have frame_written: "write_frame path r (w\<lparr>w_fs := ?L []\<rparr>) = (Done (), w\<lparr>w_fs := ?L (frame r)\<rparr>)"
    using calm by (simp add: write_frame_def io_bind_def write_end_def sync_all_def no_effect_def run_sys frame_def)
  show ?thesis
    unfolding commit_record_def
    by (simp only: io_Done(1)[where m = "io_map_err show_io_error (open_create path)", OF io_Done(3)[where m = "open_create path", OF open_log]]
        io_fs_def world.simps io_Done(1)[where m = "if _ then _ else _", OF cut]
        Let_def io_Done(2)[where m = "write_frame path r", OF frame_written] io_return_def)
qed

text \<open>When an append succeeds.\<close>

definition acceptable ::
  "hex_crate \<Rightarrow> crypto_crate \<Rightarrow> schema_codecs \<Rightarrow> nat \<Rightarrow> string \<Rightarrow> bytes list \<Rightarrow> bytes \<Rightarrow> bytes option \<Rightarrow> bool" where
  "acceptable h cr k limit locator_hex rs r caller_pk \<longleftrightarrow>
     length locator_hex = 64 \<and> is_ok (hex_decode h locator_hex) \<and> length r \<le> limit \<and>
     length rs < MAX_RECORDS_PER_LOCATOR \<and> length (log_of rs) + 4 + length r \<le> MAX_RECOVERY_LOG_BYTES \<and>
     is_authorized cr k (authority_of cr k rs) r \<and> is_trusted_caller cr k (authority_of cr k rs) r caller_pk"

definition log_reachable :: "fs \<Rightarrow> Component list \<Rightarrow> bool" where
  "log_reachable s p \<longleftrightarrow> \<not> under_file s p \<and> (s p \<noteq> None \<or> parent_is_dir s p)"

lemma calm_append:
  fixes var data_dir locator_hex
  defines "limit \<equiv> max_recovery_record_size var" and "p \<equiv> path_components (log_path data_dir locator_hex)"
  assumes log: "holds_log limit rs (w_fs w p)" and calm: "w_faults w = []" and dir: "log_reachable (w_fs w) p"
  shows "\<exists>e. append_authorized_recovery_record_inner h cr k var data_dir locator_hex r caller_pk w =
    (if acceptable h cr k limit locator_hex rs r caller_pk
     then (Done (word_of_nat (length rs) + 1), w\<lparr>w_fs := with_log (w_fs w) p rs (frame r)\<rparr>)
     else (Err e, w))"
proof -
  note scan = calm_scan[of limit rs w "log_path data_dir locator_hex", folded p_def, OF log calm]
  note commit = calm_commit[of limit rs w "log_path data_dir locator_hex" r, folded p_def, OF log calm]
  have room: "MAX_RECOVERY_LOG_BYTES < min (n + (4 + length r)) (2 ^ 64 - 1) \<longleftrightarrow>
      \<not> n + 4 + length r \<le> MAX_RECOVERY_LOG_BYTES" for n
    by (auto simp: MAX_RECOVERY_LOG_BYTES_def)
  show ?thesis
    unfolding append_authorized_recovery_record_inner_def Let_def limit_def[symmetric] acceptable_def room
    using dir by (auto simp: io_bind_def scan commit log_reachable_def io_fail_def io_return_def authority_of_def not_less)
qed

lemma holds_log_reads:
  assumes "length locator_hex = 64" "is_ok (hex_decode h locator_hex)"
    and log: "holds_log (max_recovery_record_size var) rs (s (path_components (log_path data_dir locator_hex)))"
  shows "reads_log h var data_dir locator_hex s rs"
  unfolding reads_log_def
proof (intro allI impI)
  fix w :: world
  assume w: "w_fs w = s" "w_faults w = []"
  show "get_recovery_records_inner h var data_dir locator_hex w = (Done rs, w)"
  proof (cases "under_file s (path_components (log_path data_dir locator_hex)) \<and>
      s (path_components (log_path data_dir locator_hex)) = None")
    case True
    then have "rs = []" using log by (simp add: holds_log_def)
    with True w assms(1,2) show ?thesis
      by (simp add: get_recovery_records_inner_def io_catch_def scan_recovery_log_def read_file_bytes_def
          run_sys lookup_def missing_def io_fail_def io_return_def)
  next
    case False
    have "scan_recovery_log (max_recovery_record_size var) (log_path data_dir locator_hex) (\<lambda>r out. out @ [r]) [] w =
        (Done ((length rs, length (log_of rs)), rs), w)"
      using calm_scan[of "max_recovery_record_size var" rs w "log_path data_dir locator_hex" "\<lambda>r out. out @ [r]" "[]"]
        w log False by (simp add: fold_snoc)
    with assms(1,2) show ?thesis by (simp add: get_recovery_records_inner_def io_catch_def io_return_def)
  qed
qed

text \<open>
  C11. No acknowledged record is lost. Take any life of a recovery log that starts without
  a file: appends by any callers, of which every system call may fail and each may be
  killed half way, with restarts, cut off at two moments \<open>u\<close> and \<open>u'\<close>. A reader then gets
  a list of records at the first moment and a continuation of it at the second one. Every
  acknowledged record is in it, at the position its sequence number tells, and every
  record was authorized by the records before it.
\<close>

theorem recovery_log_durable:
  assumes "empty_refused k" "length locator_hex = 64" "is_ok (hex_decode h locator_hex)"
    and "s (path_components (log_path data_dir locator_hex)) = None"
    and "log_run h cr k var data_dir locator_hex s acks u" "log_run h cr k var data_dir locator_hex u acks' u'"
  shows "\<exists>rs rs'. reads_log h var data_dir locator_hex u rs \<and> reads_log h var data_dir locator_hex u' (rs @ rs') \<and>
    acks_in 0 rs acks \<and> acks_in (length rs) (rs @ rs') acks' \<and> authorized_log cr k (rs @ rs')"
proof -
  let ?limit = "max_recovery_record_size var" and ?p = "path_components (log_path data_dir locator_hex)"
  have "holds_log ?limit [] (s ?p)" using assms(4) by (simp add: holds_log_def)
  from log_run_grows[OF assms(5,1) this]
  obtain rs where rs: "holds_log ?limit rs (u ?p)" "authorized_log cr k rs" "acks_in 0 rs acks" by auto
  from log_run_grows[OF assms(6,1) rs(1,2)]
  obtain rs' where rs': "holds_log ?limit (rs @ rs') (u' ?p)" "authorized_log cr k (rs @ rs')"
    "acks_in (length rs) (rs @ rs') acks'" by blast
  have "reads_log h var data_dir locator_hex v ss" if "holds_log ?limit ss (v ?p)" for v ss
    by (rule holds_log_reads[OF assms(2,3)]) (rule that)
  with rs rs' show ?thesis by blast
qed

subsection \<open>Where the records come from\<close>

fun reads_as :: "schema_codecs \<Rightarrow> bytes \<Rightarrow> any_record \<Rightarrow> bool" where
  "reads_as k r (AnyGenesis x) \<longleftrightarrow> from_canonical_cbor (k_genesis k) r = Inr x"
| "reads_as k r (AnyCert x) \<longleftrightarrow> from_canonical_cbor (k_cert k) r = Inr x"
| "reads_as k r (AnyEnvelope x) \<longleftrightarrow> from_canonical_cbor (k_envelope k) r = Inr x"
| "reads_as k r (AnySnapshot x) \<longleftrightarrow> from_canonical_cbor (k_snapshot k) r = Inr x"
| "reads_as k r (AnyHead x) \<longleftrightarrow> from_canonical_cbor (k_head k) r = Inr x"

fun record_version :: "any_record \<Rightarrow> u32" where
  "record_version (AnyGenesis x) = gr_version x"
| "record_version (AnyCert x) = dc_version x"
| "record_version (AnyEnvelope x) = ee_version x"
| "record_version (AnySnapshot x) = sr_version x"
| "record_version (AnyHead x) = hr_version x"

text \<open>Bytes that are an accepted record of two kinds at once.\<close>

definition double_signed :: "crypto_crate \<Rightarrow> schema_codecs \<Rightarrow> bytes \<Rightarrow> bool" where
  "double_signed cr k r \<longleftrightarrow> (\<exists>a b pk q. reads_as k r a \<and> reads_as k r b \<and> record_context a \<noteq> record_context b \<and>
     verify_record cr k pk a = Inr () \<and> verify_record cr k q b = Inr ())"

definition device_signed :: "any_record \<Rightarrow> bool" where
  "device_signed a = (case a of AnyGenesis _ \<Rightarrow> False | AnyCert _ \<Rightarrow> False | _ \<Rightarrow> True)"

lemma signed_by_authorityE:
  assumes "signed_by_authority verify a"
  obtains q where "verify q = Inr ()" "fst a = Some q \<or> q \<in> set (snd a)"
  using assms by (auto simp: signed_by_authority_def list_ex_iff result_simps split: option.splits)

lemma authorized_verified:
  assumes "is_authorized cr k a r"
  obtains x q where "reads_as k r x" "verify_record cr k q x = Inr ()" "record_version x = PROTOCOL_VERSION"
    "(\<exists>g. x = AnyGenesis g) \<and> (fst a = None \<or> fst a = Some q) \<or>
     fst a = Some q \<or> device_signed x \<and> q \<in> set (snd a)"
proof -
  consider "genesis_authorized cr k a r" | "cert_authorized cr k a r" | "head_authorized cr k a r"
    | "envelope_authorized cr k a r" | "snapshot_authorized cr k a r"
    using assms by (auto simp: is_authorized_def)
  then show thesis
  proof cases
    case 1
    then obtain g where "from_canonical_cbor (k_genesis k) r = Inr g" "gr_version g = PROTOCOL_VERSION"
      "genesis_verify cr (k_genesis k) g = Inr ()" "fst a = None \<or> fst a = Some (gr_recovery_signing_pk g)"
      by (auto simp: genesis_authorized_def result_simps split: sum.splits option.splits)
    then show ?thesis by (intro that[of "AnyGenesis g" "gr_recovery_signing_pk g"]) auto
  next
    case 2
    then obtain c q where "from_canonical_cbor (k_cert k) r = Inr c" "dc_version c = PROTOCOL_VERSION"
      "cert_verify cr (k_cert k) q c = Inr ()" "fst a = Some q"
      by (auto simp: cert_authorized_def result_simps split: sum.splits option.splits)
    then show ?thesis by (intro that[of "AnyCert c" q]) auto
  next
    case 3
    then obtain x where x: "from_canonical_cbor (k_head k) r = Inr x" "hr_version x = PROTOCOL_VERSION"
      "signed_by_authority (\<lambda>pk. head_verify cr (k_head k) pk x) a"
      by (auto simp: head_authorized_def split: sum.splits)
    from x(3) show ?thesis using x(1,2)
      by (elim signed_by_authorityE) (auto intro: that[of "AnyHead x"] simp: device_signed_def)
  next
    case 4
    then obtain x where x: "from_canonical_cbor (k_envelope k) r = Inr x" "ee_version x = PROTOCOL_VERSION"
      "signed_by_authority (\<lambda>pk. envelope_verify cr (k_envelope k) pk x) a"
      by (auto simp: envelope_authorized_def split: sum.splits)
    from x(3) show ?thesis using x(1,2)
      by (elim signed_by_authorityE) (auto intro: that[of "AnyEnvelope x"] simp: device_signed_def)
  next
    case 5
    then obtain x where x: "from_canonical_cbor (k_snapshot k) r = Inr x" "sr_version x = PROTOCOL_VERSION"
      "signed_by_authority (\<lambda>pk. snapshot_verify cr (k_snapshot k) pk x) a"
      by (auto simp: snapshot_authorized_def split: sum.splits)
    from x(3) show ?thesis using x(1,2)
      by (elim signed_by_authorityE) (auto intro: that[of "AnySnapshot x"] simp: device_signed_def)
  qed
qed

lemma registered_keyE:
  assumes "registered_key cr k r = Some pk"
  obtains g where "reads_as k r (AnyGenesis g)" "verify_record cr k pk (AnyGenesis g) = Inr ()"
  using assms by (auto simp: registered_key_def result_simps split: sum.splits if_splits)

text \<open>A record that is not signed twice registers no other key than the one registered before.\<close>

lemma registered_key_pinned:
  assumes "is_authorized cr k a r" "\<not> double_signed cr k r" "fst a = Some pk" "registered_key cr k r = Some pk'"
  shows "pk' = pk"
proof -
  obtain g where g: "reads_as k r (AnyGenesis g)" "verify_record cr k pk' (AnyGenesis g) = Inr ()"
    using assms(4) by (rule registered_keyE)
  obtain x q where x: "reads_as k r x" "verify_record cr k q x = Inr ()"
    and q: "(\<exists>g. x = AnyGenesis g) \<and> (fst a = None \<or> fst a = Some q) \<or> fst a = Some q \<or> device_signed x \<and> q \<in> set (snd a)"
    using assms(1) by (rule authorized_verified)
  have "record_context x = record_context (AnyGenesis g)" using assms(2) g x unfolding double_signed_def by blast
  then obtain g' where g': "x = AnyGenesis g'" by (cases x) (auto simp: as_bytes_def)
  then have "g' = g" using g(1) x(1) by simp
  then have "q = pk'" using g(2) x(2) g' by (simp split: if_splits)
  then show ?thesis using q assms(3) g' by (auto simp: device_signed_def)
qed

lemma authority_snoc: "authority_of cr k (rs @ [r]) = note_authority cr k r (authority_of cr k rs)"
  by (simp add: authority_of_def)

lemma note_authority_fst:
  "fst (note_authority cr k r a) = (case registered_key cr k r of Some pk \<Rightarrow> Some pk | None \<Rightarrow> fst a)"
  by (simp add: note_authority_def Let_def)

lemma note_authority_snd:
  assumes "fst (note_authority cr k r a) = Some pk" "d \<in> set (snd (note_authority cr k r a))"
  shows "d \<in> set (snd a) \<or> certified_key cr k pk r = Some d"
  using assms by (auto simp: note_authority_def Let_def split: option.splits if_splits)

text \<open>The keys that the records before a position speak for.\<close>

lemma authority_invariant:
  assumes "authorized_log cr k rs" "\<forall>r\<in>set rs. \<not> double_signed cr k r"
  shows "rs = [] \<and> authority_of cr k rs = (None, []) \<or>
    (\<exists>pk. registered_key cr k (rs ! 0) = Some pk \<and> fst (authority_of cr k rs) = Some pk \<and>
      (\<forall>d\<in>set (snd (authority_of cr k rs)). \<exists>j<length rs. certified_key cr k pk (rs ! j) = Some d))"
  using assms
proof (induction rs rule: rev_induct)
  case Nil
  then show ?case by (simp add: authority_of_def)
next
  case (snoc r rs)
  let ?a = "authority_of cr k rs"
  have auth: "is_authorized cr k ?a r" "\<not> double_signed cr k r" using snoc.prems by simp_all
  have "rs = [] \<and> ?a = (None, []) \<or> (\<exists>pk. registered_key cr k (rs ! 0) = Some pk \<and> fst ?a = Some pk \<and>
      (\<forall>d\<in>set (snd ?a). \<exists>j<length rs. certified_key cr k pk (rs ! j) = Some d))"
    using snoc.IH snoc.prems by simp
  moreover have "authority_of cr k [] = (None, [])" by (simp add: authority_of_def)
  ultimately consider "rs = []" "?a = (None, [])"
    | pk where "registered_key cr k (rs ! 0) = Some pk" "fst ?a = Some pk" "rs \<noteq> []"
      "\<forall>d\<in>set (snd ?a). \<exists>j<length rs. certified_key cr k pk (rs ! j) = Some d"
    by (cases "rs = []") blast+
  then show ?case
  proof cases
    case 1
    then have "genesis_authorized cr k ?a r"
      using auth(1) by (auto simp: is_authorized_def cert_authorized_def head_authorized_def envelope_authorized_def
          snapshot_authorized_def signed_by_authority_def split: sum.splits)
    then obtain pk where pk: "registered_key cr k r = Some pk"
      by (auto simp: genesis_authorized_def registered_key_def split: sum.splits)
    then have "fst (note_authority cr k r ?a) = Some pk" by (simp add: note_authority_fst)
    with pk 1 note_authority_snd[OF this] show ?thesis by (auto simp: authority_of_def)
  next
    case (2 pk)
    have fst: "fst (note_authority cr k r ?a) = Some pk"
      using registered_key_pinned[OF auth 2(2)] 2(2) by (auto simp: note_authority_fst split: option.splits)
    have "\<exists>j<length (rs @ [r]). certified_key cr k pk ((rs @ [r]) ! j) = Some d"
      if "d \<in> set (snd (note_authority cr k r ?a))" for d
      using note_authority_snd[OF fst that] 2(4) by (metis length_append_singleton less_Suc_eq nth_append nth_append_length)
    with fst 2 show ?thesis by (auto simp: authority_snoc nth_append)
  qed
qed

lemma authorized_log_take: "authorized_log cr k rs \<Longrightarrow> authorized_log cr k (take i rs)"
  by (auto simp: authorized_log_def min_def)

text \<open>
  C12. A log belongs to the key of its first record. When no record of an authorized log
  is signed as two kinds at once, the first record registers a recovery key, no later
  record changes it, and each record verifies under that key, or, when it is a head, an
  envelope or a snapshot, under the key of a device which an earlier certificate of the
  log, signed by the recovery key, names.
\<close>

theorem recovery_log_provenance:
  assumes "authorized_log cr k rs" "\<forall>r\<in>set rs. \<not> double_signed cr k r" "rs \<noteq> []"
  shows "\<exists>pk. registered_key cr k (rs ! 0) = Some pk \<and> (\<forall>i<length rs.
    fst (authority_of cr k (take (Suc i) rs)) = Some pk \<and>
    (\<exists>x q. reads_as k (rs ! i) x \<and> record_version x = PROTOCOL_VERSION \<and> verify_record cr k q x = Inr () \<and>
      (q = pk \<or> device_signed x \<and> (\<exists>j<i. certified_key cr k pk (rs ! j) = Some q))))"
proof -
  obtain pk where pk: "registered_key cr k (rs ! 0) = Some pk" using authority_invariant[OF assms(1,2)] assms(3) by blast
  have inv: "fst (authority_of cr k (take i rs)) = Some pk \<and>
      (\<forall>d\<in>set (snd (authority_of cr k (take i rs))). \<exists>j<i. certified_key cr k pk (rs ! j) = Some d)"
    if "0 < i" "i \<le> length rs" for i
  proof -
    have "\<forall>r\<in>set (take i rs). \<not> double_signed cr k r" using assms(2) by (auto dest: in_set_takeD)
    from authority_invariant[OF authorized_log_take[OF assms(1)] this] that pk assms(3) show ?thesis by auto (metis nth_take)
  qed
  have "\<exists>x q. reads_as k (rs ! i) x \<and> record_version x = PROTOCOL_VERSION \<and> verify_record cr k q x = Inr () \<and>
      (q = pk \<or> device_signed x \<and> (\<exists>j<i. certified_key cr k pk (rs ! j) = Some q))" if i: "i < length rs" for i
  proof -
    have "is_authorized cr k (authority_of cr k (take i rs)) (rs ! i)" using assms(1) i by (simp add: authorized_log_def)
    then obtain x q where x: "reads_as k (rs ! i) x" "verify_record cr k q x = Inr ()" "record_version x = PROTOCOL_VERSION"
      and q: "(\<exists>g. x = AnyGenesis g) \<and> (fst (authority_of cr k (take i rs)) = None \<or> fst (authority_of cr k (take i rs)) = Some q) \<or>
        fst (authority_of cr k (take i rs)) = Some q \<or> device_signed x \<and> q \<in> set (snd (authority_of cr k (take i rs)))"
      by (rule authorized_verified)
    show ?thesis
    proof (cases "i = 0")
      case True
      then obtain g where g: "x = AnyGenesis g" using q by (auto simp: authority_of_def)
      then have "q = pk" using x True pk by (auto simp: registered_key_def split: if_splits)
      with x show ?thesis by blast
    next
      case False
      with inv[of i] i q x show ?thesis by fastforce
    qed
  qed
  with pk inv[of "Suc _"] show ?thesis by (intro exI[of _ pk]) simp
qed

subsection \<open>An example log\<close>

definition genesis_example :: GenesisRecord where
  "genesis_example = \<lparr>gr_version = 1, gr_vault_id = replicate 32 1, gr_recovery_signing_pk = ed25519_public crypto_std [3],
     gr_recovery_encryption_pk = replicate 32 2, gr_policy_digest = replicate 32 0, gr_created_at_utc = 1700000000,
     gr_creation_nonce = replicate 16 9, gr_signature = []\<rparr>"

definition cert_example :: DeviceCertificate where
  "cert_example = \<lparr>dc_version = 1, dc_vault_id = replicate 32 1, dc_certificate_id = replicate 16 4,
     dc_device_signing_pk = ed25519_public crypto_std [5], dc_permissions = 3, dc_authority_generation = 1,
     dc_issued_at_utc = 1700000001, dc_signature = []\<rparr>"

definition genesis_bytes :: bytes where
  "genesis_bytes = 1 # enc_genesis (genesis_example\<lparr>gr_signature :=
     sign_with_domain crypto_std [3] (as_bytes ''genesis_record'') (1 # enc_genesis genesis_example)\<rparr>)"

definition cert_bytes :: bytes where
  "cert_bytes = 2 # enc_cert (cert_example\<lparr>dc_signature :=
     sign_with_domain crypto_std [3] (as_bytes ''device_certificate'') (2 # enc_cert cert_example)\<rparr>)"

definition head_bytes :: bytes where
  "head_bytes = 5 # enc_head (head_example\<lparr>hr_signature :=
     sign_with_domain crypto_std [5] (as_bytes ''head_record'') (5 # enc_head head_example)\<rparr>)"

lemma length_signature_std [simp]: "length (sign_with_domain crypto_std sk c m) = 64"
  by (simp add: sign_with_domain_def crypto_std_def sum_tag_def)

lemma length_public_std [simp]: "length (ed25519_public crypto_std sk) = 32"
  by (simp add: crypto_std_def sum_tag_def)

lemma example_sizes:
  "length genesis_bytes = 435" "length cert_bytes = 317" "length head_bytes = 403"
  by (simp_all add: genesis_bytes_def enc_genesis_def genesis_example_def cert_bytes_def enc_cert_def cert_example_def
      head_bytes_def enc_head_def head_example_def)

lemma std_codecs:
  "cbor_read (k_genesis codecs_std) (t # enc_genesis x) = (if t = 1 then Inr x else Inl ''type'')"
  "cbor_read (k_cert codecs_std) (t # enc_cert y) = (if t = 2 then Inr y else Inl ''type'')"
  "cbor_read (k_head codecs_std) (t # enc_head z) = (if t = 5 then Inr z else Inl ''type'')"
  "t \<noteq> 1 \<Longrightarrow> cbor_read (k_genesis codecs_std) (t # bs) = Inl ''type''"
  "t \<noteq> 2 \<Longrightarrow> cbor_read (k_cert codecs_std) (t # bs) = Inl ''type''"
  "t \<noteq> 5 \<Longrightarrow> cbor_read (k_head codecs_std) (t # bs) = Inl ''type''"
  "t \<noteq> 3 \<Longrightarrow> cbor_read (k_envelope codecs_std) (t # bs) = Inl ''type''"
  "t \<noteq> 4 \<Longrightarrow> cbor_read (k_snapshot codecs_std) (t # bs) = Inl ''type''"
  by (simp_all add: codecs_std_def codec_of_def enc_inj)

lemma std_one_kind: "\<not> double_signed crypto_std codecs_std r"
proof
  assume "double_signed crypto_std codecs_std r"
  then obtain a b where "reads_as codecs_std r a" "reads_as codecs_std r b" "record_context a \<noteq> record_context b"
    unfolding double_signed_def by blast
  then show False
    by (cases a; cases b)
      (auto simp: from_canonical_cbor_def codecs_std_def codec_of_def result_simps split: if_splits list.splits)
qed

lemma example_reads:
  "from_canonical_cbor (k_genesis codecs_std) genesis_bytes = Inr (genesis_example\<lparr>gr_signature :=
     sign_with_domain crypto_std [3] (as_bytes ''genesis_record'') (1 # enc_genesis genesis_example)\<rparr>)"
  "from_canonical_cbor (k_cert codecs_std) cert_bytes = Inr (cert_example\<lparr>dc_signature :=
     sign_with_domain crypto_std [3] (as_bytes ''device_certificate'') (2 # enc_cert cert_example)\<rparr>)"
  "from_canonical_cbor (k_head codecs_std) head_bytes = Inr (head_example\<lparr>hr_signature :=
     sign_with_domain crypto_std [5] (as_bytes ''head_record'') (5 # enc_head head_example)\<rparr>)"
  "from_canonical_cbor (k_cert codecs_std) genesis_bytes = Inl (DeserializationError ''type'')"
  "from_canonical_cbor (k_genesis codecs_std) cert_bytes = Inl (DeserializationError ''type'')"
  "from_canonical_cbor (k_genesis codecs_std) head_bytes = Inl (DeserializationError ''type'')"
  "from_canonical_cbor (k_cert codecs_std) head_bytes = Inl (DeserializationError ''type'')"
  using example_sizes
  by (simp_all add: from_canonical_cbor_def MAX_RECORD_SIZE_def)
    (simp_all add: genesis_bytes_def cert_bytes_def head_bytes_def std_codecs)

lemma example_unsigned:
  "genesis_unsigned_bytes (k_genesis codecs_std) (genesis_example\<lparr>gr_signature := s\<rparr>) = Inr (1 # enc_genesis genesis_example)"
  "cert_unsigned_bytes (k_cert codecs_std) (cert_example\<lparr>dc_signature := s\<rparr>) = Inr (2 # enc_cert cert_example)"
  "head_unsigned_bytes (k_head codecs_std) (head_example\<lparr>hr_signature := s\<rparr>) = Inr (5 # enc_head head_example)"
  by (simp_all add: unsigned_defs to_canonical_cbor_def codecs_std_def codec_of_def MAX_RECORD_SIZE_def
      genesis_example_def cert_example_def head_example_def enc_genesis_def enc_cert_def enc_head_def)

lemma verify_std: "verify_with_domain crypto_std (ed25519_public crypto_std sk) c m (sign_with_domain crypto_std sk c m) = Inr ()"
  using ed25519_laws[OF crypto_okD(3)[OF crypto_std_ok]] by (simp add: verify_with_domain_def sign_with_domain_def)

lemma example_keys:
  "registered_key crypto_std codecs_std genesis_bytes = Some (ed25519_public crypto_std [3])"
  "registered_key crypto_std codecs_std cert_bytes = None" "registered_key crypto_std codecs_std head_bytes = None"
  "certified_key crypto_std codecs_std (ed25519_public crypto_std [3]) cert_bytes = Some (ed25519_public crypto_std [5])"
  "certified_key crypto_std codecs_std pk genesis_bytes = None" "certified_key crypto_std codecs_std pk head_bytes = None"
  by (simp_all add: registered_key_def certified_key_def example_reads genesis_verify_def cert_verify_def
      example_unsigned verify_std)
    (simp_all add: genesis_example_def cert_example_def verify_std)

lemma example_authority:
  "authority_of crypto_std codecs_std [] = (None, [])"
  "authority_of crypto_std codecs_std [genesis_bytes] = (Some (ed25519_public crypto_std [3]), [])"
  "authority_of crypto_std codecs_std [genesis_bytes, cert_bytes] =
     (Some (ed25519_public crypto_std [3]), [ed25519_public crypto_std [5]])"
  by (simp_all add: authority_of_def note_authority_def example_keys)

lemma example_authorized:
  "is_authorized crypto_std codecs_std (None, []) genesis_bytes"
  "is_authorized crypto_std codecs_std (Some (ed25519_public crypto_std [3]), ds) genesis_bytes"
  "is_authorized crypto_std codecs_std (Some (ed25519_public crypto_std [3]), ds) cert_bytes"
  "is_authorized crypto_std codecs_std (a, [ed25519_public crypto_std [5]]) head_bytes"
proof -
  have "gr_version genesis_example = PROTOCOL_VERSION" "gr_recovery_signing_pk genesis_example = ed25519_public crypto_std [3]"
    "dc_version cert_example = PROTOCOL_VERSION" "length (dc_device_signing_pk cert_example) = 32"
    "hr_version head_example = PROTOCOL_VERSION" "length (hr_snapshot_id head_example) = 32"
    by (simp_all add: genesis_example_def cert_example_def head_example_def PROTOCOL_VERSION_def)
  then show "is_authorized crypto_std codecs_std (None, []) genesis_bytes"
    "is_authorized crypto_std codecs_std (Some (ed25519_public crypto_std [3]), ds) genesis_bytes"
    "is_authorized crypto_std codecs_std (Some (ed25519_public crypto_std [3]), ds) cert_bytes"
    "is_authorized crypto_std codecs_std (a, [ed25519_public crypto_std [5]]) head_bytes"
    by (simp_all add: is_authorized_def genesis_authorized_def cert_authorized_def head_authorized_def
        signed_by_authority_def example_reads genesis_verify_def cert_verify_def head_verify_def example_unsigned verify_std)
qed

lemma example_log: "authorized_log crypto_std codecs_std [genesis_bytes, cert_bytes, head_bytes]"
proof -
  have "authorized_log crypto_std codecs_std ((([] @ [genesis_bytes]) @ [cert_bytes]) @ [head_bytes])"
    unfolding authorized_log_snoc using example_authority example_authorized by simp
  then show ?thesis by simp
qed

lemma std_empty_refused: "empty_refused codecs_std"
  by (simp add: empty_refused_def codecs_std_def codec_of_def)

theorem recovery_log_provenance_witness:
  "\<exists>pk. registered_key crypto_std codecs_std genesis_bytes = Some pk \<and>
     (\<exists>x q. reads_as codecs_std head_bytes x \<and> verify_record crypto_std codecs_std q x = Inr () \<and>
       (q = pk \<or> device_signed x \<and>
         (\<exists>j<2. certified_key crypto_std codecs_std pk ([genesis_bytes, cert_bytes, head_bytes] ! j) = Some q)))"
proof -
  have "\<forall>r\<in>set [genesis_bytes, cert_bytes, head_bytes]. \<not> double_signed crypto_std codecs_std r"
    using std_one_kind by blast
  from recovery_log_provenance[OF example_log this]
  obtain pk where pk: "registered_key crypto_std codecs_std ([genesis_bytes, cert_bytes, head_bytes] ! 0) = Some pk"
    and all: "\<forall>i<length [genesis_bytes, cert_bytes, head_bytes].
      fst (authority_of crypto_std codecs_std (take (Suc i) [genesis_bytes, cert_bytes, head_bytes])) = Some pk \<and>
      (\<exists>x q. reads_as codecs_std ([genesis_bytes, cert_bytes, head_bytes] ! i) x \<and> record_version x = PROTOCOL_VERSION \<and>
        verify_record crypto_std codecs_std q x = Inr () \<and> (q = pk \<or> device_signed x \<and>
          (\<exists>j<i. certified_key crypto_std codecs_std pk ([genesis_bytes, cert_bytes, head_bytes] ! j) = Some q)))"
    by blast
  show ?thesis using pk all[rule_format, of 2] by (intro exI[of _ pk]) (auto simp: numeral_2_eq_2)
qed

text \<open>A kill in the middle of the write leaves the beginning of the frame.\<close>

lemma killed_append:
  fixes var data_dir locator_hex
  defines "limit \<equiv> max_recovery_record_size var" and "p \<equiv> path_components (log_path data_dir locator_hex)"
  assumes log: "holds_log limit rs (w_fs w p)" and tail: "w_fs w p = Some (File (log_of rs))"
    and faults: "w_faults w = [Go, Go, Go, Crash (\<lambda>_. n)]"
    and ok: "acceptable h cr k limit locator_hex rs r caller_pk"
  shows "append_authorized_recovery_record_inner h cr k var data_dir locator_hex r caller_pk w =
    (Crashed, w\<lparr>w_fs := with_log (w_fs w) p rs (to_be_bytes (word_of_nat (length r)) @ take n r), w_faults := []\<rparr>)"
proof -
  let ?path = "log_path data_dir locator_hex" and ?L = "with_log (w_fs w) p rs"
  have same: "w_fs w = ?L []" using tail by (auto simp: with_log_def)
  have scan: "scan_recovery_log limit ?path (note_authority cr k) (None, []) w =
      (Done ((length rs, length (log_of rs)), authority_of cr k rs), w\<lparr>w_faults := [Go, Go, Crash (\<lambda>_. n)]\<rparr>)"
    using log tail faults scan_log[of rs limit 0 "[]" "note_authority cr k" 0 "(None, [])"]
    by (simp add: scan_recovery_log_def io_catch_def read_file_bytes_def sys_def lookup_def p_def io_lift_def
        io_return_def holds_log_File authority_of_def)
  have commit: "commit_record ?path (length (log_of rs)) r (w\<lparr>w_faults := [Go, Go, Crash (\<lambda>_. n)]\<rparr>) =
      (Crashed, w\<lparr>w_fs := ?L (to_be_bytes (word_of_nat (length r)) @ take n r), w_faults := []\<rparr>)"
    using tail same with_log_simps(2)[of p "to_be_bytes (word_of_nat (length r))" "w_fs w" rs "[]"]
      with_log_simps(2)[of p "take n r" "w_fs w" rs "to_be_bytes (word_of_nat (length r))"]
    by (simp add: commit_record_def io_bind_def io_map_err_def open_create_def sys_def lookup_def p_def[symmetric]
        io_fs_def file_len_def io_return_def Let_def io_catch_def write_frame_def write_end_def)
  have room: "\<not> MAX_RECOVERY_LOG_BYTES < min (length (log_of rs) + (4 + length r)) (2 ^ 64 - 1)"
    using ok by (auto simp: acceptable_def MAX_RECOVERY_LOG_BYTES_def)
  show ?thesis
    unfolding append_authorized_recovery_record_inner_def Let_def limit_def[symmetric]
    using ok room by (simp add: acceptable_def io_bind_def scan commit)
qed

definition locator_example :: string where
  "locator_example = hex_encode hex_std (replicate 32 0)"

lemma locator_example_ok: "length locator_example = 64" "is_ok (hex_decode hex_std locator_example)"
  using hex_std_ok by (simp_all add: locator_example_def hex_ok_def hex_decode_encode)

definition log_place :: "Component list" where
  "log_place = path_components (log_path ''data'' locator_example)"

definition empty_data_dir :: fs where
  "empty_data_dir = (\<lambda>q. if q = log_place then None else Some Dir)"

lemma empty_data_dir_reachable: "log_reachable empty_data_dir log_place"
    "log_reachable (with_log empty_data_dir log_place rs t) log_place"
proof -
  have "butlast log_place \<noteq> log_place \<or> log_place = []" by (metis length_butlast diff_less length_greater_0_conv less_irrefl zero_less_one)
  then show "log_reachable empty_data_dir log_place"
    by (auto simp: log_reachable_def under_file_def list_ex_iff empty_data_dir_def parent_is_dir_def)
  show "log_reachable (with_log empty_data_dir log_place rs t) log_place"
    by (auto simp: log_reachable_def under_file_def list_ex_iff empty_data_dir_def with_log_def)
qed

lemma holds_log_example:
  "holds_log 65536 [] (empty_data_dir log_place)"
  "holds_log 65536 [genesis_bytes] (Some (File (log_of [genesis_bytes] @ t)))" if "torn 65536 t" "length t < 1000" for t
  using that by (auto simp: holds_log_def empty_data_dir_def valid_record_def example_sizes MAX_RECOVERY_LOG_BYTES_def
      MAX_RECORDS_PER_LOCATOR_def)

lemma acceptable_example:
  "acceptable hex_std crypto_std codecs_std 65536 locator_example [] genesis_bytes None"
  "acceptable hex_std crypto_std codecs_std 65536 locator_example [genesis_bytes] cert_bytes (Some (ed25519_public crypto_std [3]))"
  using locator_example_ok example_authority example_authorized example_sizes
  by (simp_all add: acceptable_def MAX_RECORDS_PER_LOCATOR_def MAX_RECOVERY_LOG_BYTES_def is_trusted_caller_def)

theorem recovery_log_durable_witness:
  "\<exists>u u' rs rs'. reads_log hex_std None ''data'' locator_example u rs \<and> reads_log hex_std None ''data'' locator_example u' (rs @ rs') \<and>
     acks_in 0 rs [(1, genesis_bytes)] \<and> acks_in (length rs) (rs @ rs') [(2, cert_bytes)] \<and>
     authorized_log crypto_std codecs_std (rs @ rs')"
proof -
  let ?run = "log_run hex_std crypto_std codecs_std None ''data'' locator_example"
    and ?append = "append_authorized_recovery_record_inner hex_std crypto_std codecs_std None ''data'' locator_example"
  define u where "u = with_log empty_data_dir log_place [] (frame genesis_bytes)"
  define t where "t = to_be_bytes (word_of_nat (length cert_bytes)) @ take 100 cert_bytes"
  define u' where "u' = with_log u log_place [genesis_bytes] t"
  define u'' where "u'' = with_log u' log_place [genesis_bytes] (frame cert_bytes)"
  have limit: "max_recovery_record_size None = 65536"
    by (simp add: max_recovery_record_size_def operator_limit_from_env_def MAX_RECOVERY_RECORD_SIZE_def)
  note place = log_place_def[symmetric]
  have "torn 65536 t"
    unfolding torn_def t_def frame_def by (rule disjI2, rule exI[of _ cert_bytes], rule exI[of _ 104])
      (simp add: valid_record_def example_sizes)
  then have logs: "holds_log 65536 [] (empty_data_dir log_place)" "holds_log 65536 [genesis_bytes] (u log_place)"
    "holds_log 65536 [genesis_bytes] (u' log_place)"
    using holds_log_example[of t] holds_log_example[of "[]"] by (simp_all add: u_def u'_def t_def)
  have "?append genesis_bytes None \<lparr>w_fs = empty_data_dir, w_faults = [], w_random = []\<rparr> =
      (Done 1, \<lparr>w_fs = u, w_faults = [], w_random = []\<rparr>)"
    using calm_append[of None "[]" "\<lparr>w_fs = empty_data_dir, w_faults = [], w_random = []\<rparr>" "''data''" locator_example
        hex_std crypto_std codecs_std genesis_bytes None, unfolded limit place]
      logs acceptable_example empty_data_dir_reachable by (simp add: u_def)
  from acknowledged[where s = empty_data_dir and acks = "[]" and w = "\<lparr>w_fs = empty_data_dir, w_faults = [], w_random = []\<rparr>", OF _ _ this[simplified]]
    start[of hex_std crypto_std codecs_std None "''data''" locator_example empty_data_dir]
  have run: "?run empty_data_dir [(1, genesis_bytes)] u" by simp
  have "?append cert_bytes (Some (ed25519_public crypto_std [3])) \<lparr>w_fs = u, w_faults = [Go, Go, Go, Crash (\<lambda>_. 100)], w_random = []\<rparr> =
      (Crashed, \<lparr>w_fs = u', w_faults = [], w_random = []\<rparr>)"
    using killed_append[of None "[genesis_bytes]" "\<lparr>w_fs = u, w_faults = [Go, Go, Go, Crash (\<lambda>_. 100)], w_random = []\<rparr>" "''data''"
        locator_example 100 hex_std crypto_std codecs_std cert_bytes, unfolded limit place]
      logs acceptable_example by (simp add: u_def u'_def t_def)
  from killed[where s = u and acks = "[]" and w = "\<lparr>w_fs = u, w_faults = [Go, Go, Go, Crash (\<lambda>_. 100)], w_random = []\<rparr>", OF _ _ this[simplified]]
    start[of hex_std crypto_std codecs_std None "''data''" locator_example u]
  have mid: "?run u [] u'" by (simp add: genuine_def)
  have reach: "log_reachable u' log_place"
    using empty_data_dir_reachable(2)[of "[genesis_bytes]" t] by (simp add: u'_def u_def with_log_def)
  have "?append cert_bytes (Some (ed25519_public crypto_std [3])) \<lparr>w_fs = u', w_faults = [], w_random = []\<rparr> =
      (Done 2, \<lparr>w_fs = u'', w_faults = [], w_random = []\<rparr>)"
    using calm_append[of None "[genesis_bytes]" "\<lparr>w_fs = u', w_faults = [], w_random = []\<rparr>" "''data''" locator_example
        hex_std crypto_std codecs_std cert_bytes "Some (ed25519_public crypto_std [3])", unfolded limit place]
      logs acceptable_example reach by (simp add: u''_def)
  from acknowledged[where s = u and acks = "[]" and w = "\<lparr>w_fs = u', w_faults = [], w_random = []\<rparr>", OF _ _ this[simplified]] mid
  have run': "?run u [(2, cert_bytes)] u''" by simp
  have "empty_data_dir (path_components (log_path ''data'' locator_example)) = None"
    by (simp add: empty_data_dir_def place)
  from recovery_log_durable[OF std_empty_refused locator_example_ok this run run'] show ?thesis by blast
qed

end
