(* ===== verification/Recovery_Paging.thy ===== *)
theory Recovery_Paging
  imports Recovery_Log
begin

text \<open>
  Reading a recovery log over HTTP: the handler \<open>get_recovery_records\<close>
  (\<open>services/operator/src/handlers.rs\<close>) answers one page per request, and the client
  (\<open>crates/storage/src/transport.rs\<close>) follows the continuation cursors under limits of its
  own. \<open>fetch\<close> is the transport with its retries; its first argument counts the requests of
  a call, since the log may have grown between two of them. serde\_json is a parameter.
\<close>

subsection \<open>The handler\<close>

record RecoveryRecordsResponse =
  rr_records_hex :: "string list"
  rr_truncated :: bool
  rr_next_cursor :: "u64 option"

definition handle_recovery_page :: "hex_crate \<Rightarrow> RecoveryPage \<Rightarrow> RecoveryRecordsResponse" where
  "handle_recovery_page h page =
     \<lparr>rr_records_hex = map (hex_encode h) (rp_records page), rr_truncated = rp_next_cursor page \<noteq> None,
      rr_next_cursor = rp_next_cursor page\<rparr>"

subsection \<open>The client\<close>

definition HTTP_MAX_RECOVERY_PAGE_BYTES :: nat where "HTTP_MAX_RECOVERY_PAGE_BYTES = 3 * 1024 * 1024"

record http_response =
  content_length :: "nat option"
  chunks :: "bytes list"

definition exceeded :: "nat \<Rightarrow> string \<Rightarrow> StorageError" where
  "exceeded limit label = ServerError 502 (label @ '' exceeds '' @ show_nat limit @ '' byte response limit'')"

fun read_chunks :: "nat \<Rightarrow> string \<Rightarrow> bytes \<Rightarrow> bytes list \<Rightarrow> StorageError + bytes" where
  "read_chunks limit label acc [] = Inr acc"
| "read_chunks limit label acc (chunk # rest) =
     (if limit - length acc < length chunk then Inl (exceeded limit label)
      else read_chunks limit label (acc @ chunk) rest)"

definition read_bounded_response :: "nat \<Rightarrow> string \<Rightarrow> http_response \<Rightarrow> StorageError + bytes" where
  "read_bounded_response limit label response =
     (case content_length response of
        Some n \<Rightarrow> if limit < n then Inl (exceeded limit label) else read_chunks limit label [] (chunks response)
      | None \<Rightarrow> read_chunks limit label [] (chunks response))"

fun push_records :: "hex_crate \<Rightarrow> string list \<Rightarrow> nat \<Rightarrow> bytes list \<Rightarrow> StorageError + nat \<times> bytes list" where
  "push_records h [] total_bytes out = Inr (total_bytes, out)"
| "push_records h (r_hex # rest) total_bytes out =
     rbind (rmap_err (ServerError 500) (hex_decode h r_hex)) (\<lambda>b.
       let total_bytes = min (total_bytes + length b) (2 ^ 64 - 1)
       in if 64 * 1024 * 1024 < total_bytes \<or> 10000 \<le> length out
          then Inl (ServerError 502 ''Recovery log exceeds client limits'')
          else push_records h rest total_bytes (out @ [b]))"

lemma rbind_cong [fundef_cong]:
  "r = r' \<Longrightarrow> (\<And>x. r' = Inr x \<Longrightarrow> f x = f' x) \<Longrightarrow> rbind r f = rbind r' f'"
  by (cases r') simp_all

function get_records_loop ::
  "hex_crate \<Rightarrow> (bytes \<Rightarrow> string + RecoveryRecordsResponse) \<Rightarrow> (nat \<Rightarrow> u64 \<Rightarrow> StorageError + http_response) \<Rightarrow>
   nat \<Rightarrow> u64 \<Rightarrow> nat \<Rightarrow> bytes list \<Rightarrow> StorageError + bytes list" where
  "get_records_loop h from_slice fetch i cursor total_bytes out =
     rbind (fetch i cursor) (\<lambda>resp.
     rbind (read_bounded_response HTTP_MAX_RECOVERY_PAGE_BYTES ''Recovery page'' resp) (\<lambda>body_bytes.
     rbind (rmap_err (ServerError 502) (from_slice body_bytes)) (\<lambda>body.
     rbind (push_records h (rr_records_hex body) total_bytes out) (\<lambda>(total_bytes, out).
       case rr_next_cursor body of
         Some next \<Rightarrow>
           if cursor < next \<and> next \<le> 64 * 1024 * 1024
           then get_records_loop h from_slice fetch (i + 1) next total_bytes out
           else Inl (ServerError 502 ''Invalid recovery continuation cursor'')
       | None \<Rightarrow>
           if rr_truncated body
           then Inl (ServerError 502 ''Incomplete legacy recovery response; upgrade operator for pagination'')
           else Inr out))))"
  by pat_completeness auto
termination
  by (relation "measure (\<lambda>(_, _, _, _, cursor, _). 64 * 1024 * 1024 - unat cursor)")
    (auto simp: word_less_nat_alt word_le_nat_alt)

declare get_records_loop.simps [simp del]

definition get_recovery_records ::
  "hex_crate \<Rightarrow> (bytes \<Rightarrow> string + RecoveryRecordsResponse) \<Rightarrow> (nat \<Rightarrow> u64 \<Rightarrow> StorageError + http_response) \<Rightarrow>
   StorageError + bytes list" where
  "get_recovery_records h from_slice fetch = get_records_loop h from_slice fetch 0 0 0 []"

subsection \<open>One page\<close>

lemma page_step:
  assumes "valid_record limit r"
  shows "page_loop limit (pre @ frame r @ rest) (length pre) nbytes records =
    (if RECOVERY_PAGE_BYTES < nbytes + length r \<and> records \<noteq> [] then Inr (records, length pre)
     else page_loop limit (pre @ frame r @ rest) (length (pre @ frame r)) (nbytes + length r) (records @ [r]))"
proof -
  have "drop (length pre) (pre @ frame r @ rest) = frame r @ rest" by simp
  with read_frame(1)[OF assms, of rest] read_frame(2)[OF assms] assms show ?thesis
    by (subst page_loop.simps) (auto simp: valid_record_def add.assoc Let_def)
qed

definition total_len :: "bytes list \<Rightarrow> nat" where
  "total_len rs = sum_list (map length rs)"

lemma total_len_simps [simp]:
  "total_len [] = 0" "total_len (r # rs) = length r + total_len rs" "total_len (rs @ rs') = total_len rs + total_len rs'"
  by (simp_all add: total_len_def)

lemma length_log_of: "length (log_of rs) = 4 * length rs + total_len rs"
  by (induction rs) simp_all

text \<open>The size of a page, on any contents of the file.\<close>

lemma page_loop_bounds:
  assumes "page_loop limit content offset nbytes records = Inr (out, off)" "nbytes = total_len records"
    and "total_len records \<le> RECOVERY_PAGE_BYTES \<or> length records \<le> 1"
  shows "(total_len out \<le> RECOVERY_PAGE_BYTES \<or> length out \<le> 1) \<and>
    (\<exists>new. out = records @ new \<and> (\<forall>r\<in>set new. 0 < length r \<and> length r \<le> limit) \<and>
      off = offset + length (log_of new) \<and> (new = [] \<or> off \<le> length content) \<and> (off < length content \<longrightarrow> out \<noteq> []))"
  using assms
proof (induction limit content offset nbytes records rule: page_loop.induct)
  case (1 limit content offset nbytes records)
  show ?case
  proof (cases "offset < length content")
    case False
    then show ?thesis using 1(2-) by (subst (asm) page_loop.simps) auto
  next
    case True
    obtain len_bytes rest where p: "read_exact 4 (drop offset content) = Some (len_bytes, rest)"
      using 1(2) True by (subst (asm) page_loop.simps) (auto split: option.splits)
    let ?len = "unat (from_be_bytes len_bytes)"
    have ok: "\<not> (?len = 0 \<or> limit < ?len \<or> length content < offset + 4 + ?len)"
      using 1(2) True p by (subst (asm) page_loop.simps) (auto simp: Let_def split: if_splits)
    show ?thesis
    proof (cases "RECOVERY_PAGE_BYTES < nbytes + ?len \<and> records \<noteq> []")
      case stop: True
      then show ?thesis using 1(2-) True p ok by (subst (asm) page_loop.simps) (auto simp: Let_def)
    next
      case go: False
      have loop: "page_loop limit content (offset + 4 + ?len) (nbytes + ?len) (records @ [take ?len rest]) = Inr (out, off)"
        using 1(2) True p ok go by (subst (asm) page_loop.simps) (auto simp: Let_def)
      have "rest = drop (offset + 4) content" using p by (auto simp: read_exact_def add.commute split: if_splits)
      then have len: "length (take ?len rest) = ?len" using ok by auto
      have "nbytes + ?len = total_len (records @ [take ?len rest])"
        "total_len (records @ [take ?len rest]) \<le> RECOVERY_PAGE_BYTES \<or> length (records @ [take ?len rest]) \<le> 1"
        using 1(3) go len by auto
      note IH = 1(1)[OF True p refl refl ok go loop this]
      from conjunct2[OF IH] obtain new where new: "out = (records @ [take ?len rest]) @ new \<and>
          (\<forall>r\<in>set new. 0 < length r \<and> length r \<le> limit) \<and> off = offset + 4 + ?len + length (log_of new) \<and>
          (new = [] \<or> off \<le> length content) \<and> (off < length content \<longrightarrow> out \<noteq> [])" by (rule exE)
      have out: "out = records @ (take ?len rest # new)" "out \<noteq> []" using new by simp_all
      have "0 < length (take ?len rest) \<and> length (take ?len rest) \<le> limit" unfolding len using ok by auto
      then have sizes: "\<forall>r\<in>set (take ?len rest # new). 0 < length r \<and> length r \<le> limit" using new by simp
      have off: "off = offset + length (log_of (take ?len rest # new))" using new len by simp
      have fit: "off \<le> length content"
      proof (cases "new = []")
        case True
        then have "off = offset + 4 + ?len" using new by simp
        then show ?thesis using ok by linarith
      qed (use new in blast)
      from conjunct1[OF IH] out sizes off fit show ?thesis by blast
    qed
  qed
qed

lemma page_torn:
  assumes "torn limit t" "t \<noteq> []"
  shows "\<exists>e. page_loop limit (pre @ t) (length pre) nbytes records = Inl e"
proof (cases "read_exact 4 t")
  case None
  with assms(2) show ?thesis by (subst page_loop.simps) simp
next
  case (Some p)
  then obtain len_bytes rest where p: "read_exact 4 t = Some (len_bytes, rest)" by (cases p) simp
  then have "t = len_bytes @ rest" "length len_bytes = 4" by (auto simp: read_exact_def split: if_splits)
  moreover obtain r where "valid_record limit r" "len_bytes = to_be_bytes (word_of_nat (length r))" "length rest < length r"
    using read_torn[OF assms(1) p] by blast
  ultimately show ?thesis using p assms(2) read_frame(2)[of limit r]
    by (subst page_loop.simps) simp
qed

text \<open>
  From the boundary after \<open>pre\<close>, a page has the next records, at least one when there are
  any; it is refused only when it runs into a torn tail.
\<close>

lemma page_log:
  assumes "\<forall>r\<in>set rest. valid_record limit r" "torn limit t"
  shows "(\<exists>m\<le>length rest. page_loop limit (pre @ log_of rest @ t) (length pre) nbytes records =
      Inr (records @ take m rest, length pre + length (log_of (take m rest))) \<and>
      (m < length rest \<or> t = []) \<and> (records = [] \<longrightarrow> rest \<noteq> [] \<longrightarrow> 0 < m)) \<or>
    t \<noteq> [] \<and> (\<exists>e. page_loop limit (pre @ log_of rest @ t) (length pre) nbytes records = Inl e)"
  using assms(1)
proof (induction rest arbitrary: pre nbytes records)
  case Nil
  show ?case
  proof (cases "t = []")
    case True
    then show ?thesis by (subst page_loop.simps) simp
  next
    case False
    with page_torn[OF assms(2)] show ?thesis by simp
  qed
next
  case (Cons r rest)
  then have r: "valid_record limit r" by simp
  let ?file = "pre @ log_of (r # rest) @ t"
  have step: "page_loop limit ?file (length pre) nbytes records =
    (if RECOVERY_PAGE_BYTES < nbytes + length r \<and> records \<noteq> [] then Inr (records, length pre)
     else page_loop limit ((pre @ frame r) @ log_of rest @ t) (length (pre @ frame r)) (nbytes + length r) (records @ [r]))"
    using page_step[OF r, of pre "log_of rest @ t" nbytes records] by simp
  show ?case
  proof (cases "RECOVERY_PAGE_BYTES < nbytes + length r \<and> records \<noteq> []")
    case True
    then show ?thesis unfolding step by (intro disjI1 exI[of _ 0]) simp
  next
    case False
    have "\<forall>a\<in>set rest. valid_record limit a" using Cons.prems by simp
    note IH = Cons.IH[OF this, of "pre @ frame r" "nbytes + length r" "records @ [r]", folded step[unfolded if_not_P[OF False]]]
    then consider (page) m where "m \<le> length rest" "m < length rest \<or> t = []"
        "page_loop limit ?file (length pre) nbytes records =
          Inr ((records @ [r]) @ take m rest, length (pre @ frame r) + length (log_of (take m rest)))"
      | (refused) "t \<noteq> [] \<and> (\<exists>e. page_loop limit ?file (length pre) nbytes records = Inl e)" by blast
    then show ?thesis
    proof cases
      case (page m)
      then show ?thesis by (intro disjI1 exI[of _ "Suc m"]) auto
    qed simp
  qed
qed

subsection \<open>The transport and the JSON crate\<close>

text \<open>A response arrives in any chunks, with or without a length header.\<close>

definition delivers :: "http_response \<Rightarrow> bytes \<Rightarrow> bool" where
  "delivers resp body \<longleftrightarrow> concat (chunks resp) = body \<and> content_length resp \<in> {None, Some (length body)}"

lemma read_chunks_fits:
  "length acc + length (concat cs) \<le> limit \<Longrightarrow> read_chunks limit label acc cs = Inr (acc @ concat cs)"
  by (induction cs arbitrary: acc) auto

lemma read_bounded_delivered:
  "delivers resp body \<Longrightarrow> length body \<le> limit \<Longrightarrow> read_bounded_response limit label resp = Inr body"
  by (auto simp: delivers_def read_bounded_response_def read_chunks_fits)

lemma read_chunks_bounded:
  "length acc \<le> limit \<Longrightarrow> read_chunks limit label acc cs = Inr body \<Longrightarrow> body = acc @ concat cs \<and> length body \<le> limit"
proof (induction cs arbitrary: acc)
  case (Cons c cs)
  then have "length (acc @ c) \<le> limit" "read_chunks limit label (acc @ c) cs = Inr body" by (auto split: if_splits)
  from Cons.IH[OF this] show ?case by auto
qed simp

text \<open>
  serde\_json reads back what it wrote, and writes a response in at most 100 bytes beside
  the texts of the records, each with two quotes and a comma.
\<close>

definition page_json_ok ::
  "hex_crate \<Rightarrow> (RecoveryRecordsResponse \<Rightarrow> bytes) \<Rightarrow> (bytes \<Rightarrow> string + RecoveryRecordsResponse) \<Rightarrow> bool" where
  "page_json_ok h to_vec from_slice \<longleftrightarrow>
     (\<forall>page. from_slice (to_vec (handle_recovery_page h page)) = Inr (handle_recovery_page h page) \<and>
        length (to_vec (handle_recovery_page h page)) \<le> 100 + (\<Sum>r\<leftarrow>rp_records page. length (hex_encode h r) + 3))"

text \<open>What the operator answers to request number \<open>i\<close>, when its files are then \<open>s i\<close>.\<close>

definition served_page ::
  "hex_crate \<Rightarrow> string option \<Rightarrow> string \<Rightarrow> string \<Rightarrow> (nat \<Rightarrow> fs) \<Rightarrow> nat \<Rightarrow> u64 \<Rightarrow> (string, RecoveryPage) outcome" where
  "served_page h var data_dir locator_hex s i cursor =
     fst (get_recovery_page h var data_dir locator_hex cursor \<lparr>w_fs = s i, w_faults = [], w_random = []\<rparr>)"

definition connected ::
  "(RecoveryRecordsResponse \<Rightarrow> bytes) \<Rightarrow> hex_crate \<Rightarrow> (nat \<Rightarrow> u64 \<Rightarrow> (string, RecoveryPage) outcome) \<Rightarrow>
   (nat \<Rightarrow> u64 \<Rightarrow> StorageError + http_response) \<Rightarrow> bool" where
  "connected to_vec h server fetch \<longleftrightarrow> (\<forall>i cursor.
     case server i cursor of
       Done page \<Rightarrow> \<exists>resp. fetch i cursor = Inr resp \<and> delivers resp (to_vec (handle_recovery_page h page))
     | Err e \<Rightarrow> fetch i cursor = Inl (ServerError 400 e)
     | Crashed \<Rightarrow> \<exists>e. fetch i cursor = Inl e)"

subsection \<open>Pages of a log\<close>

text \<open>A page from the boundary after \<open>sofar\<close> of a log that holds \<open>sofar @ rest\<close>.\<close>

lemma served_page_log:
  assumes log: "holds_log (max_recovery_record_size var) (sofar @ rest) (s i (path_components (log_path data_dir locator_hex)))"
    and loc: "decodes_to h 32 locator_hex" "\<not> under_file (s i) (path_components (log_path data_dir locator_hex))"
    and cursor: "unat cursor = length (log_of sofar)"
  obtains e where "served_page h var data_dir locator_hex s i cursor = Err e"
      "s i (path_components (log_path data_dir locator_hex)) \<noteq> Some (File (log_of (sofar @ rest)))"
      "s i (path_components (log_path data_dir locator_hex)) \<noteq> None"
  | m where "m \<le> length rest" "rest \<noteq> [] \<longrightarrow> 0 < m" "total_len (take m rest) \<le> RECOVERY_PAGE_BYTES \<or> length (take m rest) \<le> 1"
      "served_page h var data_dir locator_hex s i cursor =
        Done \<lparr>rp_records = take m rest,
          rp_next_cursor = (if m < length rest then Some (word_of_nat (length (log_of (sofar @ take m rest)))) else None)\<rparr>"
  using log
proof (cases rule: holds_log_cases)
  case 1
  then have "cursor = 0" using cursor by (simp add: unat_eq_0)
  with 1 loc show ?thesis
    by (intro that(2)[of 0]) (simp_all add: served_page_def get_recovery_page_def io_catch_def read_file_bytes_def run_sys
        lookup_def missing_def io_return_def)
next
  case (2 t)
  let ?limit = "max_recovery_record_size var" and ?file = "log_of (sofar @ rest) @ t"
  have served: "served_page h var data_dir locator_hex s i cursor =
      (case page_loop ?limit ?file (length (log_of sofar)) 0 [] of
         Inl e \<Rightarrow> Err e
       | Inr (records, offset) \<Rightarrow> Done \<lparr>rp_records = records,
           rp_next_cursor = (if offset < length ?file then Some (word_of_nat offset) else None)\<rparr>)"
    using 2 loc cursor
    by (auto simp: served_page_def get_recovery_page_def io_catch_def read_file_bytes_def run_sys lookup_def
        io_lift_def io_return_def io_fail_def split: sum.splits)
  have "\<forall>r\<in>set rest. valid_record ?limit r" using log by (simp add: holds_log_def)
  from page_log[OF this 2(2), of "log_of sofar" 0 "[]"]
  consider (page) m where "m \<le> length rest" "m < length rest \<or> t = []" "rest \<noteq> [] \<longrightarrow> 0 < m"
      "page_loop ?limit ?file (length (log_of sofar)) 0 [] =
        Inr (take m rest, length (log_of sofar) + length (log_of (take m rest)))"
    | (refused) e where "t \<noteq> []" "page_loop ?limit ?file (length (log_of sofar)) 0 [] = Inl e" by auto
  then show ?thesis
  proof cases
    case (page m)
    have "length (log_of sofar) + length (log_of (take m rest)) < length ?file \<longleftrightarrow> m < length rest"
    proof (cases "m < length rest")
      case True
      then have "log_of rest = log_of (take m rest) @ frame (rest ! m) @ log_of (drop (Suc m) rest)"
        by (metis id_take_nth_drop log_of_simps(2,3))
      with True show ?thesis by simp
    qed (use page in simp)
    moreover have "total_len (take m rest) \<le> RECOVERY_PAGE_BYTES \<or> length (take m rest) \<le> 1"
      using page_loop_bounds[OF page(4)] by simp
    ultimately show ?thesis using page by (intro that(2)[of m]) (auto simp: served)
  next
    case (refused e)
    with 2 show ?thesis by (intro that(1)[of e]) (simp_all add: served)
  qed
qed

lemma push_records_fits:
  assumes "hex_ok h" "n + total_len rs \<le> 64 * 1024 * 1024" "length out + length rs \<le> 10000"
  shows "push_records h (map (hex_encode h) rs) n out = Inr (n + total_len rs, out @ rs)"
  using assms(2,3)
proof (induction rs arbitrary: n out)
  case (Cons r rs)
  then have "min (n + length r) (2 ^ 64 - 1) = n + length r" by (simp add: min_def)
  with Cons Cons.IH[of "n + length r" "out @ [r]"] show ?case by (simp add: hex_decode_encode[OF assms(1)] Let_def)
qed simp

text \<open>The answer to a page in JSON fits into what the client reads.\<close>

lemma page_json_fits:
  assumes "hex_ok h" "page_json_ok h to_vec from_slice" "total_len (rp_records page) \<le> RECOVERY_PAGE_BYTES"
    and "length (rp_records page) \<le> MAX_RECORDS_PER_LOCATOR"
  shows "length (to_vec (handle_recovery_page h page)) \<le> HTTP_MAX_RECOVERY_PAGE_BYTES"
proof -
  have "(\<Sum>r\<leftarrow>rs. length (hex_encode h r) + 3) = 2 * total_len rs + 3 * length rs" for rs
    by (induction rs) (simp_all add: hex_length[OF assms(1)])
  then have "length (to_vec (handle_recovery_page h page)) \<le>
      100 + 2 * total_len (rp_records page) + 3 * length (rp_records page)"
    using assms(2) unfolding page_json_ok_def by (metis add.assoc)
  then show ?thesis using assms(3,4)
    by (simp add: RECOVERY_PAGE_BYTES_def MAX_RECORDS_PER_LOCATOR_def HTTP_MAX_RECOVERY_PAGE_BYTES_def)
qed

subsection \<open>Following the cursors\<close>

text \<open>The log at each request: it holds \<open>rs i\<close> and has grown since the request before.\<close>

definition growing_log :: "nat \<Rightarrow> Component list \<Rightarrow> (nat \<Rightarrow> fs) \<Rightarrow> (nat \<Rightarrow> bytes list) \<Rightarrow> bool" where
  "growing_log limit p s rs \<longleftrightarrow>
     (\<forall>i. holds_log limit (rs i) (s i p) \<and> \<not> under_file (s i) p \<and> prefix (rs i) (rs (Suc i)))"

text \<open>The tail that an interrupted append left.\<close>

definition torn_at :: "Component list \<Rightarrow> (nat \<Rightarrow> fs) \<Rightarrow> (nat \<Rightarrow> bytes list) \<Rightarrow> nat \<Rightarrow> bool" where
  "torn_at p s rs i \<longleftrightarrow> s i p \<noteq> None \<and> s i p \<noteq> Some (File (log_of (rs i)))"

lemma holds_log_size: "holds_log limit rs node \<Longrightarrow> length (log_of rs) \<le> MAX_RECOVERY_LOG_BYTES \<and> length rs \<le> MAX_RECORDS_PER_LOCATOR"
  by (auto simp: holds_log_def split: option.splits node.splits)

lemma served_page_fits:
  assumes "holds_log limit (out @ rest) node" "limit \<le> RECOVERY_PAGE_BYTES" "m \<le> length rest"
    and "total_len (take m rest) \<le> RECOVERY_PAGE_BYTES \<or> length (take m rest) \<le> 1"
  shows "total_len (take m rest) \<le> RECOVERY_PAGE_BYTES" "length (take m rest) \<le> MAX_RECORDS_PER_LOCATOR"
proof -
  have "total_len (take m rest) \<le> RECOVERY_PAGE_BYTES" if "length (take m rest) \<le> 1"
  proof (cases "take m rest")
    case (Cons r rs)
    then have "r \<in> set rest" by (metis in_set_takeD list.set_intros(1))
    then have "length r \<le> limit" using assms(1) by (simp add: holds_log_def valid_record_def)
    then show ?thesis using Cons that assms(2) by simp
  qed auto
  then show "total_len (take m rest) \<le> RECOVERY_PAGE_BYTES" using assms(4) by blast
  show "length (take m rest) \<le> MAX_RECORDS_PER_LOCATOR" using assms(1) by (auto simp: holds_log_def)
qed

lemma client_step:
  assumes h: "hex_ok h" and json: "page_json_ok h to_vec from_slice"
    and conn: "connected to_vec h (served_page h var data_dir locator_hex s) fetch"
    and log: "holds_log (max_recovery_record_size var) (out @ rest) (s i (path_components (log_path data_dir locator_hex)))"
    and loc: "decodes_to h 32 locator_hex" "\<not> under_file (s i) (path_components (log_path data_dir locator_hex))"
    and limit: "max_recovery_record_size var \<le> RECOVERY_PAGE_BYTES"
  defines "cursor \<equiv> word_of_nat (length (log_of out))"
  shows "(\<exists>e. get_records_loop h from_slice fetch i cursor (total_len out) out = Inl e) \<and>
      s i (path_components (log_path data_dir locator_hex)) \<noteq> Some (File (log_of (out @ rest))) \<and>
      s i (path_components (log_path data_dir locator_hex)) \<noteq> None \<or>
    get_records_loop h from_slice fetch i cursor (total_len out) out = Inr (out @ rest) \<or>
    (\<exists>m. 0 < m \<and> m < length rest \<and> get_records_loop h from_slice fetch i cursor (total_len out) out =
      get_records_loop h from_slice fetch (i + 1) (word_of_nat (length (log_of (out @ take m rest))))
        (total_len (out @ take m rest)) (out @ take m rest))"
proof -
  have size: "length (log_of (out @ rest)) \<le> 64 * 1024 * 1024" "length (out @ rest) \<le> 10000"
    using holds_log_size[OF log] by (simp_all add: MAX_RECOVERY_LOG_BYTES_def MAX_RECORDS_PER_LOCATOR_def)
  have small: "length (log_of (out @ take n rest)) \<le> 64 * 1024 * 1024" for n
  proof -
    have "length (log_of rest) = length (log_of (take n rest)) + length (log_of (drop n rest))"
      by (metis append_take_drop_id length_append log_of_simps(3))
    then show ?thesis using size(1) by simp
  qed
  have unat: "unat (word_of_nat (length (log_of (out @ take n rest))) :: u64) = length (log_of (out @ take n rest))" for n
  proof -
    have "length (log_of (out @ take n rest)) < 2 ^ LENGTH(64)" by (rule le_less_trans[OF small]) simp
    then show ?thesis by (simp only: unat_of_nat mod_less)
  qed
  have cur: "unat cursor = length (log_of out)" using unat[of 0] by (simp add: cursor_def)
  have answer: "case served_page h var data_dir locator_hex s i cursor of
       Done page \<Rightarrow> \<exists>resp. fetch i cursor = Inr resp \<and> delivers resp (to_vec (handle_recovery_page h page))
     | Err e \<Rightarrow> fetch i cursor = Inl (ServerError 400 e)
     | Crashed \<Rightarrow> \<exists>e. fetch i cursor = Inl e"
    using conn by (simp add: connected_def)
  from log loc cur show ?thesis
  proof (cases rule: served_page_log[where s = s and i = i])
    case (1 e)
    then have "fetch i cursor = Inl (ServerError 400 e)" using answer by simp
    then have "get_records_loop h from_slice fetch i cursor (total_len out) out = Inl (ServerError 400 e)"
      by (subst get_records_loop.simps) simp
    with 1 show ?thesis by blast
  next
    case (2 m)
    define nxt :: u64 where "nxt = word_of_nat (length (log_of (out @ take m rest)))"
    define page where "page = \<lparr>rp_records = take m rest, rp_next_cursor = (if m < length rest then Some nxt else None)\<rparr>"
    have answered: "served_page h var data_dir locator_hex s i cursor = Done page"
      using 2(4) by (simp only: page_def nxt_def)
    have fields: "rr_records_hex (handle_recovery_page h page) = map (hex_encode h) (take m rest)"
      "rr_next_cursor (handle_recovery_page h page) = (if m < length rest then Some nxt else None)"
      "rr_truncated (handle_recovery_page h page) \<longleftrightarrow> m < length rest"
      by (simp_all add: page_def handle_recovery_page_def)
    obtain resp where resp: "fetch i cursor = Inr resp" "delivers resp (to_vec (handle_recovery_page h page))"
      using answer answered by auto
    have "length (to_vec (handle_recovery_page h page)) \<le> HTTP_MAX_RECOVERY_PAGE_BYTES"
      using page_json_fits[OF h json, of page] served_page_fits[OF log limit 2(1,3)] by (simp add: page_def)
    note body = read_bounded_delivered[OF resp(2) this, of "''Recovery page''"]
    have parsed: "from_slice (to_vec (handle_recovery_page h page)) = Inr (handle_recovery_page h page)"
      using json by (simp add: page_json_ok_def)
    have rest: "total_len rest = total_len (take m rest) + total_len (drop m rest)"
      by (metis append_take_drop_id total_len_simps(3))
    have push: "push_records h (map (hex_encode h) (take m rest)) (total_len out) out =
        Inr (total_len (out @ take m rest), out @ take m rest)"
      using push_records_fits[OF h, of "total_len out" "take m rest" out] size rest 2(1) by (simp add: length_log_of)
    have loop: "get_records_loop h from_slice fetch i cursor (total_len out) out =
      (if m < length rest
       then if cursor < nxt \<and> nxt \<le> 64 * 1024 * 1024
         then get_records_loop h from_slice fetch (i + 1) nxt (total_len (out @ take m rest)) (out @ take m rest)
         else Inl (ServerError 502 ''Invalid recovery continuation cursor'')
       else Inr (out @ take m rest))"
      by (subst get_records_loop.simps) (simp add: resp(1) body parsed fields push)
    show ?thesis
    proof (cases "m < length rest")
      case True
      then have "0 < m" using 2(2) by auto
      then have "log_of (take m rest) \<noteq> []" using True by (cases rest; cases m) (auto simp: frame_def to_be_bytes_def le_bytes_def)
      then have "cursor < nxt \<and> nxt \<le> 64 * 1024 * 1024"
        using cur unat[of m] small[of m] by (simp add: nxt_def word_less_nat_alt word_le_nat_alt)
      with loop True \<open>0 < m\<close> show ?thesis unfolding nxt_def by auto
    next
      case False
      with loop 2(1) show ?thesis by simp
    qed
  qed
qed

lemma growing_log_prefix: "growing_log limit p s rs \<Longrightarrow> i \<le> j \<Longrightarrow> prefix (rs i) (rs j)"
proof (induction j)
  case (Suc j)
  then show ?case by (cases "i = Suc j") (auto simp: growing_log_def le_Suc_eq intro: prefix_order.trans)
qed simp

lemma client_loop:
  assumes h: "hex_ok h" and json: "page_json_ok h to_vec from_slice"
    and conn: "connected to_vec h (served_page h var data_dir locator_hex s) fetch"
    and loc: "decodes_to h 32 locator_hex"
    and log: "growing_log (max_recovery_record_size var) (path_components (log_path data_dir locator_hex)) s rs"
    and limit: "max_recovery_record_size var \<le> RECOVERY_PAGE_BYTES"
    and out: "prefix out (rs i)"
  shows "(\<exists>j. get_records_loop h from_slice fetch i (word_of_nat (length (log_of out))) (total_len out) out = Inr (rs j)) \<or>
    (\<exists>j e. torn_at (path_components (log_path data_dir locator_hex)) s rs j \<and>
      get_records_loop h from_slice fetch i (word_of_nat (length (log_of out))) (total_len out) out = Inl e)"
  using out
proof (induction "MAX_RECORDS_PER_LOCATOR - length out" arbitrary: out i rule: less_induct)
  case less
  obtain rest where rest: "rs i = out @ rest" using less.prems by (auto simp: prefix_def)
  have i: "holds_log (max_recovery_record_size var) (out @ rest) (s i (path_components (log_path data_dir locator_hex)))"
    "\<not> under_file (s i) (path_components (log_path data_dir locator_hex))"
    using log rest by (simp_all add: growing_log_def flip: rest)
  consider (refused) e where "get_records_loop h from_slice fetch i (word_of_nat (length (log_of out))) (total_len out) out = Inl e"
      "s i (path_components (log_path data_dir locator_hex)) \<noteq> Some (File (log_of (out @ rest)))"
      "s i (path_components (log_path data_dir locator_hex)) \<noteq> None"
    | (complete) "get_records_loop h from_slice fetch i (word_of_nat (length (log_of out))) (total_len out) out = Inr (out @ rest)"
    | (more) m where "0 < m" "m < length rest"
      "get_records_loop h from_slice fetch i (word_of_nat (length (log_of out))) (total_len out) out =
        get_records_loop h from_slice fetch (i + 1) (word_of_nat (length (log_of (out @ take m rest))))
          (total_len (out @ take m rest)) (out @ take m rest)"
    using client_step[OF h json conn i(1) loc i(2) limit] by blast
  then show ?case
  proof cases
    case refused
    then show ?thesis using rest by (auto simp: torn_at_def)
  next
    case complete
    then show ?thesis using rest by metis
  next
    case (more m)
    have "length (out @ rest) \<le> MAX_RECORDS_PER_LOCATOR" using holds_log_size[OF i(1)] by simp
    then have "MAX_RECORDS_PER_LOCATOR - length (out @ take m rest) < MAX_RECORDS_PER_LOCATOR - length out"
      using more(1,2) by simp
    moreover have "prefix (out @ take m rest) (rs (i + 1))"
    proof -
      have "prefix (out @ take m rest) (rs i)" unfolding rest by (simp add: take_is_prefix)
      also have "prefix (rs i) (rs (i + 1))" using growing_log_prefix[OF log, of i "i + 1"] by simp
      finally show ?thesis .
    qed
    ultimately show ?thesis unfolding more(3) by (rule less.hyps)
  qed
qed


text \<open>
  C14. The bounds of a page, whatever the log file contains. A page has at most one MiB of
  records, or a single record; no record is empty or above the limit; the continuation
  cursor lies right after the frames of the page, inside of the file, and comes only with
  a page that has records, so that following it ends.
\<close>

theorem recovery_page_bounds:
  assumes "get_recovery_page h var data_dir locator_hex cursor w = (Done page, w')"
  shows "(total_len (rp_records page) \<le> RECOVERY_PAGE_BYTES \<or> length (rp_records page) \<le> 1) \<and>
    (\<forall>r\<in>set (rp_records page). 0 < length r \<and> length r \<le> max_recovery_record_size var) \<and>
    (\<forall>next_cursor. rp_next_cursor page = Some next_cursor \<longrightarrow>
       rp_records page \<noteq> [] \<and> unat next_cursor = unat cursor + length (log_of (rp_records page)) \<and>
       unat next_cursor < MAX_RECOVERY_LOG_BYTES)"
proof -
  have "page = \<lparr>rp_records = [], rp_next_cursor = None\<rparr> \<or>
    (\<exists>content records off. length content \<le> MAX_RECOVERY_LOG_BYTES \<and> unat cursor \<le> length content \<and>
      page_loop (max_recovery_record_size var) content (unat cursor) 0 [] = Inr (records, off) \<and>
      page = \<lparr>rp_records = records, rp_next_cursor = (if off < length content then Some (word_of_nat off) else None)\<rparr>)"
  proof -
    obtain r w1 where r: "read_file_bytes (log_path data_dir locator_hex) w = (r, w1)" by fastforce
    have loc: "decodes_to h 32 locator_hex"
      by (rule ccontr) (use assms in \<open>simp add: get_recovery_page_def io_fail_def\<close>)
    show ?thesis
    proof (cases r)
      case (Done content)
      let ?r = "page_loop (max_recovery_record_size var) content (unat cursor) 0 []"
      have size: "length content \<le> MAX_RECOVERY_LOG_BYTES" "unat cursor \<le> length content"
        by (rule ccontr, use assms loc r Done in \<open>simp add: get_recovery_page_def io_catch_def io_fail_def\<close>)+
      show ?thesis
      proof (cases ?r)
        case (Inl e)
        with assms loc r Done size show ?thesis
          by (simp add: get_recovery_page_def io_catch_def io_lift_def io_fail_def)
      next
        case (Inr x)
        obtain records off where x: "x = (records, off)" by fastforce
        with assms loc r Done size Inr
        have "page = \<lparr>rp_records = records, rp_next_cursor = (if off < length content then Some (word_of_nat off) else None)\<rparr>"
          by (simp add: get_recovery_page_def io_catch_def io_lift_def io_return_def)
        with size Inr x show ?thesis by blast
      qed
    next
      case (Err e)
      with assms loc r show ?thesis
        by (cases e) (auto simp: get_recovery_page_def io_catch_def io_fail_def io_return_def split: if_splits)
    next
      case Crashed
      with assms loc r show ?thesis by (simp add: get_recovery_page_def io_catch_def)
    qed
  qed
  then show ?thesis
  proof (elim disjE exE conjE)
    fix content records off
    assume size: "length content \<le> MAX_RECOVERY_LOG_BYTES"
      and loop: "page_loop (max_recovery_record_size var) content (unat cursor) 0 [] = Inr (records, off)"
      and page: "page = \<lparr>rp_records = records, rp_next_cursor = (if off < length content then Some (word_of_nat off) else None)\<rparr>"
    from page_loop_bounds[OF loop] have bounds: "total_len records \<le> RECOVERY_PAGE_BYTES \<or> length records \<le> 1"
      "\<forall>r\<in>set records. 0 < length r \<and> length r \<le> max_recovery_record_size var"
      "off = unat cursor + length (log_of records)" "off < length content \<longrightarrow> records \<noteq> []" by auto
    have "unat (word_of_nat off :: u64) = off" if "off < length content"
    proof -
      have "off < 2 ^ LENGTH(64)" using that size by (simp add: MAX_RECOVERY_LOG_BYTES_def)
      then show ?thesis by (simp only: unat_of_nat mod_less)
    qed
    with bounds size show ?thesis by (auto simp: page split: if_splits)
  qed simp
qed

subsection \<open>An example\<close>

text \<open>A concrete encoding of the responses: texts ended by zero bytes, then the two fields.\<close>

definition to_vec_std :: "RecoveryRecordsResponse \<Rightarrow> bytes" where
  "to_vec_std resp = concat (map (\<lambda>s. 1 # as_bytes s @ [0]) (rr_records_hex resp)) @
     0 # (if rr_truncated resp then 1 else 0) # (case rr_next_cursor resp of None \<Rightarrow> [] | Some c \<Rightarrow> le64 c)"

function read_texts :: "bytes \<Rightarrow> (string list \<times> bytes) option" where
  "read_texts [] = None"
| "read_texts (b # bs) =
     (if b = 0 then Some ([], bs)
      else let t = takeWhile (\<lambda>x. x \<noteq> 0) bs
           in map_option (\<lambda>(ts, rest). (map (\<lambda>x. char_of (unat x)) t # ts, rest)) (read_texts (drop (Suc (length t)) bs)))"
  by pat_completeness auto
termination
  by (relation "measure length") auto

definition from_slice_std :: "bytes \<Rightarrow> string + RecoveryRecordsResponse" where
  "from_slice_std bs =
     (case read_texts bs of
        Some (ts, b # c) \<Rightarrow>
          Inr \<lparr>rr_records_hex = ts, rr_truncated = (b = 1),
               rr_next_cursor = (if c = [] then None else Some (word_of_nat (foldl (\<lambda>a x. 256 * a + unat x) 0 (rev c))))\<rparr>
      | _ \<Rightarrow> Inl ''EOF while parsing a value'')"

lemma hex_chars:
  assumes "c \<in> set hex_digits"
  shows "(of_char c :: byte) \<noteq> 0 \<and> char_of (unat (of_char c :: byte)) = c"
proof -
  have "(of_char c :: byte) = word_of_nat (of_char c)" by (simp only: of_nat_of_char)
  moreover have "of_char c < (2 ^ LENGTH(8) :: nat)" using nat_of_char_less_256[of c] by simp
  ultimately have "unat (of_char c :: byte) = of_char c" by (simp only: unat_of_nat mod_less)
  moreover have "(of_char c :: nat) \<noteq> 0" using assms by (auto simp: hex_digits_def)
  ultimately show ?thesis by (metis char_of_char unat_0)
qed

lemma read_texts_hex:
  assumes "hex_ok h"
  shows "read_texts (concat (map (\<lambda>s. 1 # as_bytes s @ [0]) (map (hex_encode h) rs)) @ 0 # rest) =
    Some (map (hex_encode h) rs, rest)"
proof (induction rs)
  case (Cons r rs)
  let ?more = "concat (map (\<lambda>s. 1 # as_bytes s @ [0]) (map (hex_encode h) rs)) @ 0 # rest"
  have chars: "set (hex_encode h r) \<subseteq> set hex_digits" using hex_set[OF assms] .
  then have "x \<noteq> 0" if "x \<in> set (as_bytes (hex_encode h r))" for x
    using that hex_chars by (auto simp: as_bytes_def)
  then have t: "takeWhile (\<lambda>x. x \<noteq> 0) (as_bytes (hex_encode h r) @ 0 # ?more) = as_bytes (hex_encode h r)"
    by (simp add: takeWhile_append2)
  have "map (\<lambda>x. char_of (unat x)) (as_bytes (hex_encode h r)) = hex_encode h r"
    unfolding as_bytes_def map_map by (rule map_idI) (use chars hex_chars in auto)
  with t Cons show ?case by (simp add: Let_def)
qed simp

lemma page_json_std_ok: "page_json_ok hex_std to_vec_std from_slice_std"
  unfolding page_json_ok_def
proof (intro allI conjI)
  fix page :: RecoveryPage
  have word: "word_of_nat (foldl (\<lambda>a x. 256 * a + unat x) 0 (rev (le64 c))) = c" for c :: u64
  proof -
    have "unat c < 256 ^ 8" using unsigned_less[of c] by simp
    then show ?thesis by (simp add: foldl_le_bytes)
  qed
  have "le64 c \<noteq> []" for c by (simp add: le_bytes_def)
  with word show "from_slice_std (to_vec_std (handle_recovery_page hex_std page)) = Inr (handle_recovery_page hex_std page)"
    using read_texts_hex[OF hex_std_ok, of "rp_records page"]
    by (cases "rp_next_cursor page") (simp_all add: from_slice_std_def to_vec_std_def handle_recovery_page_def)
  have "length (concat (map (\<lambda>s. 1 # as_bytes s @ [0 :: byte]) (map (hex_encode hex_std) rs))) \<le>
      (\<Sum>r\<leftarrow>rs. length (hex_encode hex_std r) + 3)" for rs
    by (induction rs) simp_all
  from this[of "rp_records page"]
  show "length (to_vec_std (handle_recovery_page hex_std page)) \<le>
      100 + (\<Sum>r\<leftarrow>rp_records page. length (hex_encode hex_std r) + 3)"
    by (cases "rp_next_cursor page") (simp_all add: to_vec_std_def handle_recovery_page_def)
qed

definition data_dir_example :: fs where
  "data_dir_example = with_log empty_data_dir log_place [genesis_bytes, cert_bytes] []"

definition fetch_example :: "nat \<Rightarrow> u64 \<Rightarrow> StorageError + http_response" where
  "fetch_example i cursor =
     (case served_page hex_std None ''data'' locator_example (\<lambda>_. data_dir_example) i cursor of
        Done page \<Rightarrow> Inr \<lparr>content_length = None, chunks = [to_vec_std (handle_recovery_page hex_std page)]\<rparr>
      | Err e \<Rightarrow> Inl (ServerError 400 e)
      | Crashed \<Rightarrow> Inl (ServerError 503 ''gone''))"

lemma connected_example:
  "connected to_vec_std hex_std (served_page hex_std None ''data'' locator_example (\<lambda>_. data_dir_example)) fetch_example"
  by (auto simp: connected_def fetch_example_def delivers_def split: outcome.splits)

lemma locator_example_decodes: "decodes_to hex_std 32 locator_example"
  by (simp add: decodes_to_def locator_example_def hex_decode_encode[OF hex_std_ok])

lemma default_record_size: "max_recovery_record_size None = 65536"
  by (simp add: max_recovery_record_size_def operator_limit_from_env_def MAX_RECOVERY_RECORD_SIZE_def)

lemma data_dir_example_log:
  "holds_log 65536 [genesis_bytes, cert_bytes] (data_dir_example log_place)" "\<not> under_file data_dir_example log_place"
  "data_dir_example log_place = Some (File (log_of [genesis_bytes, cert_bytes]))"
  using empty_data_dir_reachable(2)[of "[genesis_bytes, cert_bytes]" "[]"]
  by (simp_all add: data_dir_example_def holds_log_File valid_record_def example_sizes MAX_RECOVERY_LOG_BYTES_def
      MAX_RECORDS_PER_LOCATOR_def log_reachable_def del: length_greater_0_conv)


theorem recovery_page_bounds_witness:
  "\<exists>page w'. get_recovery_page hex_std None ''data'' locator_example 0
      \<lparr>w_fs = data_dir_example, w_faults = [], w_random = []\<rparr> = (Done page, w') \<and> rp_records page \<noteq> [] \<and>
    length (hd (rp_records page)) \<le> max_recovery_record_size None"
proof -
  obtain page where served: "served_page hex_std None ''data'' locator_example (\<lambda>_. data_dir_example) 0 0 = Done page"
    "rp_records page \<noteq> []"
    by (rule served_page_log[where s = "\<lambda>_. data_dir_example" and sofar = "[]" and rest = "[genesis_bytes, cert_bytes]"
          and data_dir = "''data''" and locator_hex = locator_example and var = None and h = hex_std and cursor = 0 and i = 0])
      (use data_dir_example_log locator_example_decodes in \<open>auto simp: default_record_size simp flip: log_place_def\<close>)
  then obtain w' where run: "get_recovery_page hex_std None ''data'' locator_example 0
      \<lparr>w_fs = data_dir_example, w_faults = [], w_random = []\<rparr> = (Done page, w')"
    by (metis prod.collapse served_page_def)
  from recovery_page_bounds[OF run] have "\<forall>r\<in>set (rp_records page). 0 < length r \<and> length r \<le> max_recovery_record_size None"
    by blast
  with run served(2) show ?thesis by (metis hd_in_set)
qed

end
