(* ===== verification/Operator_Disk.thy ===== *)
theory Operator_Disk
  imports Operator_Base
begin

text \<open>
  How the operator keeps its tables on disk (\<open>services/operator/src/state.rs\<close>, lines 1831 to
  1872): a table is written to a temporary file that is renamed over the old one. The
  lemma of this theory says what can be on disk afterwards, under failing system calls and
  kills, and justifies the three outcomes that the other theories of the operator use:
  saved, not saved with an error, and saved although an error is reported.
\<close>

text \<open>\<open>Path::with_extension\<close> for a path that ends in a file name.\<close>

definition with_extension :: "string \<Rightarrow> string \<Rightarrow> string" where
  "with_extension p ext =
     (let name = last (split_char (CHR ''/'') p);
          stem = (if CHR ''.'' \<in> set (tl name) then rev (tl (dropWhile (\<lambda>c. c \<noteq> CHR ''.'') (rev name))) else name)
      in take (length p - length name) p @ stem @ ''.'' @ ext)"

definition temp_path :: "string \<Rightarrow> nat \<Rightarrow> string" where
  "temp_path path r = with_extension path (show_nat r @ ''.tmp'')"

definition replace_file :: "string \<Rightarrow> string \<Rightarrow> bytes \<Rightarrow> (io_error, unit) io" where
  "replace_file path temp bytes =
     io_then (create_new temp)
     (io_then (write_all temp bytes)
     (io_then sync_all
     (io_then (rename temp path)
     sync_all)))"

definition persist_atomic_inner :: "string \<Rightarrow> bytes \<Rightarrow> (string, unit) io" where
  "persist_atomic_inner path bytes =
     io_bind io_random (\<lambda>r.
       let temp = temp_path path r
       in io_catch (replace_file path temp bytes)
            (\<lambda>e. io_catch (remove_file temp) (\<lambda>_. io_fail (show_io_error e)) (\<lambda>_. io_fail (show_io_error e)))
            io_return)"

lemma chl_sys_after:
  assumes "\<And>n. C (part n u)" "\<And>e n. E e (part n u)"
    and "case f u of Inl e \<Rightarrow> E e u | Inr (a, v) \<Rightarrow> Q a v"
  shows "chl F (\<lambda>s. s = u) (sys f part) Q E C"
  using assms by (intro chl_sys_faulty) (auto split: sum.splits)

text \<open>
  Under any faults: a successful call leaves the new contents, any other outcome leaves
  the old or the new contents; nothing but the temporary file is touched beside them.
\<close>

lemma chl_replace_file:
  fixes path temp bytes
  defines "p \<equiv> path_components path" and "t \<equiv> path_components temp"
  assumes "p \<noteq> t" and "s t = None"
  defines "left \<equiv> \<lambda>u. (u p = s p \<or> u p = Some (File bytes)) \<and> (\<forall>q. q \<noteq> p \<longrightarrow> q \<noteq> t \<longrightarrow> u q = s q)"
  shows "chl F (\<lambda>u. u = s) (replace_file path temp bytes) (\<lambda>_ u. u = s(p \<mapsto> File bytes)) (\<lambda>_. left) left"
proof -
  have "left s" by (simp add: left_def)
  then have new: "chl F (\<lambda>u. u = s) (create_new temp) (\<lambda>_ u. u = s(t \<mapsto> File [])) (\<lambda>_. left) left"
    unfolding create_new_def using assms(4) by (intro chl_sys_after) (auto simp: lookup_def t_def)
  have written: "chl F (\<lambda>u. u = s(t \<mapsto> File [])) (write_all temp bytes) (\<lambda>_ u. u = s(t \<mapsto> File bytes)) (\<lambda>_. left) left"
    unfolding write_all_def using assms(3) by (intro chl_sys_after) (auto simp: left_def t_def)
  have sync: "chl F (\<lambda>u. u = s(t \<mapsto> File bytes)) sync_all (\<lambda>_ u. u = s(t \<mapsto> File bytes)) (\<lambda>_. left) left"
    unfolding sync_all_def no_effect_def using assms(3) by (intro chl_sys_after) (auto simp: left_def)
  have moved: "chl F (\<lambda>u. u = s(t \<mapsto> File bytes)) (rename temp path) (\<lambda>_ u. u = s(p \<mapsto> File bytes)) (\<lambda>_. left) left"
    unfolding rename_def using assms(3,4)
    by (intro chl_sys_after) (auto simp: left_def lookup_def fun_eq_iff simp flip: p_def t_def)
  have last: "chl F (\<lambda>u. u = s(p \<mapsto> File bytes)) sync_all (\<lambda>_ u. u = s(p \<mapsto> File bytes)) (\<lambda>_. left) left"
    unfolding sync_all_def no_effect_def by (intro chl_sys_after) (auto simp: left_def)
  show ?thesis unfolding replace_file_def
    by (rule chl_bind[OF new], rule chl_bind[OF written], rule chl_bind[OF sync], rule chl_bind[OF moved], rule last)
qed

lemma chl_persist:
  fixes path bytes
  assumes fresh: "\<And>r. path_components path \<noteq> path_components (temp_path path r) \<and> s (path_components (temp_path path r)) = None"
  defines "left \<equiv> \<lambda>u. (u (path_components path) = s (path_components path) \<or> u (path_components path) = Some (File bytes)) \<and>
    (\<exists>r. \<forall>q. q \<noteq> path_components path \<longrightarrow> q \<noteq> path_components (temp_path path r) \<longrightarrow> u q = s q)"
  shows "chl F (\<lambda>u. u = s) (persist_atomic_inner path bytes) (\<lambda>_ u. u = s(path_components path \<mapsto> File bytes)) (\<lambda>_. left) left"
  unfolding persist_atomic_inner_def Let_def
proof (rule chl_bind[where Q' = "\<lambda>_ u. u = s"])
  show "chl F (\<lambda>u. u = s) io_random (\<lambda>_ u. u = s) (\<lambda>_. left) left" by (rule chl_random) simp
  fix r
  let ?p = "path_components path" and ?t = "path_components (temp_path path r)"
  let ?left = "\<lambda>u. (u ?p = s ?p \<or> u ?p = Some (File bytes)) \<and> (\<forall>q. q \<noteq> ?p \<longrightarrow> q \<noteq> ?t \<longrightarrow> u q = s q)"
  have "chl F ?left (remove_file (temp_path path r)) (\<lambda>_. left) (\<lambda>_. left) left"
    unfolding remove_file_def using fresh[of r]
    by (intro chl_sys_faulty) (auto simp: left_def lookup_def split: option.splits node.splits)
  then have "chl F ?left (io_catch (remove_file (temp_path path r)) (\<lambda>_. io_fail (show_io_error e)) (\<lambda>_. io_fail (show_io_error e)))
      Q (\<lambda>_. left) left" for e and Q :: "unit \<Rightarrow> fs \<Rightarrow> bool"
    by (rule chl_catch) (auto intro: chl_fail)
  note undo = this
  have replaced: "chl F (\<lambda>u. u = s) (replace_file path (temp_path path r) bytes)
      (\<lambda>_ u. u = s(?p \<mapsto> File bytes)) (\<lambda>_. ?left) left"
    by (rule chl_conseq[OF chl_replace_file[of path "temp_path path r" s F bytes]]) (use fresh[of r] in \<open>auto simp: left_def\<close>)
  show "chl F (\<lambda>u. u = s) (io_catch (replace_file path (temp_path path r) bytes)
      (\<lambda>e. io_catch (remove_file (temp_path path r)) (\<lambda>_. io_fail (show_io_error e)) (\<lambda>_. io_fail (show_io_error e)))
      io_return) (\<lambda>_ u. u = s(?p \<mapsto> File bytes)) (\<lambda>_. left) left"
    by (rule chl_catch[OF replaced undo chl_return])
qed

subsection \<open>A table on disk\<close>

text \<open>The outcome of a call of \<open>persist_atomic\<close>, and the file after it.\<close>

datatype saving = Saved | Unsaved string | Saved_late string

fun saving_result :: "saving \<Rightarrow> string + unit" where
  "saving_result Saved = Inr ()"
| "saving_result (Unsaved e) = Inl e"
| "saving_result (Saved_late e) = Inl e"

fun saved_file :: "saving \<Rightarrow> bytes \<Rightarrow> bytes option \<Rightarrow> bytes option" where
  "saved_file Saved new old = Some new"
| "saved_file (Unsaved e) new old = old"
| "saved_file (Saved_late e) new old = Some new"

text \<open>serde\_json on the rows of a table.\<close>

record 'a rows_json =
  rows_write :: "'a list \<Rightarrow> string + bytes"
  rows_read :: "bytes \<Rightarrow> string + 'a list"

definition rows_ok :: "'a rows_json \<Rightarrow> bool" where
  "rows_ok j \<longleftrightarrow> (\<forall>xs. \<exists>bs. rows_write j xs = Inr bs \<and> rows_read j bs = Inr xs)"

definition persist_rows :: "'a rows_json \<Rightarrow> saving \<Rightarrow> 'a list \<Rightarrow> bytes option \<Rightarrow> (string + unit) \<times> bytes option" where
  "persist_rows j saving rows old =
     (case rows_write j rows of
        Inl e \<Rightarrow> (Inl e, old)
      | Inr encoded \<Rightarrow> (saving_result saving, saved_file saving encoded old))"

text \<open>A missing or unreadable file has no rows.\<close>

definition load_rows :: "'a rows_json \<Rightarrow> bytes option \<Rightarrow> 'a list" where
  "load_rows j f = (case f of None \<Rightarrow> [] | Some bytes \<Rightarrow> (case rows_read j bytes of Inl _ \<Rightarrow> [] | Inr rows \<Rightarrow> rows))"

lemma persist_rows_Inr:
  "rows_ok j \<Longrightarrow> persist_rows j saving rows old = (Inr u, f) \<Longrightarrow> load_rows j f = rows"
  by (cases saving) (auto simp: persist_rows_def load_rows_def rows_ok_def split: sum.splits; metis sum.inject(2) sum.distinct(1))+

lemma persist_rows_Inl:
  "rows_ok j \<Longrightarrow> persist_rows j saving rows old = (Inl e, f) \<Longrightarrow> load_rows j f = load_rows j old \<or> load_rows j f = rows"
  by (cases saving) (auto simp: persist_rows_def load_rows_def rows_ok_def split: sum.splits; metis sum.inject(2) sum.distinct(1))+

end
