(* ===== verification/Operator_Auth.thy ===== *)
theory Operator_Auth
  imports Operator_Disk Vouchers
begin

text \<open>
  Challenges, sessions and enrolled identities of the operator
  (\<open>services/operator/src/state.rs\<close>, lines 218 to 318, 545 to 852 and 1073 to 1481). The
  state has the tables in memory and the three files that hold them; a hash map is an
  association list. Each operation runs under the locks of its tables, so a run is a
  sequence of whole operations; the outcome of every write to disk, the clock and the
  random bytes are arguments. A kill during an operation is an operation with the
  matching outcomes of its writes, followed by a restart. The lemmas follow what is in
  memory and on disk through every sequence of operations, write errors and restarts.
\<close>

subsection \<open>Data\<close>

record ChallengeRecord =
  ch_nonce_hex :: string
  ch_expires_at_utc :: u64
  ch_vault_id_hex :: string
  ch_public_key_hex :: string
  ch_account_id :: "string option"
  ch_device_id_hex :: "string option"

record PersistedSession =
  ps_token :: string
  ps_expires_at_utc :: u64
  ps_public_key_hex :: string
  ps_vault_id_hex :: string
  ps_account_id :: "string option"
  ps_device_id_hex :: "string option"

record PersistedChallenge =
  pc_challenge_id :: string
  pc_nonce_hex :: string
  pc_expires_at_utc :: u64
  pc_vault_id_hex :: string
  pc_public_key_hex :: string
  pc_account_id :: "string option"
  pc_device_id_hex :: "string option"

record EnrolledIdentity =
  ei_vault_id_hex :: string
  ei_public_key_hex :: string
  ei_permissions :: u32
  ei_enrolled_at_utc :: u64
  ei_revoked_at_utc :: "u64 option"
  ei_account_id :: "string option"
  ei_device_id_hex :: "string option"

record auth_state =
  oa_challenges :: "(string \<times> ChallengeRecord) list"
  oa_sessions :: "(string \<times> u64) list"
  oa_session_keys :: "(string \<times> bytes) list"
  oa_session_vaults :: "(string \<times> string) list"
  oa_session_bindings :: "(string \<times> (string option \<times> string option)) list"
  oa_identities :: "EnrolledIdentity list"
  oa_challenge_file :: "bytes option"
  oa_session_file :: "bytes option"
  oa_identity_file :: "bytes option"

record auth_json =
  aj_challenges :: "PersistedChallenge rows_json"
  aj_sessions :: "PersistedSession rows_json"
  aj_identities :: "EnrolledIdentity rows_json"

definition auth_json_ok :: "auth_json \<Rightarrow> bool" where
  "auth_json_ok j \<longleftrightarrow> rows_ok (aj_challenges j) \<and> rows_ok (aj_sessions j) \<and> rows_ok (aj_identities j)"

subsection \<open>Writing the tables\<close>

definition persisted_challenge :: "string \<times> ChallengeRecord \<Rightarrow> PersistedChallenge" where
  "persisted_challenge c =
     \<lparr>pc_challenge_id = fst c, pc_nonce_hex = ch_nonce_hex (snd c), pc_expires_at_utc = ch_expires_at_utc (snd c),
      pc_vault_id_hex = ch_vault_id_hex (snd c), pc_public_key_hex = ch_public_key_hex (snd c),
      pc_account_id = ch_account_id (snd c), pc_device_id_hex = ch_device_id_hex (snd c)\<rparr>"

definition persisted_session :: "hex_crate \<Rightarrow> auth_state \<Rightarrow> string \<times> u64 \<Rightarrow> PersistedSession option" where
  "persisted_session h s t =
     (case (map_of (oa_session_keys s) (fst t), map_of (oa_session_vaults s) (fst t)) of
        (Some key, Some vault) \<Rightarrow>
          Some \<lparr>ps_token = fst t, ps_expires_at_utc = snd t, ps_public_key_hex = hex_encode h key, ps_vault_id_hex = vault,
            ps_account_id = Option.bind (map_of (oa_session_bindings s) (fst t)) fst,
            ps_device_id_hex = Option.bind (map_of (oa_session_bindings s) (fst t)) snd\<rparr>
      | _ \<Rightarrow> None)"

definition persist_challenges :: "auth_json \<Rightarrow> saving \<Rightarrow> auth_state \<Rightarrow> (string + unit) \<times> auth_state" where
  "persist_challenges j w s =
     (case persist_rows (aj_challenges j) w (map persisted_challenge (oa_challenges s)) (oa_challenge_file s) of
        (r, f) \<Rightarrow> (r, s\<lparr>oa_challenge_file := f\<rparr>))"

definition persist_sessions :: "hex_crate \<Rightarrow> auth_json \<Rightarrow> saving \<Rightarrow> auth_state \<Rightarrow> (string + unit) \<times> auth_state" where
  "persist_sessions h j w s =
     (case persist_rows (aj_sessions j) w (List.map_filter (persisted_session h s) (oa_sessions s)) (oa_session_file s) of
        (r, f) \<Rightarrow> (r, s\<lparr>oa_session_file := f\<rparr>))"

definition persist_enrolled_identities :: "auth_json \<Rightarrow> saving \<Rightarrow> auth_state \<Rightarrow> (string + unit) \<times> auth_state" where
  "persist_enrolled_identities j w s =
     (case persist_rows (aj_identities j) w (oa_identities s) (oa_identity_file s) of
        (r, f) \<Rightarrow> (r, s\<lparr>oa_identity_file := f\<rparr>))"

subsection \<open>Reading them back\<close>

definition identity_loadable :: "hex_crate \<Rightarrow> EnrolledIdentity \<Rightarrow> bool" where
  "identity_loadable h i \<longleftrightarrow>
     decodes_to h 32 (ei_vault_id_hex i) \<and> decodes_to h 32 (ei_public_key_hex i) \<and>
     ei_vault_id_hex i = to_ascii_lowercase (ei_vault_id_hex i) \<and>
     ei_public_key_hex i = to_ascii_lowercase (ei_public_key_hex i) \<and>
     (case ei_account_id i of None \<Rightarrow> True | Some a \<Rightarrow> valid_account_id h a) \<and>
     (case ei_device_id_hex i of None \<Rightarrow> True | Some d \<Rightarrow> valid_device_id h d) \<and>
     (ei_account_id i \<noteq> None) = (ei_device_id_hex i \<noteq> None)"

definition load_enrolled_identities :: "hex_crate \<Rightarrow> auth_json \<Rightarrow> bytes option \<Rightarrow> EnrolledIdentity list" where
  "load_enrolled_identities h j f =
     filter (identity_loadable h)
       (map (\<lambda>i. if ei_permissions i = - 1 then i\<lparr>ei_permissions := PERMISSION_VAULT_DEFAULT\<rparr> else i)
         (load_rows (aj_identities j) f))"

definition insert_session :: "string \<Rightarrow> u64 \<Rightarrow> bytes \<Rightarrow> string \<Rightarrow> string option \<times> string option \<Rightarrow> auth_state \<Rightarrow> auth_state" where
  "insert_session t expires_at key vault binding s =
     s\<lparr>oa_sessions := AList.update t expires_at (oa_sessions s), oa_session_keys := AList.update t key (oa_session_keys s),
       oa_session_vaults := AList.update t vault (oa_session_vaults s),
       oa_session_bindings := AList.update t binding (oa_session_bindings s)\<rparr>"

definition load_session :: "hex_crate \<Rightarrow> u64 \<Rightarrow> PersistedSession \<Rightarrow> auth_state \<Rightarrow> auth_state" where
  "load_session h now r s =
     (if ps_expires_at_utc r \<le> now \<or> ps_token r = [] then s
      else case hex_decode h (ps_public_key_hex r) of
        Inl _ \<Rightarrow> s
      | Inr key \<Rightarrow>
          if length key \<noteq> 32 \<or> \<not> decodes_to h 32 (ps_vault_id_hex r) then s
          else (case normalize_identity_binding h (ps_account_id r) (ps_device_id_hex r) of
              Inl _ \<Rightarrow> s
            | Inr binding \<Rightarrow>
                insert_session (ps_token r) (ps_expires_at_utc r) key (ps_vault_id_hex r) binding s))"

definition load_sessions :: "hex_crate \<Rightarrow> auth_json \<Rightarrow> u64 \<Rightarrow> auth_state \<Rightarrow> auth_state" where
  "load_sessions h j now s = fold (load_session h now) (load_rows (aj_sessions j) (oa_session_file s)) s"

definition load_challenge :: "hex_crate \<Rightarrow> u64 \<Rightarrow> PersistedChallenge \<Rightarrow> (string \<times> ChallengeRecord) list \<Rightarrow>
    (string \<times> ChallengeRecord) list" where
  "load_challenge h now r cs =
     (if pc_expires_at_utc r \<le> now \<or> pc_challenge_id r = [] then cs
      else if \<not> decodes_to h 32 (pc_nonce_hex r) \<or> \<not> decodes_to h 32 (pc_vault_id_hex r) \<or>
              \<not> decodes_to h 32 (pc_public_key_hex r) then cs
      else AList.update (pc_challenge_id r)
             \<lparr>ch_nonce_hex = pc_nonce_hex r, ch_expires_at_utc = pc_expires_at_utc r, ch_vault_id_hex = pc_vault_id_hex r,
              ch_public_key_hex = pc_public_key_hex r, ch_account_id = pc_account_id r,
              ch_device_id_hex = pc_device_id_hex r\<rparr> cs)"

definition load_challenges :: "hex_crate \<Rightarrow> auth_json \<Rightarrow> u64 \<Rightarrow> bytes option \<Rightarrow> (string \<times> ChallengeRecord) list" where
  "load_challenges h j now f = fold (load_challenge h now) (load_rows (aj_challenges j) f) []"

text \<open>A new process on the files that the last one left.\<close>

definition auth_restart :: "hex_crate \<Rightarrow> auth_json \<Rightarrow> u64 \<Rightarrow> auth_state \<Rightarrow> auth_state" where
  "auth_restart h j now s =
     (let s = s\<lparr>oa_challenges := [], oa_sessions := [], oa_session_keys := [], oa_session_vaults := [],
                oa_session_bindings := [], oa_identities := load_enrolled_identities h j (oa_identity_file s)\<rparr>;
          s = load_sessions h j now s
      in s\<lparr>oa_challenges := load_challenges h j now (oa_challenge_file s)\<rparr>)"

definition auth_new :: auth_state where
  "auth_new = \<lparr>oa_challenges = [], oa_sessions = [], oa_session_keys = [], oa_session_vaults = [],
     oa_session_bindings = [], oa_identities = [], oa_challenge_file = None, oa_session_file = None,
     oa_identity_file = None\<rparr>"

subsection \<open>Identities\<close>

definition names_identity :: "string \<Rightarrow> string \<Rightarrow> EnrolledIdentity \<Rightarrow> bool" where
  "names_identity vault_id_hex public_key_hex i \<longleftrightarrow>
     ei_vault_id_hex i = vault_id_hex \<and> ei_public_key_hex i = public_key_hex"

definition bound_to :: "string option \<Rightarrow> string option \<Rightarrow> bool" where
  "bound_to bound given = (case bound of None \<Rightarrow> True | Some b \<Rightarrow> given = Some b)"

definition is_identity_enrolled_with_binding ::
  "hex_crate \<Rightarrow> EnrolledIdentity list \<Rightarrow> string \<Rightarrow> string \<Rightarrow> string option \<Rightarrow> string option \<Rightarrow> bool" where
  "is_identity_enrolled_with_binding h ids vault_id_hex public_key_hex account_id device_id_hex =
     (case normalize_identity_binding h account_id device_id_hex of
        Inl _ \<Rightarrow> False
      | Inr (account_id, device_id_hex) \<Rightarrow>
          list_ex (\<lambda>i. ei_revoked_at_utc i = None \<and>
              names_identity (to_ascii_lowercase (trim vault_id_hex)) (to_ascii_lowercase (trim public_key_hex)) i \<and>
              bound_to (ei_account_id i) account_id \<and> bound_to (ei_device_id_hex i) device_id_hex) ids)"

text \<open>\<open>iter_mut().find\<close> and an update of what it found.\<close>

fun update_found :: "('a \<Rightarrow> bool) \<Rightarrow> ('a \<Rightarrow> 'a) \<Rightarrow> 'a list \<Rightarrow> 'a list option" where
  "update_found P f [] = None"
| "update_found P f (x # xs) = (if P x then Some (f x # xs) else map_option ((#) x) (update_found P f xs))"

definition enrolled_list ::
  "string \<Rightarrow> string \<Rightarrow> u32 \<Rightarrow> u64 \<Rightarrow> string option \<Rightarrow> string option \<Rightarrow> EnrolledIdentity list \<Rightarrow> EnrolledIdentity list" where
  "enrolled_list vault_id_hex public_key_hex permissions now account_id device_id_hex ids =
     (case update_found (names_identity vault_id_hex public_key_hex)
         (\<lambda>i. let i = i\<lparr>ei_permissions := permissions, ei_revoked_at_utc := None\<rparr>
              in if account_id \<noteq> None then i\<lparr>ei_account_id := account_id, ei_device_id_hex := device_id_hex\<rparr> else i) ids of
        Some ids \<Rightarrow> ids
      | None \<Rightarrow> ids @
          [\<lparr>ei_vault_id_hex = vault_id_hex, ei_public_key_hex = public_key_hex, ei_permissions = permissions,
            ei_enrolled_at_utc = now, ei_revoked_at_utc = None, ei_account_id = account_id,
            ei_device_id_hex = device_id_hex\<rparr>])"

definition enroll_identity_with_binding ::
  "hex_crate \<Rightarrow> auth_json \<Rightarrow> u64 \<Rightarrow> saving \<Rightarrow> string \<Rightarrow> string \<Rightarrow> u32 \<Rightarrow> string option \<Rightarrow> string option \<Rightarrow>
   auth_state \<Rightarrow> (string + unit) \<times> auth_state" where
  "enroll_identity_with_binding h j now w vault_id_hex public_key_hex permissions account_id device_id_hex s =
     (let permissions = (if permissions = - 1 then PERMISSION_VAULT_DEFAULT else permissions);
          vault_id_hex = to_ascii_lowercase (trim vault_id_hex);
          public_key_hex = to_ascii_lowercase (trim public_key_hex)
      in if \<not> decodes_to h 32 vault_id_hex then (Inl ''vault_id_hex must be 32-byte hex'', s)
         else if \<not> decodes_to h 32 public_key_hex then (Inl ''public_key_hex must be 32-byte hex'', s)
         else (case normalize_identity_binding h account_id device_id_hex of
             Inl e \<Rightarrow> (Inl e, s)
           | Inr (account_id, device_id_hex) \<Rightarrow>
               persist_enrolled_identities j w
                 (s\<lparr>oa_identities :=
                    enrolled_list vault_id_hex public_key_hex permissions now account_id device_id_hex (oa_identities s)\<rparr>)))"

text \<open>
  Revocation marks the identities and remembers their indices, so that the marks can be
  taken back; then it removes the sessions of the key, remembering what they were.
\<close>

definition mark_revoked :: "string \<Rightarrow> string \<Rightarrow> u64 \<Rightarrow> EnrolledIdentity \<Rightarrow> EnrolledIdentity" where
  "mark_revoked vault_id_hex public_key_hex now i =
     (if names_identity vault_id_hex public_key_hex i \<and> ei_revoked_at_utc i = None
      then i\<lparr>ei_revoked_at_utc := Some now\<rparr> else i)"

definition revoked_indices :: "string \<Rightarrow> string \<Rightarrow> EnrolledIdentity list \<Rightarrow> nat list" where
  "revoked_indices vault_id_hex public_key_hex ids =
     filter (\<lambda>n. names_identity vault_id_hex public_key_hex (ids ! n) \<and> ei_revoked_at_utc (ids ! n) = None)
       [0..<length ids]"

definition unmark :: "nat list \<Rightarrow> EnrolledIdentity list \<Rightarrow> EnrolledIdentity list" where
  "unmark ns ids =
     fold (\<lambda>n ids. if n < length ids then ids[n := (ids ! n)\<lparr>ei_revoked_at_utc := None\<rparr>] else ids) ns ids"

type_synonym removed_session = "string \<times> u64 option \<times> bytes option \<times> string option"

fun remove_sessions :: "string list \<Rightarrow> auth_state \<Rightarrow> removed_session list \<times> auth_state" where
  "remove_sessions [] s = ([], s)"
| "remove_sessions (t # ts) s =
     (let r = (t, map_of (oa_sessions s) t, map_of (oa_session_keys s) t, map_of (oa_session_vaults s) t);
          (rs, s') = remove_sessions ts
            (s\<lparr>oa_sessions := AList.delete t (oa_sessions s), oa_session_keys := AList.delete t (oa_session_keys s),
               oa_session_vaults := AList.delete t (oa_session_vaults s)\<rparr>)
      in (r # rs, s'))"

definition put_back :: "string \<Rightarrow> 'a option \<Rightarrow> (string \<times> 'a) list \<Rightarrow> (string \<times> 'a) list" where
  "put_back t v m = (case v of None \<Rightarrow> m | Some x \<Rightarrow> AList.update t x m)"

definition reinsert_session :: "removed_session \<Rightarrow> auth_state \<Rightarrow> auth_state" where
  "reinsert_session r s =
     (case r of (t, expires_at, key, vault) \<Rightarrow>
        s\<lparr>oa_sessions := put_back t expires_at (oa_sessions s), oa_session_keys := put_back t key (oa_session_keys s),
          oa_session_vaults := put_back t vault (oa_session_vaults s)\<rparr>)"

definition revoke_key_sessions :: "hex_crate \<Rightarrow> auth_json \<Rightarrow> saving \<Rightarrow> string \<Rightarrow> auth_state \<Rightarrow> (string + bool) \<times> auth_state" where
  "revoke_key_sessions h j w public_key_hex s =
     (let ts = map fst (filter (\<lambda>(_, key). hex_encode h key = public_key_hex) (oa_session_keys s))
      in if ts = [] then (Inr True, s)
         else (case remove_sessions ts s of (gone, s) \<Rightarrow>
           (case persist_sessions h j w s of
              (Inl e, s) \<Rightarrow> (Inl (''Unable to persist session revocation: '' @ e), fold reinsert_session gone s)
            | (Inr _, s) \<Rightarrow> (Inr True, s))))"

definition revoke_identity ::
  "hex_crate \<Rightarrow> auth_json \<Rightarrow> u64 \<Rightarrow> saving \<Rightarrow> saving \<Rightarrow> string \<Rightarrow> string \<Rightarrow> auth_state \<Rightarrow> (string + bool) \<times> auth_state" where
  "revoke_identity h j now w1 w2 vault_id_hex public_key_hex s =
     (let vault_id_hex = to_ascii_lowercase (trim vault_id_hex);
          public_key_hex = to_ascii_lowercase (trim public_key_hex);
          ns = revoked_indices vault_id_hex public_key_hex (oa_identities s);
          s = s\<lparr>oa_identities := map (mark_revoked vault_id_hex public_key_hex now) (oa_identities s)\<rparr>
      in if ns = [] then (Inr False, s)
         else (case persist_enrolled_identities j w1 s of
             (Inl e, s) \<Rightarrow>
               (Inl (''Unable to persist identity revocation: '' @ e), s\<lparr>oa_identities := unmark ns (oa_identities s)\<rparr>)
           | (Inr _, s) \<Rightarrow> revoke_key_sessions h j w2 public_key_hex s))"

subsection \<open>Challenges and sessions\<close>

text \<open>\<open>min_by_key\<close> returns the first of several minima.\<close>

fun min_by_key :: "('a \<Rightarrow> u64) \<Rightarrow> 'a list \<Rightarrow> 'a option" where
  "min_by_key f [] = None"
| "min_by_key f (x # xs) = (case min_by_key f xs of None \<Rightarrow> Some x | Some y \<Rightarrow> Some (if f y < f x then y else x))"

definition live_challenges :: "u64 \<Rightarrow> (string \<times> ChallengeRecord) list \<Rightarrow> (string \<times> ChallengeRecord) list" where
  "live_challenges now cs =
     (let live = filter (\<lambda>(_, c). ch_expires_at_utc c > now) cs
      in if length live \<ge> MAX_ACTIVE_CHALLENGES
         then (case min_by_key (\<lambda>(_, c). ch_expires_at_utc c) live of
                 Some (oldest_key, _) \<Rightarrow> AList.delete oldest_key live | None \<Rightarrow> live)
         else live)"

definition issue_challenge_with_binding ::
  "hex_crate \<Rightarrow> auth_json \<Rightarrow> OperatorSecurityConfig \<Rightarrow> bytes \<Rightarrow> bytes \<Rightarrow> u64 \<Rightarrow> saving \<Rightarrow> string \<Rightarrow> string \<Rightarrow>
   string option \<Rightarrow> string option \<Rightarrow> auth_state \<Rightarrow> (string + string \<times> string \<times> u64) \<times> auth_state" where
  "issue_challenge_with_binding h j cfg id_bytes nonce_bytes now w vault_id_hex public_key_hex account_id device_id_hex s =
     (if \<not> decodes_to h 32 vault_id_hex then (Inl ''vault_id_hex must be 32-byte hex'', s)
      else if \<not> decodes_to h 32 public_key_hex then (Inl ''public_key_hex must be 32-byte hex'', s)
      else (case normalize_identity_binding h account_id device_id_hex of
          Inl e \<Rightarrow> (Inl e, s)
        | Inr (account_id, device_id_hex) \<Rightarrow>
            let vault_id_hex = to_ascii_lowercase vault_id_hex; public_key_hex = to_ascii_lowercase public_key_hex
            in if os_require_enrollment cfg \<and>
                  \<not> is_identity_enrolled_with_binding h (oa_identities s) vault_id_hex public_key_hex account_id device_id_hex
               then (Inl ''device identity is not enrolled for this vault'', s)
               else
                 (let challenge_id = hex_encode h id_bytes; nonce_hex = hex_encode h nonce_bytes; expires_at = now + 300;
                      live = live_challenges now (oa_challenges s);
                      c = \<lparr>ch_nonce_hex = nonce_hex, ch_expires_at_utc = expires_at, ch_vault_id_hex = vault_id_hex,
                           ch_public_key_hex = public_key_hex, ch_account_id = account_id, ch_device_id_hex = device_id_hex\<rparr>
                  in case persist_challenges j w (s\<lparr>oa_challenges := AList.update challenge_id c live\<rparr>) of
                       (Inl e, s) \<Rightarrow>
                         (Inl (''Unable to persist challenges: '' @ e),
                          s\<lparr>oa_challenges := AList.delete challenge_id (oa_challenges s)\<rparr>)
                     | (Inr _, s) \<Rightarrow> (Inr (challenge_id, nonce_hex, expires_at), s))))"

text \<open>The checks of a response to a challenge; on success, the key that signed.\<close>

definition accepted_key ::
  "hex_crate \<Rightarrow> crypto_crate \<Rightarrow> OperatorSecurityConfig \<Rightarrow> u64 \<Rightarrow> EnrolledIdentity list \<Rightarrow> ChallengeRecord \<Rightarrow>
   string \<Rightarrow> string \<Rightarrow> bytes option" where
  "accepted_key h cr cfg now ids c public_key_hex signature_hex =
     (if now > ch_expires_at_utc c then None
      else if \<not> eq_ignore_ascii_case (ch_public_key_hex c) public_key_hex then None
      else if os_require_enrollment cfg \<and>
           \<not> is_identity_enrolled_with_binding h ids (ch_vault_id_hex c) (ch_public_key_hex c) (ch_account_id c) (ch_device_id_hex c)
      then None
      else case hex_decode h public_key_hex of
        Inl _ \<Rightarrow> None
      | Inr pk \<Rightarrow>
          if length pk \<noteq> 32 then None
          else (case hex_decode h signature_hex of
              Inl _ \<Rightarrow> None
            | Inr sig \<Rightarrow>
                if length sig \<noteq> 64 then None
                else (case hex_decode h (ch_nonce_hex c) of
                    Inl _ \<Rightarrow> None
                  | Inr nonce \<Rightarrow>
                      if is_ok (verify_with_domain cr pk (as_bytes ''operator_challenge'') nonce sig)
                      then Some pk else None)))"

definition drop_session :: "string \<Rightarrow> auth_state \<Rightarrow> auth_state" where
  "drop_session t s =
     s\<lparr>oa_sessions := AList.delete t (oa_sessions s), oa_session_keys := AList.delete t (oa_session_keys s),
       oa_session_vaults := AList.delete t (oa_session_vaults s), oa_session_bindings := AList.delete t (oa_session_bindings s)\<rparr>"

definition expire_sessions :: "u64 \<Rightarrow> auth_state \<Rightarrow> auth_state" where
  "expire_sessions now s =
     (let live = filter (\<lambda>(_, e). e > now) (oa_sessions s)
      in s\<lparr>oa_sessions := live, oa_session_keys := filter (\<lambda>(t, _). t \<in> fst ` set live) (oa_session_keys s),
           oa_session_vaults := filter (\<lambda>(t, _). t \<in> fst ` set live) (oa_session_vaults s),
           oa_session_bindings := filter (\<lambda>(t, _). t \<in> fst ` set live) (oa_session_bindings s)\<rparr>)"

definition evict_session :: "auth_state \<Rightarrow> auth_state" where
  "evict_session s =
     (if length (oa_sessions s) \<ge> MAX_ACTIVE_SESSIONS
      then (case min_by_key snd (oa_sessions s) of Some (oldest_token, _) \<Rightarrow> drop_session oldest_token s | None \<Rightarrow> s)
      else s)"

definition open_session ::
  "hex_crate \<Rightarrow> auth_json \<Rightarrow> bytes \<Rightarrow> u64 \<Rightarrow> saving \<Rightarrow> ChallengeRecord \<Rightarrow> bytes \<Rightarrow> auth_state \<Rightarrow>
   (string + string option) \<times> auth_state" where
  "open_session h j token_bytes now w c pk s =
     (let token = hex_encode h token_bytes;
          s = insert_session token (now + 3600) pk (ch_vault_id_hex c) (ch_account_id c, ch_device_id_hex c)
                (evict_session (expire_sessions now s))
      in case persist_sessions h j w s of
           (Inl e, s) \<Rightarrow> (Inl (''Unable to persist session: '' @ e), drop_session token s)
         | (Inr _, s) \<Rightarrow> (Inr (Some token), s))"

definition verify_and_create_session ::
  "hex_crate \<Rightarrow> crypto_crate \<Rightarrow> auth_json \<Rightarrow> OperatorSecurityConfig \<Rightarrow> bytes \<Rightarrow> u64 \<Rightarrow> saving \<Rightarrow> saving \<Rightarrow> string \<Rightarrow> string \<Rightarrow>
   string \<Rightarrow> auth_state \<Rightarrow> (string + string option) \<times> auth_state" where
  "verify_and_create_session h cr j cfg token_bytes now w1 w2 challenge_id public_key_hex signature_hex s =
     (case map_of (oa_challenges s) challenge_id of
        None \<Rightarrow> (Inr None, s)
      | Some c \<Rightarrow>
          (case persist_challenges j w1 (s\<lparr>oa_challenges := AList.delete challenge_id (oa_challenges s)\<rparr>) of
             (Inl e, s) \<Rightarrow> (Inl (''Unable to persist challenge removal: '' @ e), s)
           | (Inr _, s) \<Rightarrow>
               (case accepted_key h cr cfg now (oa_identities s) c public_key_hex signature_hex of
                  None \<Rightarrow> (Inr None, s)
                | Some pk \<Rightarrow> open_session h j token_bytes now w2 c pk s)))"

definition revoke_session :: "hex_crate \<Rightarrow> auth_json \<Rightarrow> saving \<Rightarrow> string \<Rightarrow> auth_state \<Rightarrow> (string + bool) \<times> auth_state" where
  "revoke_session h j w token s =
     (let expires_at = map_of (oa_sessions s) token; key = map_of (oa_session_keys s) token;
          vault = map_of (oa_session_vaults s) token; binding = map_of (oa_session_bindings s) token;
          s = drop_session token s
      in if expires_at \<noteq> None
         then (case persist_sessions h j w s of
             (Inl e, s) \<Rightarrow>
               (Inl (''Unable to persist session revocation: '' @ e),
                s\<lparr>oa_sessions := put_back token expires_at (oa_sessions s),
                  oa_session_keys := put_back token key (oa_session_keys s),
                  oa_session_vaults := put_back token vault (oa_session_vaults s),
                  oa_session_bindings := put_back token binding (oa_session_bindings s)\<rparr>)
           | (Inr _, s) \<Rightarrow> (Inr True, s))
         else (Inr False, s))"

subsection \<open>Checks of a session\<close>

definition validate_write_session :: "u64 \<Rightarrow> string \<Rightarrow> auth_state \<Rightarrow> bool" where
  "validate_write_session now token s =
     (if token = [] \<or> token = ''recovery_anonymous'' then False
      else (case map_of (oa_sessions s) token of Some expires_at \<Rightarrow> now \<le> expires_at | None \<Rightarrow> False))"

definition validate_read_session :: "u64 \<Rightarrow> string \<Rightarrow> auth_state \<Rightarrow> bool" where
  "validate_read_session now token s = (if token = ''recovery_anonymous'' then True else validate_write_session now token s)"

definition validate_session_for_vault :: "hex_crate \<Rightarrow> OperatorSecurityConfig \<Rightarrow> u64 \<Rightarrow> string \<Rightarrow> string \<Rightarrow> auth_state \<Rightarrow> bool" where
  "validate_session_for_vault h cfg now token vault_id_hex s =
     (if \<not> validate_write_session now token s then False
      else (case map_of (oa_session_vaults s) token of
          None \<Rightarrow> False
        | Some scope \<Rightarrow>
            if \<not> eq_ignore_ascii_case scope vault_id_hex then False
            else if os_require_enrollment cfg
            then (case map_of (oa_session_keys s) token of
                None \<Rightarrow> False
              | Some key \<Rightarrow>
                  let binding = (case map_of (oa_session_bindings s) token of Some b \<Rightarrow> b | None \<Rightarrow> (None, None))
                  in is_identity_enrolled_with_binding h (oa_identities s) scope (hex_encode h key) (fst binding) (snd binding))
            else True))"

definition session_has_permission ::
  "hex_crate \<Rightarrow> OperatorSecurityConfig \<Rightarrow> u64 \<Rightarrow> string \<Rightarrow> string \<Rightarrow> u32 \<Rightarrow> auth_state \<Rightarrow> bool" where
  "session_has_permission h cfg now token vault_id_hex permission s =
     (if \<not> validate_session_for_vault h cfg now token vault_id_hex s then False
      else (case map_of (oa_session_keys s) token of
          None \<Rightarrow> False
        | Some key \<Rightarrow>
            (case find (\<lambda>i. eq_ignore_ascii_case (ei_vault_id_hex i) vault_id_hex \<and> ei_public_key_hex i = hex_encode h key)
                    (oa_identities s) of
               Some i \<Rightarrow> ei_revoked_at_utc i = None \<and> ei_permissions i AND permission = permission
             | None \<Rightarrow> \<not> os_require_enrollment cfg \<and> permission \<noteq> PERMISSION_FLEET_ADMIN)))"

subsection \<open>Runs\<close>

datatype auth_call =
    Enroll u64 saving string string u32 "string option" "string option"
  | Revoke_identity u64 saving saving string string
  | Issue bytes bytes u64 saving string string "string option" "string option"
  | Verify bytes u64 saving saving string string string
  | Revoke_session saving string
  | Restart u64

fun auth_step :: "hex_crate \<Rightarrow> crypto_crate \<Rightarrow> auth_json \<Rightarrow> OperatorSecurityConfig \<Rightarrow> auth_call \<Rightarrow> auth_state \<Rightarrow> auth_state" where
  "auth_step h cr j cfg (Enroll now w v k p a d) s = snd (enroll_identity_with_binding h j now w v k p a d s)"
| "auth_step h cr j cfg (Revoke_identity now w1 w2 v k) s = snd (revoke_identity h j now w1 w2 v k s)"
| "auth_step h cr j cfg (Issue cid nonce now w v k a d) s =
     snd (issue_challenge_with_binding h j cfg cid nonce now w v k a d s)"
| "auth_step h cr j cfg (Verify tok now w1 w2 cid k sig) s =
     snd (verify_and_create_session h cr j cfg tok now w1 w2 cid k sig s)"
| "auth_step h cr j cfg (Revoke_session w t) s = snd (revoke_session h j w t s)"
| "auth_step h cr j cfg (Restart now) s = auth_restart h j now s"

definition auth_run :: "hex_crate \<Rightarrow> crypto_crate \<Rightarrow> auth_json \<Rightarrow> OperatorSecurityConfig \<Rightarrow> auth_call list \<Rightarrow> auth_state \<Rightarrow> auth_state" where
  "auth_run h cr j cfg cs s = fold (auth_step h cr j cfg) cs s"

end
