(* ===== verification/Operator_Steps.thy ===== *)
theory Operator_Steps
  imports Operator_Auth
begin

text \<open>
  One operation at a time on the tables of \<open>Operator_Auth\<close>: the cases of every operation, and
  what it can add to the challenges, the sessions and the active identities that are in
  memory or on disk. \<open>auth_wf\<close> is the invariant of the tables and of the files.
\<close>

subsection \<open>One write of a table\<close>

lemma persist_challenges_cases:
  assumes "rows_ok (aj_challenges j)" "persist_challenges j w s = (r, s')"
  obtains f where "s' = s\<lparr>oa_challenge_file := f\<rparr>"
    "load_rows (aj_challenges j) f = load_rows (aj_challenges j) (oa_challenge_file s) \<or>
     load_rows (aj_challenges j) f = map persisted_challenge (oa_challenges s)"
    "r = Inr () \<Longrightarrow> load_rows (aj_challenges j) f = map persisted_challenge (oa_challenges s)"
proof -
  obtain f where f: "persist_rows (aj_challenges j) w (map persisted_challenge (oa_challenges s)) (oa_challenge_file s) = (r, f)"
    "s' = s\<lparr>oa_challenge_file := f\<rparr>"
    using assms(2) by (auto simp: persist_challenges_def split: prod.splits)
  show ?thesis using that[OF f(2)] persist_rows_Inl[OF assms(1)] persist_rows_Inr[OF assms(1)] f(1) by (cases r) force+
qed

lemma persist_sessions_cases:
  assumes "rows_ok (aj_sessions j)" "persist_sessions h j w s = (r, s')"
  obtains f where "s' = s\<lparr>oa_session_file := f\<rparr>"
    "load_rows (aj_sessions j) f = load_rows (aj_sessions j) (oa_session_file s) \<or>
     load_rows (aj_sessions j) f = List.map_filter (persisted_session h s) (oa_sessions s)"
    "r = Inr () \<Longrightarrow> load_rows (aj_sessions j) f = List.map_filter (persisted_session h s) (oa_sessions s)"
proof -
  obtain f where f: "persist_rows (aj_sessions j) w (List.map_filter (persisted_session h s) (oa_sessions s)) (oa_session_file s) = (r, f)"
    "s' = s\<lparr>oa_session_file := f\<rparr>"
    using assms(2) by (auto simp: persist_sessions_def split: prod.splits)
  show ?thesis using that[OF f(2)] persist_rows_Inl[OF assms(1)] persist_rows_Inr[OF assms(1)] f(1) by (cases r) force+
qed

lemma persist_identities_cases:
  assumes "rows_ok (aj_identities j)" "persist_enrolled_identities j w s = (r, s')"
  obtains f where "s' = s\<lparr>oa_identity_file := f\<rparr>"
    "load_rows (aj_identities j) f = load_rows (aj_identities j) (oa_identity_file s) \<or>
     load_rows (aj_identities j) f = oa_identities s"
    "r = Inr () \<Longrightarrow> load_rows (aj_identities j) f = oa_identities s"
proof -
  obtain f where f: "persist_rows (aj_identities j) w (oa_identities s) (oa_identity_file s) = (r, f)"
    "s' = s\<lparr>oa_identity_file := f\<rparr>"
    using assms(2) by (auto simp: persist_enrolled_identities_def split: prod.splits)
  show ?thesis using that[OF f(2)] persist_rows_Inl[OF assms(1)] persist_rows_Inr[OF assms(1)] f(1) by (cases r) force+
qed

subsection \<open>The cases of the operations\<close>

lemma issue_cases:
  assumes "rows_ok (aj_challenges j)"
    and "issue_challenge_with_binding h j cfg cid nonce now w v k a d s = (r, s')"
  obtains (refused) e where "r = Inl e" "s' = s"
  | (issued) c a' d' f m where
      "decodes_to h 32 v" "decodes_to h 32 k" "normalize_identity_binding h a d = Inr (a', d')"
      "c = \<lparr>ch_nonce_hex = hex_encode h nonce, ch_expires_at_utc = now + 300, ch_vault_id_hex = to_ascii_lowercase v,
            ch_public_key_hex = to_ascii_lowercase k, ch_account_id = a', ch_device_id_hex = d'\<rparr>"
      "m = AList.update (hex_encode h cid) c (live_challenges now (oa_challenges s))"
      "s' = s\<lparr>oa_challenges := m, oa_challenge_file := f\<rparr> \<and> r = Inr (hex_encode h cid, hex_encode h nonce, now + 300) \<or>
       s' = s\<lparr>oa_challenges := AList.delete (hex_encode h cid) m, oa_challenge_file := f\<rparr> \<and> (\<exists>e. r = Inl e)"
      "load_rows (aj_challenges j) f = load_rows (aj_challenges j) (oa_challenge_file s) \<or>
       load_rows (aj_challenges j) f = map persisted_challenge m"
proof (cases "decodes_to h 32 v \<and> decodes_to h 32 k")
  case dec: True
  show thesis
  proof (cases "normalize_identity_binding h a d")
    case (Inr b)
    obtain a' d' where b: "b = (a', d')" by (cases b)
    let ?cid = "hex_encode h cid" and ?no = "os_require_enrollment cfg \<and>
      \<not> is_identity_enrolled_with_binding h (oa_identities s) (to_ascii_lowercase v) (to_ascii_lowercase k) a' d'"
    define c where "c = \<lparr>ch_nonce_hex = hex_encode h nonce, ch_expires_at_utc = now + 300, ch_vault_id_hex = to_ascii_lowercase v,
      ch_public_key_hex = to_ascii_lowercase k, ch_account_id = a', ch_device_id_hex = d'\<rparr>"
    define m where "m = AList.update ?cid c (live_challenges now (oa_challenges s))"
    obtain q u where p: "persist_challenges j w (s\<lparr>oa_challenges := m\<rparr>) = (q, u)" by force
    have eq: "(if ?no then (Inl ''device identity is not enrolled for this vault'', s)
        else (case q of Inl e \<Rightarrow> (Inl (''Unable to persist challenges: '' @ e), u\<lparr>oa_challenges := AList.delete ?cid (oa_challenges u)\<rparr>)
              | Inr _ \<Rightarrow> (Inr (?cid, hex_encode h nonce, now + 300), u))) = (r, s')"
      using assms(2)[unfolded issue_challenge_with_binding_def Let_def] dec Inr b p[unfolded m_def c_def] by (cases q) auto
    from persist_challenges_cases[OF assms(1) p] obtain f where f: "u = s\<lparr>oa_challenges := m, oa_challenge_file := f\<rparr>"
      "load_rows (aj_challenges j) f = load_rows (aj_challenges j) (oa_challenge_file s) \<or>
       load_rows (aj_challenges j) f = map persisted_challenge m" by auto
    show thesis
    proof (cases ?no)
      case False
      with eq f(1) have "s' = s\<lparr>oa_challenges := m, oa_challenge_file := f\<rparr> \<and> r = Inr (?cid, hex_encode h nonce, now + 300) \<or>
         s' = s\<lparr>oa_challenges := AList.delete ?cid m, oa_challenge_file := f\<rparr> \<and> (\<exists>e. r = Inl e)"
        by (cases q) auto
      with dec Inr b c_def m_def f(2) show thesis by (intro issued) blast+
    qed (use eq refused in auto)
  qed (use dec assms(2) in \<open>auto simp: issue_challenge_with_binding_def intro: refused\<close>)
qed (use assms(2) in \<open>auto simp: issue_challenge_with_binding_def intro: refused split: if_splits\<close>)

lemma verify_cases:
  assumes "rows_ok (aj_challenges j)"
    and "verify_and_create_session h cr j cfg tok now w1 w2 cid k sig s = (r, s')"
  obtains (unknown) "map_of (oa_challenges s) cid = None" "r = Inr None" "s' = s"
  | (unsaved) c f e where "map_of (oa_challenges s) cid = Some c" "r = Inl e"
      "s' = s\<lparr>oa_challenges := AList.delete cid (oa_challenges s), oa_challenge_file := f\<rparr>"
      "load_rows (aj_challenges j) f = load_rows (aj_challenges j) (oa_challenge_file s) \<or>
       load_rows (aj_challenges j) f = map persisted_challenge (AList.delete cid (oa_challenges s))"
  | (rejected) c f where "map_of (oa_challenges s) cid = Some c" "r = Inr None"
      "s' = s\<lparr>oa_challenges := AList.delete cid (oa_challenges s), oa_challenge_file := f\<rparr>"
      "load_rows (aj_challenges j) f = map persisted_challenge (AList.delete cid (oa_challenges s))"
  | (accepted) c f pk where "map_of (oa_challenges s) cid = Some c"
      "load_rows (aj_challenges j) f = map persisted_challenge (AList.delete cid (oa_challenges s))"
      "accepted_key h cr cfg now (oa_identities s) c k sig = Some pk"
      "open_session h j tok now w2 c pk (s\<lparr>oa_challenges := AList.delete cid (oa_challenges s), oa_challenge_file := f\<rparr>) = (r, s')"
proof (cases "map_of (oa_challenges s) cid")
  case (Some c)
  obtain q u where p: "persist_challenges j w1 (s\<lparr>oa_challenges := AList.delete cid (oa_challenges s)\<rparr>) = (q, u)" by force
  from persist_challenges_cases[OF assms(1) p] obtain f where
    f: "u = s\<lparr>oa_challenges := AList.delete cid (oa_challenges s), oa_challenge_file := f\<rparr>"
      "load_rows (aj_challenges j) f = load_rows (aj_challenges j) (oa_challenge_file s) \<or>
       load_rows (aj_challenges j) f = map persisted_challenge (AList.delete cid (oa_challenges s))"
    and fq: "q = Inr () \<Longrightarrow> load_rows (aj_challenges j) f = map persisted_challenge (AList.delete cid (oa_challenges s))" by auto
  show thesis
  proof (cases q)
    case (Inl e)
    then show thesis using assms(2) f by (intro unsaved[OF Some]) (auto simp: verify_and_create_session_def Some p)
  next
    case (Inr x)
    have iu: "oa_identities u = oa_identities s" by (simp add: f(1))
    note rows = fq[OF Inr[unfolded unit_eq[of x]]]
    have acc: "(case accepted_key h cr cfg now (oa_identities s) c k sig of None \<Rightarrow> (Inr None, u)
        | Some pk \<Rightarrow> open_session h j tok now w2 c pk u) = (r, s')"
      using assms(2) Inr iu by (simp add: verify_and_create_session_def Some p)
    show thesis
    proof (cases "accepted_key h cr cfg now (oa_identities s) c k sig")
      case None
      then show thesis using acc f(1) rows by (intro rejected[OF Some]) auto
    next
      case (Some pk)
      then show thesis using acc f(1) rows by (intro accepted[OF \<open>map_of (oa_challenges s) cid = Some c\<close>]) auto
    qed
  qed
qed (use assms(2) in \<open>simp add: verify_and_create_session_def unknown\<close>)

lemma open_session_cases:
  assumes "rows_ok (aj_sessions j)" "open_session h j tok now w c pk s = (r, s')"
  obtains u f where "u = insert_session (hex_encode h tok) (now + 3600) pk (ch_vault_id_hex c) (ch_account_id c, ch_device_id_hex c)
        (evict_session (expire_sessions now s))"
    "s' = u\<lparr>oa_session_file := f\<rparr> \<and> r = Inr (Some (hex_encode h tok)) \<or>
     s' = drop_session (hex_encode h tok) (u\<lparr>oa_session_file := f\<rparr>) \<and> (\<exists>e. r = Inl e)"
    "load_rows (aj_sessions j) f = load_rows (aj_sessions j) (oa_session_file s) \<or>
     load_rows (aj_sessions j) f = List.map_filter (persisted_session h u) (oa_sessions u)"
proof -
  define u where "u = insert_session (hex_encode h tok) (now + 3600) pk (ch_vault_id_hex c) (ch_account_id c, ch_device_id_hex c)
        (evict_session (expire_sessions now s))"
  have old: "oa_session_file u = oa_session_file s"
    by (simp add: u_def insert_session_def evict_session_def expire_sessions_def drop_session_def Let_def split: option.splits)
  obtain q v where p: "persist_sessions h j w u = (q, v)" by force
  from persist_sessions_cases[OF assms(1) p] obtain f where f: "v = u\<lparr>oa_session_file := f\<rparr>"
    "load_rows (aj_sessions j) f = load_rows (aj_sessions j) (oa_session_file s) \<or>
     load_rows (aj_sessions j) f = List.map_filter (persisted_session h u) (oa_sessions u)" using old by metis
  have "(case q of Inl e \<Rightarrow> (Inl (''Unable to persist session: '' @ e), drop_session (hex_encode h tok) v)
      | Inr _ \<Rightarrow> (Inr (Some (hex_encode h tok)), v)) = (r, s')"
    using assms(2) by (cases q) (simp_all only: open_session_def Let_def u_def[symmetric] p prod.case sum.case)
  with f that[OF u_def] show thesis by (cases q) auto
qed

lemma enroll_cases:
  assumes "rows_ok (aj_identities j)"
    and "enroll_identity_with_binding h j now w v k p a d s = (r, s')"
  obtains (refused) e where "r = Inl e" "s' = s"
  | (enrolled) a' d' ids f where
      "decodes_to h 32 (to_ascii_lowercase (trim v))" "decodes_to h 32 (to_ascii_lowercase (trim k))"
      "normalize_identity_binding h a d = Inr (a', d')"
      "ids = enrolled_list (to_ascii_lowercase (trim v)) (to_ascii_lowercase (trim k))
         (if p = - 1 then PERMISSION_VAULT_DEFAULT else p) now a' d' (oa_identities s)"
      "s' = s\<lparr>oa_identities := ids, oa_identity_file := f\<rparr>"
      "load_rows (aj_identities j) f = load_rows (aj_identities j) (oa_identity_file s) \<or> load_rows (aj_identities j) f = ids"
proof (cases "decodes_to h 32 (to_ascii_lowercase (trim v)) \<and> decodes_to h 32 (to_ascii_lowercase (trim k))")
  case dec: True
  show thesis
  proof (cases "normalize_identity_binding h a d")
    case (Inr b)
    obtain a' d' where b: "b = (a', d')" by (cases b)
    define ids where "ids = enrolled_list (to_ascii_lowercase (trim v)) (to_ascii_lowercase (trim k))
      (if p = - 1 then PERMISSION_VAULT_DEFAULT else p) now a' d' (oa_identities s)"
    have "persist_enrolled_identities j w (s\<lparr>oa_identities := ids\<rparr>) = (r, s')"
      using assms(2) dec by (simp add: enroll_identity_with_binding_def ids_def Let_def Inr b cong: if_cong)
    from persist_identities_cases[OF assms(1) this] obtain f where f: "s' = s\<lparr>oa_identities := ids, oa_identity_file := f\<rparr>"
      "load_rows (aj_identities j) f = load_rows (aj_identities j) (oa_identity_file s) \<or> load_rows (aj_identities j) f = ids" by auto
    show thesis by (rule enrolled[OF _ _ _ ids_def f]) (use dec Inr b in auto)
  qed (use dec assms(2) in \<open>auto simp: enroll_identity_with_binding_def Let_def intro: refused\<close>)
qed (use assms(2) in \<open>auto simp: enroll_identity_with_binding_def Let_def intro: refused split: if_splits\<close>)

text \<open>Taking back the marks gives the identities before the revocation.\<close>

lemma unmark_nth: "n < length ids \<Longrightarrow> unmark ns ids ! n = (if n \<in> set ns then (ids ! n)\<lparr>ei_revoked_at_utc := None\<rparr> else ids ! n)"
  by (induction ns arbitrary: ids) (auto simp: unmark_def nth_list_update split: if_splits)

lemma length_unmark: "length (unmark ns ids) = length ids"
  by (induction ns arbitrary: ids) (auto simp: unmark_def)

lemma unmark_marked: "unmark (revoked_indices v k ids) (map (mark_revoked v k now) ids) = ids"
  by (rule nth_equalityI) (auto simp: unmark_nth length_unmark revoked_indices_def mark_revoked_def)

lemma revoked_indices_Nil:
  "revoked_indices v k ids = [] \<longleftrightarrow> (\<forall>i\<in>set ids. names_identity v k i \<longrightarrow> ei_revoked_at_utc i \<noteq> None)"
  by (simp add: revoked_indices_def filter_empty_conv all_set_conv_all_nth) auto

lemma revoke_cases:
  fixes v k
  defines "v' \<equiv> to_ascii_lowercase (trim v)" and "k' \<equiv> to_ascii_lowercase (trim k)"
  assumes "rows_ok (aj_identities j)" and "revoke_identity h j now w1 w2 v k s = (r, s')"
  obtains (absent) "\<forall>i\<in>set (oa_identities s). names_identity v' k' i \<longrightarrow> ei_revoked_at_utc i \<noteq> None" "r = Inr False" "s' = s"
  | (unsaved) f e where "r = Inl e" "s' = s\<lparr>oa_identity_file := f\<rparr>"
      "load_rows (aj_identities j) f = load_rows (aj_identities j) (oa_identity_file s) \<or>
       load_rows (aj_identities j) f = map (mark_revoked v' k' now) (oa_identities s)"
  | (marked) f where "load_rows (aj_identities j) f = map (mark_revoked v' k' now) (oa_identities s)"
      "revoke_key_sessions h j w2 k' (s\<lparr>oa_identities := map (mark_revoked v' k' now) (oa_identities s), oa_identity_file := f\<rparr>) = (r, s')"
proof (cases "revoked_indices v' k' (oa_identities s) = []")
  case True
  then have "map (mark_revoked v' k' now) (oa_identities s) = oa_identities s"
    unfolding revoked_indices_Nil by (intro map_idI) (auto simp: mark_revoked_def)
  moreover from True assms(4) have "r = Inr False \<and> s' = s\<lparr>oa_identities := map (mark_revoked v' k' now) (oa_identities s)\<rparr>"
    by (simp add: revoke_identity_def Let_def v'_def k'_def)
  ultimately show thesis using True by (intro absent) (simp_all add: revoked_indices_Nil)
next
  case False
  let ?ids = "map (mark_revoked v' k' now) (oa_identities s)"
  obtain q u where p: "persist_enrolled_identities j w1 (s\<lparr>oa_identities := ?ids\<rparr>) = (q, u)" by force
  from persist_identities_cases[OF assms(3) p] obtain f where f: "u = s\<lparr>oa_identities := ?ids, oa_identity_file := f\<rparr>"
    "load_rows (aj_identities j) f = load_rows (aj_identities j) (oa_identity_file s) \<or> load_rows (aj_identities j) f = ?ids"
    "q = Inr () \<Longrightarrow> load_rows (aj_identities j) f = ?ids" by auto
  have eq: "(case q of Inl e \<Rightarrow> (Inl (''Unable to persist identity revocation: '' @ e),
          u\<lparr>oa_identities := unmark (revoked_indices v' k' (oa_identities s)) (oa_identities u)\<rparr>)
      | Inr _ \<Rightarrow> revoke_key_sessions h j w2 k' u) = (r, s')"
    using assms(4) False p unfolding revoke_identity_def Let_def v'_def[symmetric] k'_def[symmetric]
    by (cases q) simp_all
  show thesis
  proof (cases q)
    case (Inl e)
    then show thesis using eq f(1,2) by (intro unsaved) (auto simp: unmark_marked)
  next
    case (Inr x)
    then show thesis using eq f(1) f(3) by (intro marked[of f]) simp_all
  qed
qed

subsection \<open>The maps of the sessions\<close>

lemma update_keys: "fst ` set (AList.update k v m) = insert k (fst ` set m)"
  using arg_cong[OF update_conv'[of k v m], of dom] by (simp add: dom_map_of_conv_image_fst)

lemma length_dom: "distinct (map fst m) \<Longrightarrow> length m = card (dom (map_of m))"
  using distinct_card[of "map fst m"] by (simp add: dom_map_of_conv_image_fst)

lemma map_of_delete: "map_of (AList.delete k m) = (map_of m)(k := None)"
  by (rule delete_conv')

lemma map_of_put_back: "map_of (put_back t v m) = (case v of None \<Rightarrow> map_of m | Some x \<Rightarrow> (map_of m)(t \<mapsto> x))"
  by (simp add: put_back_def update_conv' split: option.splits)

lemma distinct_put_back: "distinct (map fst m) \<Longrightarrow> distinct (map fst (put_back t v m))"
  by (simp add: put_back_def distinct_update split: option.splits)

lemma distinct_fst_filter: "distinct (map fst m) \<Longrightarrow> distinct (map fst (filter P m))"
  by (simp add: distinct_map_filter)

lemma distinct_delete: "distinct (map fst m) \<Longrightarrow> distinct (map fst (AList.delete k m))"
  by (simp add: AList.delete_eq distinct_fst_filter)

text \<open>The session of a token, when the three tables have it.\<close>

definition session_of :: "auth_state \<Rightarrow> string \<Rightarrow> (u64 \<times> bytes \<times> string) option" where
  "session_of s t =
     (case (map_of (oa_sessions s) t, map_of (oa_session_keys s) t, map_of (oa_session_vaults s) t) of
        (Some e, Some k, Some v) \<Rightarrow> Some (e, k, v) | _ \<Rightarrow> None)"

lemma session_of_Some: "session_of s t = Some (e, k, v) \<longleftrightarrow>
    map_of (oa_sessions s) t = Some e \<and> map_of (oa_session_keys s) t = Some k \<and> map_of (oa_session_vaults s) t = Some v"
  by (auto simp: session_of_def split: option.splits)

definition tables_distinct :: "auth_state \<Rightarrow> bool" where
  "tables_distinct s \<longleftrightarrow> distinct (map fst (oa_sessions s)) \<and> distinct (map fst (oa_session_keys s)) \<and>
     distinct (map fst (oa_session_vaults s)) \<and> distinct (map fst (oa_session_bindings s))"

text \<open>What is well formed about the sessions in memory.\<close>

definition sessions_wf :: "hex_crate \<Rightarrow> auth_state \<Rightarrow> bool" where
  "sessions_wf h s \<longleftrightarrow> tables_distinct s \<and>
     dom (map_of (oa_session_keys s)) = dom (map_of (oa_sessions s)) \<and>
     dom (map_of (oa_session_vaults s)) = dom (map_of (oa_sessions s)) \<and>
     length (oa_sessions s) \<le> MAX_ACTIVE_SESSIONS \<and>
     (\<forall>t k. map_of (oa_session_keys s) t = Some k \<longrightarrow> length k = 32) \<and>
     (\<forall>t v. map_of (oa_session_vaults s) t = Some v \<longrightarrow> decodes_to h 32 v)"

definition session_maps :: "auth_state \<Rightarrow> (string \<rightharpoonup> u64) \<times> (string \<rightharpoonup> bytes) \<times> (string \<rightharpoonup> string)" where
  "session_maps s = (map_of (oa_sessions s), map_of (oa_session_keys s), map_of (oa_session_vaults s))"

lemma session_of_maps: "session_maps s = session_maps u \<Longrightarrow> session_of s = session_of u"
  by (simp add: session_maps_def session_of_def fun_eq_iff)

lemma sessions_wf_maps: "session_maps s = session_maps u \<Longrightarrow> tables_distinct s \<Longrightarrow> sessions_wf h u \<Longrightarrow> sessions_wf h s"
  using length_dom[of "oa_sessions s"] length_dom[of "oa_sessions u"]
  by (simp add: session_maps_def sessions_wf_def tables_distinct_def)

text \<open>Deleting, expiring, evicting and inserting.\<close>

lemma drop_session_maps:
  "session_maps (drop_session t s) =
     ((map_of (oa_sessions s))(t := None), (map_of (oa_session_keys s))(t := None), (map_of (oa_session_vaults s))(t := None))"
  by (simp add: session_maps_def drop_session_def map_of_delete)

lemma drop_session_distinct: "tables_distinct s \<Longrightarrow> tables_distinct (drop_session t s)"
  by (simp add: tables_distinct_def drop_session_def distinct_delete)

lemma drop_session_of: "session_of (drop_session t s) = (session_of s)(t := None)"
  by (auto simp: session_of_def drop_session_def map_of_delete fun_eq_iff split: option.splits)

lemma length_delete: "length (AList.delete k m) \<le> length m"
  by (simp add: AList.delete_eq)

lemma drop_session_wf: "sessions_wf h s \<Longrightarrow> sessions_wf h (drop_session t s)"
  using drop_session_distinct[of s t] length_delete[of t "oa_sessions s"]
  by (auto simp: sessions_wf_def drop_session_def map_of_delete split: if_splits)

lemma expire_sessions_distinct: "tables_distinct s \<Longrightarrow> tables_distinct (expire_sessions now s)"
  by (simp add: tables_distinct_def expire_sessions_def distinct_fst_filter)

lemma map_of_filter_keys:
  "map_of (filter (\<lambda>(t, _). t \<in> T) m) = (map_of m) |` T"
  by (induction m) (auto simp: restrict_map_def)

lemma map_of_filter_case:
  assumes "distinct (map fst m)"
  shows "map_of (filter P m) k = (case map_of m k of None \<Rightarrow> None | Some v \<Rightarrow> if P (k, v) then Some v else None)"
proof (cases "map_of (filter P m) k")
  case None
  then have "\<not> (map_of m k = Some v \<and> P (k, v))" for v using map_of_filter_distinct[OF assms, of P k v] by simp
  then show ?thesis using None by (auto split: option.splits)
next
  case (Some v)
  then show ?thesis using map_of_filter_distinct[OF assms, of P k v] by simp
qed

lemma map_leD: "m \<subseteq>\<^sub>m n \<Longrightarrow> m t = Some x \<Longrightarrow> n t = Some x"
  by (metis map_le_def domI)

lemma expire_sessions_maps:
  assumes "distinct (map fst (oa_sessions s))"
  shows "session_maps (expire_sessions now s) =
    (let T = {t. \<exists>e. map_of (oa_sessions s) t = Some e \<and> now < e}
     in (map_of (oa_sessions s) |` T, map_of (oa_session_keys s) |` T, map_of (oa_session_vaults s) |` T))"
proof -
  define T where "T = {t. \<exists>e. map_of (oa_sessions s) t = Some e \<and> now < e}"
  have T: "fst ` {x \<in> set (oa_sessions s). case x of (_, e) \<Rightarrow> now < e} = T"
    using assms by (force simp: image_def T_def)
  have "map_of (filter (\<lambda>(_, e). now < e) (oa_sessions s)) t = (map_of (oa_sessions s) |` T) t" for t
    by (simp add: map_of_filter_case[OF assms] restrict_map_def T_def split: option.splits)
  then show ?thesis
    by (simp add: session_maps_def expire_sessions_def Let_def map_of_filter_keys T fun_eq_iff flip: T_def)
qed

lemma restrict_Some: "(m |` T) t = Some x \<Longrightarrow> m t = Some x"
  by (simp add: restrict_map_def split: if_splits)

lemma expire_sessions_of:
  assumes "distinct (map fst (oa_sessions s))"
  shows "session_of (expire_sessions now s) \<subseteq>\<^sub>m session_of s"
  using expire_sessions_maps[OF assms, of now]
  by (auto simp: map_le_def session_of_def session_maps_def Let_def restrict_map_def split: option.splits if_splits)

lemma expire_sessions_wf:
  assumes "sessions_wf h s"
  shows "sessions_wf h (expire_sessions now s)"
proof -
  have d: "tables_distinct s" "distinct (map fst (oa_sessions s))" using assms by (simp_all add: sessions_wf_def tables_distinct_def)
  have "length (oa_sessions (expire_sessions now s)) \<le> length (oa_sessions s)" by (simp add: expire_sessions_def)
  then show ?thesis
    using assms expire_sessions_distinct[OF d(1), of now] expire_sessions_maps[OF d(2), of now]
    by (auto simp: sessions_wf_def session_maps_def Let_def dom_restrict dest: restrict_Some)
qed

lemma min_by_key_None: "min_by_key f xs = None \<longleftrightarrow> xs = []"
  by (cases xs) (auto split: option.splits)

lemma min_by_key_in: "min_by_key f xs = Some x \<Longrightarrow> x \<in> set xs"
  by (induction xs arbitrary: x) (auto split: option.splits if_splits)

lemma length_delete_in: "k \<in> fst ` set m \<Longrightarrow> length (AList.delete k m) < length m"
  unfolding AList.delete_eq by (erule imageE, rule length_filter_less) auto

lemma evict_session_props:
  assumes "sessions_wf h s"
  shows "sessions_wf h (evict_session s)" "length (oa_sessions (evict_session s)) < MAX_ACTIVE_SESSIONS"
    "session_of (evict_session s) \<subseteq>\<^sub>m session_of s"
proof -
  consider "length (oa_sessions s) < MAX_ACTIVE_SESSIONS" "evict_session s = s"
    | t e where "(t, e) \<in> set (oa_sessions s)" "evict_session s = drop_session t s" "length (oa_sessions s) = MAX_ACTIVE_SESSIONS"
  proof (cases "length (oa_sessions s) < MAX_ACTIVE_SESSIONS")
    case False
    then have "length (oa_sessions s) = MAX_ACTIVE_SESSIONS" using assms by (simp add: sessions_wf_def)
    moreover from this obtain t e where "min_by_key snd (oa_sessions s) = Some (t, e)"
      using min_by_key_None[of snd "oa_sessions s"] by (cases "min_by_key snd (oa_sessions s)") (auto simp: MAX_ACTIVE_SESSIONS_def)
    ultimately show thesis using that(2) min_by_key_in by (force simp: evict_session_def)
  qed (simp add: evict_session_def that)
  then show "sessions_wf h (evict_session s)" "length (oa_sessions (evict_session s)) < MAX_ACTIVE_SESSIONS"
    "session_of (evict_session s) \<subseteq>\<^sub>m session_of s"
  proof (atomize (full), cases)
    case (2 t e)
    from 2(1) have "length (oa_sessions (drop_session t s)) < length (oa_sessions s)"
      using length_delete_in[OF rev_image_eqI[of "(t, e)" "set (oa_sessions s)" t fst]] by (simp add: drop_session_def)
    with 2 assms show "sessions_wf h (evict_session s) \<and> length (oa_sessions (evict_session s)) < MAX_ACTIVE_SESSIONS \<and>
        session_of (evict_session s) \<subseteq>\<^sub>m session_of s"
      by (simp add: drop_session_wf drop_session_of map_le_def)
  qed (use assms in simp)
qed

lemma length_update_le: "length (AList.update k v m) \<le> Suc (length m)"
  by (induction m) auto

lemma insert_session_wf:
  assumes "sessions_wf h s" "length (oa_sessions s) < MAX_ACTIVE_SESSIONS" "length pk = 32" "decodes_to h 32 v"
  shows "sessions_wf h (insert_session t e pk v b s)"
  using assms length_update_le[of t e "oa_sessions s"]
  by (auto simp: sessions_wf_def tables_distinct_def insert_session_def distinct_update update_conv' split: if_splits)

lemma insert_session_of: "session_of (insert_session t e pk v b s) = (session_of s)(t \<mapsto> (e, pk, v))"
  by (auto simp: session_of_def insert_session_def update_conv' fun_eq_iff split: option.splits)

subsection \<open>Removing the sessions of a key, and putting them back\<close>

lemma remove_sessions_fields:
  "oa_sessions (snd (remove_sessions ts s)) = filter (\<lambda>x. fst x \<notin> set ts) (oa_sessions s)"
  "oa_session_keys (snd (remove_sessions ts s)) = filter (\<lambda>x. fst x \<notin> set ts) (oa_session_keys s)"
  "oa_session_vaults (snd (remove_sessions ts s)) = filter (\<lambda>x. fst x \<notin> set ts) (oa_session_vaults s)"
  "oa_session_bindings (snd (remove_sessions ts s)) = oa_session_bindings s"
  "oa_session_file (snd (remove_sessions ts s)) = oa_session_file s"
  "oa_challenges (snd (remove_sessions ts s)) = oa_challenges s"
  "oa_challenge_file (snd (remove_sessions ts s)) = oa_challenge_file s"
  "oa_identities (snd (remove_sessions ts s)) = oa_identities s"
  "oa_identity_file (snd (remove_sessions ts s)) = oa_identity_file s"
  by (induction ts arbitrary: s)
    (auto simp: Let_def case_prod_unfold AList.delete_eq intro!: filter_cong)

lemma remove_sessions_fst:
  "distinct ts \<Longrightarrow> fst (remove_sessions ts s) =
     map (\<lambda>t. (t, map_of (oa_sessions s) t, map_of (oa_session_keys s) t, map_of (oa_session_vaults s) t)) ts"
  by (induction ts arbitrary: s) (auto simp: Let_def case_prod_unfold map_of_delete)

lemma reinsert_fields:
  fixes A :: "string \<Rightarrow> u64 option" and B :: "string \<Rightarrow> bytes option" and C :: "string \<Rightarrow> string option"
  defines "rs \<equiv> \<lambda>ts. map (\<lambda>t. (t, A t, B t, C t)) ts"
  shows "map_of (oa_sessions (fold reinsert_session (rs ts) u)) = (\<lambda>t. if t \<in> set ts \<and> A t \<noteq> None then A t else map_of (oa_sessions u) t)"
  "map_of (oa_session_keys (fold reinsert_session (rs ts) u)) = (\<lambda>t. if t \<in> set ts \<and> B t \<noteq> None then B t else map_of (oa_session_keys u) t)"
  "map_of (oa_session_vaults (fold reinsert_session (rs ts) u)) = (\<lambda>t. if t \<in> set ts \<and> C t \<noteq> None then C t else map_of (oa_session_vaults u) t)"
  unfolding rs_def by (induction ts arbitrary: u) (auto simp: reinsert_session_def map_of_put_back fun_eq_iff split: option.splits)

lemma reinsert_others:
  "oa_session_bindings (fold reinsert_session rs u) = oa_session_bindings u"
  "oa_session_file (fold reinsert_session rs u) = oa_session_file u"
  "oa_challenges (fold reinsert_session rs u) = oa_challenges u"
  "oa_challenge_file (fold reinsert_session rs u) = oa_challenge_file u"
  "oa_identities (fold reinsert_session rs u) = oa_identities u"
  "oa_identity_file (fold reinsert_session rs u) = oa_identity_file u"
  by (induction rs arbitrary: u) (auto simp: reinsert_session_def)

lemma reinsert_distinct: "tables_distinct u \<Longrightarrow> tables_distinct (fold reinsert_session rs u)"
proof (induction rs arbitrary: u)
  case (Cons r rs)
  have "tables_distinct (reinsert_session r u)"
    using Cons.prems by (cases r) (simp add: tables_distinct_def reinsert_session_def distinct_put_back)
  then show ?case using Cons.IH by simp
qed simp

lemma map_of_filter_fst: "map_of (filter (\<lambda>x. fst x \<notin> T) m) t = (if t \<in> T then None else map_of m t)"
  by (induction m) auto

lemma removed_reinserted:
  assumes "distinct ts" "remove_sessions ts s = (gone, u)"
  shows "session_maps (fold reinsert_session gone (u\<lparr>oa_session_file := f\<rparr>)) = session_maps s"
proof -
  have g: "gone = map (\<lambda>t. (t, map_of (oa_sessions s) t, map_of (oa_session_keys s) t, map_of (oa_session_vaults s) t)) ts"
    using remove_sessions_fst[OF assms(1), of s] assms(2) by simp
  have u: "u = snd (remove_sessions ts s)" using assms(2) by simp
  show ?thesis
    by (auto simp: g u session_maps_def reinsert_fields remove_sessions_fields map_of_filter_fst fun_eq_iff)
qed

lemma remove_sessions_wf:
  assumes "sessions_wf h s"
  shows "sessions_wf h (snd (remove_sessions ts s))" "session_of (snd (remove_sessions ts s)) \<subseteq>\<^sub>m session_of s"
proof -
  let ?u = "snd (remove_sessions ts s)"
  have d: "tables_distinct ?u"
    using assms by (simp add: sessions_wf_def tables_distinct_def remove_sessions_fields distinct_fst_filter)
  have "length (oa_sessions ?u) \<le> length (oa_sessions s)" by (simp add: remove_sessions_fields)
  with d assms show "sessions_wf h ?u"
    by (auto simp: sessions_wf_def remove_sessions_fields map_of_filter_fst dom_def set_eq_iff
        intro: order_trans[OF length_filter_le] split: if_splits)
  show "session_of ?u \<subseteq>\<^sub>m session_of s"
    by (auto simp: map_le_def session_of_def remove_sessions_fields map_of_filter_fst split: if_splits)
qed

subsection \<open>Sessions in memory and on disk\<close>

definition disk_sessions :: "hex_crate \<Rightarrow> auth_json \<Rightarrow> auth_state \<Rightarrow> (string \<times> u64 \<times> bytes \<times> string) set" where
  "disk_sessions h j s = {(ps_token r, ps_expires_at_utc r, k, ps_vault_id_hex r) | r k.
     r \<in> set (load_rows (aj_sessions j) (oa_session_file s)) \<and> hex_decode h (ps_public_key_hex r) = Inr k}"

definition known_sessions :: "hex_crate \<Rightarrow> auth_json \<Rightarrow> auth_state \<Rightarrow> (string \<times> u64 \<times> bytes \<times> string) set" where
  "known_sessions h j s = {(t, e, k, v). session_of s t = Some (e, k, v)} \<union> disk_sessions h j s"

definition sessions_inv :: "hex_crate \<Rightarrow> auth_json \<Rightarrow> auth_state \<Rightarrow> bool" where
  "sessions_inv h j s \<longleftrightarrow> sessions_wf h s \<and> length (load_rows (aj_sessions j) (oa_session_file s)) \<le> MAX_ACTIVE_SESSIONS"

lemma persisted_row:
  assumes "hex_ok h" "tables_distinct u" "r \<in> set (List.map_filter (persisted_session h u) (oa_sessions u))"
    and "hex_decode h (ps_public_key_hex r) = Inr k"
  shows "session_of u (ps_token r) = Some (ps_expires_at_utc r, k, ps_vault_id_hex r)"
proof -
  from assms(3) obtain t e where te: "(t, e) \<in> set (oa_sessions u)" "persisted_session h u (t, e) = Some r"
    by (auto simp: List.map_filter_def)
  have "map_of (oa_sessions u) t = Some e" using te(1) assms(2) by (simp add: tables_distinct_def)
  then show ?thesis using te(2) assms(4)
    by (auto simp: persisted_session_def session_of_Some hex_decode_encode[OF assms(1)] split: option.splits)
qed

lemma length_map_filter: "length (List.map_filter f xs) \<le> length xs"
  by (simp add: List.map_filter_def)

text \<open>
  The shape of every change: the tables in memory of an intermediate state \<open>u\<close> are
  written or not, and the tables afterwards hold no more than those before or those of \<open>u\<close>.
\<close>

lemma session_change:
  assumes "hex_ok h" "sessions_inv h j s" "sessions_wf h u" "sessions_wf h s'"
    and "load_rows (aj_sessions j) (oa_session_file s') = load_rows (aj_sessions j) (oa_session_file s) \<or>
      load_rows (aj_sessions j) (oa_session_file s') = List.map_filter (persisted_session h u) (oa_sessions u)"
    and "\<And>t x. session_of u t = Some x \<Longrightarrow> session_of s t = Some x \<or> (t, x) \<in> N"
    and "\<And>t x. session_of s' t = Some x \<Longrightarrow> session_of s t = Some x \<or> (t, x) \<in> N"
  shows "sessions_inv h j s' \<and> known_sessions h j s' \<subseteq> known_sessions h j s \<union> N"
proof
  have "length (List.map_filter (persisted_session h u) (oa_sessions u)) \<le> MAX_ACTIVE_SESSIONS"
    using assms(3) length_map_filter[of "persisted_session h u" "oa_sessions u"] by (simp add: sessions_wf_def)
  then show "sessions_inv h j s'" using assms(2,4,5) by (auto simp: sessions_inv_def)
  have u: "tables_distinct u" using assms(3) by (simp add: sessions_wf_def)
  show "known_sessions h j s' \<subseteq> known_sessions h j s \<union> N"
  proof
    fix x assume x: "x \<in> known_sessions h j s'"
    obtain t e k v where tekv: "x = (t, e, k, v)" by (cases x) auto
    from x consider "session_of s' t = Some (e, k, v)" | "x \<in> disk_sessions h j s'" by (auto simp: known_sessions_def tekv)
    then show "x \<in> known_sessions h j s \<union> N"
    proof cases
      case 1
      then show ?thesis using assms(7) by (auto simp: known_sessions_def tekv)
    next
      case 2
      then obtain r where r: "r \<in> set (load_rows (aj_sessions j) (oa_session_file s'))" "hex_decode h (ps_public_key_hex r) = Inr k"
        "t = ps_token r" "e = ps_expires_at_utc r" "v = ps_vault_id_hex r" by (auto simp: disk_sessions_def tekv)
      from assms(5) show ?thesis
      proof
        assume "load_rows (aj_sessions j) (oa_session_file s') = load_rows (aj_sessions j) (oa_session_file s)"
        with r show ?thesis by (auto simp: known_sessions_def disk_sessions_def tekv)
      next
        assume "load_rows (aj_sessions j) (oa_session_file s') = List.map_filter (persisted_session h u) (oa_sessions u)"
        with r(1) have "r \<in> set (List.map_filter (persisted_session h u) (oa_sessions u))" by simp
        from persisted_row[OF assms(1) u this r(2)] show ?thesis using assms(6) r(3-5) by (auto simp: known_sessions_def tekv)
      qed
    qed
  qed
qed

text \<open>The three operations that change sessions, and a restart.\<close>

lemma open_session_known:
  assumes "hex_ok h" "rows_ok (aj_sessions j)" "sessions_inv h j s" "length pk = 32" "decodes_to h 32 (ch_vault_id_hex c)"
    and "open_session h j tok now w c pk s = (r, s')"
  shows "sessions_inv h j s' \<and>
    known_sessions h j s' \<subseteq> known_sessions h j s \<union> {(hex_encode h tok, now + 3600, pk, ch_vault_id_hex c)}"
proof (rule open_session_cases[OF assms(2,6)])
  fix u f
  let ?t = "hex_encode h tok" and ?v = "evict_session (expire_sessions now s)"
  assume u: "u = insert_session ?t (now + 3600) pk (ch_vault_id_hex c) (ch_account_id c, ch_device_id_hex c) ?v"
    and s': "s' = u\<lparr>oa_session_file := f\<rparr> \<and> r = Inr (Some ?t) \<or> s' = drop_session ?t (u\<lparr>oa_session_file := f\<rparr>) \<and> (\<exists>e. r = Inl e)"
    and f: "load_rows (aj_sessions j) f = load_rows (aj_sessions j) (oa_session_file s) \<or>
      load_rows (aj_sessions j) f = List.map_filter (persisted_session h u) (oa_sessions u)"
  have wf: "sessions_wf h s" using assms(3) by (simp add: sessions_inv_def)
  then have d: "distinct (map fst (oa_sessions s))" by (simp add: sessions_wf_def tables_distinct_def)
  note v = evict_session_props[OF expire_sessions_wf[OF wf, of now]]
  have uwf: "sessions_wf h u" unfolding u by (rule insert_session_wf[OF v(1,2) assms(4,5)])
  have le: "session_of ?v \<subseteq>\<^sub>m session_of s" by (rule map_le_trans[OF v(3) expire_sessions_of[OF d]])
  have uof: "session_of s t = Some x \<or> (t, x) \<in> {(?t, now + 3600, pk, ch_vault_id_hex c)}" if "session_of u t = Some x" for t x
    using that map_leD[OF le, of t x] by (auto simp: u insert_session_of split: if_splits)
  have same: "session_maps (u\<lparr>oa_session_file := f\<rparr>) = session_maps u" by (simp add: session_maps_def)
  have ufwf: "sessions_wf h (u\<lparr>oa_session_file := f\<rparr>)" using uwf by (simp add: sessions_wf_def tables_distinct_def)
  from s' have s'wf: "sessions_wf h s'" using ufwf drop_session_wf[OF ufwf, of ?t] by auto
  have "session_of s' \<subseteq>\<^sub>m session_of u" using s' session_of_maps[OF same] by (auto simp: drop_session_of map_le_def split: if_splits)
  then have s'of: "session_of s t = Some x \<or> (t, x) \<in> {(?t, now + 3600, pk, ch_vault_id_hex c)}" if "session_of s' t = Some x" for t x
    using that uof[of t x] map_leD by metis
  have "oa_session_file s' = f" using s' by (auto simp: drop_session_def)
  with f show ?thesis by (intro session_change[OF assms(1,3) uwf s'wf]) (use uof s'of in auto)
qed

lemma put_back_dropped:
  "session_maps (s\<lparr>oa_sessions := put_back t (map_of (oa_sessions s0) t) (oa_sessions (drop_session t s0)),
     oa_session_keys := put_back t (map_of (oa_session_keys s0) t) (oa_session_keys (drop_session t s0)),
     oa_session_vaults := put_back t (map_of (oa_session_vaults s0) t) (oa_session_vaults (drop_session t s0)),
     oa_session_bindings := b\<rparr>) = session_maps s0"
  by (auto simp: session_maps_def drop_session_def map_of_put_back map_of_delete fun_eq_iff split: option.splits)

lemma revoke_session_known:
  assumes "hex_ok h" "rows_ok (aj_sessions j)" "sessions_inv h j s" "revoke_session h j w t s = (r, s')"
  shows "sessions_inv h j s' \<and> known_sessions h j s' \<subseteq> known_sessions h j s"
proof -
  let ?u = "drop_session t s"
  have wf: "sessions_wf h s" using assms(3) by (simp add: sessions_inv_def)
  have uwf: "sessions_wf h ?u" by (rule drop_session_wf[OF wf])
  have uof: "session_of s t' = Some x" if "session_of ?u t' = Some x" for t' x
    using that by (simp add: drop_session_of split: if_splits)
  obtain q v where p: "persist_sessions h j w ?u = (q, v)" by force
  from persist_sessions_cases[OF assms(2) p] obtain f where f: "v = ?u\<lparr>oa_session_file := f\<rparr>"
    "load_rows (aj_sessions j) f = load_rows (aj_sessions j) (oa_session_file ?u) \<or>
     load_rows (aj_sessions j) f = List.map_filter (persisted_session h ?u) (oa_sessions ?u)" by auto
  have sf: "oa_session_file ?u = oa_session_file s" by (simp add: drop_session_def)
  have eq: "(if map_of (oa_sessions s) t \<noteq> None
      then (case q of
          Inl e \<Rightarrow> (Inl (''Unable to persist session revocation: '' @ e),
            v\<lparr>oa_sessions := put_back t (map_of (oa_sessions s) t) (oa_sessions v),
              oa_session_keys := put_back t (map_of (oa_session_keys s) t) (oa_session_keys v),
              oa_session_vaults := put_back t (map_of (oa_session_vaults s) t) (oa_session_vaults v),
              oa_session_bindings := put_back t (map_of (oa_session_bindings s) t) (oa_session_bindings v)\<rparr>)
        | Inr _ \<Rightarrow> (Inr True, v))
      else (Inr False, ?u)) = (r, s')"
    using assms(4) unfolding revoke_session_def Let_def p prod.case by (cases q) simp_all
  have vu: "oa_sessions v = oa_sessions ?u" "oa_session_keys v = oa_session_keys ?u" "oa_session_vaults v = oa_session_vaults ?u"
    "oa_session_bindings v = oa_session_bindings ?u" by (simp_all add: f(1))
  consider "s' = ?u" | "s' = v" | "s' = v\<lparr>oa_sessions := put_back t (map_of (oa_sessions s) t) (oa_sessions ?u),
     oa_session_keys := put_back t (map_of (oa_session_keys s) t) (oa_session_keys ?u),
     oa_session_vaults := put_back t (map_of (oa_session_vaults s) t) (oa_session_vaults ?u),
     oa_session_bindings := put_back t (map_of (oa_session_bindings s) t) (oa_session_bindings ?u)\<rparr>"
  proof (cases "map_of (oa_sessions s) t = None")
    case True
    show thesis by (rule that(1)) (use eq True in simp)
  next
    case False
    then show thesis using eq that(2,3) unfolding vu by (cases q) simp_all
  qed
  then have "sessions_wf h s' \<and> (\<forall>t' x. session_of s' t' = Some x \<longrightarrow> session_of s t' = Some x) \<and>
    (load_rows (aj_sessions j) (oa_session_file s') = load_rows (aj_sessions j) (oa_session_file s) \<or>
     load_rows (aj_sessions j) (oa_session_file s') = List.map_filter (persisted_session h ?u) (oa_sessions ?u))"
  proof cases
    case 2
    have "session_maps v = session_maps ?u" "tables_distinct v"
      using uwf by (simp_all add: f(1) session_maps_def sessions_wf_def tables_distinct_def)
    then show ?thesis using 2 f(2) sf uof sessions_wf_maps[OF _ _ uwf, of v] session_of_maps[of v ?u] by (simp add: f(1))
  next
    case 3
    have "session_maps s' = session_maps s" unfolding 3 by (rule put_back_dropped)
    moreover have "tables_distinct s'"
      using uwf by (simp add: 3 sessions_wf_def tables_distinct_def distinct_put_back)
    ultimately show ?thesis using f(2) sf sessions_wf_maps[OF _ _ wf, of s'] session_of_maps[of s' s] by (simp add: 3 f(1))
  qed (use uwf uof sf in auto)
  then have "sessions_inv h j s' \<and> known_sessions h j s' \<subseteq> known_sessions h j s \<union> {}"
    by (intro session_change[OF assms(1,3) uwf]) (use uof in auto)
  then show ?thesis by simp
qed

lemma revoke_key_sessions_known:
  assumes "hex_ok h" "rows_ok (aj_sessions j)" "sessions_inv h j s" "revoke_key_sessions h j w pk s = (r, s')"
  shows "sessions_inv h j s' \<and> known_sessions h j s' \<subseteq> known_sessions h j s"
    "oa_challenges s' = oa_challenges s" "oa_challenge_file s' = oa_challenge_file s"
    "oa_identities s' = oa_identities s" "oa_identity_file s' = oa_identity_file s"
proof -
  define ts where "ts = map fst (filter (\<lambda>(_, key). hex_encode h key = pk) (oa_session_keys s))"
  obtain gone u where rem: "remove_sessions ts s = (gone, u)" by force
  then have u: "u = snd (remove_sessions ts s)" by simp
  obtain q v where p: "persist_sessions h j w u = (q, v)" by force
  from persist_sessions_cases[OF assms(2) p] obtain f where f: "v = u\<lparr>oa_session_file := f\<rparr>"
    "load_rows (aj_sessions j) f = load_rows (aj_sessions j) (oa_session_file u) \<or>
     load_rows (aj_sessions j) f = List.map_filter (persisted_session h u) (oa_sessions u)" by auto
  have wf: "sessions_wf h s" using assms(3) by (simp add: sessions_inv_def)
  then have ts: "distinct ts" by (simp add: ts_def sessions_wf_def tables_distinct_def distinct_fst_filter)
  note uw = remove_sessions_wf[OF wf, of ts, folded u]
  have vw: "session_maps v = session_maps u" "tables_distinct v"
    using uw(1) by (simp_all add: f(1) session_maps_def sessions_wf_def tables_distinct_def)
  let ?b = "fold reinsert_session gone v"
  have restored: "session_maps ?b = session_maps s" unfolding f(1) by (rule removed_reinserted[OF ts rem])
  have outcome: "s' = s \<or> s' = v \<or> s' = ?b"
    using assms(4) rem p by (auto simp: revoke_key_sessions_def Let_def ts_def[symmetric] split: if_splits sum.splits)
  then show "oa_challenges s' = oa_challenges s" "oa_challenge_file s' = oa_challenge_file s"
    "oa_identities s' = oa_identities s" "oa_identity_file s' = oa_identity_file s"
    by (auto simp: f(1) u reinsert_others remove_sessions_fields)
  have uof: "session_of s t = Some x" if "session_of u t = Some x" for t x by (rule map_leD[OF uw(2) that])
  have "sessions_wf h s' \<and> (\<forall>t x. session_of s' t = Some x \<longrightarrow> session_of s t = Some x) \<and>
    (load_rows (aj_sessions j) (oa_session_file s') = load_rows (aj_sessions j) (oa_session_file s) \<or>
     load_rows (aj_sessions j) (oa_session_file s') = List.map_filter (persisted_session h u) (oa_sessions u))"
    using outcome
  proof (elim disjE)
    assume "s' = v"
    then show ?thesis using f sessions_wf_maps[OF vw uw(1)] session_of_maps[OF vw(1)] uof by (simp add: u remove_sessions_fields)
  next
    assume s': "s' = ?b"
    have "sessions_wf h ?b" by (rule sessions_wf_maps[OF restored reinsert_distinct[OF vw(2)] wf])
    then show ?thesis using f s' session_of_maps[OF restored] by (simp add: u reinsert_others remove_sessions_fields)
  qed (use wf in simp)
  then have "sessions_inv h j s' \<and> known_sessions h j s' \<subseteq> known_sessions h j s \<union> {}"
    by (intro session_change[OF assms(1,3) uw(1)]) (use uof in auto)
  then show "sessions_inv h j s' \<and> known_sessions h j s' \<subseteq> known_sessions h j s" by simp
qed

lemma load_session_cases:
  obtains "load_session h now r s = s"
  | k b where "hex_decode h (ps_public_key_hex r) = Inr k" "length k = 32" "decodes_to h 32 (ps_vault_id_hex r)"
      "load_session h now r s = insert_session (ps_token r) (ps_expires_at_utc r) k (ps_vault_id_hex r) b s"
proof (cases "ps_expires_at_utc r \<le> now \<or> ps_token r = []")
  case False
  show thesis
  proof (cases "hex_decode h (ps_public_key_hex r)")
    case (Inr k)
    show thesis
    proof (cases "length k \<noteq> 32 \<or> \<not> decodes_to h 32 (ps_vault_id_hex r)")
      case ok: False
      then show thesis using that False Inr
        by (cases "normalize_identity_binding h (ps_account_id r) (ps_device_id_hex r)")
          (auto simp: load_session_def insert_session_def)
    qed (use that(1) False Inr in \<open>auto simp: load_session_def\<close>)
  qed (use that(1) False in \<open>simp add: load_session_def\<close>)
qed (use that(1) in \<open>simp add: load_session_def\<close>)

lemma insert_session_others:
  "oa_session_file (insert_session t e k v b s) = oa_session_file s" "oa_challenges (insert_session t e k v b s) = oa_challenges s"
  "oa_challenge_file (insert_session t e k v b s) = oa_challenge_file s" "oa_identities (insert_session t e k v b s) = oa_identities s"
  "oa_identity_file (insert_session t e k v b s) = oa_identity_file s"
  "length (oa_sessions (insert_session t e k v b s)) \<le> Suc (length (oa_sessions s))"
  by (simp_all add: insert_session_def length_update_le)

lemma load_session_step:
  fixes h now r s
  defines "u \<equiv> load_session h now r s"
  assumes "sessions_wf h s" "length (oa_sessions s) < MAX_ACTIVE_SESSIONS"
  shows "sessions_wf h u \<and> length (oa_sessions u) \<le> Suc (length (oa_sessions s))"
    and "session_of u t = Some x \<Longrightarrow> session_of s t = Some x \<or>
      (\<exists>k. hex_decode h (ps_public_key_hex r) = Inr k \<and> (t, x) = (ps_token r, ps_expires_at_utc r, k, ps_vault_id_hex r))"
    and "oa_session_file u = oa_session_file s" "oa_challenges u = oa_challenges s" "oa_challenge_file u = oa_challenge_file s"
      "oa_identities u = oa_identities s" "oa_identity_file u = oa_identity_file s"
  using assms(2,3) unfolding u_def
  by (atomize (full), cases h now r s rule: load_session_cases)
    (auto simp: insert_session_others insert_session_of insert_session_wf split: if_splits)

lemma load_sessions_fold:
  fixes h now rows s
  assumes "sessions_wf h s" "length (oa_sessions s) + length rows \<le> MAX_ACTIVE_SESSIONS"
  defines "s' \<equiv> fold (load_session h now) rows s"
  shows "sessions_wf h s'"
    and "session_of s' t = Some x \<Longrightarrow> session_of s t = Some x \<or>
      (\<exists>r\<in>set rows. \<exists>k. hex_decode h (ps_public_key_hex r) = Inr k \<and> (t, x) = (ps_token r, ps_expires_at_utc r, k, ps_vault_id_hex r))"
    and "oa_session_file s' = oa_session_file s" "oa_challenges s' = oa_challenges s" "oa_challenge_file s' = oa_challenge_file s"
      "oa_identities s' = oa_identities s" "oa_identity_file s' = oa_identity_file s"
  using assms(1,2) unfolding s'_def
proof (atomize (full), induction rows arbitrary: s)
  case (Cons r rows)
  have "length (oa_sessions s) < MAX_ACTIVE_SESSIONS" using Cons.prems by simp
  note u = load_session_step[OF Cons.prems(1) this, of now r]
  have "length (oa_sessions (load_session h now r s)) + length rows \<le> MAX_ACTIVE_SESSIONS" using u(1) Cons.prems by simp
  note IH = Cons.IH[OF conjunct1[OF u(1)] this]
  show ?case
  proof (intro conjI impI)
    assume "session_of (fold (load_session h now) (r # rows) s) t = Some x"
    then show "session_of s t = Some x \<or> (\<exists>r\<in>set (r # rows). \<exists>k. hex_decode h (ps_public_key_hex r) = Inr k \<and>
        (t, x) = (ps_token r, ps_expires_at_utc r, k, ps_vault_id_hex r))"
      using IH u(2)[of t x] by (simp del: prod.inject) blast
  qed (use IH u in simp_all)
qed simp

lemma restart_others:
  assumes "sessions_inv h j s"
  shows "oa_session_file (auth_restart h j now s) = oa_session_file s" "oa_challenge_file (auth_restart h j now s) = oa_challenge_file s"
    "oa_identity_file (auth_restart h j now s) = oa_identity_file s"
    "oa_identities (auth_restart h j now s) = load_enrolled_identities h j (oa_identity_file s)"
    "oa_challenges (auth_restart h j now s) = load_challenges h j now (oa_challenge_file s)"
    and "sessions_inv h j (auth_restart h j now s) \<and> known_sessions h j (auth_restart h j now s) \<subseteq> known_sessions h j s"
proof -
  define e where "e = s\<lparr>oa_challenges := [], oa_sessions := [], oa_session_keys := [], oa_session_vaults := [],
    oa_session_bindings := [], oa_identities := load_enrolled_identities h j (oa_identity_file s)\<rparr>"
  let ?rows = "load_rows (aj_sessions j) (oa_session_file s)"
  let ?l = "fold (load_session h now) ?rows e"
  have ef: "oa_session_file e = oa_session_file s" "oa_challenge_file e = oa_challenge_file s" "oa_identity_file e = oa_identity_file s"
    "oa_identities e = load_enrolled_identities h j (oa_identity_file s)" by (simp_all add: e_def)
  have "sessions_wf h e" "length (oa_sessions e) + length ?rows \<le> MAX_ACTIVE_SESSIONS"
    using assms by (simp_all add: e_def sessions_wf_def tables_distinct_def sessions_inv_def)
  note l = load_sessions_fold[OF this, of now, unfolded ef]
  have r: "auth_restart h j now s = ?l\<lparr>oa_challenges := load_challenges h j now (oa_challenge_file s)\<rparr>"
    using l(5) by (simp add: auth_restart_def load_sessions_def Let_def e_def)
  show "oa_session_file (auth_restart h j now s) = oa_session_file s" "oa_challenge_file (auth_restart h j now s) = oa_challenge_file s"
    "oa_identity_file (auth_restart h j now s) = oa_identity_file s"
    "oa_identities (auth_restart h j now s) = load_enrolled_identities h j (oa_identity_file s)"
    "oa_challenges (auth_restart h j now s) = load_challenges h j now (oa_challenge_file s)"
    using l by (simp_all add: r)
  have same: "session_maps (auth_restart h j now s) = session_maps ?l" "tables_distinct (auth_restart h j now s)"
    using l(1) by (simp_all add: r session_maps_def sessions_wf_def tables_distinct_def)
  have none: "session_of e t = None" for t by (simp add: e_def session_of_def)
  have disk: "disk_sessions h j (auth_restart h j now s) = disk_sessions h j s" using l(3) by (simp add: disk_sessions_def r)
  have "(t, x) \<in> disk_sessions h j s" if "session_of (auth_restart h j now s) t = Some x" for t x
    using l(2)[of t x] that none by (auto simp: session_of_maps[OF same(1)] disk_sessions_def)
  then show "sessions_inv h j (auth_restart h j now s) \<and> known_sessions h j (auth_restart h j now s) \<subseteq> known_sessions h j s"
    using assms sessions_wf_maps[OF same l(1)] disk l(3) by (auto simp: sessions_inv_def known_sessions_def r)
qed

subsection \<open>Challenges in memory and on disk\<close>

lemma decodes_to_iff: "decodes_to h n s \<longleftrightarrow> (\<exists>bs. hex_decode h s = Inr bs \<and> length bs = n)"
  by (auto simp: decodes_to_def split: sum.splits)

lemma lower_idem: "to_ascii_lowercase (to_ascii_lowercase s) = to_ascii_lowercase s"
proof -
  have "ascii_lower (ascii_lower c) = ascii_lower c" for c
    by (cases "65 \<le> (of_char c :: nat) \<and> of_char c \<le> (90 :: nat)") (auto simp: ascii_lower_def of_char_char_of_nat)
  then show ?thesis by (simp add: to_ascii_lowercase_def)
qed

lemma decodes_to_lower: "hex_ok h \<Longrightarrow> decodes_to h n (to_ascii_lowercase s) \<longleftrightarrow> decodes_to h n s"
  by (simp add: decodes_to_iff hex_decode_iff lower_idem)

lemma decodes_to_encode: "hex_ok h \<Longrightarrow> decodes_to h n (hex_encode h bs) \<longleftrightarrow> length bs = n"
  by (simp add: decodes_to_iff hex_decode_encode)

definition known_challenges :: "auth_json \<Rightarrow> auth_state \<Rightarrow> PersistedChallenge set" where
  "known_challenges j s = persisted_challenge ` set (oa_challenges s) \<union> set (load_rows (aj_challenges j) (oa_challenge_file s))"

definition challenge_ok :: "hex_crate \<Rightarrow> string \<times> ChallengeRecord \<Rightarrow> bool" where
  "challenge_ok h c \<longleftrightarrow> decodes_to h 32 (ch_nonce_hex (snd c)) \<and> decodes_to h 32 (ch_vault_id_hex (snd c)) \<and>
     decodes_to h 32 (ch_public_key_hex (snd c))"

definition challenges_inv :: "hex_crate \<Rightarrow> auth_json \<Rightarrow> auth_state \<Rightarrow> bool" where
  "challenges_inv h j s \<longleftrightarrow> hash_map_ok (challenge_ok h) (oa_challenges s) \<and> length (oa_challenges s) \<le> MAX_ACTIVE_CHALLENGES \<and>
     length (load_rows (aj_challenges j) (oa_challenge_file s)) \<le> MAX_ACTIVE_CHALLENGES"

text \<open>The challenges that a call issues.\<close>

fun issued_by :: "hex_crate \<Rightarrow> auth_call \<Rightarrow> PersistedChallenge set" where
  "issued_by h (Issue cid nonce now w v k a d) =
     {p. pc_challenge_id p = hex_encode h cid \<and> pc_nonce_hex p = hex_encode h nonce \<and> pc_expires_at_utc p = now + 300 \<and>
         pc_vault_id_hex p = to_ascii_lowercase v \<and> pc_public_key_hex p = to_ascii_lowercase k \<and>
         normalize_identity_binding h a d = Inr (pc_account_id p, pc_device_id_hex p)}"
| "issued_by h _ = {}"

lemma live_challenges_props:
  assumes "hash_map_ok P cs" "length cs \<le> MAX_ACTIVE_CHALLENGES"
  shows "hash_map_ok P (live_challenges now cs)" "set (live_challenges now cs) \<subseteq> set cs"
    "length (live_challenges now cs) < MAX_ACTIVE_CHALLENGES"
proof -
  define live where "live = filter (\<lambda>(_, c). ch_expires_at_utc c > now) cs"
  have l: "hash_map_ok P live" "set live \<subseteq> set cs" "length live \<le> MAX_ACTIVE_CHALLENGES"
    using assms order_trans[OF length_filter_le] by (auto simp: live_def hash_map_filter)
  consider "length live < MAX_ACTIVE_CHALLENGES" "live_challenges now cs = live"
    | t c where "(t, c) \<in> set live" "live_challenges now cs = AList.delete t live"
  proof (cases "length live < MAX_ACTIVE_CHALLENGES")
    case False
    then have "live \<noteq> []" by (auto simp: MAX_ACTIVE_CHALLENGES_def)
    then obtain t c where "min_by_key (\<lambda>(_, c). ch_expires_at_utc c) live = Some (t, c)"
      using min_by_key_None[of "\<lambda>(_, c). ch_expires_at_utc c" live] by (cases "min_by_key (\<lambda>(_, c). ch_expires_at_utc c) live") auto
    then show thesis using that(2)[of t c] False min_by_key_in by (fastforce simp: live_challenges_def Let_def live_def)
  qed (simp add: live_challenges_def Let_def live_def that)
  then show "hash_map_ok P (live_challenges now cs)" "set (live_challenges now cs) \<subseteq> set cs"
    "length (live_challenges now cs) < MAX_ACTIVE_CHALLENGES"
  proof (atomize (full), cases)
    case (2 t c)
    have "length (AList.delete t live) < length live" by (rule length_delete_in) (use 2(1) in force)
    moreover have "set (AList.delete t live) \<subseteq> set live" by (auto simp: AList.delete_eq)
    ultimately show "hash_map_ok P (live_challenges now cs) \<and> set (live_challenges now cs) \<subseteq> set cs \<and>
        length (live_challenges now cs) < MAX_ACTIVE_CHALLENGES"
      using l hash_map_delete[OF l(1), of t] by (auto simp: 2(2))
  qed (use l in simp)
qed

lemma persisted_challenge_id [simp]: "pc_challenge_id (persisted_challenge c) = fst c"
  by (simp add: persisted_challenge_def)

lemma issue_known:
  assumes "hex_ok h" "rows_ok (aj_challenges j)" "challenges_inv h j s" "length nonce = 32"
    and "issue_challenge_with_binding h j cfg cid nonce now w v k a d s = (r, s')"
  shows "challenges_inv h j s' \<and> known_challenges j s' \<subseteq> known_challenges j s \<union> issued_by h (Issue cid nonce now w v k a d)"
  using assms(2,5)
proof (cases rule: issue_cases)
  case (issued c a' d' f m)
  let ?live = "live_challenges now (oa_challenges s)"
  have inv: "hash_map_ok (challenge_ok h) (oa_challenges s)" "length (oa_challenges s) \<le> MAX_ACTIVE_CHALLENGES"
    using assms(3) by (simp_all add: challenges_inv_def)
  note live = live_challenges_props[OF inv, of now]
  have c: "challenge_ok h (hex_encode h cid, c)"
    using issued(1,2) assms(1,4) by (simp add: issued(4) challenge_ok_def decodes_to_encode decodes_to_lower)
  have m: "hash_map_ok (challenge_ok h) m" "length m \<le> MAX_ACTIVE_CHALLENGES" "set m \<subseteq> insert (hex_encode h cid, c) (set (oa_challenges s))"
    using hash_map_update[OF live(1) c] live(3) length_update_le[of "hex_encode h cid" c ?live] set_update[of "hex_encode h cid" c ?live] live(2)
    unfolding issued(5) by auto
  have p: "persisted_challenge (hex_encode h cid, c) \<in> issued_by h (Issue cid nonce now w v k a d)"
    using issued(3) by (simp add: persisted_challenge_def issued(4))
  have s': "hash_map_ok (challenge_ok h) (oa_challenges s') \<and> length (oa_challenges s') \<le> MAX_ACTIVE_CHALLENGES \<and>
      set (oa_challenges s') \<subseteq> set m \<and> oa_challenge_file s' = f"
    using issued(6) m hash_map_delete[OF m(1)] order_trans[OF length_delete m(2)] by (auto simp: AList.delete_eq)
  have "challenges_inv h j s'" using s' m(2) issued(7) assms(3) by (auto simp: challenges_inv_def)
  moreover have "persisted_challenge ` set (oa_challenges s') \<subseteq> known_challenges j s \<union> issued_by h (Issue cid nonce now w v k a d)"
    "persisted_challenge ` set m \<subseteq> known_challenges j s \<union> issued_by h (Issue cid nonce now w v k a d)"
    using s' m(3) p by (auto simp: known_challenges_def simp del: issued_by.simps)
  moreover have "set (load_rows (aj_challenges j) f) \<subseteq> known_challenges j s \<union> issued_by h (Issue cid nonce now w v k a d)"
    using issued(7)
  proof
    assume "load_rows (aj_challenges j) f = load_rows (aj_challenges j) (oa_challenge_file s)"
    then show ?thesis by (simp add: known_challenges_def le_supI1 del: issued_by.simps)
  next
    assume "load_rows (aj_challenges j) f = map persisted_challenge m"
    then show ?thesis using calculation(3) by (simp only: set_map)
  qed
  ultimately show ?thesis using s' unfolding known_challenges_def[of j s'] by (simp del: issued_by.simps)
qed (use assms(3) in simp)

lemma take_known:
  assumes "challenges_inv h j s"
    and "load_rows (aj_challenges j) f = load_rows (aj_challenges j) (oa_challenge_file s) \<or>
      load_rows (aj_challenges j) f = map persisted_challenge (AList.delete cid (oa_challenges s))"
    and "oa_challenges s' = AList.delete cid (oa_challenges s)" "oa_challenge_file s' = f"
  shows "challenges_inv h j s' \<and> known_challenges j s' \<subseteq> known_challenges j s"
proof -
  have "persisted_challenge ` set (AList.delete cid (oa_challenges s)) \<subseteq> persisted_challenge ` set (oa_challenges s)"
    by (rule image_mono) (auto simp: AList.delete_eq)
  then show ?thesis using assms(1,2) length_delete[of cid "oa_challenges s"]
    by (elim disjE) (simp_all add: challenges_inv_def known_challenges_def assms(3,4) hash_map_delete le_supI1)
qed

lemma load_challenge_step:
  assumes "hash_map_ok (challenge_ok h) cs"
  shows "hash_map_ok (challenge_ok h) (load_challenge h now r cs) \<and> length (load_challenge h now r cs) \<le> Suc (length cs) \<and>
    persisted_challenge ` set (load_challenge h now r cs) \<subseteq> insert r (persisted_challenge ` set cs)"
proof (cases "load_challenge h now r cs = cs")
  case False
  define c where "c = \<lparr>ch_nonce_hex = pc_nonce_hex r, ch_expires_at_utc = pc_expires_at_utc r, ch_vault_id_hex = pc_vault_id_hex r,
    ch_public_key_hex = pc_public_key_hex r, ch_account_id = pc_account_id r, ch_device_id_hex = pc_device_id_hex r\<rparr>"
  from False have ok: "challenge_ok h (pc_challenge_id r, c)" "load_challenge h now r cs = AList.update (pc_challenge_id r) c cs"
    by (auto simp: load_challenge_def challenge_ok_def c_def split: if_splits)
  have "persisted_challenge (pc_challenge_id r, c) = r" by (simp add: persisted_challenge_def c_def)
  then show ?thesis
    using hash_map_update[OF assms ok(1)] length_update_le[of "pc_challenge_id r" c cs] set_update[of "pc_challenge_id r" c cs]
    by (force simp: ok(2))
qed (use assms in auto)

lemma load_challenges_fold:
  assumes "hash_map_ok (challenge_ok h) cs"
  shows "hash_map_ok (challenge_ok h) (fold (load_challenge h now) rows cs) \<and>
    length (fold (load_challenge h now) rows cs) \<le> length cs + length rows \<and>
    persisted_challenge ` set (fold (load_challenge h now) rows cs) \<subseteq> set rows \<union> persisted_challenge ` set cs"
  using assms
proof (induction rows arbitrary: cs)
  case (Cons r rows)
  note st = load_challenge_step[OF Cons.prems, of now r]
  note IH = Cons.IH[OF conjunct1[OF st]]
  from IH st have "persisted_challenge ` set (fold (load_challenge h now) (r # rows) cs) \<subseteq> set (r # rows) \<union> persisted_challenge ` set cs"
    unfolding fold_simps list.set by blast
  with IH st show ?case by simp
qed simp

lemma load_challenges_known:
  assumes "challenges_inv h j s" "oa_challenges s' = load_challenges h j now (oa_challenge_file s)" "oa_challenge_file s' = oa_challenge_file s"
  shows "challenges_inv h j s' \<and> known_challenges j s' \<subseteq> known_challenges j s"
  using load_challenges_fold[of h "[]" now "load_rows (aj_challenges j) (oa_challenge_file s)"] assms
  by (auto simp: challenges_inv_def known_challenges_def load_challenges_def hash_map_ok_def)

lemma open_session_others:
  assumes "open_session h j tok now w c pk s = (r, s')"
  shows "oa_challenges s' = oa_challenges s" "oa_challenge_file s' = oa_challenge_file s"
    "oa_identities s' = oa_identities s" "oa_identity_file s' = oa_identity_file s"
proof -
  let ?v = "insert_session (hex_encode h tok) (now + 3600) pk (ch_vault_id_hex c) (ch_account_id c, ch_device_id_hex c)
    (evict_session (expire_sessions now s))"
  have v: "oa_challenges ?v = oa_challenges s" "oa_challenge_file ?v = oa_challenge_file s"
    "oa_identities ?v = oa_identities s" "oa_identity_file ?v = oa_identity_file s"
    by (auto simp: insert_session_others evict_session_def expire_sessions_def drop_session_def Let_def split: option.splits)
  obtain q u where p: "persist_sessions h j w ?v = (q, u)" by force
  then obtain f where u: "u = ?v\<lparr>oa_session_file := f\<rparr>" by (auto simp: persist_sessions_def split: prod.splits)
  have "s' = u \<or> s' = drop_session (hex_encode h tok) u"
    using assms p by (cases q) (simp_all only: open_session_def Let_def p prod.case sum.case prod.inject simp_thms)
  then show "oa_challenges s' = oa_challenges s" "oa_challenge_file s' = oa_challenge_file s"
    "oa_identities s' = oa_identities s" "oa_identity_file s' = oa_identity_file s"
    using v by (auto simp: u drop_session_def)
qed

lemma revoke_session_others:
  assumes "revoke_session h j w t s = (r, s')"
  shows "oa_challenges s' = oa_challenges s" "oa_challenge_file s' = oa_challenge_file s"
    "oa_identities s' = oa_identities s" "oa_identity_file s' = oa_identity_file s"
proof -
  obtain q u where p: "persist_sessions h j w (drop_session t s) = (q, u)" by force
  then obtain f where u: "u = (drop_session t s)\<lparr>oa_session_file := f\<rparr>" by (auto simp: persist_sessions_def split: prod.splits)
  have "s' = drop_session t s \<or> s' = u \<or> (\<exists>a b c d. s' = u\<lparr>oa_sessions := a, oa_session_keys := b, oa_session_vaults := c, oa_session_bindings := d\<rparr>)"
    using assms unfolding revoke_session_def Let_def p prod.case by (cases q; cases "map_of (oa_sessions s) t") auto
  then show "oa_challenges s' = oa_challenges s" "oa_challenge_file s' = oa_challenge_file s"
    "oa_identities s' = oa_identities s" "oa_identity_file s' = oa_identity_file s"
    by (auto simp: u drop_session_def)
qed

subsection \<open>Identities in memory and on disk\<close>

abbreviation identity_name :: "EnrolledIdentity \<Rightarrow> string \<times> string" where
  "identity_name i \<equiv> (ei_vault_id_hex i, ei_public_key_hex i)"

definition identities_wf :: "hex_crate \<Rightarrow> EnrolledIdentity list \<Rightarrow> bool" where
  "identities_wf h ids \<longleftrightarrow> distinct (map identity_name ids) \<and> (\<forall>i\<in>set ids. identity_loadable h i \<and> ei_permissions i \<noteq> - 1)"

text \<open>The vaults and keys with an identity that is not revoked.\<close>

definition active :: "EnrolledIdentity list \<Rightarrow> (string \<times> string) set" where
  "active ids = identity_name ` {i \<in> set ids. ei_revoked_at_utc i = None}"

lemma active_simps:
  "active [] = {}" "active (xs @ ys) = active xs \<union> active ys"
  "active (x # xs) = (if ei_revoked_at_utc x = None then insert (identity_name x) (active xs) else active xs)"
  by (auto simp: active_def)

definition identities_inv :: "hex_crate \<Rightarrow> auth_json \<Rightarrow> auth_state \<Rightarrow> bool" where
  "identities_inv h j s \<longleftrightarrow> identities_wf h (oa_identities s) \<and> identities_wf h (load_rows (aj_identities j) (oa_identity_file s)) \<and>
     active (load_rows (aj_identities j) (oa_identity_file s)) \<subseteq> active (oa_identities s)"

lemma load_identities_wf:
  assumes "identities_wf h (load_rows (aj_identities j) f)"
  shows "load_enrolled_identities h j f = load_rows (aj_identities j) f"
proof -
  have "map (\<lambda>i. if ei_permissions i = - 1 then i\<lparr>ei_permissions := PERMISSION_VAULT_DEFAULT\<rparr> else i)
      (load_rows (aj_identities j) f) = load_rows (aj_identities j) f"
    using assms by (intro map_idI) (simp add: identities_wf_def)
  then show ?thesis using assms by (simp add: load_enrolled_identities_def identities_wf_def)
qed

lemma mark_revoked_simps [simp]:
  "identity_name (mark_revoked v k now i) = identity_name i" "identity_loadable h (mark_revoked v k now i) = identity_loadable h i"
  "ei_permissions (mark_revoked v k now i) = ei_permissions i"
  "ei_revoked_at_utc (mark_revoked v k now i) = None \<longleftrightarrow> ei_revoked_at_utc i = None \<and> identity_name i \<noteq> (v, k)"
  by (auto simp: mark_revoked_def identity_loadable_def names_identity_def)

lemma mark_revoked_wf: "identities_wf h ids \<Longrightarrow> identities_wf h (map (mark_revoked v k now) ids)"
  by (simp add: identities_wf_def comp_def)

lemma mark_revoked_active: "active (map (mark_revoked v k now) ids) = active ids - {(v, k)}"
  by (induction ids) (auto simp: active_simps)

lemma update_found_Some:
  "update_found P f xs = Some ys \<Longrightarrow> \<exists>as x bs. xs = as @ x # bs \<and> P x \<and> ys = as @ f x # bs"
proof (induction xs arbitrary: ys)
  case (Cons x xs)
  show ?case
  proof (cases "P x")
    case False
    with Cons.prems obtain zs where "update_found P f xs = Some zs" "ys = x # zs" by auto
    with Cons.IH obtain as y bs where "xs = as @ y # bs \<and> P y \<and> zs = as @ f y # bs" by blast
    then show ?thesis using \<open>ys = x # zs\<close> by (intro exI[of _ "x # as"]) auto
  qed (use Cons.prems in \<open>auto intro!: exI[of _ "[]"]\<close>)
qed simp

lemma update_found_None: "update_found P f xs = None \<longleftrightarrow> (\<forall>x\<in>set xs. \<not> P x)"
  by (induction xs) auto

lemma normalized_binding:
  assumes "normalize_identity_binding h a d = Inr (a', d')"
  shows "(a' \<noteq> None) = (d' \<noteq> None)" "case a' of None \<Rightarrow> True | Some x \<Rightarrow> valid_account_id h x"
    "case d' of None \<Rightarrow> True | Some x \<Rightarrow> valid_device_id h x"
  using assms by (auto simp: normalize_identity_binding_def Let_def split: if_splits option.splits)

lemma enrolled_list_props:
  assumes "identities_wf h ids" "decodes_to h 32 v" "decodes_to h 32 k" "v = to_ascii_lowercase v" "k = to_ascii_lowercase k"
    and "normalize_identity_binding h a d = Inr (a', d')" "p \<noteq> - 1"
  shows "identities_wf h (enrolled_list v k p now a' d' ids) \<and> active (enrolled_list v k p now a' d' ids) = insert (v, k) (active ids)"
proof -
  note b = normalized_binding[OF assms(6)]
  define f :: "EnrolledIdentity \<Rightarrow> EnrolledIdentity" where "f = (\<lambda>i. let i = i\<lparr>ei_permissions := p, ei_revoked_at_utc := None\<rparr>
    in if a' \<noteq> None then i\<lparr>ei_account_id := a', ei_device_id_hex := d'\<rparr> else i)"
  have f: "identity_name (f i) = identity_name i" "ei_permissions (f i) = p" "ei_revoked_at_utc (f i) = None"
    "identity_loadable h i \<Longrightarrow> identity_loadable h (f i)" for i
    using b by (auto simp: f_def identity_loadable_def Let_def)
  show ?thesis
  proof (cases "update_found (names_identity v k) f ids")
    case None
    then have "(v, k) \<notin> identity_name ` set ids" by (auto simp: update_found_None names_identity_def)
    moreover have l: "enrolled_list v k p now a' d' ids = ids @
      [\<lparr>ei_vault_id_hex = v, ei_public_key_hex = k, ei_permissions = p, ei_enrolled_at_utc = now, ei_revoked_at_utc = None,
        ei_account_id = a', ei_device_id_hex = d'\<rparr>]" using None by (simp add: enrolled_list_def f_def)
    moreover have "identity_loadable h \<lparr>ei_vault_id_hex = v, ei_public_key_hex = k, ei_permissions = p, ei_enrolled_at_utc = now,
        ei_revoked_at_utc = None, ei_account_id = a', ei_device_id_hex = d'\<rparr>"
      using assms(2-5) b by (simp add: identity_loadable_def)
    ultimately show ?thesis using assms(1,7) by (auto simp: identities_wf_def active_simps)
  next
    case (Some ys)
    then have l: "enrolled_list v k p now a' d' ids = ys" by (simp add: enrolled_list_def f_def)
    from update_found_Some[OF Some] obtain as x bs where x: "ids = as @ x # bs" "names_identity v k x" "ys = as @ f x # bs" by blast
    have "map identity_name ys = map identity_name ids" by (simp add: x f(1))
    moreover have "identity_loadable h i \<and> ei_permissions i \<noteq> - 1" if "i \<in> set ys" for i
      using that assms(1,7) f(2) f(4)[of x] by (auto simp: x identities_wf_def)
    moreover have "active ys = insert (v, k) (active ids)"
      using x(2) f(1,3)[of x] by (auto simp: x active_simps names_identity_def)
    ultimately show ?thesis unfolding l using assms(1) by (simp add: identities_wf_def)
  qed
qed

subsection \<open>One step\<close>

definition auth_wf :: "hex_crate \<Rightarrow> auth_json \<Rightarrow> auth_state \<Rightarrow> bool" where
  "auth_wf h j s \<longleftrightarrow> sessions_inv h j s \<and> challenges_inv h j s \<and> identities_inv h j s"

text \<open>The random bytes of a call have the lengths of the arrays they fill.\<close>

fun call_ok :: "auth_call \<Rightarrow> bool" where
  "call_ok (Issue cid nonce now w v k a d) \<longleftrightarrow> length cid = 16 \<and> length nonce = 32"
| "call_ok (Verify tok now w1 w2 cid k sig) \<longleftrightarrow> length tok = 32"
| "call_ok _ \<longleftrightarrow> True"

text \<open>The session that a call may open in a state.\<close>

fun opened_by :: "hex_crate \<Rightarrow> crypto_crate \<Rightarrow> OperatorSecurityConfig \<Rightarrow> auth_call \<Rightarrow> auth_state \<Rightarrow> (string \<times> u64 \<times> bytes \<times> string) set" where
  "opened_by h cr cfg (Verify tok now w1 w2 cid k sig) s =
     {(hex_encode h tok, now + 3600, pk, ch_vault_id_hex c) | pk c.
        map_of (oa_challenges s) cid = Some c \<and> accepted_key h cr cfg now (oa_identities s) c k sig = Some pk}"
| "opened_by h cr cfg _ s = {}"

lemma accepted_key_Some:
  "accepted_key h cr cfg now ids c k sig = Some pk \<longleftrightarrow>
     now \<le> ch_expires_at_utc c \<and> eq_ignore_ascii_case (ch_public_key_hex c) k \<and> hex_decode h k = Inr pk \<and> length pk = 32 \<and>
     (os_require_enrollment cfg \<longrightarrow>
        is_identity_enrolled_with_binding h ids (ch_vault_id_hex c) (ch_public_key_hex c) (ch_account_id c) (ch_device_id_hex c)) \<and>
     (\<exists>sg nonce. hex_decode h sig = Inr sg \<and> length sg = 64 \<and> hex_decode h (ch_nonce_hex c) = Inr nonce \<and>
        verify_with_domain cr pk (as_bytes ''operator_challenge'') nonce sg = Inr ())"
  by (auto simp: accepted_key_def not_less result_simps split: sum.splits if_splits)

lemma sessions_inv_cong:
  assumes "oa_sessions s' = oa_sessions s" "oa_session_keys s' = oa_session_keys s" "oa_session_vaults s' = oa_session_vaults s"
    "oa_session_bindings s' = oa_session_bindings s" "oa_session_file s' = oa_session_file s"
  shows "sessions_inv h j s' = sessions_inv h j s" "known_sessions h j s' = known_sessions h j s"
  using assms by (simp_all add: sessions_inv_def sessions_wf_def tables_distinct_def known_sessions_def disk_sessions_def session_of_def)

lemma challenges_inv_cong:
  assumes "oa_challenges s' = oa_challenges s" "oa_challenge_file s' = oa_challenge_file s"
  shows "challenges_inv h j s' = challenges_inv h j s" "known_challenges j s' = known_challenges j s"
  using assms by (simp_all add: challenges_inv_def known_challenges_def)

lemma identities_inv_cong:
  assumes "oa_identities s' = oa_identities s" "oa_identity_file s' = oa_identity_file s"
  shows "identities_inv h j s' = identities_inv h j s"
  using assms by (simp add: identities_inv_def)

lemma enroll_step:
  assumes "rows_ok (aj_identities j)" "auth_wf h j s" "enroll_identity_with_binding h j now w v k p a d s = (r, s')"
  shows "auth_wf h j s' \<and> known_challenges j s' = known_challenges j s \<and> known_sessions h j s' = known_sessions h j s"
  using assms(1,3)
proof (cases rule: enroll_cases)
  case (enrolled a' d' ids f)
  have p: "(if p = - 1 then PERMISSION_VAULT_DEFAULT else p) \<noteq> - 1"
    by (simp add: PERMISSION_VAULT_DEFAULT_def PERMISSION_READ_def PERMISSION_WRITE_def)
  have inv: "identities_inv h j s" using assms(2) by (simp add: auth_wf_def)
  then have "identities_wf h (oa_identities s)" by (simp add: identities_inv_def)
  from enrolled_list_props[OF this enrolled(1,2) lower_idem[symmetric] lower_idem[symmetric] enrolled(3) p, of now]
  have "identities_wf h ids" "active (oa_identities s) \<subseteq> active ids" unfolding enrolled(4) by auto
  then have "identities_inv h j s'" using inv enrolled(5,6) by (auto simp: identities_inv_def)
  then show ?thesis using assms(2) sessions_inv_cong[of s' s h j] challenges_inv_cong[of s' s] by (simp add: auth_wf_def enrolled(5))
qed (use assms(2) in simp)

lemma revoke_identity_step:
  assumes "hex_ok h" "auth_json_ok j" "auth_wf h j s" "revoke_identity h j now w1 w2 v k s = (r, s')"
  shows "auth_wf h j s' \<and> known_challenges j s' = known_challenges j s \<and> known_sessions h j s' \<subseteq> known_sessions h j s"
proof -
  have j: "rows_ok (aj_identities j)" "rows_ok (aj_sessions j)" using assms(2) by (simp_all add: auth_json_ok_def)
  have inv: "identities_inv h j s" "sessions_inv h j s" "challenges_inv h j s" using assms(3) by (simp_all add: auth_wf_def)
  show ?thesis using j(1) assms(4)
  proof (cases rule: revoke_cases)
    case (unsaved f e)
    have "identities_inv h j s'" using inv(1) unsaved(3) by (auto simp: unsaved(2) identities_inv_def mark_revoked_wf mark_revoked_active)
    then show ?thesis using inv sessions_inv_cong[of s' s h j] challenges_inv_cong[of s' s] by (simp add: auth_wf_def unsaved(2))
  next
    case (marked f)
    let ?u = "s\<lparr>oa_identities := map (mark_revoked (to_ascii_lowercase (trim v)) (to_ascii_lowercase (trim k)) now) (oa_identities s),
      oa_identity_file := f\<rparr>"
    have u: "sessions_inv h j ?u" "known_sessions h j ?u = known_sessions h j s"
      using sessions_inv_cong[of ?u s h j] inv by simp_all
    note kept = revoke_key_sessions_known[OF assms(1) j(2) u(1) marked(2)]
    have "identities_inv h j s'" using inv(1) by (simp add: identities_inv_def kept marked(1) mark_revoked_wf)
    then show ?thesis using kept(1) u(2) challenges_inv_cong[of s' s] inv by (simp add: auth_wf_def kept)
  qed (use assms(3) in simp)
qed

lemma verify_step:
  assumes "hex_ok h" "auth_json_ok j" "auth_wf h j s"
    and "verify_and_create_session h cr j cfg tok now w1 w2 cid k sig s = (r, s')"
  shows "auth_wf h j s' \<and> known_challenges j s' \<subseteq> known_challenges j s \<and>
    known_sessions h j s' \<subseteq> known_sessions h j s \<union> opened_by h cr cfg (Verify tok now w1 w2 cid k sig) s"
proof -
  have j: "rows_ok (aj_challenges j)" "rows_ok (aj_sessions j)" using assms(2) by (simp_all add: auth_json_ok_def)
  have inv: "identities_inv h j s" "sessions_inv h j s" "challenges_inv h j s" using assms(3) by (simp_all add: auth_wf_def)
  have kept: "auth_wf h j s' \<and> known_challenges j s' \<subseteq> known_challenges j s \<and> known_sessions h j s' = known_sessions h j s"
    if "s' = s\<lparr>oa_challenges := AList.delete cid (oa_challenges s), oa_challenge_file := f\<rparr>"
      "load_rows (aj_challenges j) f = load_rows (aj_challenges j) (oa_challenge_file s) \<or>
       load_rows (aj_challenges j) f = map persisted_challenge (AList.delete cid (oa_challenges s))" for f s'
    using that take_known[OF inv(3) that(2), of s'] inv sessions_inv_cong[of s' s h j] identities_inv_cong[of s' s h j]
    by (simp add: auth_wf_def)
  show ?thesis using j(1) assms(4)
  proof (cases rule: verify_cases)
    case (accepted c f pk)
    let ?u = "s\<lparr>oa_challenges := AList.delete cid (oa_challenges s), oa_challenge_file := f\<rparr>"
    have u: "auth_wf h j ?u \<and> known_challenges j ?u \<subseteq> known_challenges j s \<and> known_sessions h j ?u = known_sessions h j s"
      by (rule kept[OF refl disjI2[OF accepted(2)]])
    then have si: "sessions_inv h j ?u" by (simp add: auth_wf_def)
    have "challenge_ok h (cid, c)" using inv(3) accepted(1) hash_map_lookup by (fastforce simp: challenges_inv_def)
    then have v: "decodes_to h 32 (ch_vault_id_hex c)" by (simp add: challenge_ok_def)
    have pk: "length pk = 32" using accepted(3) by (simp add: accepted_key_Some)
    have opened: "(hex_encode h tok, now + 3600, pk, ch_vault_id_hex c) \<in> opened_by h cr cfg (Verify tok now w1 w2 cid k sig) s"
      using accepted(1,3) by auto
    note kn = open_session_known[OF assms(1) j(2) si pk v accepted(4)]
    note others = open_session_others[OF accepted(4)]
    have "auth_wf h j s'" "known_challenges j s' = known_challenges j ?u"
      using u kn challenges_inv_cong[of s' ?u] identities_inv_cong[of s' ?u h j] others by (simp_all add: auth_wf_def)
    then show ?thesis using u kn opened by blast
  qed (use assms(3) kept in auto)
qed

lemma auth_step_wf:
  fixes h cr j cfg c s
  assumes "hex_ok h" "auth_json_ok j" "auth_wf h j s" "call_ok c"
  defines "s' \<equiv> auth_step h cr j cfg c s"
  shows "auth_wf h j s' \<and> known_challenges j s' \<subseteq> known_challenges j s \<union> issued_by h c \<and>
    known_sessions h j s' \<subseteq> known_sessions h j s \<union> opened_by h cr cfg c s"
proof -
  have j: "rows_ok (aj_challenges j)" "rows_ok (aj_sessions j)" "rows_ok (aj_identities j)" using assms(2) by (simp_all add: auth_json_ok_def)
  have inv: "identities_inv h j s" "sessions_inv h j s" "challenges_inv h j s" using assms(3) by (simp_all add: auth_wf_def)
  show ?thesis
  proof (cases c)
    case (Enroll now w v k p a d)
    show ?thesis using enroll_step[OF j(3) assms(3) surjective_pairing] by (simp add: s'_def Enroll)
  next
    case (Revoke_identity now w1 w2 v k)
    show ?thesis using revoke_identity_step[OF assms(1-3) surjective_pairing] by (simp add: s'_def Revoke_identity)
  next
    case (Issue cid nonce now w v k a d)
    obtain r u where u: "issue_challenge_with_binding h j cfg cid nonce now w v k a d s = (r, u)" by force
    have "u = s \<or> (\<exists>m f. u = s\<lparr>oa_challenges := m, oa_challenge_file := f\<rparr>)"
      using j(1) u by (cases rule: issue_cases) auto
    then have "sessions_inv h j u = sessions_inv h j s" "known_sessions h j u = known_sessions h j s" "identities_inv h j u = identities_inv h j s"
      using sessions_inv_cong[of u s h j] identities_inv_cong[of u s h j] by auto
    then show ?thesis using issue_known[OF assms(1) j(1) inv(3) _ u] assms(4) inv by (simp add: s'_def Issue u auth_wf_def)
  next
    case (Verify tok now w1 w2 cid k sig)
    show ?thesis using verify_step[OF assms(1-3) surjective_pairing] by (auto simp: s'_def Verify simp del: opened_by.simps)
  next
    case (Revoke_session w t)
    note rs = revoke_session_others[OF surjective_pairing[of "revoke_session h j w t s"]]
    show ?thesis using revoke_session_known[OF assms(1) j(2) inv(2) surjective_pairing]
        challenges_inv_cong[OF rs(1,2)] identities_inv_cong[OF rs(3,4), of h j] inv
      by (simp add: s'_def Revoke_session auth_wf_def)
  next
    case (Restart now)
    note rs = restart_others[OF inv(2), of now]
    have "identities_wf h (load_rows (aj_identities j) (oa_identity_file s))" using inv(1) by (simp add: identities_inv_def)
    from load_identities_wf[OF this] have "identities_inv h j (auth_restart h j now s)"
      using inv(1) by (simp add: identities_inv_def rs(3,4))
    then show ?thesis using rs(6) load_challenges_known[OF inv(3) rs(5,2)] by (auto simp: s'_def Restart auth_wf_def)
  qed
qed

end
