(* ===== verification/Operator_Login.thy ===== *)
theory Operator_Login
  imports Operator_Steps
begin

text \<open>
  What holds in every run of the operator's authentication: the tables stay well formed,
  a session exists only because a challenge issued for its vault and key was signed, a
  challenge opens at most one session, and a revoked identity has no access, under write
  errors, kills and restarts.
\<close>

subsection \<open>Runs\<close>

lemma auth_run_simps [simp]:
  "auth_run h cr j cfg [] s = s" "auth_run h cr j cfg (xs @ ys) s = auth_run h cr j cfg ys (auth_run h cr j cfg xs s)"
  "auth_run h cr j cfg (c # cs) s = auth_run h cr j cfg cs (auth_step h cr j cfg c s)"
  by (simp_all add: auth_run_def)

lemma load_rows_None: "load_rows r None = []"
  by (simp add: load_rows_def)

lemma auth_new_wf: "auth_wf h j auth_new" "known_challenges j auth_new = {}" "known_sessions h j auth_new = {}"
  by (simp_all add: auth_new_def auth_wf_def sessions_inv_def sessions_wf_def tables_distinct_def challenges_inv_def identities_inv_def
      identities_wf_def hash_map_ok_def load_rows_None active_simps known_challenges_def known_sessions_def disk_sessions_def session_of_def)

lemma auth_run_wf:
  assumes "hex_ok h" "auth_json_ok j" "list_all call_ok cs" "auth_wf h j s"
  shows "auth_wf h j (auth_run h cr j cfg cs s)"
  using assms(3,4) by (induction cs arbitrary: s) (simp_all add: auth_step_wf[OF assms(1,2)])

lemma auth_run_challenges:
  assumes "hex_ok h" "auth_json_ok j" "list_all call_ok cs" "auth_wf h j s"
  shows "known_challenges j (auth_run h cr j cfg cs s) \<subseteq> known_challenges j s \<union> (\<Union>c\<in>set cs. issued_by h c)"
  using assms(3,4)
proof (induction cs arbitrary: s)
  case (Cons c cs)
  from Cons.prems have st: "auth_wf h j (auth_step h cr j cfg c s) \<and>
      known_challenges j (auth_step h cr j cfg c s) \<subseteq> known_challenges j s \<union> issued_by h c"
    using auth_step_wf[OF assms(1,2) Cons.prems(2), of c cr cfg] by simp
  with Cons.IH[of "auth_step h cr j cfg c s"] Cons.prems(1) show ?case by auto
qed simp

lemma auth_run_sessions:
  assumes "hex_ok h" "auth_json_ok j" "list_all call_ok cs" "x \<in> known_sessions h j (auth_run h cr j cfg cs auth_new)"
  shows "\<exists>xs c ys. cs = xs @ c # ys \<and> x \<in> opened_by h cr cfg c (auth_run h cr j cfg xs auth_new)"
  using assms(3,4)
proof (induction cs rule: rev_induct)
  case (snoc c cs)
  let ?s = "auth_run h cr j cfg cs auth_new"
  have "auth_wf h j ?s" using snoc.prems(1) by (intro auth_run_wf[OF assms(1,2) _ auth_new_wf(1)]) simp
  with auth_step_wf[OF assms(1,2) this, of c cr cfg] snoc.prems consider "x \<in> known_sessions h j ?s" | "x \<in> opened_by h cr cfg c ?s"
    by auto
  then show ?case
  proof cases
    case 1
    with snoc.IH snoc.prems(1) obtain xs d ys where "cs = xs @ d # ys" "x \<in> opened_by h cr cfg d (auth_run h cr j cfg xs auth_new)" by auto
    then show ?thesis by (intro exI[of _ xs] exI[of _ d] exI[of _ "ys @ [c]"]) simp
  next
    case 2
    then show ?thesis by (intro exI[of _ cs] exI[of _ c] exI[of _ "[]"]) simp
  qed
qed (simp add: auth_new_wf)

text \<open>Which identities a call may make active.\<close>

fun enrolled_by :: "auth_call \<Rightarrow> (string \<times> string) set" where
  "enrolled_by (Enroll now w v k p a d) = {(to_ascii_lowercase (trim v), to_ascii_lowercase (trim k))}"
| "enrolled_by _ = {}"

lemma active_step:
  assumes "hex_ok h" "auth_json_ok j" "auth_wf h j s"
  shows "active (oa_identities (auth_step h cr j cfg c s)) \<subseteq> active (oa_identities s) \<union> enrolled_by c"
proof -
  have j: "rows_ok (aj_challenges j)" "rows_ok (aj_sessions j)" "rows_ok (aj_identities j)" using assms(2) by (simp_all add: auth_json_ok_def)
  have inv: "identities_inv h j s" "sessions_inv h j s" using assms(3) by (simp_all add: auth_wf_def)
  then have wf: "identities_wf h (oa_identities s)" by (simp add: identities_inv_def)
  show ?thesis
  proof (cases c)
    case (Enroll now w v k p a d)
    have p: "(if p = - 1 then PERMISSION_VAULT_DEFAULT else p) \<noteq> - 1"
      by (simp add: PERMISSION_VAULT_DEFAULT_def PERMISSION_READ_def PERMISSION_WRITE_def)
    obtain r s' where e: "enroll_identity_with_binding h j now w v k p a d s = (r, s')" by force
    show ?thesis using j(3) e
    proof (cases rule: enroll_cases)
      case (enrolled a' d' ids f)
      show ?thesis
        using enrolled_list_props[OF wf enrolled(1,2) lower_idem[symmetric] lower_idem[symmetric] enrolled(3) p, of now]
        by (simp add: Enroll e enrolled(4,5))
    qed (auto simp: Enroll e)
  next
    case (Revoke_identity now w1 w2 v k)
    obtain r s' where e: "revoke_identity h j now w1 w2 v k s = (r, s')" by force
    show ?thesis using j(3) e
    proof (cases rule: revoke_cases)
      case (marked f)
      let ?u = "s\<lparr>oa_identities := map (mark_revoked (to_ascii_lowercase (trim v)) (to_ascii_lowercase (trim k)) now) (oa_identities s),
        oa_identity_file := f\<rparr>"
      have "sessions_inv h j ?u" using sessions_inv_cong[of ?u s h j] inv(2) by simp
      from revoke_key_sessions_known(4)[OF assms(1) j(2) this marked(2)] show ?thesis
        by (auto simp: Revoke_identity e mark_revoked_active)
    qed (simp_all add: Revoke_identity e)
  next
    case (Issue cid nonce now w v k a d)
    obtain r u where u: "issue_challenge_with_binding h j cfg cid nonce now w v k a d s = (r, u)" by force
    have "oa_identities u = oa_identities s" using j(1) u by (cases rule: issue_cases) auto
    then show ?thesis by (simp add: Issue u)
  next
    case (Verify tok now w1 w2 cid k sig)
    obtain r u where u: "verify_and_create_session h cr j cfg tok now w1 w2 cid k sig s = (r, u)" by force
    have "oa_identities u = oa_identities s" using j(1) u by (cases rule: verify_cases) (auto dest: open_session_others(3))
    then show ?thesis by (simp add: Verify u)
  next
    case (Revoke_session w t)
    show ?thesis using revoke_session_others(3)[OF surjective_pairing[of "revoke_session h j w t s"]] by (simp add: Revoke_session)
  next
    case (Restart now)
    have "identities_wf h (load_rows (aj_identities j) (oa_identity_file s))" using inv(1) by (simp add: identities_inv_def)
    then show ?thesis using inv(1) by (simp add: Restart restart_others(4)[OF inv(2)] load_identities_wf identities_inv_def)
  qed
qed

lemma active_run:
  assumes "hex_ok h" "auth_json_ok j" "list_all call_ok cs" "auth_wf h j s"
  shows "active (oa_identities (auth_run h cr j cfg cs s)) \<subseteq> active (oa_identities s) \<union> (\<Union>c\<in>set cs. enrolled_by c)"
  using assms(3,4)
proof (induction cs arbitrary: s)
  case (Cons c cs)
  from Cons.prems have "auth_wf h j (auth_step h cr j cfg c s)" using auth_step_wf[OF assms(1,2) Cons.prems(2), of c cr cfg] by simp
  with Cons.IH[of "auth_step h cr j cfg c s"] Cons.prems(1) active_step[OF assms(1,2) Cons.prems(2), of cr cfg c] show ?case by auto
qed simp

lemma enrolled_active:
  "is_identity_enrolled_with_binding h ids v k a d \<Longrightarrow> (to_ascii_lowercase (trim v), to_ascii_lowercase (trim k)) \<in> active ids"
  by (auto simp: is_identity_enrolled_with_binding_def list_ex_iff active_def names_identity_def image_iff split: sum.splits)

lemma ascii_lower_hex: "ascii_lower c \<in> set hex_digits \<Longrightarrow> graphic c"
  by (cases "65 \<le> (of_char c :: nat) \<and> of_char c \<le> (90 :: nat)")
    (auto simp: ascii_lower_def graphic_def dest: hex_digits_graphic)

lemma decodes_trim:
  assumes "hex_ok h" "decodes_to h n s"
  shows "trim s = s"
proof (rule trim_graphic)
  from assms obtain bs where "to_ascii_lowercase s = hex_encode h bs" by (auto simp: decodes_to_iff hex_decode_iff)
  then have "ascii_lower ` set s \<subseteq> set hex_digits"
    using hex_set[OF assms(1), of bs] by (simp only: to_ascii_lowercase_def flip: set_map)
  then have g: "graphic c" if "c \<in> set s" for c using that by (intro ascii_lower_hex) blast
  show "s = [] \<or> graphic (hd s) \<and> graphic (last s)" using g[of "hd s"] g[of "last s"] by (cases "s = []") simp_all
qed

subsection \<open>Properties\<close>

text \<open>C18. In every run, with any write errors, kills and restarts, the tables stay well formed: no
  token or challenge id occurs twice, a session has exactly one key of 32 bytes and one vault, no more
  than 5000 sessions and 5000 challenges are kept in memory or on disk, and every identity has a
  canonical vault and key, occurs once, and does not have all permission bits.\<close>

theorem auth_tables_wf:
  assumes "hex_ok h" "auth_json_ok j" "list_all call_ok cs"
  shows "auth_wf h j (auth_run h cr j cfg cs auth_new)"
  by (rule auth_run_wf[OF assms auth_new_wf(1)])

text \<open>C15. A session that is accepted for a vault was opened by a call of
  \<open>verify_and_create_session\<close> at most an hour ago, which answered a challenge that had been issued
  for that vault and that key at most five minutes before, with a signature of the key over the nonce
  of the challenge; when enrollment is required, the identity was enrolled at that time.\<close>

theorem session_provenance:
  assumes "hex_ok h" "auth_json_ok j" "list_all call_ok cs"
    and "validate_session_for_vault h cfg now token vault (auth_run h cr j cfg cs auth_new)"
  shows "\<exists>xs tok t w1 w2 cid k sig ys id nonce t0 w v k0 a d a' d' key sg.
    cs = xs @ Verify tok t w1 w2 cid k sig # ys \<and> token = hex_encode h tok \<and> now \<le> t + 3600 \<and>
    Issue id nonce t0 w v k0 a d \<in> set xs \<and> cid = hex_encode h id \<and> t \<le> t0 + 300 \<and>
    to_ascii_lowercase v = to_ascii_lowercase vault \<and> hex_decode h k0 = Inr key \<and>
    map_of (oa_session_keys (auth_run h cr j cfg cs auth_new)) token = Some key \<and>
    hex_decode h sig = Inr sg \<and> verify_with_domain cr key (as_bytes ''operator_challenge'') nonce sg = Inr () \<and>
    normalize_identity_binding h a d = Inr (a', d') \<and>
    (os_require_enrollment cfg \<longrightarrow> is_identity_enrolled_with_binding h
       (oa_identities (auth_run h cr j cfg xs auth_new)) (to_ascii_lowercase v) (to_ascii_lowercase k0) a' d')"
proof -
  let ?s = "auth_run h cr j cfg cs auth_new"
  have wf: "sessions_wf h ?s" using auth_run_wf[OF assms(1-3) auth_new_wf(1), of cr cfg] by (simp add: auth_wf_def sessions_inv_def)
  from assms(4) obtain e scope where e: "map_of (oa_sessions ?s) token = Some e" "now \<le> e"
    and scope: "map_of (oa_session_vaults ?s) token = Some scope" "eq_ignore_ascii_case scope vault"
    by (auto simp: validate_session_for_vault_def validate_write_session_def split: if_splits option.splits)
  have "token \<in> dom (map_of (oa_session_keys ?s))" using wf e(1) by (simp add: sessions_wf_def domIff)
  then obtain key where key: "map_of (oa_session_keys ?s) token = Some key" by blast
  have "(token, e, key, scope) \<in> known_sessions h j ?s" using e(1) scope(1) key by (simp add: known_sessions_def session_of_Some)
  from auth_run_sessions[OF assms(1-3) this] obtain xs c ys where cs: "cs = xs @ c # ys"
    and opened: "(token, e, key, scope) \<in> opened_by h cr cfg c (auth_run h cr j cfg xs auth_new)" by blast
  let ?u = "auth_run h cr j cfg xs auth_new"
  from opened obtain tok t w1 w2 cid k sig ch where c: "c = Verify tok t w1 w2 cid k sig" "token = hex_encode h tok" "e = t + 3600"
      "scope = ch_vault_id_hex ch" "map_of (oa_challenges ?u) cid = Some ch"
    and acc: "accepted_key h cr cfg t (oa_identities ?u) ch k sig = Some key" by (cases c) auto
  have "list_all call_ok xs" using assms(3) by (simp add: cs)
  note known = auth_run_challenges[OF assms(1,2) this auth_new_wf(1), of cr cfg, unfolded auth_new_wf(2) Un_empty_left]
  have "persisted_challenge (cid, ch) \<in> known_challenges j ?u"
    using map_of_SomeD[OF c(5)] by (simp add: known_challenges_def)
  from subsetD[OF known this] have "persisted_challenge (cid, ch) \<in> (\<Union>c\<in>set xs. issued_by h c)" .
  then obtain i where i: "i \<in> set xs" "persisted_challenge (cid, ch) \<in> issued_by h i" by blast
  from i(2) obtain id nonce t0 w v k0 a d where iss: "i = Issue id nonce t0 w v k0 a d" by (cases i) auto
  from i(2) have ch: "cid = hex_encode h id" "ch_nonce_hex ch = hex_encode h nonce" "ch_expires_at_utc ch = t0 + 300"
    "ch_vault_id_hex ch = to_ascii_lowercase v" "ch_public_key_hex ch = to_ascii_lowercase k0"
    "normalize_identity_binding h a d = Inr (ch_account_id ch, ch_device_id_hex ch)"
    by (simp_all add: iss persisted_challenge_def)
  from acc obtain sg where acc': "t \<le> t0 + 300" "eq_ignore_ascii_case (to_ascii_lowercase k0) k" "hex_decode h k = Inr key"
    "os_require_enrollment cfg \<longrightarrow> is_identity_enrolled_with_binding h (oa_identities ?u) (to_ascii_lowercase v)
       (to_ascii_lowercase k0) (ch_account_id ch) (ch_device_id_hex ch)"
    "hex_decode h sig = Inr sg" "verify_with_domain cr key (as_bytes ''operator_challenge'') nonce sg = Inr ()"
    by (auto simp: accepted_key_Some ch hex_decode_encode[OF assms(1)])
  have "hex_decode h k0 = Inr key" using acc'(2,3) by (simp add: hex_decode_iff[OF assms(1)] eq_ignore_ascii_case_def lower_idem)
  moreover have "to_ascii_lowercase v = to_ascii_lowercase vault" using scope(2) by (simp add: c(4) ch(4) eq_ignore_ascii_case_def lower_idem)
  ultimately have "cs = xs @ Verify tok t w1 w2 cid k sig # ys \<and> token = hex_encode h tok \<and> now \<le> t + 3600 \<and>
      Issue id nonce t0 w v k0 a d \<in> set xs \<and> cid = hex_encode h id \<and> t \<le> t0 + 300 \<and>
      to_ascii_lowercase v = to_ascii_lowercase vault \<and> hex_decode h k0 = Inr key \<and>
      map_of (oa_session_keys ?s) token = Some key \<and>
      hex_decode h sig = Inr sg \<and> verify_with_domain cr key (as_bytes ''operator_challenge'') nonce sg = Inr () \<and>
      normalize_identity_binding h a d = Inr (ch_account_id ch, ch_device_id_hex ch) \<and>
      (os_require_enrollment cfg \<longrightarrow> is_identity_enrolled_with_binding h (oa_identities ?u) (to_ascii_lowercase v)
        (to_ascii_lowercase k0) (ch_account_id ch) (ch_device_id_hex ch))"
    using cs[unfolded c(1)] c(2) e(2)[unfolded c(3)] i(1)[unfolded iss] ch(1,6) acc'(1,4-6) key by (intro conjI)
  then show ?thesis by (intro exI)
qed

text \<open>C16. A challenge is answered at most once: after a call that found the challenge and did not
  report an error, whatever its verdict, every later call with that challenge is refused and changes
  nothing, after any further calls, write errors and restarts, as long as the random id is not drawn again.\<close>

theorem challenge_single_use:
  assumes "hex_ok h" "auth_json_ok j" "list_all call_ok (pre @ post)"
    and "map_of (oa_challenges (auth_run h cr j cfg pre auth_new)) cid = Some c"
    and "verify_and_create_session h cr j cfg tok now w1 w2 cid k sig (auth_run h cr j cfg pre auth_new) = (Inr r, s)"
    and "\<And>id nonce t w v k a d. Issue id nonce t w v k a d \<in> set post \<Longrightarrow> hex_encode h id \<noteq> cid"
  shows "verify_and_create_session h cr j cfg tok' now' w1' w2' cid k' sig' (auth_run h cr j cfg post s) =
    (Inr None, auth_run h cr j cfg post s)"
proof -
  have "list_all call_ok pre" using assms(3) by simp
  note wf = auth_run_wf[OF assms(1,2) this auth_new_wf(1), of cr cfg]
  have swf: "auth_wf h j s" using verify_step[OF assms(1,2) wf assms(5)] by simp
  have "rows_ok (aj_challenges j)" using assms(2) by (simp add: auth_json_ok_def)
  from this assms(5) have "oa_challenges s = AList.delete cid (oa_challenges (auth_run h cr j cfg pre auth_new)) \<and>
      load_rows (aj_challenges j) (oa_challenge_file s) = map persisted_challenge (oa_challenges s)"
  proof (cases rule: verify_cases)
    case (accepted c f pk)
    then show ?thesis using open_session_others(1,2)[OF accepted(4)] by simp
  qed (use assms(4) in auto)
  then have used: "\<forall>p\<in>known_challenges j s. pc_challenge_id p \<noteq> cid" by (auto simp: known_challenges_def AList.delete_eq)
  have post: "list_all call_ok post" using assms(3) by simp
  have "pc_challenge_id p \<noteq> cid" if "c \<in> set post" "p \<in> issued_by h c" for c p
    by (insert that assms(6), cases c) auto
  with auth_run_challenges[OF assms(1,2) post swf, of cr cfg] used
  have none: "\<forall>p\<in>known_challenges j (auth_run h cr j cfg post s). pc_challenge_id p \<noteq> cid" by blast
  have "map_of (oa_challenges (auth_run h cr j cfg post s)) cid = None"
  proof (rule ccontr)
    assume "map_of (oa_challenges (auth_run h cr j cfg post s)) cid \<noteq> None"
    then obtain ch where "(cid, ch) \<in> set (oa_challenges (auth_run h cr j cfg post s))" by (auto dest: map_of_SomeD)
    then have "persisted_challenge (cid, ch) \<in> known_challenges j (auth_run h cr j cfg post s)" by (auto simp: known_challenges_def)
    then show False using none persisted_challenge_id[of "(cid, ch)"] by force
  qed
  then show ?thesis by (simp add: verify_and_create_session_def)
qed


subsection \<open>A concrete run\<close>

definition rows_std :: "('a \<Rightarrow> bytes) \<Rightarrow> 'a rows_json" where
  "rows_std f = \<lparr>rows_write = \<lambda>xs. Inr (sdl f xs), rows_read = \<lambda>bs. Inr (inv (sdl f) bs)\<rparr>"

lemma rows_std_ok: "(\<And>a b x y. f a @ x = f b @ y \<longleftrightarrow> a = b \<and> x = y) \<Longrightarrow> rows_ok (rows_std f)"
proof -
  assume "\<And>a b x y. f a @ x = f b @ y \<longleftrightarrow> a = b \<and> x = y"
  then have "inj (sdl f)" by (intro injI) (simp add: sdl_inj)
  then show ?thesis by (simp add: rows_ok_def rows_std_def)
qed

fun enc_text :: "string option \<Rightarrow> bytes" where
  "enc_text None = [0]"
| "enc_text (Some s) = 1 # sd (as_bytes s)"

lemma enc_text_inj [simp]: "enc_text a @ x = enc_text b @ y \<longleftrightarrow> a = b \<and> x = y"
  by (cases a; cases b) auto

definition enc_challenge :: "PersistedChallenge \<Rightarrow> bytes" where
  "enc_challenge c = sd (as_bytes (pc_challenge_id c)) @ sd (as_bytes (pc_nonce_hex c)) @ le64 (pc_expires_at_utc c) @
     sd (as_bytes (pc_vault_id_hex c)) @ sd (as_bytes (pc_public_key_hex c)) @ enc_text (pc_account_id c) @ enc_text (pc_device_id_hex c)"

definition enc_session :: "PersistedSession \<Rightarrow> bytes" where
  "enc_session r = sd (as_bytes (ps_token r)) @ le64 (ps_expires_at_utc r) @ sd (as_bytes (ps_public_key_hex r)) @
     sd (as_bytes (ps_vault_id_hex r)) @ enc_text (ps_account_id r) @ enc_text (ps_device_id_hex r)"

definition enc_identity :: "EnrolledIdentity \<Rightarrow> bytes" where
  "enc_identity i = sd (as_bytes (ei_vault_id_hex i)) @ sd (as_bytes (ei_public_key_hex i)) @ le32 (ei_permissions i) @
     le64 (ei_enrolled_at_utc i) @ sdl le64 (case ei_revoked_at_utc i of None \<Rightarrow> [] | Some t \<Rightarrow> [t]) @
     enc_text (ei_account_id i) @ enc_text (ei_device_id_hex i)"

definition auth_json_std :: auth_json where
  "auth_json_std = \<lparr>aj_challenges = rows_std enc_challenge, aj_sessions = rows_std enc_session, aj_identities = rows_std enc_identity\<rparr>"

lemma auth_json_std_ok: "auth_json_ok auth_json_std"
proof -
  have le: "le64 a @ x = le64 b @ y \<longleftrightarrow> a = b \<and> x = y" for a b :: u64 and x y by auto
  have 1: "enc_challenge a @ x = enc_challenge b @ y \<longleftrightarrow> a = b \<and> x = y" for a b x y
    by (auto simp: enc_challenge_def intro: PersistedChallenge.equality)
  have 2: "enc_session a @ x = enc_session b @ y \<longleftrightarrow> a = b \<and> x = y" for a b x y
    by (auto simp: enc_session_def intro: PersistedSession.equality)
  have 3: "enc_identity a @ x = enc_identity b @ y \<longleftrightarrow> a = b \<and> x = y" for a b x y
    by (auto simp: enc_identity_def sdl_append_inj[OF le] intro: EnrolledIdentity.equality split: option.splits)
  show ?thesis by (simp add: auth_json_ok_def auth_json_std_def rows_std_ok[OF 1] rows_std_ok[OF 2] rows_std_ok[OF 3])
qed

definition strict_cfg :: OperatorSecurityConfig where
  "strict_cfg = \<lparr>os_strict_auth = True, os_require_enrollment = True\<rparr>"

definition vault_ex :: string where "vault_ex = hex_encode hex_std (replicate 32 1)"
definition key_ex :: string where "key_ex = hex_encode hex_std (ed25519_public crypto_std [3])"
definition id_ex :: string where "id_ex = hex_encode hex_std (replicate 16 5)"
definition token_ex :: string where "token_ex = hex_encode hex_std (replicate 32 9)"
definition sig_ex :: string where
  "sig_ex = hex_encode hex_std (sign_with_domain crypto_std [3] (as_bytes ''operator_challenge'') (replicate 32 7))"

definition asked_ex :: "auth_call list" where
  "asked_ex = [Enroll 100 Saved vault_ex key_ex 3 None None,
     Issue (replicate 16 5) (replicate 32 7) 100 Saved vault_ex key_ex None None]"

definition login_ex :: auth_call where
  "login_ex = Verify (replicate 32 9) 200 Saved Saved id_ex key_ex sig_ex"

abbreviation "run_ex \<equiv> auth_run hex_std crypto_std auth_json_std strict_cfg"

lemma hex_ex [simp]:
  "trim vault_ex = vault_ex" "trim key_ex = key_ex" "to_ascii_lowercase vault_ex = vault_ex" "to_ascii_lowercase key_ex = key_ex"
  "decodes_to hex_std 32 vault_ex" "decodes_to hex_std 32 key_ex"
  "hex_decode hex_std key_ex = Inr (ed25519_public crypto_std [3])" "hex_decode hex_std vault_ex = Inr (replicate 32 1)"
  "hex_encode hex_std (ed25519_public crypto_std [3]) = key_ex"
  "length (ed25519_public crypto_std [3]) = 32"
  by (simp_all add: vault_ex_def key_ex_def hex_trim hex_std_ok hex_digits_lower hex_set decodes_to_encode hex_decode_encode
      ed25519_laws[OF crypto_okD(3)[OF crypto_std_ok]])

lemma persist_std [simp]: "persist_rows (rows_std f) Saved rows old = (Inr (), Some (sdl f rows))"
  by (simp add: persist_rows_def rows_std_def)

lemma no_binding [simp]: "normalize_identity_binding h None None = Inr (None, None)"
  by (simp add: normalize_identity_binding_def normal_text_def)

definition identity_ex :: EnrolledIdentity where
  "identity_ex = \<lparr>ei_vault_id_hex = vault_ex, ei_public_key_hex = key_ex, ei_permissions = 3, ei_enrolled_at_utc = 100,
     ei_revoked_at_utc = None, ei_account_id = None, ei_device_id_hex = None\<rparr>"

definition challenge_ex :: ChallengeRecord where
  "challenge_ex = \<lparr>ch_nonce_hex = hex_encode hex_std (replicate 32 7), ch_expires_at_utc = 400, ch_vault_id_hex = vault_ex,
     ch_public_key_hex = key_ex, ch_account_id = None, ch_device_id_hex = None\<rparr>"

lemma enrolled_ex: "is_identity_enrolled_with_binding hex_std [identity_ex] vault_ex key_ex None None"
  by (simp add: is_identity_enrolled_with_binding_def identity_ex_def names_identity_def bound_to_def)

lemma enroll_ex:
  "auth_step hex_std crypto_std auth_json_std strict_cfg (Enroll 100 Saved vault_ex key_ex 3 None None) auth_new =
     auth_new\<lparr>oa_identities := [identity_ex], oa_identity_file := Some (sdl enc_identity [identity_ex])\<rparr>"
  by (simp add: enroll_identity_with_binding_def enrolled_list_def persist_enrolled_identities_def auth_json_std_def auth_new_def identity_ex_def)

definition asked_state :: auth_state where
  "asked_state = auth_new\<lparr>oa_identities := [identity_ex], oa_identity_file := Some (sdl enc_identity [identity_ex]),
     oa_challenges := [(id_ex, challenge_ex)], oa_challenge_file := Some (sdl enc_challenge [persisted_challenge (id_ex, challenge_ex)])\<rparr>"

lemma live_challenges_Nil: "live_challenges now [] = []"
  by (simp add: live_challenges_def MAX_ACTIVE_CHALLENGES_def)

lemma asked_run: "run_ex asked_ex auth_new = asked_state"
  by (simp add: asked_ex_def enroll_ex del: auth_step.simps(1))
    (simp add: issue_challenge_with_binding_def enrolled_ex auth_new_def live_challenges_Nil strict_cfg_def Let_def persist_challenges_def
      auth_json_std_def asked_state_def id_ex_def challenge_ex_def)

lemma accepted_ex:
  "accepted_key hex_std crypto_std strict_cfg 200 [identity_ex] challenge_ex key_ex sig_ex = Some (ed25519_public crypto_std [3])"
  using ed25519_laws[OF crypto_okD(3)[OF crypto_std_ok], of "[3]"]
  by (simp add: accepted_key_Some challenge_ex_def sig_ex_def hex_decode_encode[OF hex_std_ok] enrolled_ex eq_ignore_ascii_case_def
      verify_with_domain_def sign_with_domain_def)

definition session_row :: PersistedSession where
  "session_row = \<lparr>ps_token = token_ex, ps_expires_at_utc = 3800, ps_public_key_hex = key_ex, ps_vault_id_hex = vault_ex,
     ps_account_id = None, ps_device_id_hex = None\<rparr>"

definition login_state :: auth_state where
  "login_state = asked_state\<lparr>oa_challenges := [], oa_challenge_file := Some (sdl enc_challenge []),
     oa_sessions := [(token_ex, 3800)], oa_session_keys := [(token_ex, ed25519_public crypto_std [3])],
     oa_session_vaults := [(token_ex, vault_ex)], oa_session_bindings := [(token_ex, (None, None))],
     oa_session_file := Some (sdl enc_session [session_row])\<rparr>"

lemma login_run:
  "verify_and_create_session hex_std crypto_std auth_json_std strict_cfg (replicate 32 9) 200 Saved Saved id_ex key_ex sig_ex asked_state =
     (Inr (Some token_ex), login_state)"
proof -
  define u where "u = asked_state\<lparr>oa_challenges := [], oa_challenge_file := Some (sdl enc_challenge [])\<rparr>"
  have u: "oa_sessions u = []" "oa_session_keys u = []" "oa_session_vaults u = []" "oa_session_bindings u = []"
    by (simp_all add: u_def asked_state_def auth_new_def)
  have open_it: "open_session hex_std auth_json_std (replicate 32 9) 200 Saved challenge_ex (ed25519_public crypto_std [3]) u =
      (Inr (Some token_ex), login_state)"
    by (simp add: open_session_def Let_def evict_session_def expire_sessions_def insert_session_def u MAX_ACTIVE_SESSIONS_def
        persist_sessions_def auth_json_std_def List.map_filter_def persisted_session_def token_ex_def[symmetric] session_row_def
        login_state_def challenge_ex_def) (simp add: u_def)
  have "map_of (oa_challenges asked_state) id_ex = Some challenge_ex" "oa_identities asked_state = [identity_ex]"
    "AList.delete id_ex (oa_challenges asked_state) = []"
    by (simp_all add: asked_state_def)
  then show ?thesis using accepted_ex open_it[unfolded u_def]
    by (simp add: verify_and_create_session_def persist_challenges_def auth_json_std_def)
qed

lemma login_valid: "validate_session_for_vault hex_std strict_cfg 300 token_ex vault_ex login_state"
proof -
  have len: "length token_ex = 64" by (simp add: token_ex_def hex_length[OF hex_std_ok])
  then have "token_ex \<noteq> []" by auto
  moreover have "token_ex \<noteq> ''recovery_anonymous''"
  proof
    assume "token_ex = ''recovery_anonymous''"
    then have "length token_ex = length ''recovery_anonymous''" by (rule arg_cong)
    with len show False by simp
  qed
  ultimately show ?thesis using enrolled_ex
    by (simp add: validate_session_for_vault_def validate_write_session_def login_state_def asked_state_def eq_ignore_ascii_case_def)
qed

lemma ok_ex: "list_all call_ok asked_ex" "call_ok login_ex"
  by (simp_all add: asked_ex_def login_ex_def)

theorem auth_tables_wf_witness:
  "auth_wf hex_std auth_json_std (run_ex (asked_ex @ [login_ex]) auth_new)"
  by (rule auth_tables_wf[OF hex_std_ok auth_json_std_ok]) (simp add: ok_ex)

theorem session_provenance_witness:
  "\<exists>xs tok t w1 w2 cid k sig ys id nonce t0 w v k0 a d.
     asked_ex @ [login_ex] = xs @ Verify tok t w1 w2 cid k sig # ys \<and> token_ex = hex_encode hex_std tok \<and>
     Issue id nonce t0 w v k0 a d \<in> set xs \<and> cid = hex_encode hex_std id"
proof -
  have "list_all call_ok (asked_ex @ [login_ex])" by (simp add: ok_ex)
  moreover have "validate_session_for_vault hex_std strict_cfg 300 token_ex vault_ex (run_ex (asked_ex @ [login_ex]) auth_new)"
    by (simp add: asked_run login_ex_def login_run login_valid)
  ultimately show ?thesis using session_provenance[OF hex_std_ok auth_json_std_ok, of "asked_ex @ [login_ex]" strict_cfg 300 token_ex vault_ex crypto_std]
    by blast
qed

theorem challenge_single_use_witness:
  "verify_and_create_session hex_std crypto_std auth_json_std strict_cfg (replicate 32 9) 200 Saved Saved id_ex key_ex sig_ex
     (run_ex asked_ex auth_new) = (Inr (Some token_ex), login_state) \<and>
   verify_and_create_session hex_std crypto_std auth_json_std strict_cfg (replicate 32 8) 220 Saved Saved id_ex key_ex sig_ex
     (run_ex [Restart 210] login_state) = (Inr None, run_ex [Restart 210] login_state)"
proof
  show 1: "verify_and_create_session hex_std crypto_std auth_json_std strict_cfg (replicate 32 9) 200 Saved Saved id_ex key_ex sig_ex
     (run_ex asked_ex auth_new) = (Inr (Some token_ex), login_state)" by (simp add: asked_run login_run)
  have 2: "map_of (oa_challenges (run_ex asked_ex auth_new)) id_ex = Some challenge_ex" by (simp add: asked_run) (simp add: asked_state_def)
  show "verify_and_create_session hex_std crypto_std auth_json_std strict_cfg (replicate 32 8) 220 Saved Saved id_ex key_ex sig_ex
     (run_ex [Restart 210] login_state) = (Inr None, run_ex [Restart 210] login_state)"
    by (rule challenge_single_use[OF hex_std_ok auth_json_std_ok _ 2 1]) (simp_all add: ok_ex)
qed

lemma revoke_ex:
  "fst (revoke_identity hex_std auth_json_std 250 Saved Saved vault_ex key_ex login_state) = Inr True"
proof -
  have "oa_identities login_state = [identity_ex]" by (simp add: login_state_def asked_state_def)
  then have ns: "revoked_indices vault_ex key_ex (oa_identities login_state) \<noteq> []"
    by (simp add: revoked_indices_def names_identity_def identity_ex_def)
  have "fst (revoke_key_sessions hex_std auth_json_std Saved key_ex s) = Inr True" for s
    by (simp add: revoke_key_sessions_def Let_def persist_sessions_def auth_json_std_def split: prod.splits)
  then show ?thesis using ns by (simp add: revoke_identity_def Let_def persist_enrolled_identities_def auth_json_std_def)
qed


end
