(* ===== verification/Operator_Objects.thy ===== *)
theory Operator_Objects
  imports Operator_Disk Vouchers Recovery_Base
begin

text \<open>
  The object store of the operator and the voucher gate in front of it
  (\<open>services/operator/src/state.rs\<close>, lines 1050 to 1072 and 1486 to 1829, with the receipts of
  \<open>crates/storage/src/types.rs\<close> and \<open>compute_pos_proof\<close> of \<open>crates/storage/src/lib.rs\<close>). The
  directory \<open>objects\<close> is a map from names to contents. As in \<open>Operator_Disk\<close>, the outcome of
  every write to disk is an argument. The lemmas show that the store holds only bytes
  that match their name, that no successful write is lost, and that the bytes written
  under a voucher stay within its quota, under write errors, kills and restarts.
\<close>

subsection \<open>State\<close>

record object_store =
  ob_objects :: "string \<Rightarrow> bytes option"
  ob_ledger :: VoucherLedger
  ob_ledger_file :: "bytes option"
  ob_ledger_failed :: bool
  ob_vouchers_required :: bool

text \<open>A new process: an empty ledger with the largest quota, filled from its file.\<close>

definition load_voucher_ledger :: "'v json_crate \<Rightarrow> object_store \<Rightarrow> object_store" where
  "load_voucher_ledger j s =
     (case ob_ledger_file s of
        None \<Rightarrow> s
      | Some bytes \<Rightarrow>
          (case decode_into j bytes (ob_ledger s) of
             (Inl _, l) \<Rightarrow> s\<lparr>ob_ledger := l, ob_ledger_failed := True\<rparr>
           | (Inr _, l) \<Rightarrow> s\<lparr>ob_ledger := l\<rparr>))"

definition store_restart :: "'v json_crate \<Rightarrow> object_store \<Rightarrow> object_store" where
  "store_restart j s =
     load_voucher_ledger j
       (s\<lparr>ob_ledger := VoucherLedger_new (- 1), ob_ledger_failed := False, ob_vouchers_required := False\<rparr>)"

definition store_new :: object_store where
  "store_new = \<lparr>ob_objects = \<lambda>_. None, ob_ledger = VoucherLedger_new (- 1), ob_ledger_file = None,
     ob_ledger_failed = False, ob_vouchers_required = False\<rparr>"

subsection \<open>The voucher gate\<close>

definition persist_voucher_ledger :: "saving \<Rightarrow> bytes \<Rightarrow> object_store \<Rightarrow> (string + unit) \<times> object_store" where
  "persist_voucher_ledger w encoded s =
     (saving_result w, s\<lparr>ob_ledger_file := saved_file w encoded (ob_ledger_file s)\<rparr>)"

definition authorize_write ::
  "hex_crate \<Rightarrow> crypto_crate \<Rightarrow> 'v json_crate \<Rightarrow> string \<Rightarrow> u64 \<Rightarrow> saving \<Rightarrow> WriteVoucher option \<Rightarrow> u64 \<Rightarrow> object_store \<Rightarrow>
   (StorageError + (string \<times> u64) option) \<times> object_store" where
  "authorize_write h cr j issuer_pk_hex now w voucher bytes s =
     (if ob_ledger_failed s
      then (Inl (ServerError 503 ''Voucher accounting unavailable; repair the persisted ledger''), s)
      else (case voucher of
          Some v \<Rightarrow>
            (case try_consume h cr v issuer_pk_hex now bytes (ob_ledger s) of
               (Inl e, l) \<Rightarrow> (Inl e, s\<lparr>ob_ledger := l\<rparr>)
             | (Inr _, l) \<Rightarrow>
                 (case encode j l of
                    Inl e \<Rightarrow> (Inl (ServerError 500 (''Unable to encode voucher ledger: '' @ e)), s\<lparr>ob_ledger := l\<rparr>)
                  | Inr encoded \<Rightarrow>
                      (case persist_voucher_ledger w encoded (s\<lparr>ob_ledger := l\<rparr>) of
                         (Inl e, s) \<Rightarrow>
                           (Inl (ServerError 500 (''Unable to persist voucher ledger: '' @ e)),
                            s\<lparr>ob_ledger := release (wv_nonce_hex v) bytes (ob_ledger s)\<rparr>)
                       | (Inr _, s) \<Rightarrow> (Inr (Some (wv_nonce_hex v, bytes)), s))))
        | None \<Rightarrow>
            if ob_vouchers_required s then (Inl (ServerError 403 ''write voucher required''), s)
            else (Inr None, s)))"

definition release_write :: "'v json_crate \<Rightarrow> saving \<Rightarrow> (string \<times> u64) option \<Rightarrow> object_store \<Rightarrow> (StorageError + unit) \<times> object_store" where
  "release_write j w c s =
     (case c of
        None \<Rightarrow> (Inr (), s)
      | Some (nonce, bytes) \<Rightarrow>
          let s = s\<lparr>ob_ledger := release nonce bytes (ob_ledger s)\<rparr>
          in (case encode j (ob_ledger s) of
                Inl e \<Rightarrow> (Inl (ServerError 500 (''Unable to encode voucher ledger: '' @ e)), s)
              | Inr encoded \<Rightarrow>
                  (case persist_voucher_ledger w encoded s of
                     (r, s) \<Rightarrow> (rmap_err (\<lambda>e. ServerError 500 (''Unable to persist voucher ledger: '' @ e)) r, s))))"

definition require_voucher_legacy :: "object_store \<Rightarrow> string + unit" where
  "require_voucher_legacy s = (if ob_vouchers_required s then Inl ''write voucher required'' else Inr ())"

subsection \<open>Objects\<close>

definition object_matches :: "string \<Rightarrow> bytes \<Rightarrow> object_store \<Rightarrow> bool" where
  "object_matches cid_hex bytes s = (if length cid_hex \<noteq> 64 then False else ob_objects s cid_hex = Some bytes)"

text \<open>\<open>limit\<close> is the value of the environment variable that overrides the largest size.\<close>

definition put_object_inner ::
  "hex_crate \<Rightarrow> crypto_crate \<Rightarrow> string option \<Rightarrow> saving \<Rightarrow> string \<Rightarrow> bytes \<Rightarrow> object_store \<Rightarrow> (string + bool) \<times> object_store" where
  "put_object_inner h cr limit w cid_hex bytes s =
     (if length bytes > max_object_size limit
      then (Inl (''Object exceeds maximum size limit of '' @ show_nat (max_object_size limit) @ '' bytes''), s)
      else if length cid_hex \<noteq> 64 then (Inl ''Invalid CID length (must be 64 hex characters)'', s)
      else (case hex_decode h cid_hex of
          Inl e \<Rightarrow> (Inl e, s)
        | Inr expected_digest \<Rightarrow>
            if length expected_digest \<noteq> 32 then (Inl ''Invalid CID digest length'', s)
            else if compute_digest cr bytes \<noteq> expected_digest then (Inl ''Digest mismatch'', s)
            else if ob_objects s cid_hex \<noteq> Some bytes
            then (case saving_result w of
                Inl e \<Rightarrow> (Inl e, s\<lparr>ob_objects := (ob_objects s)(cid_hex := saved_file w bytes (ob_objects s cid_hex))\<rparr>)
              | Inr _ \<Rightarrow> (Inr True, s\<lparr>ob_objects := (ob_objects s)(cid_hex := saved_file w bytes (ob_objects s cid_hex))\<rparr>))
            else (Inr False, s)))"

definition put_object ::
  "hex_crate \<Rightarrow> crypto_crate \<Rightarrow> string option \<Rightarrow> saving \<Rightarrow> string \<Rightarrow> bytes \<Rightarrow> object_store \<Rightarrow> (string + unit) \<times> object_store" where
  "put_object h cr limit w cid_hex bytes s =
     (case require_voucher_legacy s of
        Inl e \<Rightarrow> (Inl e, s)
      | Inr _ \<Rightarrow>
          (case put_object_inner h cr limit w cid_hex bytes s of
             (Inl e, s) \<Rightarrow> (Inl e, s)
           | (Inr _, s) \<Rightarrow> (Inr (), s)))"

definition put_repair_object ::
  "hex_crate \<Rightarrow> crypto_crate \<Rightarrow> string option \<Rightarrow> saving \<Rightarrow> string \<Rightarrow> bytes \<Rightarrow> object_store \<Rightarrow> (string + bool) \<times> object_store" where
  "put_repair_object h cr limit w cid_hex bytes s = put_object_inner h cr limit w cid_hex bytes s"

definition put_object_with_voucher ::
  "hex_crate \<Rightarrow> crypto_crate \<Rightarrow> 'v json_crate \<Rightarrow> string \<Rightarrow> string option \<Rightarrow> u64 \<Rightarrow> saving \<Rightarrow> saving \<Rightarrow> saving \<Rightarrow>
   string \<Rightarrow> bytes \<Rightarrow> WriteVoucher option \<Rightarrow> object_store \<Rightarrow> (StorageError + unit) \<times> object_store" where
  "put_object_with_voucher h cr j issuer_pk_hex limit now w1 w2 w3 cid_hex bytes voucher s =
     (let billable = (if object_matches cid_hex bytes s then 0 else word_of_nat (length bytes))
      in case authorize_write h cr j issuer_pk_hex now w1 voucher billable s of
           (Inl e, s) \<Rightarrow> (Inl e, s)
         | (Inr c, s) \<Rightarrow>
             (case put_object_inner h cr limit w2 cid_hex bytes s of
                (Inr net_new, s) \<Rightarrow> if \<not> net_new then release_write j w3 c s else (Inr (), s)
              | (Inl e, s) \<Rightarrow> (Inl (ServerError 400 e), snd (release_write j w3 c s))))"

definition get_object_inner :: "hex_crate \<Rightarrow> string \<Rightarrow> object_store \<Rightarrow> bytes option" where
  "get_object_inner h cid_hex s =
     (if length cid_hex \<noteq> 64 \<or> \<not> is_ok (hex_decode h cid_hex) then None else ob_objects s cid_hex)"

definition has_object :: "string \<Rightarrow> object_store \<Rightarrow> bool" where
  "has_object cid_hex s \<longleftrightarrow> length cid_hex = 64 \<and> ob_objects s cid_hex \<noteq> None"

text \<open>The names in the directory, in the order of \<open>read_dir\<close>, are an argument.\<close>

fun collect_cids :: "hex_crate \<Rightarrow> nat \<Rightarrow> string list \<Rightarrow> bytes list \<Rightarrow> bytes list" where
  "collect_cids h limit [] out = out"
| "collect_cids h limit (name # names) out =
     (if length out \<ge> limit then out
      else if length name \<noteq> 64 then collect_cids h limit names out
      else (case hex_decode h name of
          Inl _ \<Rightarrow> collect_cids h limit names out
        | Inr raw \<Rightarrow> if length raw \<noteq> 32 then collect_cids h limit names out else collect_cids h limit names (out @ [raw])))"

definition list_object_cids :: "hex_crate \<Rightarrow> string list \<Rightarrow> nat \<Rightarrow> nat \<Rightarrow> bytes list" where
  "list_object_cids h names offset limit = (if limit = 0 then [] else collect_cids h limit (drop offset names) [])"

text \<open>
  A recovery append behind the same gate. \<open>outcome\<close> is the result of
  \<open>append_authorized_recovery_record_inner\<close> (theory \<open>Recovery_Log\<close>).
\<close>

definition append_recovery_record_with_voucher ::
  "hex_crate \<Rightarrow> crypto_crate \<Rightarrow> 'v json_crate \<Rightarrow> string \<Rightarrow> u64 \<Rightarrow> saving \<Rightarrow> saving \<Rightarrow> (string + u64) \<Rightarrow> bytes \<Rightarrow>
   WriteVoucher option \<Rightarrow> object_store \<Rightarrow> (StorageError + u64) \<times> object_store" where
  "append_recovery_record_with_voucher h cr j issuer_pk_hex now w1 w2 outcome entry voucher s =
     (case authorize_write h cr j issuer_pk_hex now w1 voucher (word_of_nat (length entry)) s of
        (Inl e, s) \<Rightarrow> (Inl e, s)
      | (Inr c, s) \<Rightarrow>
          (case outcome of
             Inr n \<Rightarrow> (Inr n, s)
           | Inl e \<Rightarrow> (Inl (ServerError 400 e), snd (release_write j w2 c s))))"

subsection \<open>Proofs of storage\<close>

definition compute_pos_proof :: "crypto_crate \<Rightarrow> bytes \<Rightarrow> bytes \<Rightarrow> bytes \<Rightarrow> bytes" where
  "compute_pos_proof cr cid nonce dat = sha256 cr (as_bytes ''CIPHERVAULT-POS-V1'' @ cid @ nonce @ dat)"

record ProofOfStorageReceipt =
  po_operator_id :: string
  po_cid_hex :: string
  po_nonce_hex :: string
  po_proof_hex :: string
  po_signature_hex :: string
  po_size_bytes :: u64

definition pos_signing_bytes :: "ProofOfStorageReceipt \<Rightarrow> bytes" where
  "pos_signing_bytes r =
     as_bytes (po_operator_id r) @ as_bytes '':'' @ as_bytes (po_cid_hex r) @ as_bytes '':'' @
     as_bytes (po_nonce_hex r) @ as_bytes '':'' @ as_bytes (po_proof_hex r) @ as_bytes '':'' @ le64 (po_size_bytes r)"

text \<open>\<open>to_lowercase\<close> only meets hex here, where it is the ASCII one.\<close>

definition pos_verify :: "hex_crate \<Rightarrow> crypto_crate \<Rightarrow> bytes \<Rightarrow> bytes \<Rightarrow> ProofOfStorageReceipt \<Rightarrow> StorageError + unit" where
  "pos_verify h cr operator_pk expected_proof r =
     (if to_ascii_lowercase (po_proof_hex r) \<noteq> to_ascii_lowercase (hex_encode h expected_proof)
      then Inl (ServerError 400 (''Proof-of-Storage proof mismatch: expected '' @ hex_encode h expected_proof @ '', received '' @ po_proof_hex r))
      else
        rbind (rmap_err (\<lambda>e. ServerError 400 (''Invalid hex in PoS signature: '' @ e)) (hex_decode h (po_signature_hex r))) (\<lambda>sig.
        if length sig \<noteq> 64 then Inl (ServerError 400 ''Invalid PoS signature length (expected 64 bytes)'')
        else rmap_err (\<lambda>e. ServerError 400 (''Cryptographic Proof-of-Storage signature invalid: '' @ show_crypto_error e))
               (verify_with_domain cr operator_pk (as_bytes ''operator_pos'') (pos_signing_bytes r) sig)))"

definition generate_pos_proof_inner ::
  "hex_crate \<Rightarrow> crypto_crate \<Rightarrow> string \<Rightarrow> bytes \<Rightarrow> string \<Rightarrow> bytes \<Rightarrow> object_store \<Rightarrow> string + ProofOfStorageReceipt" where
  "generate_pos_proof_inner h cr operator_id signing_key cid_hex nonce s =
     (if length cid_hex \<noteq> 64 then Inl ''Invalid CID length (must be 64 hex characters)''
      else rbind (hex_decode h cid_hex) (\<lambda>cid.
        if length cid \<noteq> 32 then Inl ''Invalid CID digest length''
        else (case ob_objects s cid_hex of
            None \<Rightarrow> Inl ''Object not found''
          | Some bytes \<Rightarrow>
              let receipt = \<lparr>po_operator_id = operator_id, po_cid_hex = to_ascii_lowercase cid_hex, po_nonce_hex = hex_encode h nonce,
                    po_proof_hex = hex_encode h (compute_pos_proof cr cid nonce bytes), po_signature_hex = '''',
                    po_size_bytes = word_of_nat (length bytes)\<rparr>;
                  sig = sign_with_domain cr signing_key (as_bytes ''operator_pos'') (pos_signing_bytes receipt)
              in Inr (receipt\<lparr>po_signature_hex := hex_encode h sig\<rparr>))))"

subsection \<open>Runs\<close>

text \<open>\<open>Killed\<close> is a write whose process dies after the gate charged it.\<close>

datatype store_call =
    Put u64 saving saving saving string bytes "WriteVoucher option"
  | Put_legacy saving string bytes
  | Put_repair saving string bytes
  | Append u64 saving saving "string + u64" bytes "WriteVoucher option"
  | Lease_gate u64 saving "WriteVoucher option"
  | Killed u64 saving "WriteVoucher option" u64
  | Require bool
  | Set_quotas u64 u64
  | Reboot

fun store_step :: "hex_crate \<Rightarrow> crypto_crate \<Rightarrow> 'v json_crate \<Rightarrow> string \<Rightarrow> string option \<Rightarrow> store_call \<Rightarrow> object_store \<Rightarrow> object_store" where
  "store_step h cr j issuer limit (Put now w1 w2 w3 cid bytes v) s =
     snd (put_object_with_voucher h cr j issuer limit now w1 w2 w3 cid bytes v s)"
| "store_step h cr j issuer limit (Put_legacy w cid bytes) s = snd (put_object h cr limit w cid bytes s)"
| "store_step h cr j issuer limit (Put_repair w cid bytes) s = snd (put_repair_object h cr limit w cid bytes s)"
| "store_step h cr j issuer limit (Append now w1 w2 outcome entry v) s =
     snd (append_recovery_record_with_voucher h cr j issuer now w1 w2 outcome entry v s)"
| "store_step h cr j issuer limit (Lease_gate now w v) s = snd (authorize_write h cr j issuer now w v 0 s)"
| "store_step h cr j issuer limit (Killed now w v b) s = store_restart j (snd (authorize_write h cr j issuer now w v b s))"
| "store_step h cr j issuer limit (Require b) s = s\<lparr>ob_vouchers_required := b\<rparr>"
| "store_step h cr j issuer limit (Set_quotas m q) s =
     s\<lparr>ob_ledger := set_user_quota_bytes q (set_max_quota m (ob_ledger s))\<rparr>"
| "store_step h cr j issuer limit Reboot s = store_restart j s"

definition store_run :: "hex_crate \<Rightarrow> crypto_crate \<Rightarrow> 'v json_crate \<Rightarrow> string \<Rightarrow> string option \<Rightarrow> store_call list \<Rightarrow> object_store \<Rightarrow> object_store" where
  "store_run h cr j issuer limit cs s = fold (store_step h cr j issuer limit) cs s"

subsection \<open>Contents match names\<close>

lemma put_inner_cases:
  assumes "put_object_inner h cr limit w cid bytes s = (r, s')"
  obtains (refused) e where "r = Inl e" "s' = s"
  | (present) "r = Inr False" "s' = s" "ob_objects s cid = Some bytes" "length cid = 64" "hex_decode h cid = Inr (compute_digest cr bytes)"
  | (stored) "length bytes \<le> max_object_size limit" "length cid = 64" "hex_decode h cid = Inr (compute_digest cr bytes)"
      "ob_objects s cid \<noteq> Some bytes" "s' = s\<lparr>ob_objects := (ob_objects s)(cid \<mapsto> bytes)\<rparr>" "r = Inr True \<or> (\<exists>e. r = Inl e)"
  using assms
  by (cases w) (auto simp: put_object_inner_def fun_upd_idem split: if_splits sum.splits)

definition addressed :: "hex_crate \<Rightarrow> crypto_crate \<Rightarrow> object_store \<Rightarrow> bool" where
  "addressed h cr s \<longleftrightarrow> (\<forall>n b. ob_objects s n = Some b \<longrightarrow> hex_decode h n = Inr (compute_digest cr b))"

text \<open>The names in the store, and what a name stands for, never change once they are there.\<close>

definition keeps :: "crypto_crate \<Rightarrow> object_store \<Rightarrow> object_store \<Rightarrow> bool" where
  "keeps cr s s' \<longleftrightarrow> (\<forall>n b. ob_objects s n = Some b \<longrightarrow> (\<exists>b'. ob_objects s' n = Some b' \<and> compute_digest cr b' = compute_digest cr b))"

lemma put_inner_objects:
  assumes "addressed h cr s"
  shows "addressed h cr (snd (put_object_inner h cr limit w cid bytes s)) \<and> keeps cr s (snd (put_object_inner h cr limit w cid bytes s))"
proof -
  obtain r s' where p: "put_object_inner h cr limit w cid bytes s = (r, s')" by force
  then show ?thesis using assms by (cases rule: put_inner_cases) (auto simp: p addressed_def keeps_def)
qed

lemma authorize_objects [simp]: "ob_objects (snd (authorize_write h cr j issuer now w v b s)) = ob_objects s"
  by (simp add: authorize_write_def persist_voucher_ledger_def split: option.splits prod.splits sum.splits)

lemma release_objects [simp]: "ob_objects (snd (release_write j w c s)) = ob_objects s"
  by (simp add: release_write_def persist_voucher_ledger_def Let_def split: option.splits prod.splits sum.splits)

lemma restart_objects [simp]: "ob_objects (store_restart j s) = ob_objects s"
  by (simp add: store_restart_def load_voucher_ledger_def split: option.splits prod.splits sum.splits)

lemma authorize_objectsD: "authorize_write h cr j issuer now w v b s = (a, u) \<Longrightarrow> ob_objects u = ob_objects s"
  by (metis authorize_objects snd_conv)

lemma addressed_cong: "ob_objects s = ob_objects u \<Longrightarrow> addressed h cr s = addressed h cr u"
  by (simp add: addressed_def)

lemma keeps_cong: "ob_objects s = ob_objects s' \<Longrightarrow> ob_objects u = ob_objects u' \<Longrightarrow> keeps cr s u = keeps cr s' u'"
  by (simp add: keeps_def)

text \<open>A put with a voucher changes the objects as the put between the two calls of the gate.\<close>

lemma put_with_voucher_objects:
  "ob_objects (snd (put_object_with_voucher h cr j issuer limit now w1 w2 w3 cid bytes v s)) = ob_objects s \<or>
   ob_objects (snd (put_object_with_voucher h cr j issuer limit now w1 w2 w3 cid bytes v s)) =
     ob_objects (snd (put_object_inner h cr limit w2 cid bytes s))"
proof -
  let ?b = "if object_matches cid bytes s then 0 else word_of_nat (length bytes) :: u64"
  obtain a u where a: "authorize_write h cr j issuer now w1 v ?b s = (a, u)" by force
  then have u: "ob_objects u = ob_objects s" by (rule authorize_objectsD)
  obtain q x where q: "put_object_inner h cr limit w2 cid bytes u = (q, x)" by force
  have "ob_objects (snd (put_object_inner h cr limit w2 cid bytes u)) = ob_objects (snd (put_object_inner h cr limit w2 cid bytes s))"
    using u by (simp add: put_object_inner_def split: sum.splits)
  then have x: "ob_objects x = ob_objects (snd (put_object_inner h cr limit w2 cid bytes s))" by (simp add: q)
  have "snd (put_object_with_voucher h cr j issuer limit now w1 w2 w3 cid bytes v s) =
      (case a of Inl _ \<Rightarrow> u | Inr c \<Rightarrow> (case q of Inr True \<Rightarrow> x | _ \<Rightarrow> snd (release_write j w3 c x)))"
    by (simp add: put_object_with_voucher_def a q split: sum.splits bool.splits)
  then show ?thesis using u x by (cases a; cases q) (auto split: bool.splits)
qed

lemma store_step_objects:
  assumes "addressed h cr s"
  shows "addressed h cr (store_step h cr j issuer limit c s) \<and> keeps cr s (store_step h cr j issuer limit c s)"
proof -
  have same: "addressed h cr u \<and> keeps cr s u" if "ob_objects u = ob_objects s" for u
    using assms that by (simp add: addressed_def keeps_def)
  have inner: "addressed h cr u \<and> keeps cr s u" if "ob_objects u = ob_objects (snd (put_object_inner h cr limit w cid bytes s))" for u w cid bytes
    using put_inner_objects[OF assms, of limit w cid bytes] addressed_cong[OF that] keeps_cong[OF refl that] by simp
  show ?thesis
  proof (cases c)
    case (Put now w1 w2 w3 cid bytes v)
    then show ?thesis using put_with_voucher_objects[of h cr j issuer limit now w1 w2 w3 cid bytes v s] same inner by auto
  next
    case (Put_legacy w cid bytes)
    have "snd (put_object h cr limit w cid bytes s) = s \<or>
        snd (put_object h cr limit w cid bytes s) = snd (put_object_inner h cr limit w cid bytes s)"
      by (simp add: put_object_def split: sum.splits prod.splits)
    then show ?thesis using Put_legacy same inner by auto
  next
    case (Put_repair w cid bytes)
    then show ?thesis using inner by (simp add: put_repair_object_def)
  next
    case (Append now w1 w2 outcome entry v)
    have "ob_objects (store_step h cr j issuer limit c s) = ob_objects s"
      by (auto dest: authorize_objectsD simp: Append append_recovery_record_with_voucher_def split: sum.splits prod.splits)
    then show ?thesis by (rule same)
  qed (simp_all add: same)
qed

lemma store_run_simps [simp]:
  "store_run h cr j issuer limit [] s = s"
  "store_run h cr j issuer limit (c # cs) s = store_run h cr j issuer limit cs (store_step h cr j issuer limit c s)"
  "store_run h cr j issuer limit (xs @ ys) s = store_run h cr j issuer limit ys (store_run h cr j issuer limit xs s)"
  by (simp_all add: store_run_def)

lemma store_run_objects:
  assumes "addressed h cr s"
  shows "addressed h cr (store_run h cr j issuer limit cs s) \<and> keeps cr s (store_run h cr j issuer limit cs s)"
  using assms
proof (induction cs arbitrary: s)
  case (Cons c cs)
  let ?u = "store_step h cr j issuer limit c s"
  have u: "addressed h cr ?u" "keeps cr s ?u" using store_step_objects[OF Cons.prems, of j issuer limit c] by simp_all
  have "keeps cr s (store_run h cr j issuer limit cs ?u)"
    using Cons.IH[OF u(1)] u(2) unfolding keeps_def by (metis (no_types, lifting))
  then show ?case using Cons.IH[OF u(1)] by simp
qed (simp add: keeps_def)

subsection \<open>The ledger in memory and on disk\<close>

definition ledger_ok :: "VoucherLedger \<Rightarrow> bool" where
  "ledger_ok l \<longleftrightarrow> ledger_wf l \<and>
     (\<forall>nc\<in>set (spent l). vc_holder_pk_hex (snd nc) = [] \<or> valid_nonce_key (vc_holder_pk_hex (snd nc)))"

lemma ledger_ok_new: "ledger_ok (VoucherLedger_new m)"
  by (simp add: ledger_ok_def ledger_wf_def VoucherLedger_new_def hash_map_ok_def)

lemma ledger_ok_prune: "ledger_ok l \<Longrightarrow> ledger_ok (prune_expired now l)"
  by (auto simp: ledger_ok_def prune_wf) (auto simp: prune_expired_def)

lemma pinned_holder: "pinned l v = c \<Longrightarrow> (wv_nonce_hex v, c) \<in> set (spent l) \<or> vc_holder_pk_hex c = wv_holder_pk_hex v"
  by (auto simp: pinned_def dest: map_of_SomeD split: option.splits)

lemma ledger_ok_charge:
  assumes "hex_ok h" "ledger_ok l" "consumable h cr v issuer now b l"
  shows "ledger_ok (charge v b (prune_expired now l))"
proof -
  let ?l = "prune_expired now l"
  have ok: "ledger_ok ?l" by (rule ledger_ok_prune[OF assms(2)])
  have "valid_nonce_key (wv_holder_pk_hex v)" using verified_keys[OF assms(1)] assms(3) by (auto simp: consumable_def Let_def)
  then have "vc_holder_pk_hex (pinned ?l v) = [] \<or> valid_nonce_key (vc_holder_pk_hex (pinned ?l v))"
    using pinned_holder[of ?l v] ok by (auto simp: ledger_ok_def)
  moreover have "set (spent (charge v b ?l)) \<subseteq>
      insert (wv_nonce_hex v, (pinned ?l v)\<lparr>vc_spent_bytes := saturating_add (vc_spent_bytes (pinned ?l v)) b\<rparr>) (set (spent ?l))"
    unfolding charge_def by (simp add: set_update)
  moreover have "ledger_wf (charge v b ?l)" using charge_wf[OF assms(1) _ assms(3)] assms(2) by (simp add: ledger_ok_def)
  ultimately show ?thesis using ok by (auto simp: ledger_ok_def)
qed

lemma ledger_ok_release: "ledger_ok l \<Longrightarrow> ledger_ok (release n b l)"
proof -
  assume l: "ledger_ok l"
  have "vc_holder_pk_hex (snd nc) = [] \<or> valid_nonce_key (vc_holder_pk_hex (snd nc))" if "nc \<in> set (spent (release n b l))" for nc
  proof (cases "map_of (spent l) n")
    case (Some c)
    then have "(n, c) \<in> set (spent l)" by (rule map_of_SomeD)
    moreover have "nc = (n, c\<lparr>vc_spent_bytes := vc_spent_bytes c - min b (vc_spent_bytes c)\<rparr>) \<or> nc \<in> set (spent l)"
      using that set_update by (fastforce simp: release_spent Some)
    ultimately show ?thesis using l by (auto simp: ledger_ok_def)
  qed (use that l in \<open>simp add: release_spent ledger_ok_def\<close>)
  then show ?thesis using l release_wf by (simp add: ledger_ok_def)
qed

lemma merge_totals_ok:
  assumes "hash_map_ok (\<lambda>(k, t). P k) m" "\<forall>x\<in>set active. P (fst x)"
  shows "hash_map_ok (\<lambda>(k, t). P k) (merge_totals m active)"
  using assms
proof (induction active arbitrary: m)
  case (Cons x active)
  obtain k a where x: "x = (k, a)" by (cases x)
  have "hash_map_ok (\<lambda>(k, t). P k) (AList.update k (max (get_total m k) a) m)"
    using Cons.prems by (intro hash_map_update) (auto simp: x)
  from Cons.IH[OF this] Cons.prems(2) show ?case by (simp add: merge_totals_def x)
qed (simp add: merge_totals_def)

lemma update_ball: "\<forall>x\<in>set m. P (fst x) \<Longrightarrow> P k \<Longrightarrow> \<forall>x\<in>set (AList.update k v m). P (fst x)"
  by (induction m) auto

lemma active_totals_keys:
  assumes "\<forall>nc\<in>set cs. vc_holder_pk_hex (snd nc) = [] \<or> P (vc_holder_pk_hex (snd nc))"
  shows "\<forall>x\<in>set (active_totals cs). P (fst x)"
proof -
  have "\<forall>x\<in>set (foldl (\<lambda>m (_, c). if vc_holder_pk_hex c = '''' then m
      else AList.update (vc_holder_pk_hex c) (saturating_add (get_total m (vc_holder_pk_hex c)) (vc_spent_bytes c)) m) m cs). P (fst x)"
    if "\<forall>x\<in>set m. P (fst x)" for m :: "(string \<times> u64) list"
    using assms that
  proof (induction cs arbitrary: m)
    case (Cons nc cs)
    obtain n c where nc: "nc = (n, c)" by (cases nc)
    let ?m = "if vc_holder_pk_hex c = '''' then m
      else AList.update (vc_holder_pk_hex c) (saturating_add (get_total m (vc_holder_pk_hex c)) (vc_spent_bytes c)) m"
    have "\<forall>x\<in>set ?m. P (fst x)"
    proof (cases "vc_holder_pk_hex c = []")
      case False
      then have "P (vc_holder_pk_hex c)" using Cons.prems(1) by (simp add: nc)
      then show ?thesis using Cons.prems(2) False by (simp add: update_ball)
    qed (use Cons.prems(2) in simp)
    from Cons.IH[OF _ this] Cons.prems(1) show ?case by (simp add: nc)
  qed simp
  from this[of "[]"] show ?thesis by (simp add: active_totals_def)
qed

lemma ledger_ok_reload:
  assumes "json_ok j" "ledger_ok l"
  shows "\<exists>bs l'. encode j l = Inr bs \<and> decode_into j bs l0 = (Inr (), l') \<and> map_of (spent l') = map_of (spent l) \<and> ledger_ok l'"
proof -
  let ?p = "\<lparr>pl_version = 2, pl_spent = spent l, pl_holder_spent = holder_spent l\<rparr>"
  obtain bs v p where p: "json_write j ?p = Inr bs" "json_parse j bs = Inr v" "json_has_version j v"
      "json_ledger j v = Inr p" "pl_version p = 2" "mset (pl_spent p) = mset (spent l)"
      "mset (pl_holder_spent p) = mset (holder_spent l)"
    using assms(1) unfolding json_ok_def by (metis PersistedVoucherLedger.select_convs)
  have wf: "hash_map_ok charge_valid (spent l)" "hash_map_ok (\<lambda>(k, t). valid_nonce_key k) (holder_spent l)"
    using assms(2) by (simp_all add: ledger_ok_def ledger_wf_def)
  have sp: "map_of (pl_spent p) = map_of (spent l)" "set (pl_spent p) = set (spent l)" "distinct (map fst (pl_spent p))"
    and ho: "set (pl_holder_spent p) = set (holder_spent l)" "distinct (map fst (pl_holder_spent p))"
    using map_of_mset[OF p(6)] map_of_mset[OF p(7)] wf by (simp_all add: hash_map_ok_def)
  have pw: "hash_map_ok charge_valid (pl_spent p)" "hash_map_ok (\<lambda>(k, t). valid_nonce_key k) (pl_holder_spent p)"
    using wf sp(2,3) ho by (simp_all add: hash_map_ok_def)
  have holders: "\<forall>nc\<in>set (pl_spent p). vc_holder_pk_hex (snd nc) = [] \<or> valid_nonce_key (vc_holder_pk_hex (snd nc))"
    using assms(2) by (simp add: ledger_ok_def sp(2))
  let ?l = "l0\<lparr>spent := pl_spent p, holder_spent := merge_totals (pl_holder_spent p) (active_totals (pl_spent p))\<rparr>"
  have "filter charge_valid (pl_spent p) = pl_spent p" using pw(1) by (simp add: hash_map_ok_def filter_id_conv)
  moreover have "\<not> list_ex (\<lambda>nc. \<not> charge_valid nc) (pl_spent p)" using pw(1) by (simp add: hash_map_ok_def list_ex_iff)
  moreover have "\<not> list_ex (\<lambda>(key, _). \<not> valid_nonce_key key) (pl_holder_spent p)"
    using pw(2) by (auto simp: hash_map_ok_def list_ex_iff)
  ultimately have "decode_into j bs l0 = (Inr (), ?l)"
    unfolding decode_into_def by (simp add: p(2-5) case_prod_beta)
  moreover have "ledger_ok ?l"
    using pw holders merge_totals_ok[OF pw(2) active_totals_keys[OF holders]] by (simp add: ledger_ok_def ledger_wf_def)
  moreover have "encode j l = Inr bs" using p(1) by (simp add: encode_def)
  ultimately show ?thesis using sp(1) by (intro exI[of _ bs] exI[of _ ?l]) simp
qed

text \<open>The ledger that the next start will read.\<close>

definition loaded :: "'v json_crate \<Rightarrow> object_store \<Rightarrow> VoucherLedger" where
  "loaded j s = ob_ledger (store_restart j s)"

definition store_ok :: "'v json_crate \<Rightarrow> object_store \<Rightarrow> bool" where
  "store_ok j s \<longleftrightarrow> ledger_ok (ob_ledger s) \<and> \<not> ob_ledger_failed s \<and> ledger_ok (loaded j s) \<and> \<not> ob_ledger_failed (store_restart j s)"

lemma loaded_file: "ob_ledger_file s = ob_ledger_file u \<Longrightarrow>
    loaded j s = loaded j u \<and> ob_ledger_failed (store_restart j s) = ob_ledger_failed (store_restart j u)"
  by (simp add: loaded_def store_restart_def load_voucher_ledger_def split: option.splits prod.splits sum.splits)

lemma store_ok_new: "store_ok j store_new"
  by (simp add: store_ok_def store_new_def loaded_def store_restart_def load_voucher_ledger_def ledger_ok_new)

text \<open>After a write of the ledger, the next start reads what it would have read, or what was written.\<close>

lemma persist_ledger:
  assumes "json_ok j" "store_ok j s" "ledger_ok (ob_ledger s)" "encode j (ob_ledger s) = Inr enc"
    and "persist_voucher_ledger w enc s = (r, s')"
  shows "ob_ledger s' = ob_ledger s" "store_ok j s'"
    and "loaded j s' = loaded j s \<or> map_of (spent (loaded j s')) = map_of (spent (ob_ledger s))"
    and "r = Inr () \<Longrightarrow> map_of (spent (loaded j s')) = map_of (spent (ob_ledger s))"
proof -
  obtain l' where l': "decode_into j enc (VoucherLedger_new (- 1)) = (Inr (), l')" "map_of (spent l') = map_of (spent (ob_ledger s))" "ledger_ok l'"
    using ledger_ok_reload[OF assms(1,3), of "VoucherLedger_new (- 1)"] assms(4) by auto
  have s': "s' = s\<lparr>ob_ledger_file := saved_file w enc (ob_ledger_file s)\<rparr>" "r = saving_result w"
    using assms(5) by (simp_all add: persist_voucher_ledger_def)
  show "ob_ledger s' = ob_ledger s" by (simp add: s')
  have new: "loaded j s' = l' \<and> \<not> ob_ledger_failed (store_restart j s')" if "saved_file w enc (ob_ledger_file s) = Some enc"
    using that l'(1) by (simp add: s' loaded_def store_restart_def load_voucher_ledger_def)
  have old: "loaded j s' = loaded j s \<and> ob_ledger_failed (store_restart j s') = ob_ledger_failed (store_restart j s)"
    if "saved_file w enc (ob_ledger_file s) = ob_ledger_file s"
    using that loaded_file[of s' s j] by (simp add: s')
  show "store_ok j s'" using assms(2,3) l'(3) new old by (cases w) (auto simp: store_ok_def s')
  show "loaded j s' = loaded j s \<or> map_of (spent (loaded j s')) = map_of (spent (ob_ledger s))"
    using l'(2) new old by (cases w) auto
  show "r = Inr () \<Longrightarrow> map_of (spent (loaded j s')) = map_of (spent (ob_ledger s))"
    using l'(2) new by (cases w) (auto simp: s')
qed

subsection \<open>The gate and the quota\<close>

abbreviation voucher_terms :: "WriteVoucher \<Rightarrow> string \<times> u64 \<times> u64" where
  "voucher_terms v \<equiv> (wv_nonce_hex v, wv_quota_bytes v, wv_expires_utc v)"

lemma recorded_cong: "map_of (spent l) = map_of (spent l') \<Longrightarrow> recorded trm l = recorded trm l'"
  by (cases trm) (simp add: recorded_def terms_match_def)

lemma consumable_recorded:
  assumes "ledger_wf l" "consumable h cr v issuer now b l" "q \<noteq> - 1" "now \<le> e"
  shows "recorded (n, q, e) (charge v b (prune_expired now l)) = recorded (n, q, e) l + (if voucher_terms v = (n, q, e) then uint b else 0)"
    and "recorded (n, q, e) (release (wv_nonce_hex v) b (charge v b (prune_expired now l))) = recorded (n, q, e) l"
proof -
  let ?l = "prune_expired now l" and ?c = "charge v b (prune_expired now l)"
  have p: "vc_quota_bytes (pinned ?l v) = wv_quota_bytes v" "vc_expires_utc (pinned ?l v) = wv_expires_utc v"
    "saturating_add (vc_spent_bytes (pinned ?l v)) b \<le> vc_quota_bytes (pinned ?l v)"
    using assms(2) unfolding consumable_def Let_def by blast+
  show r: "recorded (n, q, e) ?c = recorded (n, q, e) l + (if voucher_terms v = (n, q, e) then uint b else 0)"
    using charge_recorded[OF p assms(3)] recorded_prune[OF assms(1,4)] by simp
  have rel: "recorded (n, q, e) (release (wv_nonce_hex v) b ?c) =
      recorded (n, q, e) ?c + charged h cr issuer (n, q, e) (Release (wv_nonce_hex v) b) ?c" by (rule release_recorded)
  show "recorded (n, q, e) (release (wv_nonce_hex v) b ?c) = recorded (n, q, e) l"
  proof (cases "voucher_terms v = (n, q, e)")
    case True
    have "b \<le> saturating_add (vc_spent_bytes (pinned ?l v)) b"
      unfolding word_le_nat_alt unat_saturating_add using unsigned_less[of b, where 'a = nat] by auto
    moreover have m: "map_of (spent ?c) (wv_nonce_hex v) =
        Some ((pinned ?l v)\<lparr>vc_spent_bytes := saturating_add (vc_spent_bytes (pinned ?l v)) b\<rparr>)"
      by (simp add: charge_map)
    moreover have "terms_match (n, q, e) ?c" using True p(1,2) m by (auto simp: terms_match_def)
    ultimately show ?thesis using rel r True by (simp add: min_absorb1)
  next
    case False
    then have "\<not> (wv_nonce_hex v = n \<and> terms_match (n, q, e) ?c)"
      using p(1,2) by (auto simp: terms_match_def charge_map)
    then show ?thesis using rel r False by auto
  qed
qed

text \<open>What the call of the gate leaves behind.\<close>

lemma authorize_cases:
  assumes "hex_ok h" "json_ok j" "store_ok j s" "authorize_write h cr j issuer now w v b s = (r, s')"
  obtains (open_gate) "v = None" "r = Inr None \<or> (\<exists>e. r = Inl e)" "s' = s"
  | (refused) vv e where "v = Some vv" "r = Inl e" "s' = s\<lparr>ob_ledger := prune_expired now (ob_ledger s)\<rparr>"
  | (unsaved) vv e where "v = Some vv" "r = Inl e" "consumable h cr vv issuer now b (ob_ledger s)"
      "ob_ledger s' = release (wv_nonce_hex vv) b (charge vv b (prune_expired now (ob_ledger s)))"
      "store_ok j s'" "loaded j s' = loaded j s \<or> map_of (spent (loaded j s')) = map_of (spent (charge vv b (prune_expired now (ob_ledger s))))"
  | (charged) vv where "v = Some vv" "r = Inr (Some (wv_nonce_hex vv, b))" "consumable h cr vv issuer now b (ob_ledger s)"
      "ob_ledger s' = charge vv b (prune_expired now (ob_ledger s))"
      "store_ok j s'" "map_of (spent (loaded j s')) = map_of (spent (charge vv b (prune_expired now (ob_ledger s))))"
proof (cases v)
  case None
  then show thesis using assms(3,4) by (intro open_gate) (auto simp: authorize_write_def store_ok_def split: if_splits)
next
  case (Some vv)
  have ok: "ledger_ok (ob_ledger s)" "\<not> ob_ledger_failed s" using assms(3) by (simp_all add: store_ok_def)
  show thesis
  proof (cases "consumable h cr vv issuer now b (ob_ledger s)")
    case False
    then obtain e where "try_consume h cr vv issuer now b (ob_ledger s) = (Inl e, prune_expired now (ob_ledger s))"
      using try_consume_err by blast
    then show thesis using assms(4) ok(2) by (intro refused[OF Some]) (auto simp: authorize_write_def Some)
  next
    case True
    let ?l = "charge vv b (prune_expired now (ob_ledger s))" and ?u = "s\<lparr>ob_ledger := charge vv b (prune_expired now (ob_ledger s))\<rparr>"
    have l: "ledger_ok ?l" by (rule ledger_ok_charge[OF assms(1) ok(1) True])
    obtain enc where enc: "encode j ?l = Inr enc" using ledger_ok_reload[OF assms(2) l] by blast
    obtain q x where p: "persist_voucher_ledger w enc ?u = (q, x)" by force
    have u: "store_ok j ?u" using assms(3) l loaded_file[of ?u s j] by (simp add: store_ok_def)
    have lu: "loaded j ?u = loaded j s" using loaded_file[of ?u s j] by simp
    have le: "ledger_ok (ob_ledger ?u)" "encode j (ob_ledger ?u) = Inr enc" using l enc by simp_all
    note px = persist_ledger[OF assms(2) u le p, unfolded lu, simplified]
    have eq: "(case q of Inl e \<Rightarrow> (Inl (ServerError 500 (''Unable to persist voucher ledger: '' @ e)), x\<lparr>ob_ledger := release (wv_nonce_hex vv) b (ob_ledger x)\<rparr>)
        | Inr _ \<Rightarrow> (Inr (Some (wv_nonce_hex vv, b)), x)) = (r, s')"
      using assms(4) ok(2) by (cases q) (simp_all add: authorize_write_def Some try_consume_ok[OF True] enc p)
    show thesis
    proof (cases q)
      case (Inl e)
      then have s': "s' = x\<lparr>ob_ledger := release (wv_nonce_hex vv) b ?l\<rparr>" using eq px(1) by auto
      have "store_ok j s'" using px(2) ledger_ok_release[OF l] loaded_file[of s' x j] by (simp add: store_ok_def s')
      then show thesis using eq Inl px(3) s' loaded_file[of s' x j] by (intro unsaved[OF Some _ True]) auto
    next
      case (Inr z)
      then show thesis using eq px by (intro charged[OF Some _ True]) auto
    qed
  qed
qed

lemma refused_ok:
  assumes "store_ok j s"
  shows "store_ok j (s\<lparr>ob_ledger := prune_expired now (ob_ledger s)\<rparr>)" "loaded j (s\<lparr>ob_ledger := prune_expired now (ob_ledger s)\<rparr>) = loaded j s"
  using assms ledger_ok_prune[of "ob_ledger s" now] loaded_file[of "s\<lparr>ob_ledger := prune_expired now (ob_ledger s)\<rparr>" s j]
  by (simp_all add: store_ok_def)

lemma release_write_ok:
  assumes "json_ok j" "store_ok j s" "release_write j w (Some (n, b)) s = (r, s')"
  shows "store_ok j s'" "ob_ledger s' = release n b (ob_ledger s)"
    "loaded j s' = loaded j s \<or> map_of (spent (loaded j s')) = map_of (spent (release n b (ob_ledger s)))"
proof -
  let ?u = "s\<lparr>ob_ledger := release n b (ob_ledger s)\<rparr>"
  have l: "ledger_ok (release n b (ob_ledger s))" using assms(2) by (simp add: store_ok_def ledger_ok_release)
  obtain enc where enc: "encode j (release n b (ob_ledger s)) = Inr enc" using ledger_ok_reload[OF assms(1) l] by blast
  obtain q x where p: "persist_voucher_ledger w enc ?u = (q, x)" by force
  have u: "store_ok j ?u" using assms(2) l loaded_file[of ?u s j] by (simp add: store_ok_def)
  have lu: "loaded j ?u = loaded j s" using loaded_file[of ?u s j] by simp
  have le: "ledger_ok (ob_ledger ?u)" "encode j (ob_ledger ?u) = Inr enc" using l enc by simp_all
  note px = persist_ledger[OF assms(1) u le p, unfolded lu, simplified]
  have "s' = x" using assms(3) enc p by (simp add: release_write_def Let_def)
  then show "store_ok j s'" "ob_ledger s' = release n b (ob_ledger s)"
    "loaded j s' = loaded j s \<or> map_of (spent (loaded j s')) = map_of (spent (release n b (ob_ledger s)))" using px by simp_all
qed

definition covers :: "'v json_crate \<Rightarrow> string \<times> u64 \<times> u64 \<Rightarrow> int \<Rightarrow> object_store \<Rightarrow> bool" where
  "covers j trm S s \<longleftrightarrow> S \<le> recorded trm (ob_ledger s) \<and> S \<le> recorded trm (loaded j s)"

lemma store_cong:
  assumes "ob_ledger s' = ob_ledger s" "ob_ledger_file s' = ob_ledger_file s" "ob_ledger_failed s' = ob_ledger_failed s"
  shows "store_ok j s' = store_ok j s" "loaded j s' = loaded j s" "covers j trm S s' = covers j trm S s"
  using assms loaded_file[OF assms(2), of j] by (simp_all add: store_ok_def covers_def)

lemma gate_ok:
  assumes "hex_ok h" "json_ok j" "store_ok j s" "authorize_write h cr j issuer now w v b s = (r, s')"
  shows "store_ok j s'"
  using assms
proof (cases rule: authorize_cases)
  case (refused vv e)
  then show ?thesis using refused_ok(1)[OF assms(3)] by simp
qed (use assms(3) in simp_all)

lemma gate_covers:
  assumes "hex_ok h" "json_ok j" "store_ok j s" "authorize_write h cr j issuer now w v b s = (r, s')"
    and "q \<noteq> - 1" "now \<le> e" "covers j (n, q, e) S s"
  shows "covers j (n, q, e) S s'"
    and "r = Inr (Some c) \<Longrightarrow> \<exists>vv. v = Some vv \<and> covers j (n, q, e) (S + (if voucher_terms vv = (n, q, e) then uint b else 0)) s' \<and>
      S \<le> recorded (n, q, e) (release (fst c) (snd c) (ob_ledger s'))"
proof -
  have wf: "ledger_wf (ob_ledger s)" using assms(3) by (simp add: store_ok_def ledger_ok_def)
  have "covers j (n, q, e) S s' \<and> (r = Inr (Some c) \<longrightarrow> (\<exists>vv. v = Some vv \<and>
      covers j (n, q, e) (S + (if voucher_terms vv = (n, q, e) then uint b else 0)) s' \<and>
      S \<le> recorded (n, q, e) (release (fst c) (snd c) (ob_ledger s'))))"
    using assms(1-4)
  proof (cases rule: authorize_cases)
    case (refused vv e')
    then show ?thesis using assms(7) refused_ok(2)[OF assms(3), of now] recorded_prune[OF wf assms(6)] by (simp add: covers_def)
  next
    case (unsaved vv e')
    note c = consumable_recorded[OF wf unsaved(3) assms(5,6), of n]
    from unsaved(6) have "S \<le> recorded (n, q, e) (loaded j s')"
    proof
      assume "map_of (spent (loaded j s')) = map_of (spent (charge vv b (prune_expired now (ob_ledger s))))"
      from recorded_cong[OF this, of "(n, q, e)"] show ?thesis using c(1) assms(7) by (auto intro: add_increasing2 simp: covers_def)
    qed (use assms(7) in \<open>simp add: covers_def\<close>)
    then show ?thesis using c(2) assms(7) unsaved(2,4) by (simp add: covers_def)
  next
    case (charged vv)
    note c = consumable_recorded[OF wf charged(3) assms(5,6), of n]
    have "recorded (n, q, e) (loaded j s') = recorded (n, q, e) (ob_ledger s')"
      using recorded_cong[OF charged(6), of "(n, q, e)"] by (simp add: charged(4))
    then show ?thesis using c charged(1,2,4) assms(7) by (auto intro: add_increasing2 simp: covers_def)
  qed (use assms(7) in auto)
  then show "covers j (n, q, e) S s'"
    "r = Inr (Some c) \<Longrightarrow> \<exists>vv. v = Some vv \<and> covers j (n, q, e) (S + (if voucher_terms vv = (n, q, e) then uint b else 0)) s' \<and>
      S \<le> recorded (n, q, e) (release (fst c) (snd c) (ob_ledger s'))" by simp_all
qed

lemma gate_expired:
  assumes "hex_ok h" "json_ok j" "store_ok j s" "authorize_write h cr j issuer now w (Some v) b s = (Inr c, s')"
  shows "now \<le> wv_expires_utc v"
  using assms
proof (cases rule: authorize_cases)
  case (charged vv)
  then show ?thesis using verified_keys(3)[OF assms(1)] by (auto simp: consumable_def Let_def)
qed simp_all

lemma release_covers:
  assumes "json_ok j" "store_ok j s" "covers j trm S s" "\<And>n b. c = Some (n, b) \<Longrightarrow> S \<le> recorded trm (release n b (ob_ledger s))"
  shows "store_ok j (snd (release_write j w c s)) \<and> covers j trm S (snd (release_write j w c s))"
proof (cases c)
  case (Some nb)
  obtain n b where nb: "c = Some (n, b)" using Some by (cases nb) auto
  obtain r s' where r: "release_write j w (Some (n, b)) s = (r, s')" by force
  note ok = release_write_ok[OF assms(1,2) r]
  have "S \<le> recorded trm (loaded j s')" using ok(3)
  proof
    assume "map_of (spent (loaded j s')) = map_of (spent (release n b (ob_ledger s)))"
    from recorded_cong[OF this, of trm] show ?thesis using assms(4)[OF nb] by simp
  qed (use assms(3) in \<open>simp add: covers_def\<close>)
  then show ?thesis using ok assms(4)[OF nb] by (simp add: nb r covers_def)
qed (use assms(2,3) in \<open>simp add: release_write_def\<close>)

lemma release_ok:
  assumes "json_ok j" "store_ok j s"
  shows "store_ok j (snd (release_write j w c s))"
proof (cases c)
  case (Some nb)
  obtain n b where nb: "nb = (n, b)" by (cases nb)
  show ?thesis using release_write_ok(1)[OF assms, of w n b "fst (release_write j w c s)" "snd (release_write j w c s)"] by (simp add: Some nb)
qed (use assms(2) in \<open>simp add: release_write_def\<close>)

subsection \<open>What a call stores under a voucher\<close>

text \<open>The bytes that a successful call adds to the disk under the terms of one voucher.\<close>

fun stored_by :: "hex_crate \<Rightarrow> crypto_crate \<Rightarrow> 'v json_crate \<Rightarrow> string \<Rightarrow> string option \<Rightarrow> string \<times> u64 \<times> u64 \<Rightarrow> store_call \<Rightarrow> object_store \<Rightarrow> int" where
  "stored_by h cr j issuer limit trm (Put now w1 w2 w3 cid bytes (Some v)) s =
     (if voucher_terms v = trm \<and> ob_objects s cid \<noteq> Some bytes \<and>
         fst (put_object_with_voucher h cr j issuer limit now w1 w2 w3 cid bytes (Some v) s) = Inr ()
      then int (length bytes) else 0)"
| "stored_by h cr j issuer limit trm (Append now w1 w2 outcome entry (Some v)) s =
     (if voucher_terms v = trm \<and>
         is_ok (fst (append_recovery_record_with_voucher h cr j issuer now w1 w2 outcome entry (Some v) s))
      then int (length entry) else 0)"
| "stored_by h cr j issuer limit trm _ s = 0"

fun total_stored :: "hex_crate \<Rightarrow> crypto_crate \<Rightarrow> 'v json_crate \<Rightarrow> string \<Rightarrow> string option \<Rightarrow> string \<times> u64 \<times> u64 \<Rightarrow> store_call list \<Rightarrow> object_store \<Rightarrow> int" where
  "total_stored h cr j issuer limit trm [] s = 0"
| "total_stored h cr j issuer limit trm (c # cs) s =
     stored_by h cr j issuer limit trm c s + total_stored h cr j issuer limit trm cs (store_step h cr j issuer limit c s)"

fun call_time :: "store_call \<Rightarrow> u64 option" where
  "call_time (Put now w1 w2 w3 cid bytes v) = Some now"
| "call_time (Append now w1 w2 outcome entry v) = Some now"
| "call_time (Lease_gate now w v) = Some now"
| "call_time (Killed now w v b) = Some now"
| "call_time _ = None"

fun store_clock :: "u64 \<Rightarrow> store_call list \<Rightarrow> bool" where
  "store_clock t [] \<longleftrightarrow> True"
| "store_clock t (c # cs) \<longleftrightarrow>
     (case call_time c of None \<Rightarrow> store_clock t cs | Some now \<Rightarrow> t \<le> now \<and> store_clock now cs)"

text \<open>A slice is shorter than the address space.\<close>

fun slices_fit :: "store_call \<Rightarrow> bool" where
  "slices_fit (Put now w1 w2 w3 cid bytes v) \<longleftrightarrow> length bytes < 2 ^ 64"
| "slices_fit (Append now w1 w2 outcome entry v) \<longleftrightarrow> length entry < 2 ^ 64"
| "slices_fit _ \<longleftrightarrow> True"

lemma uint_length: "n < 2 ^ 64 \<Longrightarrow> uint (word_of_nat n :: u64) = int n"
  by (simp add: uint_nat unat_of_nat)

lemma inner_store:
  assumes "put_object_inner h cr limit w cid bytes s = (r, s')"
  shows "ob_ledger s' = ob_ledger s" "ob_ledger_file s' = ob_ledger_file s" "ob_ledger_failed s' = ob_ledger_failed s"
  using assms by (cases rule: put_inner_cases; simp)+

text \<open>A write behind the gate: the bytes it is charged for stay covered, whether the charge is
  kept or given back.\<close>

lemma gated_ok:
  assumes "hex_ok h" "json_ok j" "store_ok j s" "authorize_write h cr j issuer now w v b s = (a, u)"
    and "ob_ledger x = ob_ledger u" "ob_ledger_file x = ob_ledger_file u" "ob_ledger_failed x = ob_ledger_failed u"
  shows "store_ok j x" "store_ok j (snd (release_write j w' c x))"
  using gate_ok[OF assms(1-4)] store_cong(1)[OF assms(5-7), of j] release_ok[OF assms(2)] by simp_all

lemma gated_kept:
  assumes "hex_ok h" "json_ok j" "store_ok j s" "authorize_write h cr j issuer now w v b s = (Inr c, u)"
    and "ob_ledger x = ob_ledger u" "ob_ledger_file x = ob_ledger_file u" "ob_ledger_failed x = ob_ledger_failed u"
    and "q \<noteq> - 1" "now \<le> e" "covers j (n, q, e) S s"
    and "g = 0 \<or> (\<exists>vv. v = Some vv \<and> voucher_terms vv = (n, q, e) \<and> g = uint b)"
  shows "covers j (n, q, e) (S + g) x"
proof (cases "g = 0")
  case True
  then show ?thesis using gate_covers(1)[OF assms(1-4,8-10)] store_cong(3)[OF assms(5-7), of j] by simp
next
  case False
  then obtain vv where vv: "v = Some vv" "voucher_terms vv = (n, q, e)" "g = uint b" using assms(11) by blast
  with assms(1-4) obtain d where "c = Some d" by (cases rule: authorize_cases) auto
  from gate_covers(2)[OF assms(1-4,8-10), of d] this vv show ?thesis using store_cong(3)[OF assms(5-7), of j] by auto
qed

lemma gated_released:
  assumes "hex_ok h" "json_ok j" "store_ok j s" "authorize_write h cr j issuer now w v b s = (Inr c, u)"
    and "ob_ledger x = ob_ledger u" "ob_ledger_file x = ob_ledger_file u" "ob_ledger_failed x = ob_ledger_failed u"
    and "q \<noteq> - 1" "now \<le> e" "covers j (n, q, e) S s"
  shows "covers j (n, q, e) S (snd (release_write j w' c x))"
proof -
  have "S \<le> recorded (n, q, e) (release m k (ob_ledger x))" if "c = Some (m, k)" for m k
    using gate_covers(2)[OF assms(1-4,8-10), of "(m, k)"] that assms(5) by auto
  then show ?thesis
    using release_covers[OF assms(2) gated_ok(1)[OF assms(1-7)] gated_kept[OF assms(1-10), of 0, simplified]] by simp
qed

definition within :: "'v json_crate \<Rightarrow> string \<times> u64 \<times> u64 \<Rightarrow> u64 \<Rightarrow> int \<Rightarrow> object_store \<Rightarrow> bool" where
  "within j trm t S s \<longleftrightarrow> store_ok j s \<and> S \<le> uint (fst (snd trm)) \<and> (t \<le> snd (snd trm) \<longrightarrow> covers j trm S s)"

lemma covers_quota: "store_ok j s \<Longrightarrow> covers j (n, q, e) S s \<Longrightarrow> S \<le> uint q"
  using recorded_bounds[of "ob_ledger s" n q e] by (auto simp: store_ok_def ledger_ok_def covers_def)

lemma withinI:
  assumes "store_ok j s'" "within j (n, q, e) t S s" "t \<le> now" "g = 0 \<or> now \<le> e"
    and "now \<le> e \<Longrightarrow> covers j (n, q, e) S s \<Longrightarrow> covers j (n, q, e) (S + g) s'"
  shows "within j (n, q, e) now (S + g) s'"
  using assms covers_quota[OF assms(1), of n q e "S + g"] by (auto simp: within_def)

lemma append_within:
  assumes "hex_ok h" "json_ok j" "q \<noteq> - 1" "length entry < 2 ^ 64" "t \<le> now" "within j (n, q, e) t S s"
  shows "within j (n, q, e) now (S + stored_by h cr j issuer limit (n, q, e) (Append now w1 w2 outcome entry v) s)
    (store_step h cr j issuer limit (Append now w1 w2 outcome entry v) s)" (is "within _ _ _ (S + ?g) ?s")
proof -
  let ?b = "word_of_nat (length entry) :: u64"
  obtain a u where a: "authorize_write h cr j issuer now w1 v ?b s = (a, u)" by force
  have ok: "store_ok j s" using assms(6) by (simp add: within_def)
  show ?thesis
  proof (cases a)
    case (Inl err)
    then have "?g = 0" "?s = u" using a by (cases v; simp add: append_recovery_record_with_voucher_def)+
    then show ?thesis using withinI[OF gate_ok[OF assms(1,2) ok a] assms(6,5), of 0] gate_covers(1)[OF assms(1,2) ok a assms(3)] by auto
  next
    case (Inr c)
    note a = a[unfolded Inr]
    have g: "?g = 0 \<or> (\<exists>vv. v = Some vv \<and> voucher_terms vv = (n, q, e) \<and> ?g = uint ?b)"
      using assms(4) by (cases v) (auto simp: uint_length)
    show ?thesis
    proof (cases outcome)
      case (Inl err)
      then have s: "?g = 0" "?s = snd (release_write j w2 c u)" using a by (cases v; simp add: append_recovery_record_with_voucher_def)+
      show ?thesis unfolding s
        using withinI[OF gated_ok(2)[OF assms(1,2) ok a refl refl refl] assms(6,5), of 0 w2 c] gated_released[OF assms(1,2) ok a refl refl refl assms(3)] by simp
    next
      case (Inr k)
      then have s: "?s = u" using a by (simp add: append_recovery_record_with_voucher_def)
      have "?g = 0 \<or> now \<le> e" using g gate_expired[OF assms(1,2) ok] a by auto
      then show ?thesis unfolding s
        using withinI[OF gated_ok(1)[OF assms(1,2) ok a refl refl refl] assms(6,5)] gated_kept[OF assms(1,2) ok a refl refl refl assms(3) _ _ g] by blast
    qed
  qed
qed

lemma put_within:
  assumes "hex_ok h" "json_ok j" "q \<noteq> - 1" "length bytes < 2 ^ 64" "t \<le> now" "within j (n, q, e) t S s"
  shows "within j (n, q, e) now (S + stored_by h cr j issuer limit (n, q, e) (Put now w1 w2 w3 cid bytes v) s)
    (store_step h cr j issuer limit (Put now w1 w2 w3 cid bytes v) s)" (is "within _ _ _ (S + ?g) ?s")
proof -
  let ?b = "(if object_matches cid bytes s then 0 else word_of_nat (length bytes)) :: u64"
  obtain a u where a: "authorize_write h cr j issuer now w1 v ?b s = (a, u)" by force
  have ok: "store_ok j s" using assms(6) by (simp add: within_def)
  show ?thesis
  proof (cases a)
    case (Inl err)
    then have "?g = 0" "?s = u" using a by (cases v; simp add: put_object_with_voucher_def)+
    then show ?thesis using withinI[OF gate_ok[OF assms(1,2) ok a] assms(6,5), of 0] gate_covers(1)[OF assms(1,2) ok a assms(3)] by auto
  next
    case (Inr c)
    note a = a[unfolded Inr]
    obtain p x where p: "put_object_inner h cr limit w2 cid bytes u = (p, x)" by force
    note x = inner_store[OF p]
    have g: "?g = 0 \<or> (\<exists>vv. v = Some vv \<and> voucher_terms vv = (n, q, e) \<and> ?g = uint ?b)"
      using assms(4) by (cases v) (auto simp: uint_length object_matches_def)
    show ?thesis
    proof (cases "p = Inr True")
      case True
      then have s: "?s = x" using a p by (simp add: put_object_with_voucher_def)
      have "?g = 0 \<or> now \<le> e" using g gate_expired[OF assms(1,2) ok] a by auto
      then show ?thesis unfolding s
        using withinI[OF gated_ok(1)[OF assms(1,2) ok a x] assms(6,5)] gated_kept[OF assms(1,2) ok a x assms(3) _ _ g] by blast
    next
      case False
      with p have "p = Inr False \<and> ob_objects u cid = Some bytes \<or> (\<exists>err. p = Inl err)" by (cases rule: put_inner_cases) auto
      then have s: "?g = 0 \<and> ?s = snd (release_write j w3 c x)"
        using a p authorize_objectsD[OF a] by (cases v) (auto simp: put_object_with_voucher_def)
      show ?thesis unfolding s[THEN conjunct1] s[THEN conjunct2]
        using withinI[OF gated_ok(2)[OF assms(1,2) ok a x] assms(6,5), of 0 w3 c] gated_released[OF assms(1,2) ok a x assms(3)] by simp
    qed
  qed
qed

lemma lease_within:
  assumes "hex_ok h" "json_ok j" "q \<noteq> - 1" "t \<le> now" "within j (n, q, e) t S s"
  shows "within j (n, q, e) now S (snd (authorize_write h cr j issuer now w v b s))"
proof -
  have ok: "store_ok j s" using assms(5) by (simp add: within_def)
  obtain a u where a: "authorize_write h cr j issuer now w v b s = (a, u)" by force
  show ?thesis using withinI[OF gate_ok[OF assms(1,2) ok a] assms(5,4), of 0] gate_covers(1)[OF assms(1,2) ok a assms(3)] by (simp add: a)
qed

lemma within_cong:
  assumes "ob_ledger s' = ob_ledger s" "ob_ledger_file s' = ob_ledger_file s" "ob_ledger_failed s' = ob_ledger_failed s"
  shows "within j trm t S s' = within j trm t S s"
  using store_cong(1,3)[OF assms, of j] by (simp add: within_def)

lemma legacy_within:
  "within j trm t S s \<Longrightarrow> within j trm t S (snd (put_object_inner h cr limit w cid bytes s))"
  using within_cong[OF inner_store[OF prod.collapse[symmetric]], of j trm t S h cr limit w cid bytes s] by simp

lemma quotas_ok: "spent (set_user_quota_bytes m (set_max_quota k l)) = spent l"
  "ledger_ok (set_user_quota_bytes m (set_max_quota k l)) = ledger_ok l"
  by (simp_all add: set_user_quota_bytes_def set_max_quota_def ledger_ok_def ledger_wf_def)

lemma restart_file: "ob_ledger_file (store_restart j s) = ob_ledger_file s"
  by (simp add: store_restart_def load_voucher_ledger_def split: option.splits prod.splits sum.splits)

lemma restart_within: "within j trm t S s \<Longrightarrow> within j trm t S (store_restart j s)"
  using loaded_file[OF restart_file, of j j s] by (auto simp: within_def store_ok_def covers_def loaded_def)

lemma store_step_within:
  assumes "hex_ok h" "json_ok j" "q \<noteq> - 1" "slices_fit c" "case call_time c of None \<Rightarrow> True | Some now \<Rightarrow> t \<le> now" "within j (n, q, e) t S s"
  shows "within j (n, q, e) (case call_time c of None \<Rightarrow> t | Some now \<Rightarrow> now) (S + stored_by h cr j issuer limit (n, q, e) c s)
    (store_step h cr j issuer limit c s)"
proof (cases c)
  case (Put_legacy w cid bytes)
  then show ?thesis using assms(6) legacy_within[OF assms(6), of h cr limit w cid bytes]
    by (auto simp: put_object_def split: sum.splits prod.splits)
next
  case (Put_repair w cid bytes)
  then show ?thesis using legacy_within[OF assms(6), of h cr limit w cid bytes]
    by (auto simp: put_repair_object_def split: sum.splits prod.splits)
next
  case (Require b)
  then show ?thesis using assms(6) within_cong[of "s\<lparr>ob_vouchers_required := b\<rparr>" s j] by simp
next
  case (Set_quotas m k)
  let ?s = "s\<lparr>ob_ledger := set_user_quota_bytes k (set_max_quota m (ob_ledger s))\<rparr>"
  show ?thesis using assms(6) loaded_file[of ?s s j] recorded_cong[OF arg_cong[OF quotas_ok(1), of map_of]]
    by (simp add: Set_quotas within_def store_ok_def covers_def quotas_ok)
next
  case (Killed now w v b)
  then show ?thesis using restart_within[OF lease_within[OF assms(1-3) _ assms(6), of now cr issuer w v b]] assms(5) by simp
qed (use assms put_within append_within lease_within restart_within in simp_all)


lemma length_compute_digest: "digests_ok cr \<Longrightarrow> length (compute_digest cr bs) = 32"
  by (simp add: compute_digest_def)

text \<open>A voucher with enough left buys a new object.\<close>

lemma put_accepted:
  assumes "hex_ok h" "json_ok j" "store_ok j s" "consumable h cr v issuer now (word_of_nat (length bytes)) (ob_ledger s)"
    and "length (compute_digest cr bytes) = 32" "length bytes \<le> max_object_size limit"
    and "ob_objects s (hex_encode h (compute_digest cr bytes)) \<noteq> Some bytes"
  defines "cid \<equiv> hex_encode h (compute_digest cr bytes)"
  shows "\<exists>s'. put_object_with_voucher h cr j issuer limit now Saved Saved w cid bytes (Some v) s = (Inr (), s')"
proof -
  obtain a u where a: "authorize_write h cr j issuer now Saved (Some v) (word_of_nat (length bytes)) s = (a, u)" by force
  have ok: "ledger_ok (charge v (word_of_nat (length bytes)) (prune_expired now (ob_ledger s)))" "\<not> ob_ledger_failed s"
    using ledger_ok_charge[OF assms(1) _ assms(4)] assms(3) by (simp_all add: store_ok_def)
  obtain enc where "encode j (charge v (word_of_nat (length bytes)) (prune_expired now (ob_ledger s))) = Inr enc"
    using ledger_ok_reload[OF assms(2) ok(1)] by blast
  then have "a = Inr (Some (wv_nonce_hex v, word_of_nat (length bytes)))"
    using a ok(2) by (auto simp: authorize_write_def try_consume_ok[OF assms(4)] persist_voucher_ledger_def)
  moreover have "length cid = 64" using assms(5) hex_length[OF assms(1)] by (simp add: cid_def)
  ultimately show ?thesis
    using a authorize_objectsD[OF a] assms(5-7)
    by (simp add: put_object_with_voucher_def object_matches_def put_object_inner_def cid_def hex_decode_encode[OF assms(1)])
qed

lemma put_success:
  assumes "put_object_with_voucher h cr j issuer limit now w1 w2 w3 cid bytes v s = (Inr (), s')"
  shows "ob_objects s' cid = Some bytes" "length cid = 64" "hex_decode h cid = Inr (compute_digest cr bytes)"
proof -
  let ?b = "(if object_matches cid bytes s then 0 else word_of_nat (length bytes)) :: u64"
  obtain a u where a: "authorize_write h cr j issuer now w1 v ?b s = (a, u)" by force
  obtain p x where p: "put_object_inner h cr limit w2 cid bytes u = (p, x)" by force
  obtain c k where k: "a = Inr c" "p = Inr k" "ob_objects s' = ob_objects x"
    using assms by (cases a; cases p) (auto simp: put_object_with_voucher_def a p dest: arg_cong[of _ _ "ob_objects \<circ> snd"] split: if_splits)
  with p show "ob_objects s' cid = Some bytes" "length cid = 64" "hex_decode h cid = Inr (compute_digest cr bytes)"
    by (cases rule: put_inner_cases; simp)+
qed

text \<open>
  C20. What an operator acknowledged it still has, and can prove.  After an object was put
  successfully, whatever the operator does next - other puts, repairs, failed writes and
  restarts included - a read under its name returns bytes with the digest that the name states,
  and a proof of storage asked for with any nonce is granted and verifies against the operator's
  key and the digest of the nonce and those bytes.
\<close>

theorem put_object_kept:
  assumes "hex_ok h" "ed25519_ok cr" "digests_ok cr"
    and "put_object_with_voucher h cr j issuer limit now w1 w2 w3 cid bytes v (store_run h cr j issuer limit cs store_new) = (Inr (), s)"
  shows "\<exists>b receipt. get_object_inner h cid (store_run h cr j issuer limit cs' s) = Some b \<and>
    compute_digest cr b = compute_digest cr bytes \<and> hex_decode h cid = Inr (compute_digest cr b) \<and>
    generate_pos_proof_inner h cr operator_id sk cid nonce (store_run h cr j issuer limit cs' s) = Inr receipt \<and>
    po_nonce_hex receipt = hex_encode h nonce \<and>
    pos_verify h cr (ed25519_public cr sk) (compute_pos_proof cr (compute_digest cr bytes) nonce b) receipt = Inr ()"
proof -
  let ?s = "store_run h cr j issuer limit cs' s"
  note put = put_success[OF assms(4)]
  have "addressed h cr store_new" by (simp add: addressed_def store_new_def)
  then have "addressed h cr (store_run h cr j issuer limit cs store_new)" using store_run_objects by blast
  then have "addressed h cr s" using store_step_objects[of h cr _ j issuer limit "Put now w1 w2 w3 cid bytes v"] assms(4) by fastforce
  from store_run_objects[OF this, of j issuer limit cs'] obtain b where b: "ob_objects ?s cid = Some b" "compute_digest cr b = compute_digest cr bytes"
    using put(1) unfolding keeps_def by blast
  have "length (sign_with_domain cr sk d m) = 64 \<and> verify_with_domain cr (ed25519_public cr sk) d m (sign_with_domain cr sk d m) = Inr ()" for d m
    using ed25519_laws[OF assms(2)] by (simp add: verify_with_domain_def sign_with_domain_def)
  then show ?thesis using b put length_compute_digest[OF assms(3)]
    by (simp add: get_object_inner_def generate_pos_proof_inner_def pos_verify_def Let_def result_simps
        hex_decode_encode[OF assms(1)] pos_signing_bytes_def)
qed

definition store_calls_example :: "store_call list" where
  "store_calls_example = [Put 1010 Saved Saved Saved (hex_encode hex_std (compute_digest crypto_std [1, 2, 3])) [1, 2, 3] (Some voucher_example),
     Killed 1015 Saved (Some voucher_example) 40, Put 1020 (Unsaved ''EIO'') Saved Saved (hex_encode hex_std (compute_digest crypto_std [4, 5])) [4, 5] (Some voucher_example)]"

lemma consumable_example:
  "consumable hex_std crypto_std voucher_example (hex_encode hex_std (ed25519_public crypto_std [5])) 1010 3 (ob_ledger store_new)"
proof -
  have "voucher_verify hex_std crypto_std voucher_example (hex_encode hex_std (ed25519_public crypto_std [5])) 1010 = Inr ()"
    using voucher_issue_verify[OF hex_std_ok crypto_okD(3)[OF crypto_std_ok] _ voucher_example_issued, of 1010]
    by (simp add: hex_digits_lower hex_set[OF hex_std_ok] saturating_add_def)
  then show ?thesis using issue_fields[OF voucher_example_issued]
    by (simp add: consumable_def store_new_def VoucherLedger_new_def prune_expired_def pinned_def holder_total_def saturating_add_def Let_def)
qed

lemma put_example:
  "\<exists>s. put_object_with_voucher hex_std crypto_std json_std (hex_encode hex_std (ed25519_public crypto_std [5])) None 1010 Saved Saved Saved
     (hex_encode hex_std (compute_digest crypto_std [1, 2, 3])) [1, 2, 3] (Some voucher_example) store_new = (Inr (), s)"
  using consumable_example length_compute_digest[OF crypto_okD(1)[OF crypto_std_ok]]
  by (intro put_accepted[OF hex_std_ok json_std_ok store_ok_new]) (simp_all add: store_new_def max_object_size_def operator_limit_from_env_def MAX_OBJECT_SIZE_def)


theorem put_object_kept_witness:
  "\<exists>s b receipt. put_object_with_voucher hex_std crypto_std json_std (hex_encode hex_std (ed25519_public crypto_std [5])) None 1010 Saved Saved Saved
     (hex_encode hex_std (compute_digest crypto_std [1, 2, 3])) [1, 2, 3] (Some voucher_example) store_new = (Inr (), s) \<and>
   get_object_inner hex_std (hex_encode hex_std (compute_digest crypto_std [1, 2, 3]))
     (store_run hex_std crypto_std json_std (hex_encode hex_std (ed25519_public crypto_std [5])) None [Reboot, Require True, Reboot] s) = Some b \<and>
   compute_digest crypto_std b = compute_digest crypto_std [1, 2, 3] \<and>
   pos_verify hex_std crypto_std (ed25519_public crypto_std [9]) (compute_pos_proof crypto_std (compute_digest crypto_std [1, 2, 3]) [7] b) receipt = Inr ()"
proof -
  obtain s where s: "put_object_with_voucher hex_std crypto_std json_std (hex_encode hex_std (ed25519_public crypto_std [5])) None 1010 Saved Saved Saved
     (hex_encode hex_std (compute_digest crypto_std [1, 2, 3])) [1, 2, 3] (Some voucher_example)
     (store_run hex_std crypto_std json_std (hex_encode hex_std (ed25519_public crypto_std [5])) None [] store_new) = (Inr (), s)"
    using put_example by (auto simp: store_run_def)
  from put_object_kept[OF hex_std_ok crypto_okD(3)[OF crypto_std_ok] crypto_okD(1)[OF crypto_std_ok] s, of "[Reboot, Require True, Reboot]" "''op''" "[9]" "[7]"] s
  show ?thesis by (auto simp: store_run_def)
qed

end
