(* ===== verification/Spec2Isabelle.thy ===== *)
theory Spec2Isabelle
  imports Shamir Fastcdc Crypto_Core Envelopes Schema Trust Ancestry Vouchers Invites Approval Recovery_Kit Engine Restore_Atomic Recovery_Paging Operator_Login Operator_Objects
begin

text \<open>
  CipherVault keeps encrypted snapshots of project secrets on storage operators that are not
  trusted. This library models its client cryptography, its record formats, the capture and
  restore of snapshots, the recovery of a vault from its offline root, and the state of an
  operator. All paths below are relative to \<open>src/\<close>.

  \<^bold>\<open>The program and the theories.\<close>

  \<^item> \<open>CV_Prelude\<close>, \<open>Rust_Std\<close>, \<open>Rust_Text\<close> and \<open>Rust_Path\<close> hold what the sources use of Rust:
    machine integers at their width, \<open>Result\<close> as a sum (\<open>Err\<close> is \<^const>\<open>Inl\<close>), strings as lists of
    UTF-8 bytes, \<open>std::path\<close> for Unix. \<open>Crates\<close> holds the third-party crates as records of
    functions with predicates for the behaviour they document, and one concrete instance of each.
  \<^item> \<open>Gf256\<close>, \<open>Lagrange\<close> and \<open>Shamir\<close>: \<open>crates/crypto/src/shamir.rs\<close>. The branchless
    multiplication is the carry-less product modulo 0x11B, which makes the bytes a field;
    any threshold of shares restores the secret and fewer say nothing about it.
  \<^item> \<open>Crypto_Core\<close> and \<open>Envelopes\<close>: the other modules of \<open>crates/crypto\<close>. Derivations,
    signature contexts and envelope scopes are separated from each other.
  \<^item> \<open>Fastcdc\<close> and \<open>Chunker\<close>: \<open>fastcdc.rs\<close> and \<open>chunker.rs\<close> of \<open>crates/snapshot\<close>. Chunking
    returns on every input, partitions it within the size bounds, and finds the same chunks
    again after an edit.
  \<^item> \<open>Schema\<close>: the records of \<open>crates/format/src/schema.rs\<close>. The locale \<open>signed_record\<close> is the
    contract of the four signed records, interpreted on each of them.
  \<^item> \<open>Trust\<close> and \<open>Ancestry\<close>: \<open>crates/recovery/src/trust.rs\<close>. The head that recovery selects from
    untrusted records is certified and dominates all others; the traversal always ends.
  \<^item> \<open>Recovery_Base\<close>, \<open>Recovery_Kit\<close> and \<open>Approval\<close>: kits, guardian kits, printed sheets and
    out-of-band approvals of \<open>crates/recovery\<close>.
  \<^item> \<open>Engine\<close>: \<open>crates/snapshot/src/engine.rs\<close>. A capture followed by a decryption returns the
    files; whatever untrusted storage returns, decrypted files are authenticated and
    their paths are safe.
  \<^item> \<open>File_System\<close>, \<open>Restore\<close>, \<open>Restore_Paths\<close>, \<open>Restore_State\<close>, \<open>Restore_Publish\<close>,
    \<open>Restore_Recover\<close> and \<open>Restore_Atomic\<close>: \<open>crates/snapshot/src/restore.rs\<close> and
    \<open>crates/file-lock/src/lib.rs\<close>, on a file system whose every call may fail or be
    the last one of the process. The proofs use a Hoare logic with crash conditions. The restore
    refines an atomic update of the map from places to contents.
  \<^item> \<open>Storage_Base\<close>, \<open>Vouchers\<close> and \<open>Invites\<close>: the tickets of \<open>crates/storage\<close> and the
    ledger of what vouchers have paid for.
  \<^item> \<open>Operator_Base\<close>, \<open>Operator_Disk\<close>, \<open>Recovery_Log\<close>, \<open>Operator_Auth\<close>, \<open>Operator_Steps\<close>,
    \<open>Operator_Login\<close> and \<open>Operator_Objects\<close>: \<open>services/operator/src/state.rs\<close>. The recovery log
    is durable under kills; sessions exist only for signed challenges; what is stored
    under a voucher stays within its quota; acknowledged objects are kept. \<open>Recovery_Paging\<close>
    adds the HTTP handler of the log and the client of \<open>crates/storage/src/transport.rs\<close>.

  The components meet in three places. The restore transaction publishes what the engine decrypted: the
  theorem of this theory composes capture, decryption and publication. The
  voucher gate of the operator runs the ledger of \<open>Vouchers\<close> between its writes to disk. The
  paging client reads the file that \<open>Recovery_Log\<close> writes.

  \<^bold>\<open>Conventions.\<close> Random bytes, the clock, environment variables and what a capture observes of the
  file system are arguments. A \<open>HashMap\<close> is an association list with distinct keys. The order of
  the list is a choice of the model: where an operator at capacity evicts one of several
  challenges or sessions with the same earliest expiry, the model takes the first of its list, while
  the code takes one that the order of the hash map decides. Definitions keep the names of the sources, with a prefix where two types
  share a method name. Writes of an operator's table end in one of three ways (\<open>saving\<close> in
  \<open>Operator_Disk\<close>): done, failed before the rename, or failed after it.

  \<^bold>\<open>Termination.\<close> No definition uses fuel. Loops with a decreasing measure are total functions. The loops
  of the chunker and of the ancestry traversal are partial functions into \<^typ>\<open>'a option\<close>, where
  \<^const>\<open>None\<close> is a run without end, and theorems show that they return.

  \<^bold>\<open>Not modelled.\<close> Of \<open>state.rs\<close>: leases, relayed checkpoints, the peer table with its
  membership, and the table of approval challenges. The concurrency of the operator's locks: operations of a
  run follow each other. The swarm (\<open>services/operator/src/swarm\<close>), the operator pool and the chain
  client are asynchronous network code. The local store and the account and maintenance services
  are SQL statements and web handlers. Hardware modules are exchanges with a smart card. The command line, the
  agent and the web pages are user interface. Zeroisation of memory has no counterpart in the model.
\<close>

subsection \<open>From capture to restore\<close>

lemma decrypted_small:
  assumes "decrypt_snapshot h cr k vault ek epoch em wires = Inr files" "f \<in> set files"
  shows "length (df_plaintext f) \<le> unat MAX_FILE_SIZE"
proof -
  obtain x es where "rtraverse (decrypt_entry h cr x) es = Inr files"
    using assms(1) by (auto simp: decrypt_snapshot_def result_simps)
  from rtraverse_set[OF this assms(2)] obtain e where "decrypt_entry h cr x e = Inr f" by blast
  from decrypt_entry_sound[OF this] show ?thesis by (simp add: MAX_FILE_SIZE_def)
qed

text \<open>C7. What was captured is what is restored. A snapshot is created, and \<open>restore_snapshot\<close> is run
  on a target directory with the manifest and with chunks that include the captured ones, the process
  being killed at any point: the result is that every tracked file that existed has exactly the
  captured contents and all other files are unchanged, or that nothing has changed; after a kill the
  next start of the program reaches one of the two by itself.\<close>

theorem captured_restored:
  assumes "crypto_ok cr" "codecs_ok k" "length (cx_vault_id x) = 32" "length (cd_nonce d) = 24"
    and "create_snapshot_with_signer_and_write_version cr k x d root_links root_canonical vault_root tracked_files = Inr out"
    and "set (so_chunks out) \<subseteq> set wires" "inj_on (compute_cid cr (k_chunk k)) (set wires)"
    and "rtraverse (compute_cid cr (k_chunk k)) wires = Inr cids"
    and "ready target (w_fs w)" "\<forall>f\<in>set (w_faults w). crash_only f"
    and "journals_fit jj cr \<lparr>p_target = target, p_files = captured_files tracked_files, p_base = w_fs w\<rparr>"
  shows "case restore_snapshot jj h cr k target (cx_vault_id x) (cx_epoch_key x) (cx_epoch x) (so_encrypted_manifest out) wires w of
      (Done paths, w') \<Rightarrow> ready target (w_fs w') \<and>
        files_of target (w_fs w') = overwrite target (captured_files tracked_files) (files_of target (w_fs w))
    | (Err e, w') \<Rightarrow> ready target (w_fs w') \<and> files_of target (w_fs w') = files_of target (w_fs w)
    | (Crashed, w') \<Rightarrow> (\<forall>ns. \<exists>b w''. recover_interrupted_restore jj cr target \<lparr>w_fs = w_fs w', w_faults = [], w_random = ns\<rparr> = (Done b, w'') \<and>
        ready target (w_fs w'') \<and> files_of target (w_fs w'') \<in>
          {files_of target (w_fs w), overwrite target (captured_files tracked_files) (files_of target (w_fs w))})"
proof -
  note dec = created_decrypts[OF assms(1-8), of h]
  have "\<forall>f\<in>set (captured_files tracked_files). length (df_plaintext f) \<le> unat MAX_FILE_SIZE"
    using decrypted_small[OF dec] by blast
  from publish_atomic[OF assms(9,10) this assms(11)] show ?thesis
    by (simp add: restore_snapshot_def dec io_lift_def io_bind_def io_return_def)
qed

lemma fit_captured: "journals_fit journal_std crypto_std \<lparr>p_target = ''t'', p_files = captured_files tracked_example, p_base = s\<rparr>"
  by (rule journals_fit_std)
    (auto simp: entries_of_def captured_files_def tracked_example_def view_example_def upt_rec entry_of_def normalize_slashes_def replace_char_def)

theorem captured_restored_witness:
  "\<exists>out. create_snapshot_with_signer_and_write_version crypto_std codecs_std ctx_example device_example
      (\<lambda>_. Inr False) (Inr ''/v'') ''/v'' tracked_example = Inr out \<and>
    (case restore_snapshot journal_std hex_std crypto_std codecs_std ''t'' (cx_vault_id ctx_example) (cx_epoch_key ctx_example)
        (cx_epoch ctx_example) (so_encrypted_manifest out) (so_chunks out) (world_at tree_example (replicate 20 Go @ [Crash (\<lambda>_. 1)])) of
      (Done paths, w') \<Rightarrow> ready ''t'' (w_fs w') \<and>
        files_of ''t'' (w_fs w') = overwrite ''t'' (captured_files tracked_example) (files_of ''t'' tree_example)
    | (Err e, w') \<Rightarrow> ready ''t'' (w_fs w') \<and> files_of ''t'' (w_fs w') = files_of ''t'' tree_example
    | (Crashed, w') \<Rightarrow> (\<forall>ns. \<exists>b w''. recover_interrupted_restore journal_std crypto_std ''t'' \<lparr>w_fs = w_fs w', w_faults = [], w_random = ns\<rparr> = (Done b, w'') \<and>
        ready ''t'' (w_fs w'') \<and> files_of ''t'' (w_fs w'') \<in>
          {files_of ''t'' tree_example, overwrite ''t'' (captured_files tracked_example) (files_of ''t'' tree_example)}))"
proof -
  obtain out c cid where o: "create_snapshot_with_signer_and_write_version crypto_std codecs_std ctx_example device_example
      (\<lambda>_. Inr False) (Inr ''/v'') ''/v'' tracked_example = Inr out" "so_chunks out = [c]"
      "compute_cid crypto_std (k_chunk codecs_std) c = Inr cid"
    using create_example by blast
  let ?w = "world_at tree_example (replicate 20 Go @ [Crash (\<lambda>_. 1)])"
  have w: "w_fs ?w = tree_example" "\<forall>f\<in>set (w_faults ?w). crash_only f" by (simp_all add: world_at_def crash_only_def)
  have r: "ready ''t'' (w_fs ?w)" unfolding w(1) by (rule ready_example)
  have f: "journals_fit journal_std crypto_std \<lparr>p_target = ''t'', p_files = captured_files tracked_example, p_base = w_fs ?w\<rparr>"
    by (rule fit_captured)
  have l: "length (cx_vault_id ctx_example) = 32" "length (cd_nonce device_example) = 24" by (simp_all add: ctx_example_def device_example_def)
  have c: "set (so_chunks out) \<subseteq> set (so_chunks out)" "inj_on (compute_cid crypto_std (k_chunk codecs_std)) (set (so_chunks out))"
    "rtraverse (compute_cid crypto_std (k_chunk codecs_std)) (so_chunks out) = Inr [cid]" by (simp_all add: o(2,3))
  from captured_restored[OF crypto_std_ok codecs_std_ok l o(1) c r w(2) f, of hex_std, unfolded w(1)] o(1) show ?thesis by (intro exI conjI)
qed

end
